(* ===== verification/F2C_Prelude.thy ===== *)
theory F2C_Prelude
  imports Main "HOL-Library.Word" "HOL-Library.Signed_Division"
begin

unbundle bit_operations_syntax

text \<open>
  Shared conventions of the development: the C integer model, the model of pointers into
  NUL-terminated text, and the lemma collections and generic lemmas that the component theories
  share.

  \<^item> An \<open>int64_t\<close> value is an \<^typ>\<open>int\<close>; \<open>in_i64\<close> says that it is representable. The code never
    relies on signed overflow, so a result outside \<open>in_i64\<close> would be undefined behaviour.
  \<^item> A \<open>uint64_t\<close> is a \<^typ>\<open>64 word\<close>; the C conversion from a signed value is \<open>u64\<close> and the
    conversion back is \<^const>\<open>sint\<close>.
  \<^item> A \<open>size_t\<close> used as an index or a count is a \<^typ>\<open>nat\<close>; the code's comparisons with
    \<open>SIZE_MAX\<close> are kept, with the 64-bit value.
  \<^item> A \<open>const char *\<close> into a NUL-terminated string is the list of the characters from that
    position to the end; reading through it is \<open>peek\<close>, which yields NUL at the end.
\<close>

section \<open>C integers\<close>

type_synonym u64 = "64 word"

abbreviation INT64_MAX :: int where "INT64_MAX \<equiv> 9223372036854775807"
abbreviation INT64_MIN :: int where "INT64_MIN \<equiv> - 9223372036854775808"
abbreviation SIZE_MAX :: nat where "SIZE_MAX \<equiv> 18446744073709551615"

definition in_i64 :: "int \<Rightarrow> bool" where
  "in_i64 x \<longleftrightarrow> INT64_MIN \<le> x \<and> x \<le> INT64_MAX"

definition u64 :: "int \<Rightarrow> u64" where
  "u64 x = word_of_int x"

named_theorems c_arith \<open>rules that move 64-bit C arithmetic to mathematical integers\<close>

lemma uint_u64 [c_arith]: "uint (u64 x) = x mod 18446744073709551616"
  by (simp add: u64_def uint_word_of_int)

lemma uint_u64_nonneg [simp]: "0 \<le> x \<Longrightarrow> x < 18446744073709551616 \<Longrightarrow> uint (u64 x) = x"
  by (simp add: uint_u64)

lemma unat_u64_nonneg: "0 \<le> x \<Longrightarrow> x < 18446744073709551616 \<Longrightarrow> unat (u64 x) = nat x"
  by (simp add: unat_eq_nat_uint)

lemma u64_diff [c_arith]: "u64 x - u64 y = u64 (x - y)"
  by (simp add: u64_def)

lemma u64_add [c_arith]: "u64 x + u64 y = u64 (x + y)"
  by (simp add: u64_def)

lemma u64_zero [simp]: "u64 0 = 0"
  by (simp add: u64_def)

lemma u64_one [simp]: "u64 1 = 1"
  by (simp add: u64_def)

lemma u64_neg [c_arith]: "- u64 x = u64 (- x)"
  by (simp add: u64_def)

lemma uint_lt_2p64: "uint (x :: u64) < 18446744073709551616"
  using uint_lt2p [of x] by simp

lemma unat_lt_2p64: "unat (x :: u64) < 18446744073709551616"
  using unsigned_less [of x] by simp

lemma uint_minus_one_u64: "uint (- 1 :: u64) = 18446744073709551615"
  by (simp add: unsigned_minus_1_eq_mask mask_eq_exp_minus_1)

lemma uint_div_word: "uint ((x :: u64) div y) = uint x div uint y"
  by (simp add: uint_div)

lemma unat_div_word: "unat ((x :: u64) div y) = unat x div unat y"
  by (simp add: unat_div)

lemma sint_u64_of_i64: "in_i64 x \<Longrightarrow> sint (u64 x) = x"
  by (simp add: in_i64_def u64_def sint_sbintrunc' signed_take_bit_int_eq_self)

lemma sint_small: "uint (x :: u64) \<le> INT64_MAX \<Longrightarrow> sint x = uint x"
proof -
  assume "uint x \<le> INT64_MAX"
  then have "sint (u64 (uint x)) = uint x"
    by (intro sint_u64_of_i64) (auto simp: in_i64_def intro: order_trans [OF _ uint_ge_0])
  then show ?thesis
    by (simp add: u64_def)
qed

text \<open>A product that stays below the width does not wrap.\<close>

lemma unat_mult_small:
  "unat (x :: u64) * unat y < 18446744073709551616 \<Longrightarrow> unat (x * y) = unat x * unat y"
  by (simp add: unat_word_ariths)

lemma odd_unat_iff: "odd (unat (x :: u64)) \<longleftrightarrow> odd x"
  by (simp flip: bit_0 add: bit_unsigned_iff)

lemma word_and_one_odd: "(x :: u64) AND 1 \<noteq> 0 \<longleftrightarrow> odd (unat x)"
proof -
  have "x AND 1 \<noteq> 0 \<longleftrightarrow> odd x"
    by (simp only: and_one_eq even_iff_mod_2_eq_zero)
  then show ?thesis by (simp only: odd_unat_iff)
qed

lemma unat_shift_right_1: "unat (drop_bit 1 (x :: u64)) = unat x div 2"
  by (simp add: drop_bit_eq_div unat_div)

lemma nat_le_div_iff: "0 < b \<Longrightarrow> (a :: nat) \<le> c div b \<longleftrightarrow> a * b \<le> c"
  by (simp add: less_eq_div_iff_mult_less_eq)

text \<open>C division and remainder, which truncate.\<close>

lemma sdiv_nonneg: "0 \<le> a \<Longrightarrow> 0 < b \<Longrightarrow> (a :: int) sdiv b = a div b"
  by (cases "a = 0") (simp_all add: signed_divide_int_def)

lemma smod_nonneg: "0 \<le> a \<Longrightarrow> 0 < b \<Longrightarrow> (a :: int) smod b = a mod b"
  by (simp add: minus_sdiv_mult_eq_smod [symmetric] sdiv_nonneg minus_div_mult_eq_mod)

lemma div_less_iff: "0 < b \<Longrightarrow> (c :: int) div b < a \<longleftrightarrow> c < a * b"
proof -
  assume b: "0 < b"
  have "a \<le> c div b \<longleftrightarrow> a * b \<le> c"
  proof
    assume "a \<le> c div b"
    then have "a * b \<le> (c div b) * b" using b by (intro mult_right_mono) auto
    also have "\<dots> \<le> c" using b pos_mod_sign [of b c] by (simp add: minus_mod_eq_div_mult [symmetric])
    finally show "a * b \<le> c" .
  next
    assume "a * b \<le> c"
    then have "(a * b) div b \<le> c div b" using b by (rule zdiv_mono1)
    with b show "a \<le> c div b" by simp
  qed
  then show ?thesis by linarith
qed

lemma mod_neg_add:
  assumes "- b \<le> a" "a < 0"
  shows "(a :: int) mod b = a + b"
proof -
  have "a mod b = (a + b) mod b" by simp
  also have "\<dots> = a + b"
    using assms by (intro mod_pos_pos_trivial) auto
  finally show ?thesis .
qed

text \<open>The representable values are those whose bits from 63 upwards agree.\<close>

lemma in_i64_bits: "in_i64 x \<longleftrightarrow> (\<forall>n. bit x (min 63 n) \<longleftrightarrow> bit x n)"
proof -
  have "in_i64 x \<longleftrightarrow> signed_take_bit 63 x = x"
    by (simp add: in_i64_def signed_take_bit_int_eq_self_iff) linarith
  then show ?thesis by (simp add: bit_eq_iff bit_signed_take_bit_iff)
qed

lemma in_i64_logical:
  assumes "in_i64 a" "in_i64 b"
  shows "in_i64 (a AND b)" "in_i64 (a OR b)" "in_i64 (a XOR b)" "in_i64 (NOT a)"
  using assms by (simp_all add: in_i64_bits bit_simps)

lemma u64_logical [c_arith]:
  "u64 a AND u64 b = u64 (a AND b)" "u64 a OR u64 b = u64 (a OR b)" "u64 a XOR u64 b = u64 (a XOR b)"
  "NOT (u64 a) = u64 (NOT a)"
  by (auto intro!: bit_eqI simp: u64_def bit_simps)

section \<open>Pointers into NUL-terminated text\<close>

type_synonym cptr = "char list"

definition NUL :: char where "NUL = char_of (0 :: nat)"

fun peek :: "cptr \<Rightarrow> char" where
  "peek [] = NUL"
| "peek (c # _) = c"

lemma peek_drop: "i < length s \<Longrightarrow> peek (drop i s) = s ! i"
  by (cases "drop i s") (auto simp: nth_via_drop)

lemma NUL_code: "NUL = CHR 0x00"
  by (simp add: NUL_def char_of_def)

lemma peek_nonempty: "peek s = c \<Longrightarrow> c \<noteq> NUL \<Longrightarrow> s \<noteq> []"
  by auto

lemma length_drop_1: "s \<noteq> [] \<Longrightarrow> length (drop 1 s) < length s"
  by (cases s) auto

section \<open>The C library's character classes in the "C" locale\<close>

definition ascii :: "char \<Rightarrow> nat" where "ascii c = of_char c"

definition isspace :: "char \<Rightarrow> bool" where
  "isspace c \<longleftrightarrow> ascii c = 32 \<or> (9 \<le> ascii c \<and> ascii c \<le> 13)"

definition isdigit :: "char \<Rightarrow> bool" where
  "isdigit c \<longleftrightarrow> 48 \<le> ascii c \<and> ascii c \<le> 57"

definition isalpha :: "char \<Rightarrow> bool" where
  "isalpha c \<longleftrightarrow> (65 \<le> ascii c \<and> ascii c \<le> 90) \<or> (97 \<le> ascii c \<and> ascii c \<le> 122)"

definition isalnum :: "char \<Rightarrow> bool" where
  "isalnum c \<longleftrightarrow> isalpha c \<or> isdigit c"

definition tolower :: "char \<Rightarrow> char" where
  "tolower c = (if 65 \<le> ascii c \<and> ascii c \<le> 90 then char_of (ascii c + 32) else c)"

named_theorems char_class \<open>definitions of the character classes\<close>

lemmas char_class_defs [char_class] =
  isspace_def isdigit_def isalpha_def isalnum_def ascii_def NUL_code

lemma ascii_NUL [simp]: "ascii NUL = 0"
  by (simp add: ascii_def NUL_def)

lemma NUL_not_graphic: "ascii c \<noteq> 0 \<Longrightarrow> NUL \<noteq> c"
  by auto

lemma NUL_classes [simp]: "\<not> isspace NUL" "\<not> isdigit NUL" "\<not> isalpha NUL" "\<not> isalnum NUL"
  by (simp_all add: isspace_def isdigit_def isalpha_def isalnum_def)

text \<open>\<open>while (isspace(*cursor)) ++cursor;\<close>\<close>

fun skip_space :: "cptr \<Rightarrow> cptr" where
  "skip_space [] = []"
| "skip_space (c # s) = (if isspace c then skip_space s else c # s)"

lemma skip_space_length [simp]: "length (skip_space s) \<le> length s"
  by (induction s) auto

lemma skip_space_idem [simp]: "skip_space (skip_space s) = skip_space s"
  by (induction s) auto

lemma skip_space_not_space: "\<not> isspace (peek (skip_space s))"
  by (induction s) auto

lemma skip_space_identity: "\<not> isspace (peek s) \<Longrightarrow> skip_space s = s"
  by (cases s) auto

lemma skip_space_suffix: "\<exists>k. k \<le> length s \<and> skip_space s = drop k s"
proof (induction s)
  case Nil
  then show ?case by simp
next
  case (Cons c s)
  then obtain k where "k \<le> length s" "skip_space s = drop k s" by blast
  then show ?case
    by (cases "isspace c") (auto intro: exI [of _ "Suc k"] exI [of _ 0])
qed

end
