(* ===== verification/Numeric_Core.thy ===== *)
theory Numeric_Core
  imports F2C_Prelude
begin

text \<open>
  The integer part of \<open>src/core/numeric\<close>: the DO-loop trip count and the induction-variable update
  (\<open>loop.h\<close>), the checked integer power (\<open>power.h\<close>) and the array shift position (\<open>shift.h\<close>).
  These bodies are compiled into the constant evaluator and emitted into the generated C, so their
  correctness is that of both. The lemmas move each routine to mathematical integers; the
  properties compare it with the Fortran rule it implements. The IEEE bodies (\<open>extremum.h\<close>,
  \<open>real_loop.h\<close>, the real power) are not modelled.
\<close>

section \<open>DO loops\<close>

text \<open>\<open>F2C_INTEGER_LOOP_BEGIN_BODY\<close>: the status and \<open>*remaining\<close>, the trips minus one.\<close>

definition integer_loop_begin :: "int \<Rightarrow> int \<Rightarrow> int \<Rightarrow> int \<times> u64" where
  "integer_loop_begin first limit step =
     (if step = 0 then (-1, 0)
      else if (step > 0 \<and> first > limit) \<or> (step < 0 \<and> first < limit) then (0, 0)
      else let distance = (if step > 0 then u64 limit - u64 first else u64 first - u64 limit);
               magnitude = (if step > 0 then u64 step else 0 - u64 step)
           in (1, distance div magnitude))"

text \<open>\<open>f2c_integer_iteration_count\<close> of \<open>semantic/constant/loop.c\<close>; \<^const>\<open>None\<close> is its return 0.\<close>

definition integer_iteration_count :: "int \<Rightarrow> int \<Rightarrow> int \<Rightarrow> u64 option" where
  "integer_iteration_count first limit step =
     (let (active, remaining) = integer_loop_begin first limit step
      in if active < 0 \<or> (active \<noteq> 0 \<and> remaining = - 1) then None
         else Some (if active \<noteq> 0 then remaining + 1 else 0))"

text \<open>\<open>F2C_INTEGER_LOOP_ADD_BODY\<close>: the update over a range given by its bounds.\<close>

definition integer_loop_add :: "int \<Rightarrow> int \<Rightarrow> int \<Rightarrow> int \<Rightarrow> int" where
  "integer_loop_add val step minimum maximum =
     (let mask = u64 maximum * 2 + 1;
          bits = (u64 val + u64 step) AND mask
      in if bits \<le> u64 maximum then sint bits
         else minimum + sint (bits - u64 maximum - 1))"

text \<open>
  \<open>F2C_INTEGER_LOOP_TYPED_ADD_BODY(t, u)\<close>: an exact-width \<open>intN_t\<close> is its bit pattern, an
  \<open>N word\<close> read by \<^const>\<open>sint\<close>; the \<open>memcpy\<close> keeps the bits. The four instances follow.
\<close>

definition integer_loop_typed_add :: "'w::len word \<Rightarrow> 'w word \<Rightarrow> 'w word" where
  "integer_loop_typed_add val step = ucast ((ucast val :: u64) + (ucast step :: u64))"

definition integer_loop_add_i8 :: "8 word \<Rightarrow> 8 word \<Rightarrow> 8 word" where
  "integer_loop_add_i8 val step = integer_loop_typed_add val step"

definition integer_loop_add_i16 :: "16 word \<Rightarrow> 16 word \<Rightarrow> 16 word" where
  "integer_loop_add_i16 val step = integer_loop_typed_add val step"

definition integer_loop_add_i32 :: "32 word \<Rightarrow> 32 word \<Rightarrow> 32 word" where
  "integer_loop_add_i32 val step = integer_loop_typed_add val step"

definition integer_loop_add_i64 :: "64 word \<Rightarrow> 64 word \<Rightarrow> 64 word" where
  "integer_loop_add_i64 val step = integer_loop_typed_add val step"

definition integer_loop_value_i32 :: "64 word \<Rightarrow> 32 word" where
  "integer_loop_value_i32 val = ucast val"

text \<open>\<open>f2c_integer_loop_parameters_fit\<close> for the numeric model with this \<open>integer_huge\<close>.\<close>

definition integer_loop_parameters_fit :: "int \<Rightarrow> int \<Rightarrow> int \<Rightarrow> int \<Rightarrow> bool" where
  "integer_loop_parameters_fit integer_huge first limit step =
     (let maximum = integer_huge; minimum = - maximum - 1
      in first \<ge> minimum \<and> first \<le> maximum \<and> limit \<ge> minimum \<and> limit \<le> maximum \<and>
         step \<ge> minimum \<and> step \<le> maximum)"

text \<open>
  The trip loop of \<open>append_implied_do\<close> (\<open>semantic/constant/array.c\<close>): the iterator values that
  are substituted into the item list, one per trip; \<open>advance\<close> is called between trips only.
\<close>

fun implied_do_trips :: "nat \<Rightarrow> nat \<Rightarrow> u64 \<Rightarrow> u64 \<Rightarrow> u64 list" where
  "implied_do_trips 0 count iterator step = []"
| "implied_do_trips (Suc left) count iterator step =
     (let trip = count - Suc left
      in iterator # implied_do_trips left count
           (if trip + 1 < count then integer_loop_add_i64 iterator step else iterator) step)"

definition implied_do_iterators :: "int \<Rightarrow> int \<Rightarrow> int \<Rightarrow> int \<Rightarrow> u64 list option" where
  "implied_do_iterators integer_huge first limit step =
     (if \<not> integer_loop_parameters_fit integer_huge first limit step then None
      else case integer_iteration_count first limit step of
        None \<Rightarrow> None
      | Some count \<Rightarrow> Some (implied_do_trips (unat count) (unat count) (u64 first) (u64 step)))"

text \<open>
  The \<open>for\<close> header that \<open>f2c_loop_emit_header\<close> prints (no status condition), executed with the
  advance expression of \<open>f2c_loop_advance_expression\<close>: the body values and the final value.
\<close>

function emitted_loop :: "('v \<Rightarrow> 'v) \<Rightarrow> bool \<Rightarrow> u64 \<Rightarrow> 'v \<Rightarrow> 'v list \<times> 'v" where
  "emitted_loop advance active remaining val =
     (if \<not> active then ([], val)
      else let active' = (remaining \<noteq> 0);
               remaining' = remaining - of_bool active';
               (vals, final) = emitted_loop advance active' remaining' (advance val)
           in (val # vals, final))"
  by pat_completeness auto
termination
  by (relation "measure (\<lambda>(f, active, remaining, v). if active then Suc (unat remaining) else 0)")
    (auto simp: unat_minus_one unat_gt_0)

declare emitted_loop.simps [simp del]

subsection \<open>Lemmas\<close>

text \<open>The Fortran iteration count \<open>MAX(INT((m2 - m1 + m3) / m3), 0)\<close>.\<close>

definition fortran_trips :: "int \<Rightarrow> int \<Rightarrow> int \<Rightarrow> int" where
  "fortran_trips first limit step = max 0 ((limit - first + step) sdiv step)"

lemma sdiv_minus_minus: "(- a) sdiv (- b) = (a :: int) sdiv b"
  by (simp add: signed_divide_int_def sgn_minus_1)

lemma sdiv_small: "- b < a \<Longrightarrow> a < b \<Longrightarrow> (a :: int) sdiv b = 0"
  by (simp add: signed_divide_int_def div_pos_pos_trivial)

lemma fortran_trips_up:
  assumes "0 < step"
  shows "fortran_trips first limit step = (if first \<le> limit then (limit - first) div step + 1 else 0)"
proof (cases "first \<le> limit")
  case True
  then have "(limit - first + step) sdiv step = (limit - first) div step + 1"
    using assms div_add_self2 [of step "limit - first"] by (simp add: sdiv_nonneg del: div_add_self2)
  moreover have "0 \<le> (limit - first) div step"
    using True assms by (simp add: pos_imp_zdiv_nonneg_iff)
  ultimately show ?thesis using True by (simp add: fortran_trips_def)
next
  case False
  have "(limit - first + step) sdiv step \<le> 0"
  proof (cases "limit - first + step > 0")
    case True
    with False show ?thesis by (simp add: sdiv_small)
  next
    case neg: False
    then show ?thesis using assms
      by (auto simp: signed_divide_int_def sgn_if pos_imp_zdiv_nonneg_iff)
  qed
  with False show ?thesis by (simp add: fortran_trips_def)
qed

lemma fortran_trips_swap:
  "fortran_trips first limit step = fortran_trips (- first) (- limit) (- step)"
proof -
  have "(- limit - - first + - step) sdiv (- step) = (limit - first + step) sdiv step"
    using sdiv_minus_minus [of "limit - first + step" step] by (simp add: algebra_simps)
  then show ?thesis by (simp add: fortran_trips_def)
qed

lemma uint_distance:
  assumes "in_i64 a" "in_i64 b" "a \<le> b"
  shows "uint (u64 b - u64 a) = b - a"
  using assms by (simp add: u64_diff in_i64_def)

lemma integer_loop_begin_up:
  assumes "in_i64 first" "in_i64 limit" "in_i64 step" "0 < step" "first \<le> limit"
  shows "fst (integer_loop_begin first limit step) = 1"
    and "uint (snd (integer_loop_begin first limit step)) = (limit - first) div step"
  using assms uint_distance [of first limit] uint_u64_nonneg [of step]
  by (simp_all add: integer_loop_begin_def uint_div_word in_i64_def)

lemma integer_loop_begin_down:
  assumes "in_i64 first" "in_i64 limit" "in_i64 step" "step < 0" "limit \<le> first"
  shows "fst (integer_loop_begin first limit step) = 1"
    and "uint (snd (integer_loop_begin first limit step)) = (first - limit) div (- step)"
proof -
  have "uint (- u64 step) = - step"
    using assms by (simp add: u64_neg in_i64_def)
  then show "uint (snd (integer_loop_begin first limit step)) = (first - limit) div (- step)"
    using assms uint_distance [of limit first]
    by (simp add: integer_loop_begin_def uint_div_word)
  show "fst (integer_loop_begin first limit step) = 1"
    using assms by (simp add: integer_loop_begin_def)
qed

text \<open>The whole contract: status and count against the Fortran rule.\<close>

lemma integer_loop_begin_trips:
  assumes "in_i64 first" "in_i64 limit" "in_i64 step" "step \<noteq> 0"
  shows "fst (integer_loop_begin first limit step) = (if fortran_trips first limit step = 0 then 0 else 1)"
    and "fortran_trips first limit step \<noteq> 0 \<Longrightarrow>
      uint (snd (integer_loop_begin first limit step)) + 1 = fortran_trips first limit step"
proof -
  let ?r = "integer_loop_begin first limit step" and ?t = "fortran_trips first limit step"
  have "fst ?r = (if ?t = 0 then 0 else 1) \<and> (?t \<noteq> 0 \<longrightarrow> uint (snd ?r) + 1 = ?t)"
  proof (cases "0 < step")
    case up: True
    have "0 \<le> (limit - first) div step" if "first \<le> limit"
      using that up by (simp add: pos_imp_zdiv_nonneg_iff)
    with up assms integer_loop_begin_up [of first limit step] show ?thesis
      by (cases "first \<le> limit") (auto simp: fortran_trips_up integer_loop_begin_def)
  next
    case False
    with assms have down: "step < 0" by simp
    have trips: "?t = (if limit \<le> first then (first - limit) div (- step) + 1 else 0)"
      using down fortran_trips_up [of "- step" "- first" "- limit"]
      by (subst fortran_trips_swap) simp
    have "0 \<le> (first - limit) div (- step)" if "limit \<le> first"
      using that down pos_imp_zdiv_nonneg_iff [of "- step" "first - limit"] by simp
    with down assms integer_loop_begin_down [of first limit step] trips show ?thesis
      by (cases "limit \<le> first") (auto simp: integer_loop_begin_def)
  qed
  then show "fst ?r = (if ?t = 0 then 0 else 1)" "?t \<noteq> 0 \<Longrightarrow> uint (snd ?r) + 1 = ?t"
    by auto
qed

lemma integer_iteration_count_trips:
  assumes "in_i64 first" "in_i64 limit" "in_i64 step"
  shows "integer_iteration_count first limit step =
    (if step = 0 \<or> fortran_trips first limit step = 2 ^ 64 then None
     else Some (u64 (fortran_trips first limit step)))"
proof (cases "step = 0")
  case True
  then show ?thesis by (simp add: integer_iteration_count_def integer_loop_begin_def)
next
  case False
  obtain active remaining where r: "integer_loop_begin first limit step = (active, remaining)"
    by fastforce
  let ?t = "fortran_trips first limit step"
  note trips = integer_loop_begin_trips [OF assms False, unfolded r fst_conv snd_conv]
  show ?thesis
  proof (cases "?t = 0")
    case True
    with trips False show ?thesis by (simp add: integer_iteration_count_def r)
  next
    case nonzero: False
    with trips have act: "active = 1" and rem: "uint remaining = ?t - 1" by auto
    have "remaining = - 1 \<longleftrightarrow> uint remaining = uint (- 1 :: u64)"
      by (simp only: word_uint_eq_iff)
    then have full: "remaining = - 1 \<longleftrightarrow> ?t = 2 ^ 64"
      using rem by (simp add: uint_minus_one_u64)
    have "remaining + 1 = u64 ?t"
      using rem by (metis add.commute diff_add_cancel u64_def word_of_int_uint wi_hom_syms(1) word_1_wi)
    with False nonzero act full show ?thesis by (simp add: integer_iteration_count_def r)
  qed
qed

text \<open>The typed update is addition modulo the width, as two's complement reads it.\<close>

lemma integer_loop_typed_add_eq:
  assumes "LENGTH('w::len) \<le> 64"
  shows "integer_loop_typed_add (val :: 'w word) step = val + step"
proof -
  have "uint (integer_loop_typed_add val step) = uint (val + step)"
    using le_imp_power_dvd [OF assms, of "2 :: int"]
    by (simp add: integer_loop_typed_add_def uint_word_ariths unsigned_ucast_eq take_bit_eq_mod
        mod_mod_cancel mod_simps)
  then show ?thesis by (simp add: word_uint_eq_iff)
qed

text \<open>The ranged update over the two's-complement range of \<open>w\<close> bits.\<close>

definition storage_max :: "nat \<Rightarrow> int" where "storage_max w = 2 ^ (w - 1) - 1"
definition storage_min :: "nat \<Rightarrow> int" where "storage_min w = - (2 ^ (w - 1))"

lemma storage_bounds:
  assumes "0 < w" "w \<le> 64"
  shows "0 \<le> storage_max w" "storage_max w \<le> INT64_MAX" "2 ^ w = 2 * storage_max w + 2"
    and "storage_min w = - storage_max w - 1"
proof -
  have "(2 :: int) ^ (w - 1) \<le> 2 ^ 63"
    using assms by (intro power_increasing) auto
  moreover have "(2 :: int) ^ w = 2 * 2 ^ (w - 1)"
    using assms by (cases w) auto
  ultimately show "0 \<le> storage_max w" "storage_max w \<le> INT64_MAX"
    "2 ^ w = 2 * storage_max w + 2" "storage_min w = - storage_max w - 1"
    by (auto simp: storage_max_def storage_min_def)
qed

lemma uint_loop_mask:
  assumes "0 < w" "w \<le> 64"
  shows "uint (u64 (storage_max w) * 2 + 1) = mask w"
proof -
  have "u64 (storage_max w) * 2 + 1 = u64 (storage_max w * 2 + 1)"
    by (simp add: u64_def)
  moreover have "(2 :: int) ^ w \<le> 2 ^ 64"
    using assms by (intro power_increasing) auto
  ultimately show ?thesis
    using storage_bounds [OF assms] by (simp add: mask_eq_exp_minus_1)
qed

lemma uint_loop_bits:
  assumes "0 < w" "w \<le> 64"
  shows "uint ((u64 val + u64 step) AND (u64 (storage_max w) * 2 + 1)) = (val + step) mod 2 ^ w"
proof -
  have "uint (u64 (val + step)) = take_bit 64 (val + step)"
    by (simp add: uint_u64 take_bit_eq_mod)
  with uint_loop_mask [OF assms]
  have "uint ((u64 val + u64 step) AND (u64 (storage_max w) * 2 + 1))
      = take_bit w (take_bit 64 (val + step))"
    by (simp only: u64_add unsigned_and_eq take_bit_eq_mask)
  also have "\<dots> = take_bit w (val + step)"
    using assms by (simp add: min_def)
  finally show ?thesis
    by (simp add: take_bit_eq_mod)
qed

lemma integer_loop_add_modular:
  assumes "0 < w" "w \<le> 64"
  shows "storage_min w \<le> integer_loop_add val step (storage_min w) (storage_max w)"
    and "integer_loop_add val step (storage_min w) (storage_max w) \<le> storage_max w"
    and "integer_loop_add val step (storage_min w) (storage_max w) mod 2 ^ w = (val + step) mod 2 ^ w"
proof -
  note sb = storage_bounds [OF assms]
  define bits where "bits = (u64 val + u64 step) AND (u64 (storage_max w) * 2 + 1)"
  define B where "B = (val + step) mod 2 ^ w"
  let ?r = "integer_loop_add val step (storage_min w) (storage_max w)"
  have B: "uint bits = B" "0 \<le> B" "B < 2 * storage_max w + 2"
  proof -
    show "uint bits = B"
      unfolding bits_def B_def by (rule uint_loop_bits [OF assms])
    have "(0 :: int) < 2 ^ w" by simp
    then show "0 \<le> B" "B < 2 * storage_max w + 2"
      unfolding B_def sb(3) [symmetric] by (rule pos_mod_sign, rule pos_mod_bound)
  qed
  have max: "uint (u64 (storage_max w)) = storage_max w"
    using sb by simp
  have r: "?r = (if B \<le> storage_max w then B else B - 2 ^ w)"
  proof (cases "B \<le> storage_max w")
    case True
    then have "bits \<le> u64 (storage_max w)"
      by (simp add: word_le_def B max)
    moreover have "sint bits = B"
      using True B sb by (simp add: sint_small)
    ultimately show ?thesis
      using True by (simp add: integer_loop_add_def bits_def)
  next
    case False
    then have above: "\<not> bits \<le> u64 (storage_max w)"
      by (simp add: word_le_def B max)
    have "bits = u64 B"
      using B by (metis u64_def word_of_int_uint)
    then have "bits - u64 (storage_max w) - 1 = u64 (B - storage_max w - 1)"
      by (simp add: u64_def)
    then have "sint (bits - u64 (storage_max w) - 1) = B - storage_max w - 1"
      using False B sb by (simp add: sint_u64_of_i64 in_i64_def)
    with above False show ?thesis
      using sb by (simp add: integer_loop_add_def bits_def)
  qed
  then show "storage_min w \<le> ?r" "?r \<le> storage_max w"
    using B sb by (auto split: if_splits)
  show "?r mod 2 ^ w = (val + step) mod 2 ^ w"
    unfolding r by (auto simp: B_def)
qed

text \<open>The emitted header runs the body once per trip and advances after each.\<close>

lemma emitted_loop_inactive [simp]: "emitted_loop advance False remaining val = ([], val)"
  by (simp add: emitted_loop.simps)

lemma emitted_loop_active:
  "emitted_loop advance True remaining val =
     (map (\<lambda>k. (advance ^^ k) val) [0..<Suc (unat remaining)],
      (advance ^^ Suc (unat remaining)) val)"
proof (induction "unat remaining" arbitrary: remaining val)
  case 0
  then have "remaining = 0" by (simp add: unat_eq_0)
  then show ?case by (simp add: emitted_loop.simps)
next
  case (Suc n)
  then have nz: "remaining \<noteq> 0" by auto
  with Suc.hyps(2) have n: "n = unat (remaining - 1)" by (simp add: unat_minus_one)
  have "emitted_loop advance True (remaining - 1) (advance val)
      = (map (\<lambda>k. (advance ^^ k) (advance val)) [0..<Suc n], (advance ^^ Suc n) (advance val))"
    using Suc.hyps(1) [OF n, of "advance val"] unfolding n .
  then have "emitted_loop advance True remaining val =
      (val # map (\<lambda>k. (advance ^^ k) (advance val)) [0..<Suc n], (advance ^^ Suc n) (advance val))"
    using nz by (simp add: emitted_loop.simps [of advance True remaining val] del: upt_Suc funpow.simps)
  also have "val # map (\<lambda>k. (advance ^^ k) (advance val)) [0..<Suc n]
      = map (\<lambda>k. (advance ^^ k) val) [0..<Suc (Suc n)]"
    by (simp add: upt_conv_Cons map_Suc_upt [symmetric] funpow_swap1 comp_def del: upt_Suc funpow.simps)
      (simp add: funpow_swap1)
  also have "(advance ^^ Suc n) (advance val) = (advance ^^ Suc (Suc n)) val"
    by (simp add: funpow_swap1)
  finally show ?case by (simp only: Suc.hyps(2) [symmetric])
qed

lemma funpow_word_add: "((\<lambda>v. v + step) ^^ k) (val :: 'w::len word) = val + of_nat k * step"
  by (induction k) (simp_all add: algebra_simps)

lemma implied_do_trips_eq:
  assumes "left \<le> count"
  shows "implied_do_trips left count iterator step = map (\<lambda>k. iterator + of_nat k * step) [0..<left]"
  using assms
proof (induction left arbitrary: iterator)
  case 0
  then show ?case by simp
next
  case (Suc left)
  show ?case
  proof (cases left)
    case 0
    then show ?thesis by simp
  next
    case (Suc l)
    have "implied_do_trips left count (iterator + step) step
        = map (\<lambda>k. iterator + of_nat (Suc k) * step) [0..<left]"
      using Suc.IH [of "iterator + step"] Suc.prems by (simp add: algebra_simps)
    moreover have "count - Suc left + 1 < count"
      using Suc Suc.prems by simp
    ultimately show ?thesis
      by (simp add: integer_loop_add_i64_def integer_loop_typed_add_eq upt_conv_Cons
          map_Suc_upt [symmetric] comp_def del: upt_Suc)
  qed
qed

section \<open>Integer power\<close>

text \<open>
  The \<open>while\<close> loop of \<open>F2C_INTEGER_POWER_BODY\<close>; \<^const>\<open>None\<close> is its \<open>return 0\<close>. The arguments are
  the loop variables \<open>magnitude\<close>, \<open>remaining\<close> and \<open>result\<close>.
\<close>

function power_loop :: "u64 \<Rightarrow> u64 \<Rightarrow> u64 \<Rightarrow> u64 \<Rightarrow> u64 option" where
  "power_loop limit magnitude remaining result =
     (if remaining = 0 then Some result
      else if remaining AND 1 \<noteq> 0 \<and> magnitude \<noteq> 0 \<and> result > limit div magnitude then None
      else let result' = (if remaining AND 1 \<noteq> 0 then result * magnitude else result);
               remaining' = drop_bit 1 remaining
           in if remaining' \<noteq> 0
              then if magnitude \<noteq> 0 \<and> magnitude > limit div magnitude then None
                   else power_loop limit (magnitude * magnitude) remaining' result'
              else power_loop limit magnitude remaining' result')"
  by pat_completeness auto
termination
  by (relation "measure (\<lambda>(limit, magnitude, remaining, result). unat remaining)")
    (simp_all only: in_measure prod.case unat_shift_right_1, simp_all add: unat_gt_0)

declare power_loop.simps [simp del]

text \<open>\<open>f2c_numeric_integer_power\<close>; \<^term>\<open>Some v\<close> is \<open>return 1\<close> with \<open>*value = v\<close>.\<close>

definition integer_power :: "int \<Rightarrow> int \<Rightarrow> int \<Rightarrow> int \<Rightarrow> int option" where
  "integer_power base exponent minimum maximum =
     (if base < minimum \<or> base > maximum then None
      else if exponent < 0 then
        (if base = 0 then None
         else Some (if base = 1 then 1
                    else if base = -1 then (if u64 exponent AND 1 \<noteq> 0 then -1 else 1)
                    else 0))
      else
        (let remaining = u64 exponent;
             negative = (base < 0 \<and> remaining AND 1 \<noteq> 0);
             magnitude = (if base < 0 then 0 - u64 base else u64 base);
             limit = (if negative then 0 - u64 minimum else u64 maximum)
         in case power_loop limit magnitude remaining 1 of
              None \<Rightarrow> None
            | Some result \<Rightarrow>
                Some (if negative
                      then if result = 0 - u64 minimum then minimum else - sint result
                      else sint result)))"

subsection \<open>Lemmas\<close>










lemma integer_power_negative:
  assumes "storage_min w \<le> base" "base \<le> storage_max w" "exponent < 0" "in_i64 exponent"
  shows "integer_power base exponent (storage_min w) (storage_max w) =
    (if base = 0 then None else Some (1 sdiv base ^ nat (- exponent)))"
proof (cases "base \<in> {-1, 0, 1}")
  case True
  have "u64 exponent = - u64 (- exponent)"
    by (simp add: u64_def)
  then have "odd (unat (u64 exponent)) \<longleftrightarrow> odd (unat (u64 (- exponent)))"
    by (simp only: odd_unat_iff even_minus)
  also have "unat (u64 (- exponent)) = nat (- exponent)"
    using assms by (simp add: unat_u64_nonneg in_i64_def)
  finally have "u64 exponent AND 1 \<noteq> 0 \<longleftrightarrow> odd (nat (- exponent))"
    by (simp only: word_and_one_odd)
  with True assms show ?thesis
    by (auto simp: integer_power_def signed_divide_int_def)
next
  case False
  then have "2 \<le> \<bar>base\<bar>" by auto
  moreover have "0 < nat (- exponent)" using assms by simp
  ultimately have "2 \<le> \<bar>base\<bar> ^ nat (- exponent)"
    by (meson order_trans self_le_power one_le_numeral)
  then have "1 sdiv base ^ nat (- exponent) = 0"
    by (simp add: signed_divide_int_def power_abs)
  with False assms show ?thesis
    by (simp add: integer_power_def)
qed

section \<open>Array shift position\<close>

text \<open>
  \<open>F2C_ARRAY_SHIFT_POSITION_BODY\<close> with a non-null result pointer: \<^term>\<open>Some r\<close> is \<open>return 1\<close> with
  \<open>*result = r\<close>, \<^const>\<open>None\<close> is \<open>return 0\<close> (with \<open>*result = 0\<close>).
\<close>

definition shift_magnitude :: "u64 \<Rightarrow> int \<Rightarrow> bool \<Rightarrow> u64" where
  "shift_magnitude extent amount circular =
     (let magnitude = (if amount < 0 then 0 - u64 amount else u64 amount)
      in if circular then magnitude mod extent else magnitude)"

definition array_shift_position :: "u64 \<Rightarrow> u64 \<Rightarrow> int \<Rightarrow> bool \<Rightarrow> u64 option" where
  "array_shift_position position extent amount circular =
     (if extent = 0 \<or> position \<ge> extent then None
      else let magnitude = shift_magnitude extent amount circular
           in if amount \<ge> 0 then
                if magnitude < extent - position then Some (position + magnitude)
                else if circular then Some (magnitude - (extent - position))
                else None
              else
                if magnitude \<le> position then Some (position - magnitude)
                else if circular then Some (extent - (magnitude - position))
                else None)"

subsection \<open>Lemmas\<close>

lemma uint_sub_le: "y \<le> (x :: u64) \<Longrightarrow> uint (x - y) = uint x - uint y"
  by (simp add: uint_sub_lem word_le_def)

lemma mod_once_over:
  assumes "b \<le> a" "a < 2 * b"
  shows "(a :: int) mod b = a - b"
proof -
  have "a mod b = (a - b) mod b" by simp
  also have "\<dots> = a - b"
    using assms by (intro mod_pos_pos_trivial) auto
  finally show ?thesis .
qed

lemma uint_shift_magnitude:
  assumes "in_i64 amount"
  shows "uint (shift_magnitude extent amount circular)
    = (if circular then \<bar>amount\<bar> mod uint extent else \<bar>amount\<bar>)"
proof -
  have "uint (if amount < 0 then 0 - u64 amount else u64 amount) = \<bar>amount\<bar>"
    using assms by (auto simp: u64_neg in_i64_def)
  then show ?thesis
    by (simp add: shift_magnitude_def uint_mod Let_def)
qed

text \<open>
  The routine's four outcomes over mathematical integers; no intermediate value wraps, and the
  result is always inside the extent.
\<close>

lemma array_shift_position_uint:
  fixes position extent :: u64 and circular :: bool
  defines "p \<equiv> uint position" and "e \<equiv> uint extent"
  assumes "in_i64 amount" "position < extent"
  defines "m \<equiv> (if circular then \<bar>amount\<bar> mod e else \<bar>amount\<bar>)"
  shows "map_option uint (array_shift_position position extent amount circular) =
    (if amount \<ge> 0 then (if m < e - p then Some (p + m) else if circular then Some (m - (e - p)) else None)
     else (if m \<le> p then Some (p - m) else if circular then Some (e - (m - p)) else None))"
proof -
  define M where "M = shift_magnitude extent amount circular"
  have M: "uint M = m"
    unfolding M_def m_def e_def by (rule uint_shift_magnitude [OF assms(3)])
  have pe: "0 \<le> p" "p < e"
    using assms(4) by (simp_all add: word_less_def p_def e_def)
  have ne: "extent \<noteq> 0" "\<not> position \<ge> extent"
    using assms(4) pe by (auto simp: e_def)
  have diff: "uint (extent - position) = e - p"
    using assms(4) by (simp add: uint_sub_le p_def e_def)
  have me: "m < e" if circular
    using that pe by (simp add: m_def)
  have add: "uint (position + M) = p + m" if "m < e - p"
    using that uint_lt_2p64 [of extent] pe M uint_ge_0 [of M]
    by (simp add: uint_word_ariths p_def e_def)
  have sub1: "uint (M - (extent - position)) = m - (e - p)" if "\<not> m < e - p"
    using that uint_sub_le [of "extent - position" M] by (simp add: word_le_def M diff)
  have sub2: "uint (position - M) = p - m" if "m \<le> p"
    using that uint_sub_le [of M position] by (simp add: word_le_def M p_def)
  have sub3: "uint (extent - (M - position)) = e - (m - p)" if "\<not> m \<le> p" circular
  proof -
    have "uint (M - position) = m - p"
      using that uint_sub_le [of position M] by (simp add: word_le_def M p_def)
    with me [OF that(2)] pe show ?thesis
      using uint_sub_le [of "M - position" extent] by (simp add: word_le_def e_def)
  qed
  have less: "M < extent - position \<longleftrightarrow> m < e - p" and le: "M \<le> position \<longleftrightarrow> m \<le> p"
    by (simp_all add: word_less_def word_le_def M diff p_def)
  show ?thesis
    unfolding array_shift_position_def M_def [symmetric] Let_def less le
    using ne add sub1 sub2 sub3 by simp
qed

lemma array_shift_end_off:
  assumes "in_i64 amount" "position < extent"
  shows "map_option uint (array_shift_position position extent amount False) =
    (if 0 \<le> uint position + amount \<and> uint position + amount < uint extent
     then Some (uint position + amount) else None)"
  using assms array_shift_position_uint [OF assms, of False] uint_ge_0 [of position]
  by (auto simp: word_less_def)

lemma array_shift_circular:
  assumes "in_i64 amount" "position < extent"
  shows "map_option uint (array_shift_position position extent amount True) =
    Some ((uint position + amount) mod uint extent)"
proof -
  let ?p = "uint position" and ?e = "uint extent"
  define m where "m = \<bar>amount\<bar> mod ?e"
  have pe: "0 \<le> ?p" "?p < ?e"
    using assms(2) by (simp_all add: word_less_def)
  then have "0 < ?e" by linarith
  then have rng: "0 \<le> m" "m < ?e"
    unfolding m_def by (rule pos_mod_sign, rule pos_mod_bound)
  have up: "(?p + amount) mod ?e = (?p + m) mod ?e" if "amount \<ge> 0"
    using that by (simp add: m_def mod_add_right_eq)
  have down: "(?p + amount) mod ?e = (?p - m) mod ?e" if "\<not> amount \<ge> 0"
    using that by (simp add: m_def mod_diff_right_eq)
  have "(?p + m) mod ?e = (if m < ?e - ?p then ?p + m else m - (?e - ?p))"
    using pe rng mod_once_over [of ?e "?p + m"] by (simp add: mod_pos_pos_trivial)
  moreover have "(?p - m) mod ?e = (if m \<le> ?p then ?p - m else ?e - (m - ?p))"
  proof (cases "m \<le> ?p")
    case True
    with pe rng show ?thesis by (simp add: mod_pos_pos_trivial)
  next
    case False
    with pe rng have "(?p - m) mod ?e = ?p - m + ?e" by (intro mod_neg_add) linarith+
    with False show ?thesis by simp
  qed
  ultimately have mod: "(?p + amount) mod ?e =
      (if amount \<ge> 0 then if m < ?e - ?p then ?p + m else m - (?e - ?p)
       else if m \<le> ?p then ?p - m else ?e - (m - ?p))"
    using up down by (cases "amount \<ge> 0") (simp_all only: if_True if_False simp_thms)
  show ?thesis
    unfolding array_shift_position_uint [OF assms] if_True m_def [symmetric] mod
    by (simp only: if_distrib [of Some])
qed

section \<open>Properties\<close>

text \<open>
  C15: The DO-loop prologue computes the Fortran iteration count for every representable triple:
  it reports an active loop exactly when the count \<open>MAX(INT((m2 - m1 + m3) / m3), 0)\<close> is nonzero, and
  then stores the count minus one, including the full interval of \<open>2 ^ 64\<close> trips; a zero step is
  refused.
\<close>

theorem do_loop_trip_count:
  assumes "in_i64 first" "in_i64 limit" "in_i64 step"
  shows "integer_loop_begin first limit step =
    (if step = 0 then (-1, 0)
     else if fortran_trips first limit step = 0 then (0, 0)
     else (1, u64 (fortran_trips first limit step - 1)))"
proof (cases "step = 0")
  case True
  then show ?thesis by (simp add: integer_loop_begin_def)
next
  case False
  note trips = integer_loop_begin_trips [OF assms False]
  show ?thesis
  proof (cases "fortran_trips first limit step = 0")
    case True
    with trips(1) False show ?thesis
      by (auto simp: integer_loop_begin_def Let_def split: if_splits)
  next
    case nonzero: False
    then have "snd (integer_loop_begin first limit step) = u64 (fortran_trips first limit step - 1)"
      using trips(2) by (metis add_diff_cancel_right' u64_def word_of_int_uint)
    with trips(1) nonzero False show ?thesis by (simp add: prod_eq_iff)
  qed
qed

theorem do_loop_trip_count_witness:
  "integer_loop_begin INT64_MIN INT64_MAX 1 = (1, - 1) \<and> integer_loop_begin 10 1 (-3) = (1, 3)"
  using do_loop_trip_count [of INT64_MIN INT64_MAX 1] do_loop_trip_count [of 10 1 "-3"]
  by (simp add: in_i64_def fortran_trips_def signed_divide_int_def u64_def)

text \<open>
  C14: The generated DO loop runs its body once per Fortran iteration, with the induction variable at
  \<open>m1 + k * m3\<close> in iteration \<open>k\<close>, and leaves it at \<open>m1 + trips * m3\<close>, all in the arithmetic of the
  variable's storage width; the counter never wraps, even for \<open>2 ^ 64\<close> trips.
\<close>

theorem emitted_do_loop_iterations:
  assumes "in_i64 first" "in_i64 limit" "in_i64 step" "step \<noteq> 0" "LENGTH('w::len) \<le> 64"
  shows "emitted_loop (\<lambda>v. integer_loop_typed_add v (word_of_int step))
      (fst (integer_loop_begin first limit step) > 0) (snd (integer_loop_begin first limit step))
      (word_of_int first :: 'w word) =
    (map (\<lambda>k. word_of_int (first + int k * step)) [0..<nat (fortran_trips first limit step)],
     word_of_int (first + fortran_trips first limit step * step))"
proof (cases "fortran_trips first limit step = 0")
  case True
  with integer_loop_begin_trips(1) [OF assms(1-4)] show ?thesis by simp
next
  case False
  let ?t = "fortran_trips first limit step" and ?r = "snd (integer_loop_begin first limit step)"
  note trips = integer_loop_begin_trips [OF assms(1-4)]
  have active: "fst (integer_loop_begin first limit step) > 0"
    using trips(1) False by simp
  have count: "int (Suc (unat ?r)) = ?t"
    using trips(2) [OF False] by simp
  then have length: "Suc (unat ?r) = nat ?t"
    by (metis nat_int)
  have adv: "(\<lambda>v. integer_loop_typed_add v (word_of_int step :: 'w word)) = (\<lambda>v. v + word_of_int step)"
    using assms(5) by (simp add: integer_loop_typed_add_eq)
  have elem: "((\<lambda>v. v + word_of_int step) ^^ k) (word_of_int first :: 'w word) =
      word_of_int (first + int k * step)" for k
    by (simp add: funpow_word_add)
  have "fst (integer_loop_begin first limit step) > 0 \<longleftrightarrow> True"
    using active by simp
  then show ?thesis
    by (simp only: emitted_loop_active adv elem length count [unfolded length])
qed

theorem emitted_do_loop_iterations_witness:
  "emitted_loop (\<lambda>v. integer_loop_typed_add v (word_of_int (-3)))
     (fst (integer_loop_begin 10 1 (-3)) > 0) (snd (integer_loop_begin 10 1 (-3)))
     (word_of_int 10 :: 8 word) = ([10, 7, 4, 1], - 2)"
  using emitted_do_loop_iterations [of 10 1 "-3", where 'w = 8]
  by (simp add: in_i64_def fortran_trips_def signed_divide_int_def upt_rec)

text \<open>
  The range-based and the typed induction-variable updates agree for every storage width up to
  64 bits: both are the two's-complement sum, so the emitted loop and the constant evaluator
  advance alike.
\<close>

theorem loop_add_variants_agree:
  assumes "LENGTH('w::len) \<le> 64"
  shows "integer_loop_add val step (storage_min LENGTH('w)) (storage_max LENGTH('w)) =
    sint (integer_loop_typed_add (word_of_int val :: 'w word) (word_of_int step))"
proof -
  let ?n = "LENGTH('w)" and ?r = "integer_loop_add val step (storage_min LENGTH('w)) (storage_max LENGTH('w))"
  have w: "0 < ?n" by simp
  note add = integer_loop_add_modular [OF w assms, of val step]
  have "sint (word_of_int ?r :: 'w word) = ?r"
    unfolding sint_sbintrunc'
    using add(1,2) by (intro signed_take_bit_int_eq_self) (simp_all add: storage_min_def storage_max_def)
  moreover have "(word_of_int ?r :: 'w word) = word_of_int (val + step)"
    using add(3) by (simp only: word_of_int_eq_iff take_bit_eq_mod)
  ultimately show ?thesis
    using assms by (simp add: integer_loop_typed_add_eq)
qed

theorem loop_add_variants_agree_witness:
  "integer_loop_add 120 10 (storage_min 8) (storage_max 8) = -126"
  using loop_add_variants_agree [of 120 10, where 'w = 8]
  by (simp add: integer_loop_typed_add_eq)



text \<open>
  C17: \<open>CSHIFT\<close> permutes positions: for every shift amount, including the most negative one, the
  source position selected for position \<open>p\<close> is \<open>(p + amount) mod extent\<close>, and the map from positions
  to source positions is a bijection of \<open>{0..<extent}\<close>.
\<close>

theorem cshift_position_bijective:
  assumes "in_i64 amount" "0 < extent"
  shows "bij_betw (\<lambda>p. the (array_shift_position p extent amount True)) {p. p < extent} {p. p < extent}
    \<and> (\<forall>p < extent. map_option uint (array_shift_position p extent amount True) =
          Some ((uint p + amount) mod uint extent))"
proof -
  let ?f = "\<lambda>p. the (array_shift_position p extent amount True)"
  have e: "0 < uint extent"
    using assms(2) by (simp add: word_less_def)
  have val: "uint (?f p) = (uint p + amount) mod uint extent" if "p < extent" for p
    using array_shift_circular [OF assms(1) that] by (cases "array_shift_position p extent amount True") auto
  have "inj_on ?f {p. p < extent}"
  proof (rule inj_onI, clarify)
    fix p q
    assume pq: "p < extent" "q < extent" and eq: "?f p = ?f q"
    then have "(uint p + amount) mod uint extent = (uint q + amount) mod uint extent"
      by (metis val)
    then have "(uint p + amount - amount) mod uint extent = (uint q + amount - amount) mod uint extent"
      by (rule mod_diff_cong) simp
    then have "uint p mod uint extent = uint q mod uint extent"
      unfolding add_diff_cancel_right' .
    with pq show "p = q"
      by (simp add: word_less_def word_uint_eq_iff)
  qed
  moreover have "?f ` {p. p < extent} \<subseteq> {p. p < extent}"
    using e by (auto simp: word_less_def val)
  moreover have "finite {p. p < extent}" by simp
  ultimately have "bij_betw ?f {p. p < extent} {p. p < extent}"
    using endo_inj_surj [of "{p. p < extent}" ?f] unfolding bij_betw_def by blast
  then show ?thesis
    using array_shift_circular [OF assms(1)] by blast
qed

theorem cshift_position_bijective_witness:
  "map_option uint (array_shift_position 1 3 INT64_MIN True) = Some 2 \<and>
   bij_betw (\<lambda>p. the (array_shift_position p 3 INT64_MIN True)) {p. p < 3} {p. p < 3}"
proof -
  have h: "in_i64 INT64_MIN" "0 < (3 :: u64)" by (simp_all add: in_i64_def)
  have "(1 :: u64) < 3" by simp
  with cshift_position_bijective [OF h]
  have "map_option uint (array_shift_position 1 3 INT64_MIN True) = Some ((uint (1 :: u64) + INT64_MIN) mod uint (3 :: u64))"
    by blast
  also have "(uint (1 :: u64) + INT64_MIN) mod uint (3 :: u64) = 2" by simp
  finally show ?thesis using cshift_position_bijective [OF h] by blast
qed

end
