(* ===== verification/Constant_Bits.thy ===== *)
theory Constant_Bits
  imports F2C_Prelude
begin

text \<open>
  \<open>src/semantic/constant/bit.c\<close>: compile-time folding of the Fortran bit intrinsics. The code works
  on 64-bit unsigned patterns cut to the kind's width and converts back by two's complement; the
  lemmas show that this is arithmetic on the sign-extended integers, and the properties give the
  value of every intrinsic, its range, and when folding is refused.
\<close>

section \<open>Model\<close>

text \<open>The members of \<open>F2cIntrinsicId\<close> that \<open>bit.c\<close> names; every other one is \<open>Other_Intrinsic\<close>.\<close>

datatype bit_intrinsic =
  BTEST | IAND | IEOR | IOR | IBCLR | IBSET | IBITS | ISHFT | ISHFTC | NOT_INTRINSIC
| BIT_SIZE | MVBITS | Other_Intrinsic

definition kind_width :: "int \<Rightarrow> nat" where
  "kind_width kind = (if kind = 1 \<or> kind = 2 \<or> kind = 4 \<or> kind = 8 then nat kind * 8 else 0)"

definition low_mask :: "nat \<Rightarrow> u64" where
  "low_mask width = (if width = 64 then - 1 else push_bit width 1 - 1)"

definition integer_bits :: "int \<Rightarrow> nat \<Rightarrow> u64" where
  "integer_bits v width = u64 v AND low_mask width"

definition signed_value :: "u64 \<Rightarrow> nat \<Rightarrow> int" where
  "signed_value bits0 width =
     (let mask = low_mask width;
          sign = push_bit (width - 1) 1;
          magnitude = (NOT bits0 AND mask) + 1;
          bits = bits0 AND mask
      in if bits AND sign = 0 then sint bits
         else if width = 64 \<and> magnitude = push_bit 63 1 then INT64_MIN
         else - sint magnitude)"

definition valid_position :: "int \<Rightarrow> nat \<Rightarrow> bool" where
  "valid_position position width \<longleftrightarrow> position \<ge> 0 \<and> u64 position < of_nat width"

definition fold_shift :: "u64 \<Rightarrow> nat \<Rightarrow> int \<Rightarrow> u64 option" where
  "fold_shift bits width shift =
     (let magnitude = (if shift < 0 then u64 (- (shift + 1)) + 1 else u64 shift)
      in if magnitude > of_nat width then None
         else if magnitude = of_nat width then Some 0
         else if shift < 0 then Some (drop_bit (unat magnitude) bits)
         else Some (push_bit (unat magnitude) bits AND low_mask width))"

definition fold_circular_shift :: "u64 \<Rightarrow> nat \<Rightarrow> int \<Rightarrow> int \<Rightarrow> u64 option" where
  "fold_circular_shift bits width shift field_size =
     (if field_size \<le> 0 \<or> u64 field_size > of_nat width \<or> shift < - field_size \<or> shift > field_size then None
      else let field_mask = low_mask (nat field_size);
               field = bits AND field_mask;
               normalized0 = shift smod field_size;
               normalized = (if normalized0 < 0 then normalized0 + field_size else normalized0);
               field' = (if normalized \<noteq> 0
                         then (push_bit (nat normalized) field OR
                               drop_bit (nat field_size - nat normalized) field) AND field_mask
                         else field)
           in Some ((bits AND NOT field_mask) OR field'))"

text \<open>
  \<open>f2c_constant_fold_bit_intrinsic\<close> with a non-null result pointer; the arguments are the list of
  the \<open>argument_count\<close> values, and \<^const>\<open>None\<close> is \<open>return 0\<close>. The branches that leave \<open>folded\<close> are
  \<open>fold_bits\<close>; the ones that return at once are in the main function.
\<close>

fun fold_bits :: "bit_intrinsic \<Rightarrow> nat \<Rightarrow> u64 \<Rightarrow> int list \<Rightarrow> u64 option" where
  "fold_bits IAND width bits [a, b] = Some (bits AND integer_bits b width)"
| "fold_bits IEOR width bits [a, b] = Some (bits XOR integer_bits b width)"
| "fold_bits IOR width bits [a, b] = Some (bits OR integer_bits b width)"
| "fold_bits IBCLR width bits [a, p] =
     (if \<not> valid_position p width then None else Some (bits AND NOT (push_bit (nat p) 1)))"
| "fold_bits IBSET width bits [a, p] =
     (if \<not> valid_position p width then None else Some (bits OR push_bit (nat p) 1))"
| "fold_bits IBITS width bits [a, position, len] =
     (if position < 0 \<or> len < 0 \<or> u64 position > of_nat width
         \<or> u64 len > of_nat width - u64 position then None
      else Some (if len = 0 then 0 else drop_bit (nat position) bits AND low_mask (nat len)))"
| "fold_bits ISHFT width bits [a, shift] = fold_shift bits width shift"
| "fold_bits ISHFTC width bits [a, shift] = fold_circular_shift bits width shift (int width)"
| "fold_bits ISHFTC width bits [a, shift, field_size] = fold_circular_shift bits width shift field_size"
| "fold_bits NOT_INTRINSIC width bits [a] = Some (NOT bits AND low_mask width)"
| "fold_bits _ width bits _ = None"

definition constant_fold_bit_intrinsic :: "bit_intrinsic \<Rightarrow> int \<Rightarrow> int list \<Rightarrow> int option" where
  "constant_fold_bit_intrinsic intrinsic integer_kind arguments =
     (let width = kind_width integer_kind
      in if width = 0 then None
         else if intrinsic = BIT_SIZE then Some (int width)
         else case arguments of
           [] \<Rightarrow> None
         | first # rest \<Rightarrow>
             (let bits = integer_bits first width
              in if intrinsic = BTEST then
                   (case rest of
                      [p] \<Rightarrow> if \<not> valid_position p width then None
                             else Some (of_bool (bits AND push_bit (nat p) 1 \<noteq> 0))
                    | _ \<Rightarrow> None)
                 else map_option (\<lambda>folded. signed_value folded width)
                        (fold_bits intrinsic width bits arguments)))"

section \<open>Lemmas\<close>

lemma kind_width_cases: "kind_width kind \<in> {0, 8, 16, 32, 64}"
  by (simp add: kind_width_def)

lemma bit_low_mask: "w \<le> 64 \<Longrightarrow> bit (low_mask w) n \<longleftrightarrow> n < w"
proof (cases "w = 64")
  case True
  then show ?thesis by (auto simp: low_mask_def dest: bit_imp_le_length)
next
  case False
  moreover assume "w \<le> 64"
  moreover from this False have "low_mask w = mask w"
    by (simp add: low_mask_def mask_eq_exp_minus_1 push_bit_eq_mult)
  ultimately show ?thesis by (auto simp: bit_simps)
qed

lemma uint_and_low_mask: "w \<le> 64 \<Longrightarrow> uint (x AND low_mask w) = take_bit w (uint x)"
  by (rule bit_eqI) (auto simp: bit_simps bit_low_mask)

lemma bit_integer_bits: "w \<le> 64 \<Longrightarrow> bit (integer_bits v w) n \<longleftrightarrow> n < w \<and> bit v n"
  by (auto simp: integer_bits_def u64_def bit_simps bit_low_mask)

lemma uint_integer_bits: "w \<le> 64 \<Longrightarrow> uint (integer_bits v w) = take_bit w v"
  by (rule bit_eqI) (auto simp: bit_simps bit_integer_bits)

text \<open>Back to a signed value: two's complement at the width.\<close>

lemma uint_complement_magnitude:
  assumes "Suc n \<le> 64" "bit (uint x) n"
  shows "uint ((NOT x AND low_mask (Suc n)) + 1) = 2 ^ Suc n - take_bit (Suc n) (uint x)"
    and "2 ^ n \<le> take_bit (Suc n) (uint x)"
proof -
  show big: "2 ^ n \<le> take_bit (Suc n) (uint x)"
    using assms(2) by (simp add: take_bit_Suc_from_most)
  have "take_bit (Suc n) (uint (NOT x)) = take_bit (Suc n) (NOT (uint x))"
    using assms(1) by (intro bit_eqI) (auto simp: bit_simps)
  then have flip: "uint (NOT x AND low_mask (Suc n)) = 2 ^ Suc n - 1 - take_bit (Suc n) (uint x)"
    using assms(1) by (simp add: uint_and_low_mask take_bit_not_eq_mask_diff mask_eq_exp_minus_1)
  have "(2 :: int) ^ Suc n \<le> 2 ^ 64"
    using assms(1) by (intro power_increasing) auto
  moreover have "(1 :: int) \<le> 2 ^ n" by simp
  ultimately have "uint (NOT x AND low_mask (Suc n)) + 1 < 2 ^ LENGTH(64)"
    using big flip by simp
  then show "uint ((NOT x AND low_mask (Suc n)) + 1) = 2 ^ Suc n - take_bit (Suc n) (uint x)"
    using flip uint_add_lem [of "NOT x AND low_mask (Suc n)" 1] by simp
qed

lemma signed_value_eq:
  assumes "0 < w" "w \<le> 64"
  shows "signed_value x w = signed_take_bit (w - 1) (uint x)"
proof -
  obtain n where w: "w = Suc n" using assms(1) by (cases w) auto
  have n: "Suc n \<le> 64" using assms(2) w by simp
  have pow: "(2 :: int) ^ n \<le> 9223372036854775808"
    using n power_increasing [of n 63 "2 :: int"] by simp
  have sign: "(x AND low_mask w) AND push_bit n 1 = 0 \<longleftrightarrow> \<not> bit (uint x) n"
    using n by (simp add: w push_bit_eq_mult and_exp_eq_0_iff_not_bit bit_simps bit_low_mask)
  show ?thesis
  proof (cases "bit (uint x) n")
    case False
    then have "take_bit w (uint x) = take_bit n (uint x)"
      by (simp add: w take_bit_Suc_from_most)
    moreover have "take_bit n (uint x) \<le> INT64_MAX"
      using pow take_bit_int_less_exp [of n "uint x"] by linarith
    ultimately have "sint (x AND low_mask w) = take_bit w (uint x)"
      using n pow by (subst sint_small) (simp_all add: uint_and_low_mask w)
    with False sign show ?thesis
      by (simp add: signed_value_def w signed_take_bit_eq_take_bit_minus)
  next
    case True
    define m where "m = (NOT x AND low_mask w) + 1"
    note mag = uint_complement_magnitude [OF n True, folded w, folded m_def]
    have le: "uint m \<le> 2 ^ n" using mag by (simp add: w)
    have result: "signed_take_bit (w - 1) (uint x) = - uint m"
      using mag True by (simp add: w signed_take_bit_eq_take_bit_minus)
    show ?thesis
    proof (cases "w = 64 \<and> m = push_bit 63 1")
      case c: True
      then have "uint m = 9223372036854775808" by (simp add: push_bit_eq_mult)
      with c True sign result show ?thesis
        unfolding signed_value_def Let_def m_def [symmetric] by (simp add: w)
    next
      case c: False
      have "uint m \<le> INT64_MAX"
      proof (cases "w = 64")
        case True
        then have "uint m \<noteq> uint (9223372036854775808 :: u64)"
          using c by (simp only: word_uint_eq_iff [symmetric]) (simp add: push_bit_eq_mult)
        with le pow show ?thesis by simp
      next
        case False
        then have "(2 :: int) ^ n \<le> 2 ^ 62"
          using n w by (intro power_increasing) auto
        with le show ?thesis by simp
      qed
      then have "sint m = uint m" by (rule sint_small)
      with c True sign result show ?thesis
        unfolding signed_value_def Let_def m_def [symmetric] by (auto simp: w)
    qed
  qed
qed

lemma bit_signed_value:
  "0 < w \<Longrightarrow> w \<le> 64 \<Longrightarrow> bit (signed_value x w) n \<longleftrightarrow> bit x (min (w - 1) n)"
  by (auto simp: signed_value_eq bit_simps dest: bit_imp_le_length)

text \<open>The range of a kind of \<open>w\<close> bits; the value of a word is fixed by its low bits.\<close>

definition fits_width :: "nat \<Rightarrow> int \<Rightarrow> bool" where
  "fits_width w x \<longleftrightarrow> - (2 ^ (w - 1)) \<le> x \<and> x < 2 ^ (w - 1)"

lemma fits_width_signed_take_bit: "fits_width w x \<longleftrightarrow> signed_take_bit (w - 1) x = x"
  by (simp add: fits_width_def signed_take_bit_int_eq_self_iff)

lemma signed_value_fits: "0 < w \<Longrightarrow> w \<le> 64 \<Longrightarrow> fits_width w (signed_value x w)"
  by (simp add: fits_width_signed_take_bit signed_value_eq)

lemma signed_value_of_bits:
  assumes "0 < w" "w \<le> 64" "\<And>n. n < w \<Longrightarrow> bit x n \<longleftrightarrow> bit r n"
  shows "signed_value x w = signed_take_bit (w - 1) r"
  using assms by (intro bit_eqI) (simp add: bit_signed_value bit_signed_take_bit_iff)

lemma constant_fold_eq:
  assumes "kind_width kind \<noteq> 0" "i \<noteq> BIT_SIZE" "i \<noteq> BTEST"
  shows "constant_fold_bit_intrinsic i kind (a # rest) =
    map_option (\<lambda>folded. signed_value folded (kind_width kind))
      (fold_bits i (kind_width kind) (integer_bits a (kind_width kind)) (a # rest))"
  using assms by (simp add: constant_fold_bit_intrinsic_def Let_def)

lemma kind_width_bounds:
  assumes "kind_width kind \<noteq> 0"
  shows "8 \<le> kind_width kind" "kind_width kind \<le> 64" "0 < kind_width kind"
  using assms kind_width_cases [of kind] by auto

text \<open>Width and position tests are exact: no conversion to unsigned loses information.\<close>

lemma u64_le_of_nat:
  "0 \<le> x \<Longrightarrow> x \<le> INT64_MAX \<Longrightarrow> w \<le> 64 \<Longrightarrow> u64 x > of_nat w \<longleftrightarrow> int w < x"
  "0 \<le> x \<Longrightarrow> x \<le> INT64_MAX \<Longrightarrow> w \<le> 64 \<Longrightarrow> u64 x < of_nat w \<longleftrightarrow> x < int w"
  using uint_u64_nonneg [of x] uint_u64_nonneg [of "int w"]
  by (simp_all add: word_less_def u64_def)

lemma valid_position_eq:
  "in_i64 p \<Longrightarrow> w \<le> 64 \<Longrightarrow> valid_position p w \<longleftrightarrow> 0 \<le> p \<and> p < int w"
  using u64_le_of_nat(2) [of p w] by (auto simp: valid_position_def in_i64_def)

lemma fold_shift_magnitude:
  assumes "in_i64 shift"
  shows "uint (if shift < 0 then u64 (- (shift + 1)) + 1 else u64 shift) = \<bar>shift\<bar>"
proof (cases "shift < 0")
  case True
  have "u64 (- (shift + 1)) + 1 = u64 (- shift)"
    by (simp add: u64_def)
  with True assms show ?thesis by (simp add: in_i64_def)
next
  case False
  with assms show ?thesis by (simp add: in_i64_def)
qed

lemma fold_shift_None:
  assumes "in_i64 shift" "w \<le> 64"
  shows "fold_shift x w shift = None \<longleftrightarrow> \<bar>shift\<bar> > int w"
proof -
  have "uint (of_nat w :: u64) = int w"
    using assms(2) by (simp add: unsigned_of_nat take_bit_nat_eq_self)
  then show ?thesis
    using fold_shift_magnitude [OF assms(1)]
    by (simp add: fold_shift_def Let_def word_less_def)
qed

text \<open>Where a shift is accepted, bit \<open>n\<close> comes from bit \<open>n - shift\<close> of the field.\<close>

lemma bit_fold_shift:
  assumes "in_i64 shift" "w \<le> 64" "fold_shift x w shift = Some y"
    and high: "\<And>n. w \<le> n \<Longrightarrow> \<not> bit x n" and "n < w"
  shows "bit y n \<longleftrightarrow> 0 \<le> int n - shift \<and> int n - shift < int w \<and> bit x (nat (int n - shift))"
proof -
  define m where "m = (if shift < 0 then u64 (- (shift + 1)) + 1 else u64 shift)"
  have m: "uint m = \<bar>shift\<bar>" "unat m = nat \<bar>shift\<bar>"
    unfolding m_def using fold_shift_magnitude [OF assms(1)] by (simp_all add: unat_eq_nat_uint)
  have ww: "uint (of_nat w :: u64) = int w"
    using assms(2) by (simp add: unsigned_of_nat take_bit_nat_eq_self)
  have y: "\<bar>shift\<bar> \<le> int w" "y = (if \<bar>shift\<bar> = int w then 0
      else if shift < 0 then drop_bit (nat \<bar>shift\<bar>) x else push_bit (nat \<bar>shift\<bar>) x AND low_mask w)"
    using assms(3)
    by (auto simp: fold_shift_def m_def [symmetric] Let_def word_less_def word_uint_eq_iff [of m] m ww
        split: if_splits)
  show ?thesis
  proof (cases "\<bar>shift\<bar> = int w")
    case True
    with y(2) \<open>n < w\<close> show ?thesis by auto
  next
    case False
    show ?thesis
    proof (cases "shift < 0")
      case True
      have "nat (int n - shift) = n + nat (- shift)" using True by simp
      moreover have "\<not> int n - shift < int w \<Longrightarrow> w \<le> n + nat (- shift)" using True by simp
      ultimately show ?thesis
        using True False y \<open>n < w\<close> high [of "n + nat (- shift)"]
        by (auto simp: bit_simps add.commute)
    next
      case pos: False
      have "nat (int n - shift) = n - nat shift" using pos by simp
      with pos False y \<open>n < w\<close> assms(2) show ?thesis
        by (auto simp: bit_simps bit_low_mask)
    qed
  qed
qed

lemma smod_normalized:
  assumes "(0 :: int) < k"
  shows "(if s smod k < 0 then s smod k + k else s smod k) = s mod k"
proof -
  have "s smod k = s - (s sdiv k) * k"
    by (simp add: minus_sdiv_mult_eq_smod)
  then have "(s smod k) mod k = s mod k"
    by (simp add: mod_diff_eq [of s k "(s sdiv k) * k", symmetric])
  moreover have "\<bar>s smod k\<bar> < k"
    using smod_int_range [of k s] assms by auto
  moreover have "s smod k < 0 \<Longrightarrow> (s smod k) mod k = s smod k + k"
    using mod_pos_pos_trivial [of "s smod k + k" k] calculation(2) by simp
  moreover have "0 \<le> s smod k \<Longrightarrow> (s smod k) mod k = s smod k"
    using calculation(2) by (intro mod_pos_pos_trivial) auto
  ultimately show ?thesis by auto
qed

lemma fold_circular_shift_None:
  assumes "in_i64 k" "w \<le> 64"
  shows "fold_circular_shift x w s k = None \<longleftrightarrow> \<not> (0 < k \<and> k \<le> int w \<and> \<bar>s\<bar> \<le> k)"
  using assms u64_le_of_nat(1) [of k w]
  by (auto simp: fold_circular_shift_def Let_def in_i64_def)

lemma bit_fold_circular_shift:
  assumes "in_i64 k" "w \<le> 64" "fold_circular_shift x w s k = Some y" "n < w"
  shows "bit y n \<longleftrightarrow> (if int n < k then bit x (nat ((int n - s) mod k)) else bit x n)"
proof -
  have ok: "0 < k" "k \<le> int w" "\<bar>s\<bar> \<le> k"
    using fold_circular_shift_None [OF assms(1,2), of x s] assms(3) by auto
  define a where "a = nat (s mod k)"
  have k64: "nat k \<le> 64" using ok assms(2) by linarith
  have a: "int a = s mod k" "a < nat k"
    using ok(1) by (simp_all add: a_def nat_less_iff)
  have nz: "s mod k \<noteq> 0 \<longleftrightarrow> a \<noteq> 0" "nat (s mod k) = a"
    using a by auto
  have y: "y = (x AND NOT (low_mask (nat k))) OR
      (if a \<noteq> 0 then (push_bit a (x AND low_mask (nat k)) OR drop_bit (nat k - a) (x AND low_mask (nat k)))
          AND low_mask (nat k) else x AND low_mask (nat k))"
    using assms(3) ok fold_circular_shift_None [OF assms(1,2), of x s]
    unfolding fold_circular_shift_def Let_def smod_normalized [OF ok(1)] nz
    by (auto split: if_splits)
  show ?thesis
  proof (cases "int n < k")
    case False
    with k64 assms y show ?thesis by (auto simp: bit_simps bit_low_mask)
  next
    case True
    have "(int n - s) mod k = (int n - int a) mod k"
      unfolding a(1) by (simp add: mod_diff_right_eq)
    also have "\<dots> = int (if a \<le> n then n - a else n + nat k - a)"
    proof (cases "a \<le> n")
      case True
      with \<open>int n < k\<close> show ?thesis by (simp add: mod_pos_pos_trivial)
    next
      case False
      have "(int n - int a + k) mod k = int n - int a + k"
        using False a \<open>int n < k\<close> by (intro mod_pos_pos_trivial) linarith+
      then have "(int n - int a) mod k = int n - int a + k" by simp
      with False a ok show ?thesis by (simp add: of_nat_diff)
    qed
    finally have src: "nat ((int n - s) mod k) = (if a \<le> n then n - a else n + nat k - a)"
      by simp
    show ?thesis
    proof (cases "a = 0")
      case True
      with src \<open>int n < k\<close> k64 assms(2,4) y show ?thesis by (auto simp: bit_simps bit_low_mask)
    next
      case False
      define f where
        "f = push_bit a (x AND low_mask (nat k)) OR drop_bit (nat k - a) (x AND low_mask (nat k))"
      have "bit f n \<longleftrightarrow> bit x (if a \<le> n then n - a else n + nat k - a)"
        unfolding f_def using \<open>int n < k\<close> k64 assms(2,4) a
        by (auto simp: bit_simps bit_low_mask add.commute [of n "nat k"])
      moreover have "y = (x AND NOT (low_mask (nat k))) OR (f AND low_mask (nat k))"
        using y False by (simp add: f_def)
      ultimately show ?thesis
        using src \<open>int n < k\<close> k64 by (auto simp: bit_simps bit_low_mask)
    qed
  qed
qed

lemma word_high_bits_integer_bits: "w \<le> 64 \<Longrightarrow> w \<le> n \<Longrightarrow> \<not> bit (integer_bits v w) n"
  by (simp add: bit_integer_bits)

lemma fits_width_eqI:
  "0 < w \<Longrightarrow> w \<le> 64 \<Longrightarrow> fits_width w r \<Longrightarrow> (\<And>n. n < w \<Longrightarrow> bit x n \<longleftrightarrow> bit r n) \<Longrightarrow> signed_value x w = r"
  using signed_value_of_bits [of w x r] by (simp add: fits_width_signed_take_bit)

lemma fits_width_bits: "fits_width w x \<longleftrightarrow> (\<forall>n. bit x (min (w - 1) n) \<longleftrightarrow> bit x n)"
  by (simp add: fits_width_signed_take_bit bit_eq_iff bit_signed_take_bit_iff)

lemma fits_width_logical:
  assumes "fits_width w a" "fits_width w b"
  shows "fits_width w (a AND b)" "fits_width w (a OR b)" "fits_width w (a XOR b)" "fits_width w (NOT a)"
  using assms by (simp_all add: fits_width_bits bit_simps)

text \<open>The value of every position-wise intrinsic: bit by bit, sign extended from the top bit.\<close>

lemma constant_fold_bits_value:
  assumes "constant_fold_bit_intrinsic i kind (a # rest) = Some r" "i \<noteq> BIT_SIZE" "i \<noteq> BTEST"
  obtains x where "fold_bits i (kind_width kind) (integer_bits a (kind_width kind)) (a # rest) = Some x"
    "r = signed_value x (kind_width kind)" "kind_width kind \<noteq> 0"
proof -
  have w: "kind_width kind \<noteq> 0"
  proof
    assume "kind_width kind = 0"
    with assms(1) show False by (simp add: constant_fold_bit_intrinsic_def)
  qed
  with assms that show thesis
    by (auto simp: constant_fold_eq)
qed

lemma signed_value_eq_fits:
  "0 < w \<Longrightarrow> w \<le> 64 \<Longrightarrow> fits_width w a \<Longrightarrow> signed_value x w = a \<longleftrightarrow> (\<forall>n < w. bit x n \<longleftrightarrow> bit a n)"
  by (metis bit_signed_value diff_Suc_1 fits_width_eqI gr0_implies_Suc less_Suc_eq_le min.absorb2)

lemma bit_fold_ishftc_value:
  assumes "kind_width kind = w" "w \<noteq> 0" "in_i64 k" "0 < k" "k \<le> int w" "\<bar>s\<bar> \<le> k"
  obtains r where "constant_fold_bit_intrinsic ISHFTC kind [a, s, k] = Some r" "fits_width w r"
    "\<And>n. n < w \<Longrightarrow> bit r n \<longleftrightarrow> (if int n < k then bit a (nat ((int n - s) mod k)) else bit a n)"
proof -
  have w: "0 < w" "w \<le> 64" using kind_width_bounds [of kind] assms by auto
  obtain y where y: "fold_circular_shift (integer_bits a w) w s k = Some y"
    using fold_circular_shift_None [of k w "integer_bits a w" s] assms w by fastforce
  show thesis
  proof (rule that)
    show "constant_fold_bit_intrinsic ISHFTC kind [a, s, k] = Some (signed_value y w)"
      using y assms by (simp add: constant_fold_eq)
    show "fits_width w (signed_value y w)" using w by (rule signed_value_fits)
  next
    fix n assume "n < w"
    moreover from this have "min (w - 1) n = n" by simp
    moreover have "nat ((int n - s) mod k) < w"
      using assms(4,5) pos_mod_bound [of k "int n - s"] by linarith
    ultimately show "bit (signed_value y w) n
        \<longleftrightarrow> (if int n < k then bit a (nat ((int n - s) mod k)) else bit a n)"
      using bit_fold_circular_shift [OF assms(3) w(2) y] w
      by (simp add: bit_signed_value bit_integer_bits)
  qed
qed

section \<open>Properties\<close>

text \<open>
  C20: On operands of the kind, folding \<open>IAND\<close>, \<open>IOR\<close>, \<open>IEOR\<close> and \<open>NOT\<close> gives exactly the bitwise
  operation on the mathematical (two's complement) integers.
\<close>
theorem constant_logical_exact:
  assumes "kind_width kind = w" "w \<noteq> 0" "fits_width w a" "fits_width w b"
  shows "constant_fold_bit_intrinsic IAND kind [a, b] = Some (a AND b)
    \<and> constant_fold_bit_intrinsic IOR kind [a, b] = Some (a OR b)
    \<and> constant_fold_bit_intrinsic IEOR kind [a, b] = Some (a XOR b)
    \<and> constant_fold_bit_intrinsic NOT_INTRINSIC kind [a] = Some (NOT a)"
proof -
  have w: "0 < w" "w \<le> 64" using kind_width_bounds [of kind] assms by auto
  note fits = fits_width_logical [OF assms(3,4)]
  have "signed_value (integer_bits a w AND integer_bits b w) w = a AND b"
    "signed_value (integer_bits a w OR integer_bits b w) w = a OR b"
    "signed_value (integer_bits a w XOR integer_bits b w) w = a XOR b"
    "signed_value (NOT (integer_bits a w) AND low_mask w) w = NOT a"
    using w by (auto intro!: fits_width_eqI fits simp: bit_simps bit_integer_bits bit_low_mask)
  with assms(1,2) show ?thesis by (simp add: constant_fold_eq)
qed

theorem constant_logical_exact_witness:
  "constant_fold_bit_intrinsic IAND 1 [-128, 127] = Some ((-128) AND 127)
    \<and> constant_fold_bit_intrinsic IOR 1 [-128, 127] = Some ((-128) OR 127)
    \<and> constant_fold_bit_intrinsic IEOR 1 [-128, 127] = Some ((-128) XOR 127)
    \<and> constant_fold_bit_intrinsic NOT_INTRINSIC 1 [-128] = Some (NOT (-128))"
  by (rule constant_logical_exact [of 1 8]) (simp_all add: kind_width_def fits_width_def)

text \<open>
  C19: Single-bit access and field extraction: \<open>BTEST\<close> reads bit \<open>p\<close> of the value, \<open>IBSET\<close> and
  \<open>IBCLR\<close> change that bit of the kind's representation only, and \<open>IBITS\<close> returns the field of \<open>l\<close>
  bits at \<open>p\<close>, for every position and length the standard admits.
\<close>
theorem constant_bit_access:
  assumes "kind_width kind = w" "w \<noteq> 0" "fits_width w a"
    and p: "0 \<le> p" "p < int w" and l: "0 \<le> l" "p + l \<le> int w"
  shows "constant_fold_bit_intrinsic BTEST kind [a, p] = Some (of_bool (bit a (nat p)))
    \<and> constant_fold_bit_intrinsic IBSET kind [a, p] = Some (signed_take_bit (w - 1) (set_bit (nat p) a))
    \<and> constant_fold_bit_intrinsic IBCLR kind [a, p] = Some (signed_take_bit (w - 1) (unset_bit (nat p) a))
    \<and> constant_fold_bit_intrinsic IBITS kind [a, p, l]
        = Some (signed_take_bit (w - 1) (take_bit (nat l) (drop_bit (nat p) a)))"
proof -
  have w: "0 < w" "w \<le> 64" using kind_width_bounds [of kind] assms by auto
  have valid: "valid_position p w" and i64: "in_i64 p" "in_i64 l"
    using p l w valid_position_eq [of p w] by (auto simp: in_i64_def)
  have pw: "nat p < w" "nat p < 64" using p w by linarith+
  have len: "\<not> (p < 0 \<or> l < 0 \<or> u64 p > of_nat w \<or> u64 l > of_nat w - u64 p)"
  proof -
    have "of_nat w - u64 p = u64 (int w - p)" by (simp add: u64_def)
    then have "\<not> u64 l > of_nat w - u64 p"
      using p l w by (simp add: word_less_def uint_u64_nonneg)
    moreover have "\<not> u64 p > of_nat w"
      using u64_le_of_nat(1) [of p w] p w by linarith
    ultimately show ?thesis using p l by simp
  qed
  have t: "constant_fold_bit_intrinsic BTEST kind [a, p] = Some (of_bool (bit a (nat p)))"
    using assms(1,2) valid pw w
    by (simp add: constant_fold_bit_intrinsic_def Let_def push_bit_eq_mult and_exp_eq_0_iff_not_bit
        bit_integer_bits)
  have "signed_value (integer_bits a w OR push_bit (nat p) 1) w
        = signed_take_bit (w - 1) (set_bit (nat p) a)"
    by (rule signed_value_of_bits [OF w]) (use w pw in \<open>auto simp: bit_simps bit_integer_bits\<close>)
  moreover have "signed_value (integer_bits a w AND NOT (push_bit (nat p) 1)) w
        = signed_take_bit (w - 1) (unset_bit (nat p) a)"
    by (rule signed_value_of_bits [OF w]) (use w pw in \<open>auto simp: bit_simps bit_integer_bits\<close>)
  ultimately have s: "constant_fold_bit_intrinsic IBSET kind [a, p]
      = Some (signed_take_bit (w - 1) (set_bit (nat p) a))"
    and c: "constant_fold_bit_intrinsic IBCLR kind [a, p]
      = Some (signed_take_bit (w - 1) (unset_bit (nat p) a))"
    using assms(1,2) valid by (simp_all add: constant_fold_eq)
  have low: "\<And>n. n < nat l \<Longrightarrow> nat p + n < w" "nat l \<le> 64" using p l w by linarith+
  have "signed_value (if l = 0 then 0 else drop_bit (nat p) (integer_bits a w) AND low_mask (nat l)) w
      = signed_take_bit (w - 1) (take_bit (nat l) (drop_bit (nat p) a))"
    by (rule signed_value_of_bits [OF w])
      (use low w in \<open>auto simp: bit_simps bit_integer_bits bit_low_mask\<close>)
  then have "constant_fold_bit_intrinsic IBITS kind [a, p, l]
      = Some (signed_take_bit (w - 1) (take_bit (nat l) (drop_bit (nat p) a)))"
    using assms(1,2) by (simp only: constant_fold_eq simp_thms bit_intrinsic.distinct fold_bits.simps
        len if_False option.map)
  with t s c show ?thesis by simp
qed

theorem constant_bit_access_witness:
  "constant_fold_bit_intrinsic BTEST 2 [-32768, 15] = Some (of_bool (bit (-32768 :: int) (nat 15)))
    \<and> constant_fold_bit_intrinsic IBSET 2 [-32768, 15]
        = Some (signed_take_bit (16 - 1) (set_bit (nat 15) (-32768)))
    \<and> constant_fold_bit_intrinsic IBCLR 2 [-32768, 15]
        = Some (signed_take_bit (16 - 1) (unset_bit (nat 15) (-32768)))
    \<and> constant_fold_bit_intrinsic IBITS 2 [-32768, 15, 1]
        = Some (signed_take_bit (16 - 1) (take_bit (nat 1) (drop_bit (nat 15) (-32768))))"
  by (rule constant_bit_access [of 2 16]) (simp_all add: kind_width_def fits_width_def)

text \<open>
  \<open>ISHFT\<close> is refused exactly when the shift is longer than the kind, and otherwise is the
  logical shift of the kind's representation, sign extended from its top bit.
\<close>
theorem constant_ishft_value:
  assumes "kind_width kind = w" "w \<noteq> 0" "in_i64 s"
  shows "constant_fold_bit_intrinsic ISHFT kind [a, s] =
    (if \<bar>s\<bar> > int w then None
     else Some (signed_take_bit (w - 1)
       (if s < 0 then drop_bit (nat (- s)) (take_bit w a) else push_bit (nat s) a)))"
proof (cases "\<bar>s\<bar> > int w")
  case True
  have w: "0 < w" "w \<le> 64" using kind_width_bounds [of kind] assms by auto
  with True assms fold_shift_None [OF assms(3) w(2)] show ?thesis
    by (simp add: constant_fold_eq)
next
  case False
  have w: "0 < w" "w \<le> 64" using kind_width_bounds [of kind] assms by auto
  obtain y where y: "fold_shift (integer_bits a w) w s = Some y"
    using fold_shift_None [OF assms(3) w(2), of "integer_bits a w"] False by fastforce
  note bits = bit_fold_shift [OF assms(3) w(2) y word_high_bits_integer_bits [OF w(2)]]
  have "signed_value y w = signed_take_bit (w - 1)
       (if s < 0 then drop_bit (nat (- s)) (take_bit w a) else push_bit (nat s) a)"
  proof (rule signed_value_of_bits [OF w])
    fix n assume n: "n < w"
    have "s < 0 \<Longrightarrow> nat (int n - s) = nat (- s) + n" "\<not> s < 0 \<Longrightarrow> nat (int n - s) = n - nat s"
      by simp_all
    with n w show "bit y n \<longleftrightarrow>
        bit (if s < 0 then drop_bit (nat (- s)) (take_bit w a) else push_bit (nat s) a) n"
      by (auto simp: bits bit_simps bit_integer_bits)
  qed
  with False y assms show ?thesis by (simp add: constant_fold_eq)
qed

theorem constant_ishft_value_witness:
  "constant_fold_bit_intrinsic ISHFT 1 [-1, -8] =
    (if \<bar>-8 :: int\<bar> > int 8 then None
     else Some (signed_take_bit (8 - 1)
       (if (-8 :: int) < 0 then drop_bit (nat (- (-8))) (take_bit 8 (-1)) else push_bit (nat (-8)) (-1))))"
  by (rule constant_ishft_value) (simp_all add: kind_width_def in_i64_def)

text \<open>
  C18: \<open>ISHFTC\<close> rotates the low \<open>k\<close> bits and leaves the others: a rotation by \<open>s\<close> is accepted for every
  legal field size, stays in the kind, and the rotation by \<open>-s\<close> restores the operand.
\<close>
theorem constant_ishftc_roundtrip:
  assumes "kind_width kind = w" "w \<noteq> 0" "fits_width w a" "0 < k" "k \<le> int w" "\<bar>s\<bar> \<le> k"
  shows "\<exists>r. constant_fold_bit_intrinsic ISHFTC kind [a, s, k] = Some r \<and> fits_width w r
    \<and> constant_fold_bit_intrinsic ISHFTC kind [r, - s, k] = Some a
    \<and> (\<forall>n < w. bit r n \<longleftrightarrow> (if int n < k then bit a (nat ((int n - s) mod k)) else bit a n))"
proof -
  have w: "0 < w" "w \<le> 64" using kind_width_bounds [of kind] assms by auto
  have k: "in_i64 k" using assms w by (simp add: in_i64_def)
  obtain r where r: "constant_fold_bit_intrinsic ISHFTC kind [a, s, k] = Some r" "fits_width w r"
    "\<And>n. n < w \<Longrightarrow> bit r n \<longleftrightarrow> (if int n < k then bit a (nat ((int n - s) mod k)) else bit a n)"
    using bit_fold_ishftc_value [OF assms(1,2) k assms(4-6)] by blast
  obtain q where q: "constant_fold_bit_intrinsic ISHFTC kind [r, - s, k] = Some q" "fits_width w q"
    "\<And>n. n < w \<Longrightarrow> bit q n \<longleftrightarrow> (if int n < k then bit r (nat ((int n - - s) mod k)) else bit r n)"
    using bit_fold_ishftc_value [OF assms(1,2) k assms(4,5), of "- s"] assms(6) by auto
  have "bit q n \<longleftrightarrow> bit a n" if n: "n < w" for n
  proof (cases "int n < k")
    case True
    have b: "0 \<le> (int n + s) mod k" "(int n + s) mod k < k"
      using assms(4) by simp_all
    have "((int n + s) mod k - s) mod k = int n"
      using True by (simp add: mod_diff_left_eq)
    moreover have "nat ((int n + s) mod k) < w" using b assms(5) by linarith
    ultimately show ?thesis
      using True n b q(3) [OF n] r(3) [of "nat ((int n + s) mod k)"] by simp
  next
    case False
    with n q(3) [OF n] r(3) [OF n] show ?thesis by simp
  qed
  then have "q = a"
    using signed_value_eq_fits [OF w q(2), of "u64 q"] signed_value_eq_fits [OF w assms(3), of "u64 q"] w
    by (simp add: u64_def bit_simps)
  with q r show ?thesis by auto
qed

theorem constant_ishftc_roundtrip_witness:
  "\<exists>r. constant_fold_bit_intrinsic ISHFTC 4 [-5, 3, 7] = Some r \<and> fits_width 32 r
    \<and> constant_fold_bit_intrinsic ISHFTC 4 [r, - 3, 7] = Some (-5)
    \<and> (\<forall>n < 32. bit r n \<longleftrightarrow> (if int n < 7 then bit (-5 :: int) (nat ((int n - 3) mod 7)) else bit (-5 :: int) n))"
  by (rule constant_ishftc_roundtrip) (simp_all add: kind_width_def fits_width_def)

end
