(* ===== verification/Preprocessor_State.thy ===== *)
theory Preprocessor_State
  imports F2C_Prelude
begin

text \<open>
  The state that the parts of the preprocessor share (\<open>frontend/preprocessor/private.h\<close>): the macro
  table, the stack of conditional groups, the limits it reads from the context, and the
  diagnostics it reports.

  \<^item> \<open>macros\<close> and \<open>conditionals\<close> are the arrays up to their counts; the capacities are kept, so that
    the reallocation paths are the code's.
  \<^item> The fields of the context that the preprocessor reads and writes (the limits, the recorded source
    names, the counts of files and bytes) stand beside the fields of \<open>Preprocessor\<close>. The chain of
    files that are open is \<open>include_parent\<close>, the innermost first.
  \<^item> \<open>memory n\<close> says whether \<open>malloc\<close> or \<open>realloc\<close> of \<open>n\<close> bytes succeeds; every
    out-of-memory branch is kept.
  \<^item> A name given by pointer and length is the string it spans. Names and values hold no NUL, so
    \<open>strncmp\<close> of two names of one length is equality.
  \<^item> \<open>diagnostics\<close> collects what is handed to \<open>f2c_diagnostic_span_code\<close>, in order.
\<close>

section \<open>Diagnostics\<close>

text \<open>\<open>F2cDiagnosticCode\<close> of the public header.\<close>

datatype diagnostic_code =
  DIAGNOSTIC_GENERAL | DIAGNOSTIC_INVALID_ARGUMENT | DIAGNOSTIC_RESOURCE_LIMIT
| DIAGNOSTIC_OUT_OF_MEMORY | DIAGNOSTIC_INVALID_TOKEN | DIAGNOSTIC_SYNTAX | DIAGNOSTIC_INCLUDE
| DIAGNOSTIC_SEMANTIC | DIAGNOSTIC_UNSUPPORTED | DIAGNOSTIC_INTERNAL

record report =
  report_code :: diagnostic_code
  report_source :: string
  report_line :: nat
  report_begin_column :: nat
  report_end_column :: nat
  report_message :: string

section \<open>State\<close>

record preprocessor_macro =
  macro_name :: string
  macro_value :: string
  macro_parameters :: "string list"
  function_like :: bool
  variadic :: bool
  definition_source_name :: string
  definition_line :: nat
  definition_column :: nat

record conditional_frame =
  opening_source_name :: string
  opening_line :: nat
  parent_active :: bool
  branch_taken :: bool
  else_seen :: bool

record preprocessor_limits =
  max_parse_depth :: nat
  max_preprocessor_definitions :: nat
  max_macro_arguments :: nat
  max_macro_expansion_depth :: nat
  max_preprocessed_bytes :: nat
  max_include_depth :: nat
  max_include_files :: nat
  max_input_bytes :: nat

datatype source_form = SOURCE_AUTO | SOURCE_FREE | SOURCE_FIXED

record preprocessor =
  macros :: "preprocessor_macro list"
  macro_capacity :: nat
  conditionals :: "conditional_frame list"
  conditional_capacity :: nat
  conditional_base :: nat
  current_source_name :: string
  current_line :: nat
  pending_source_name :: string
  pending_line :: nat
  location_pending :: bool
  source_form :: source_form
  include_depth :: nat
  include_parent :: "string list"
  continued_character_quote :: char
  continued_hollerith_characters :: nat
  is_active :: bool
  limits :: preprocessor_limits
  source_names :: "string list"
  source_name_capacity :: nat
  include_file_count :: nat
  input_bytes :: nat
  preprocessed_bytes :: nat
  memory :: "nat \<Rightarrow> bool"
  diagnostics :: "report list"

section \<open>Characters of names\<close>

definition identifier_start :: "char \<Rightarrow> bool" where
  "identifier_start c \<longleftrightarrow> isalpha c \<or> c = CHR ''_''"

definition identifier_continue :: "char \<Rightarrow> bool" where
  "identifier_continue c \<longleftrightarrow> isalnum c \<or> c = CHR ''_''"

text \<open>\<open>while (identifier_continue(*end)) ++end;\<close> splits a text into the word and the rest.\<close>

definition word_end :: "cptr \<Rightarrow> cptr" where
  "word_end s = dropWhile identifier_continue s"

definition word_text :: "cptr \<Rightarrow> string" where
  "word_text s = takeWhile identifier_continue s"

section \<open>Reporting\<close>

definition diagnose_at :: "preprocessor \<Rightarrow> diagnostic_code \<Rightarrow> nat \<Rightarrow> nat \<Rightarrow> string \<Rightarrow> preprocessor" where
  "diagnose_at p code ln column message =
     p\<lparr>diagnostics := diagnostics p @
        [\<lparr>report_code = code, report_source = current_source_name p, report_line = ln,
          report_begin_column = column, report_end_column = column + 1, report_message = message\<rparr>]\<rparr>"

definition diagnose_name ::
  "preprocessor \<Rightarrow> diagnostic_code \<Rightarrow> nat \<Rightarrow> nat \<Rightarrow> string \<Rightarrow> string \<Rightarrow> preprocessor" where
  "diagnose_name p code ln column prefix name =
     p\<lparr>diagnostics := diagnostics p @
        [\<lparr>report_code = code, report_source = current_source_name p, report_line = ln,
          report_begin_column = column,
          report_end_column = column + (if length name \<noteq> 0 then length name else 1),
          report_message = prefix @ '' '' @ [CHR 0x27] @ take 2147483647 name @ [CHR 0x27]\<rparr>]\<rparr>"

named_theorems reporting \<open>reports leave every other field of the preprocessor alone\<close>

lemma diagnose_frame [simp, reporting]:
  "macros (diagnose_at p c l k m) = macros p"
  "macro_capacity (diagnose_at p c l k m) = macro_capacity p"
  "conditionals (diagnose_at p c l k m) = conditionals p"
  "conditional_capacity (diagnose_at p c l k m) = conditional_capacity p"
  "conditional_base (diagnose_at p c l k m) = conditional_base p"
  "current_source_name (diagnose_at p c l k m) = current_source_name p"
  "current_line (diagnose_at p c l k m) = current_line p"
  "pending_source_name (diagnose_at p c l k m) = pending_source_name p"
  "pending_line (diagnose_at p c l k m) = pending_line p"
  "location_pending (diagnose_at p c l k m) = location_pending p"
  "source_form (diagnose_at p c l k m) = source_form p"
  "include_depth (diagnose_at p c l k m) = include_depth p"
  "include_parent (diagnose_at p c l k m) = include_parent p"
  "continued_character_quote (diagnose_at p c l k m) = continued_character_quote p"
  "continued_hollerith_characters (diagnose_at p c l k m) = continued_hollerith_characters p"
  "is_active (diagnose_at p c l k m) = is_active p"
  "limits (diagnose_at p c l k m) = limits p"
  "source_names (diagnose_at p c l k m) = source_names p"
  "source_name_capacity (diagnose_at p c l k m) = source_name_capacity p"
  "include_file_count (diagnose_at p c l k m) = include_file_count p"
  "input_bytes (diagnose_at p c l k m) = input_bytes p"
  "preprocessed_bytes (diagnose_at p c l k m) = preprocessed_bytes p"
  "memory (diagnose_at p c l k m) = memory p"
  "diagnostics (diagnose_at p c l k m) \<noteq> diagnostics p"
  "macros (diagnose_name p c l k m n) = macros p"
  "macro_capacity (diagnose_name p c l k m n) = macro_capacity p"
  "conditionals (diagnose_name p c l k m n) = conditionals p"
  "conditional_capacity (diagnose_name p c l k m n) = conditional_capacity p"
  "conditional_base (diagnose_name p c l k m n) = conditional_base p"
  "current_source_name (diagnose_name p c l k m n) = current_source_name p"
  "current_line (diagnose_name p c l k m n) = current_line p"
  "pending_source_name (diagnose_name p c l k m n) = pending_source_name p"
  "pending_line (diagnose_name p c l k m n) = pending_line p"
  "location_pending (diagnose_name p c l k m n) = location_pending p"
  "source_form (diagnose_name p c l k m n) = source_form p"
  "include_depth (diagnose_name p c l k m n) = include_depth p"
  "include_parent (diagnose_name p c l k m n) = include_parent p"
  "continued_character_quote (diagnose_name p c l k m n) = continued_character_quote p"
  "continued_hollerith_characters (diagnose_name p c l k m n) = continued_hollerith_characters p"
  "is_active (diagnose_name p c l k m n) = is_active p"
  "limits (diagnose_name p c l k m n) = limits p"
  "source_names (diagnose_name p c l k m n) = source_names p"
  "source_name_capacity (diagnose_name p c l k m n) = source_name_capacity p"
  "include_file_count (diagnose_name p c l k m n) = include_file_count p"
  "input_bytes (diagnose_name p c l k m n) = input_bytes p"
  "preprocessed_bytes (diagnose_name p c l k m n) = preprocessed_bytes p"
  "memory (diagnose_name p c l k m n) = memory p"
  "diagnostics (diagnose_name p c l k m n) \<noteq> diagnostics p"
  by (simp_all add: diagnose_at_def diagnose_name_def)

section \<open>Words\<close>

definition is_name :: "string \<Rightarrow> bool" where
  "is_name s \<longleftrightarrow> s \<noteq> [] \<and> identifier_start (hd s) \<and> list_all identifier_continue s"

lemma identifier_start_continue: "identifier_start c \<Longrightarrow> identifier_continue c"
  by (auto simp: identifier_start_def identifier_continue_def isalnum_def)

lemma identifier_not_NUL [simp]: "\<not> identifier_start NUL" "\<not> identifier_continue NUL"
  by (simp_all add: identifier_start_def identifier_continue_def NUL_not_graphic ascii_def)

lemma identifier_not_space: "identifier_continue c \<Longrightarrow> \<not> isspace c"
  by (auto simp: identifier_continue_def char_class)

lemma word_split: "word_text s @ word_end s = s"
  by (simp add: word_text_def word_end_def)

lemma word_end_length: "length (word_end s) \<le> length s"
  by (simp add: word_end_def length_dropWhile_le)

lemma length_word_text: "length (word_text s) = length s - length (word_end s)"
  by (metis add_diff_cancel_right' length_append word_split)

lemma word_of_append:
  assumes "list_all identifier_continue s" "\<not> identifier_continue (peek t)"
  shows "word_text (s @ t) = s" "word_end (s @ t) = t"
proof -
  have "takeWhile identifier_continue t = []" "dropWhile identifier_continue t = t"
    using assms(2) by (cases t; simp)+
  with assms(1) show "word_text (s @ t) = s" "word_end (s @ t) = t"
    by (simp_all add: word_text_def word_end_def list_all_iff takeWhile_append dropWhile_append)
qed

lemma word_text_is_name:
  "identifier_start (peek s) \<Longrightarrow> is_name (word_text s)"
  by (cases s)
    (auto simp: is_name_def word_text_def list_all_iff identifier_start_continue dest: set_takeWhileD)

lemma is_name_peek: "is_name s \<Longrightarrow> identifier_start (peek (s @ t))"
  by (cases s) (auto simp: is_name_def)

lemma is_name_not_space: "is_name x \<Longrightarrow> \<not> isspace (peek (x @ t))"
  using is_name_peek identifier_start_continue identifier_not_space by blast

lemma word_end_decreases: "identifier_start (peek s) \<Longrightarrow> length (word_end s) < length s"
  by (cases s)
    (auto simp: word_end_def identifier_start_continue less_Suc_eq_le length_dropWhile_le)

end
