(* ===== verification/Macro_Table.thy ===== *)
theory Macro_Table
  imports Preprocessor_State "HOL-Library.Multiset"
begin

text \<open>
  \<open>frontend/preprocessor/definition.c\<close>: the macro table. The table is an array that is
  searched linearly; a definition is appended, and a removal moves the final entry into the hole. The
  lemmas show that it implements a finite map from names to definitions (the locale \<open>macro_map\<close> and
  its interpretation), that every operation keeps the table well formed, that the comparison of
  replacement lists is equality up to white space.
\<close>

section \<open>The table\<close>

text \<open>\<open>f2c_preprocessor_find_macro\<close>; \<^const>\<open>None\<close> is \<open>SIZE_MAX\<close>.\<close>

fun find_macro_from :: "preprocessor_macro list \<Rightarrow> nat \<Rightarrow> string \<Rightarrow> nat option" where
  "find_macro_from [] index name = None"
| "find_macro_from (m # ms) index name =
     (if length (macro_name m) = length name \<and> macro_name m = name then Some index
      else find_macro_from ms (index + 1) name)"

definition find_macro :: "preprocessor \<Rightarrow> string \<Rightarrow> nat option" where
  "find_macro p name = find_macro_from (macros p) 0 name"

definition discard_macros :: "preprocessor \<Rightarrow> preprocessor" where
  "discard_macros p = p\<lparr>macros := [], macro_capacity := 0\<rparr>"

text \<open>\<open>reserve_macros\<close>: \<open>sizeof(PreprocessorMacro)\<close> is 80 bytes; the doubled capacity is a \<open>size_t\<close>.\<close>

definition reserve_macros :: "preprocessor \<Rightarrow> preprocessor option" where
  "reserve_macros p =
     (if length (macros p) < macro_capacity p then Some p
      else let capacity = (if macro_capacity p = 0 then 8 else macro_capacity p * 2 mod (SIZE_MAX + 1))
           in if capacity < macro_capacity p \<or> capacity > SIZE_MAX div 80 then None
              else if \<not> memory p (capacity * 80) then None
              else Some (p\<lparr>macro_capacity := capacity\<rparr>))"

definition valid_macro_name :: "string \<Rightarrow> bool" where
  "valid_macro_name name \<longleftrightarrow>
     \<not> (length name = 0 \<or> \<not> identifier_start (peek name)) \<and>
     (\<forall>index \<in> {1..<length name}. identifier_continue (name ! index))"

section \<open>Compatible redefinition\<close>

text \<open>The inner loops of \<open>replacement_equal\<close>: the first index at or after \<open>i\<close> that is not a space.\<close>

function skip_value_space :: "string \<Rightarrow> nat \<Rightarrow> nat" where
  "skip_value_space v i = (if i < length v \<and> isspace (v ! i) then skip_value_space v (i + 1) else i)"
  by pat_completeness auto
termination by (relation "measure (\<lambda>(v, i). length v - i)") auto

declare skip_value_space.simps [simp del]

lemma skip_value_space_ge: "i \<le> skip_value_space v i"
  by (induction v i rule: skip_value_space.induct) (subst skip_value_space.simps, auto)

function replacement_equal_from :: "string \<Rightarrow> string \<Rightarrow> nat \<Rightarrow> nat \<Rightarrow> bool" where
  "replacement_equal_from left right left_index right_index =
     (let left' = skip_value_space left left_index;
          right' = skip_value_space right right_index;
          left_space = (left' \<noteq> left_index);
          right_space = (right' \<noteq> right_index)
      in if left' \<ge> length left \<or> right' \<ge> length right
         then left' \<ge> length left \<and> right' \<ge> length right
         else if left_space \<noteq> right_space \<and> left' \<noteq> 0 \<and> right' \<noteq> 0 then False
         else if left ! left' \<noteq> right ! right' then False
         else replacement_equal_from left right (left' + 1) (right' + 1))"
  by pat_completeness auto
termination
  by (relation "measure (\<lambda>(l, r, i, j). length l - i)")
    (auto simp: not_le intro!: diff_less_mono2 le_imp_less_Suc skip_value_space_ge
      intro: le_less_trans [OF skip_value_space_ge])

declare replacement_equal_from.simps [simp del]

definition replacement_equal :: "preprocessor_macro \<Rightarrow> preprocessor_macro \<Rightarrow> bool" where
  "replacement_equal left right = replacement_equal_from (macro_value left) (macro_value right) 0 0"

definition macro_equal :: "preprocessor_macro \<Rightarrow> preprocessor_macro \<Rightarrow> bool" where
  "macro_equal left right \<longleftrightarrow>
     \<not> (function_like left \<noteq> function_like right \<or> variadic left \<noteq> variadic right \<or>
        length (macro_parameters left) \<noteq> length (macro_parameters right)) \<and>
     (\<forall>index \<in> {0..<length (macro_parameters left)}.
        macro_parameters left ! index = macro_parameters right ! index) \<and>
     replacement_equal left right"

section \<open>Installing and removing\<close>

text \<open>
  \<open>install_macro\<close>: the status and the state. The two copies (\<open>f2c_strdup_n\<close>) need one byte more than
  their text.
\<close>

definition install_macro ::
  "preprocessor \<Rightarrow> string \<Rightarrow> string \<Rightarrow> string list \<Rightarrow> bool \<Rightarrow> bool \<Rightarrow> nat \<Rightarrow> nat \<Rightarrow> string \<Rightarrow> nat \<Rightarrow>
    diagnostic_code \<Rightarrow> bool \<times> preprocessor" where
  "install_macro p name val parameters is_function is_variadic ln column source_name
      defined_column invalid_code =
     (if \<not> valid_macro_name name then
        (False, diagnose_name p invalid_code ln column ''invalid preprocessor name'' name)
      else if \<not> memory p (length name + 1) \<or> \<not> memory p (length val + 1) then
        (False, diagnose_at p DIAGNOSTIC_OUT_OF_MEMORY ln column
                  ''out of memory while defining a preprocessor macro'')
      else
        let macro = \<lparr>macro_name = name, macro_value = val, macro_parameters = parameters,
                     function_like = is_function, variadic = is_variadic,
                     definition_source_name = source_name, definition_line = ln,
                     definition_column = defined_column\<rparr>
        in case find_macro p name of
          Some existing \<Rightarrow>
            if macro_equal (macros p ! existing) macro then (True, p)
            else (False, diagnose_name p invalid_code ln column
                           ''incompatible redefinition of preprocessor macro'' name)
        | None \<Rightarrow>
            if length (macros p) \<ge> max_preprocessor_definitions (limits p) then
              (False, diagnose_at p DIAGNOSTIC_RESOURCE_LIMIT ln column
                        ''preprocessor definition limit exceeded'')
            else (case reserve_macros p of
              None \<Rightarrow> (False, diagnose_at p DIAGNOSTIC_OUT_OF_MEMORY ln column
                        ''out of memory while growing the preprocessor definition table'')
            | Some p' \<Rightarrow> (True, p'\<lparr>macros := macros p' @ [macro]\<rparr>)))"

definition define_object ::
  "preprocessor \<Rightarrow> string \<Rightarrow> string \<Rightarrow> nat \<Rightarrow> nat \<Rightarrow> string \<Rightarrow> nat \<Rightarrow> diagnostic_code \<Rightarrow>
    bool \<times> preprocessor" where
  "define_object p name val ln column source_name defined_column invalid_code =
     install_macro p name val [] False False ln column source_name defined_column invalid_code"

text \<open>
  \<open>f2c_preprocessor_undefine\<close>: the final entry moves into the hole. The C code lowers the count
  first, so \<open>macros[macro_count]\<close> is the final entry.
\<close>

definition undefine :: "preprocessor \<Rightarrow> string \<Rightarrow> preprocessor" where
  "undefine p name =
     (case find_macro p name of
        None \<Rightarrow> p
      | Some index \<Rightarrow>
          let macro_count = length (macros p) - 1;
              items = (if index \<noteq> macro_count then (macros p)[index := macros p ! macro_count]
                       else macros p)
          in p\<lparr>macros := take macro_count items\<rparr>)"

section \<open>The table as a map\<close>

definition lookup :: "preprocessor \<Rightarrow> string \<Rightarrow> preprocessor_macro option" where
  "lookup p name = map_option ((!) (macros p)) (find_macro p name)"

lemma find_macro_from_eq:
  "find_macro_from ms i name =
    (if name \<in> macro_name ` set ms
     then Some (i + length (takeWhile (\<lambda>m. macro_name m \<noteq> name) ms)) else None)"
  by (induction ms arbitrary: i) auto

lemma find_macro_from_Some:
  "find_macro_from ms i name = Some k \<Longrightarrow>
    i \<le> k \<and> k - i < length ms \<and> macro_name (ms ! (k - i)) = name"
proof (induction ms arbitrary: i)
  case Nil
  then show ?case by simp
next
  case (Cons m ms)
  show ?case
  proof (cases "macro_name m = name")
    case True
    with Cons.prems show ?thesis by simp
  next
    case False
    with Cons.prems Cons.IH [of "i + 1"] have "Suc i \<le> k" "k - Suc i < length ms"
      "macro_name (ms ! (k - Suc i)) = name"
      by (auto split: if_splits)
    moreover from this have "k - i = Suc (k - Suc i)" by simp
    ultimately show ?thesis by simp
  qed
qed

lemma find_macro_Some:
  "find_macro p name = Some i \<Longrightarrow> i < length (macros p) \<and> macro_name (macros p ! i) = name"
  unfolding find_macro_def using find_macro_from_Some [of "macros p" 0 name i] by simp

lemma find_macro_None: "find_macro p name = None \<longleftrightarrow> name \<notin> macro_name ` set (macros p)"
  by (simp add: find_macro_def find_macro_from_eq)

lemma lookup_Some_iff:
  assumes "distinct (map macro_name (macros p))"
  shows "lookup p name = Some m \<longleftrightarrow> m \<in> set (macros p) \<and> macro_name m = name"
proof
  assume "lookup p name = Some m"
  then obtain i where "find_macro p name = Some i" "m = macros p ! i"
    by (auto simp: lookup_def)
  with find_macro_Some [of p name i] show "m \<in> set (macros p) \<and> macro_name m = name" by auto
next
  assume m: "m \<in> set (macros p) \<and> macro_name m = name"
  then obtain i where i: "find_macro p name = Some i"
    using find_macro_None [of p name] by (metis image_eqI option.exhaust)
  then have "macro_name (macros p ! i) = macro_name m" "macros p ! i \<in> set (macros p)"
    using find_macro_Some [OF i] m by auto
  then have "macros p ! i = m"
    using assms m by (auto simp: distinct_map dest: inj_onD)
  with i show "lookup p name = Some m" by (simp add: lookup_def)
qed

lemma lookup_None_iff: "lookup p name = None \<longleftrightarrow> name \<notin> macro_name ` set (macros p)"
  by (simp add: lookup_def find_macro_None)

text \<open>Removal: the array without the entry, in another order.\<close>

lemma mset_fill_hole:
  assumes "i < length xs"
  shows "mset (take (length xs - 1) (if i \<noteq> length xs - 1 then xs[i := xs ! (length xs - 1)] else xs))
    = mset xs - {#xs ! i#}"
proof -
  obtain ys y where xs: "xs = ys @ [y]" using assms by (cases xs rule: rev_cases) auto
  show ?thesis
  proof (cases "i = length ys")
    case True
    then show ?thesis by (simp add: xs)
  next
    case False
    then have "i < length ys" using assms xs by simp
    then show ?thesis
      by (simp add: xs list_update_append nth_append mset_update)
  qed
qed

lemma mset_undefine:
  "mset (macros (undefine p name)) = mset (macros p) -
    (case find_macro p name of None \<Rightarrow> {#} | Some i \<Rightarrow> {#macros p ! i#})"
proof (cases "find_macro p name")
  case None
  then show ?thesis by (simp add: undefine_def)
next
  case (Some i)
  then have "i < length (macros p)" by (simp add: find_macro_Some)
  with Some show ?thesis
    using mset_fill_hole [of i "macros p"] unfolding undefine_def Let_def by simp
qed

lemma set_undefine:
  assumes "distinct (map macro_name (macros p))"
  shows "set (macros (undefine p name)) = {m \<in> set (macros p). macro_name m \<noteq> name}"
    and "distinct (map macro_name (macros (undefine p name)))"
proof -
  have d: "distinct (macros p)" using assms distinct_map by blast
  have m: "mset (macros (undefine p name)) = filter_mset (\<lambda>m. macro_name m \<noteq> name) (mset (macros p))"
  proof (cases "find_macro p name")
    case None
    then have "name \<notin> macro_name ` set (macros p)" by (simp add: find_macro_None)
    then have "filter (\<lambda>m. macro_name m \<noteq> name) (macros p) = macros p"
      by (auto simp: filter_id_conv)
    with None show ?thesis by (metis diff_zero mset_filter mset_undefine option.case(1))
  next
    case (Some i)
    note i = find_macro_Some [OF Some]
    have "\<And>m. m \<in> set (macros p) \<Longrightarrow> macro_name m = name \<longleftrightarrow> m = macros p ! i"
      using assms i by (auto simp: distinct_map dest: inj_onD)
    then have "filter_mset (\<lambda>m. macro_name m \<noteq> name) (mset (macros p))
      = filter_mset (\<lambda>m. m \<noteq> macros p ! i) (mset (macros p))"
      by (intro filter_mset_cong) auto
    also have "\<dots> = mset (macros p) - {#macros p ! i#}"
    proof -
      have "filter (\<lambda>m. m \<noteq> macros p ! i) (macros p) = remove1 (macros p ! i) (macros p)"
        unfolding distinct_remove1_removeAll [OF d] removeAll_filter_not_eq by (intro filter_cong) auto
      then show ?thesis by (simp flip: mset_filter)
    qed
    finally show ?thesis using Some by (simp add: mset_undefine)
  qed
  then show "set (macros (undefine p name)) = {m \<in> set (macros p). macro_name m \<noteq> name}"
    by (metis mset_filter set_filter set_mset_mset mset_eq_setD)
  from m have "mset (map macro_name (macros (undefine p name)))
      = mset (map macro_name (filter (\<lambda>m. macro_name m \<noteq> name) (macros p)))"
    by simp
  then show "distinct (map macro_name (macros (undefine p name)))"
    using assms by (metis distinct_map_filter mset_eq_imp_distinct_iff)
qed

lemma undefine_frame [simp]:
  "macro_capacity (undefine p name) = macro_capacity p" "limits (undefine p name) = limits p"
  "memory (undefine p name) = memory p" "diagnostics (undefine p name) = diagnostics p"
  "conditionals (undefine p name) = conditionals p" "is_active (undefine p name) = is_active p"
  "conditional_base (undefine p name) = conditional_base p"
  "current_source_name (undefine p name) = current_source_name p"
  "conditional_capacity (undefine p name) = conditional_capacity p"
  by (simp_all add: undefine_def Let_def split: option.splits)

lemma length_undefine: "length (macros (undefine p name)) \<le> length (macros p)"
  by (auto simp: undefine_def Let_def split: option.splits)

lemma valid_macro_name_iff: "valid_macro_name name \<longleftrightarrow> is_name name"
proof (cases name)
  case Nil
  then show ?thesis by (simp add: valid_macro_name_def is_name_def)
next
  case (Cons c s)
  have "(\<forall>i \<in> {1..<length name}. identifier_continue (name ! i)) \<longleftrightarrow> list_all identifier_continue s"
    (is "?l \<longleftrightarrow> _")
  proof
    assume ?l
    then have "identifier_continue (name ! Suc i)" if "i < length s" for i
      using bspec [OF \<open>?l\<close>, of "Suc i"] that by (simp add: Cons)
    then show "list_all identifier_continue s" by (simp add: Cons list_all_length)
  qed (auto simp: Cons list_all_length nth_Cons')
  then show ?thesis
    by (auto simp: Cons valid_macro_name_def is_name_def identifier_start_continue)
qed

section \<open>Well-formed tables\<close>

definition macro_ok :: "preprocessor \<Rightarrow> preprocessor_macro \<Rightarrow> bool" where
  "macro_ok p m \<longleftrightarrow>
     is_name (macro_name m) \<and>
     (\<forall>x \<in> set (macro_parameters m). is_name x \<and> x \<noteq> ''__VA_ARGS__'' \<and> x \<noteq> ''__VA_OPT__'') \<and>
     distinct (macro_parameters m) \<and>
     length (macro_parameters m) \<le> max_macro_arguments (limits p) \<and>
     (\<not> function_like m \<longrightarrow> macro_parameters m = [] \<and> \<not> variadic m)"

definition table_ok :: "preprocessor \<Rightarrow> bool" where
  "table_ok p \<longleftrightarrow>
     distinct (map macro_name (macros p)) \<and> (\<forall>m \<in> set (macros p). macro_ok p m) \<and>
     length (macros p) \<le> max_preprocessor_definitions (limits p) \<and>
     length (macros p) \<le> macro_capacity p"

lemma macro_ok_limits: "limits q = limits p \<Longrightarrow> macro_ok q m = macro_ok p m"
  by (simp add: macro_ok_def)

lemma table_ok_frame:
  "table_ok p \<Longrightarrow> macros q = macros p \<Longrightarrow> limits q = limits p \<Longrightarrow> macro_capacity q = macro_capacity p \<Longrightarrow>
    table_ok q"
  by (simp add: table_ok_def macro_ok_def)

lemma table_ok_diagnose [simp]:
  "table_ok (diagnose_at p c l k m) = table_ok p" "table_ok (diagnose_name p c l k m n) = table_ok p"
  by (simp_all add: table_ok_def macro_ok_def)

lemma reserve_macros_Some:
  assumes "reserve_macros p = Some q" "length (macros p) \<le> macro_capacity p"
  shows "q = p\<lparr>macro_capacity := macro_capacity q\<rparr>" "length (macros p) < macro_capacity q"
  using assms
  by (auto simp: reserve_macros_def Let_def split: if_splits)

lemma reserve_macros_frame:
  "reserve_macros p = Some q \<Longrightarrow> macros q = macros p \<and> limits q = limits p \<and> memory q = memory p"
  by (auto simp: reserve_macros_def Let_def split: if_splits)

text \<open>The outcomes of \<open>install_macro\<close>: no change but a report, no change, or one new final entry.\<close>

lemma install_macro_cases:
  assumes "install_macro p n v ps f va ln c src dc code = (ok, q)"
  obtains (failed) "\<not> ok" "macros q = macros p" "macro_capacity q = macro_capacity p" "limits q = limits p"
      "diagnostics q \<noteq> diagnostics p"
  | (known) i where "ok" "q = p" "find_macro p n = Some i" "is_name n"
      "macro_equal (macros p ! i) \<lparr>macro_name = n, macro_value = v, macro_parameters = ps,
         function_like = f, variadic = va, definition_source_name = src, definition_line = ln,
         definition_column = dc\<rparr>"
  | (new) p' where "ok" "find_macro p n = None" "is_name n" "reserve_macros p = Some p'"
      "length (macros p) < max_preprocessor_definitions (limits p)"
      "q = p'\<lparr>macros := macros p' @ [\<lparr>macro_name = n, macro_value = v, macro_parameters = ps,
         function_like = f, variadic = va, definition_source_name = src, definition_line = ln,
         definition_column = dc\<rparr>]\<rparr>"
proof -
  show thesis
    using assms unfolding install_macro_def Let_def valid_macro_name_iff
    by (auto split: if_splits option.splits simp: not_le dest!: sym [of _ q] intro: failed known new)
qed

lemma install_macro_table_ok:
  assumes "install_macro p n v ps f va ln c src dc code = (ok, q)" "table_ok p"
    and m: "\<forall>x \<in> set ps. is_name x \<and> x \<noteq> ''__VA_ARGS__'' \<and> x \<noteq> ''__VA_OPT__''" "distinct ps"
      "length ps \<le> max_macro_arguments (limits p)" "\<not> f \<longrightarrow> ps = [] \<and> \<not> va"
  shows "table_ok q" and "limits q = limits p"
proof -
  from assms(1) have "table_ok q \<and> limits q = limits p"
  proof (cases rule: install_macro_cases)
    case failed
    then show ?thesis using assms(2) table_ok_frame by blast
  next
    case known
    with assms(2) show ?thesis by simp
  next
    case (new p')
    note r = reserve_macros_Some [OF new(4)]
    have t: "length (macros p) \<le> macro_capacity p" using assms(2) by (simp add: table_ok_def)
    have p': "macros p' = macros p" "limits p' = limits p"
      using reserve_macros_frame [OF new(4)] by simp_all
    from assms(2) have "\<forall>m \<in> set (macros p). macro_ok q m"
      using new(6) p' by (simp add: table_ok_def macro_ok_def)
    with assms(2) m new p' r(2) [OF t] show ?thesis
      by (auto simp: table_ok_def macro_ok_def find_macro_None)
  qed
  then show "table_ok q" "limits q = limits p" by simp_all
qed

lemma undefine_table_ok:
  assumes "table_ok p"
  shows "table_ok (undefine p name)"
  using assms set_undefine [of p name] length_undefine [of p name]
  by (auto simp: table_ok_def macro_ok_def)

lemma lookup_undefine:
  assumes "table_ok p"
  shows "lookup (undefine p name) k = (if k = name then None else lookup p k)"
proof -
  have d: "distinct (map macro_name (macros p))" using assms by (simp add: table_ok_def)
  note u = set_undefine [OF d, of name]
  show ?thesis
  proof (cases "k = name")
    case True
    then show ?thesis using u(1) by (auto simp: lookup_None_iff)
  next
    case False
    have "lookup (undefine p name) k = Some m \<longleftrightarrow> lookup p k = Some m" for m
      using False by (auto simp: lookup_Some_iff [OF d] lookup_Some_iff [OF u(2)] u(1))
    with False show ?thesis by (metis not_Some_eq)
  qed
qed

section \<open>The interface of a macro table\<close>

text \<open>
  What the directive processor and the condition evaluator rely on: a table whose lookups follow the
  definitions and removals made before, under an invariant.
\<close>

datatype ('k, 'm) macro_command = Define 'm | Undefine 'k

fun run_commands ::
  "('t \<Rightarrow> 'm \<Rightarrow> 't option) \<Rightarrow> ('t \<Rightarrow> 'k \<Rightarrow> 't) \<Rightarrow> 't \<Rightarrow> ('k, 'm) macro_command list \<Rightarrow> 't option" where
  "run_commands install remove t [] = Some t"
| "run_commands install remove t (Define m # cs) =
     (case install t m of None \<Rightarrow> None | Some t' \<Rightarrow> run_commands install remove t' cs)"
| "run_commands install remove t (Undefine k # cs) = run_commands install remove (remove t k) cs"

text \<open>The specification on finite maps: a definition is kept until it is removed.\<close>

fun command_map :: "('m \<Rightarrow> 'k) \<Rightarrow> ('k \<Rightarrow> 'm option) \<Rightarrow> ('k, 'm) macro_command list \<Rightarrow> ('k \<Rightarrow> 'm option)" where
  "command_map key f [] = f"
| "command_map key f (Define m # cs) =
     command_map key (if f (key m) = None then f(key m \<mapsto> m) else f) cs"
| "command_map key f (Undefine k # cs) = command_map key (f(k := None)) cs"

locale macro_map =
  fixes lookup :: "'t \<Rightarrow> 'k \<Rightarrow> 'm option"
    and install :: "'t \<Rightarrow> 'm \<Rightarrow> 't option"
    and remove :: "'t \<Rightarrow> 'k \<Rightarrow> 't"
    and key :: "'m \<Rightarrow> 'k"
    and same :: "'m \<Rightarrow> 'm \<Rightarrow> bool"
    and wf :: "'t \<Rightarrow> bool"
    and admissible :: "'t \<Rightarrow> 'm \<Rightarrow> bool"
  assumes install_wf: "wf t \<Longrightarrow> admissible t m \<Longrightarrow> install t m = Some t' \<Longrightarrow> wf t'"
    and install_admissible: "install t m = Some t' \<Longrightarrow> wf t \<Longrightarrow> admissible t' x = admissible t x"
    and remove_wf: "wf t \<Longrightarrow> wf (remove t k)"
    and remove_admissible: "admissible (remove t k) x = admissible t x"
    and install_lookup: "wf t \<Longrightarrow> admissible t m \<Longrightarrow> install t m = Some t' \<Longrightarrow>
      lookup t' k = (if k = key m \<and> lookup t k = None then Some m else lookup t k)"
    and install_same: "wf t \<Longrightarrow> install t m = Some t' \<Longrightarrow> lookup t (key m) = Some m' \<Longrightarrow> same m' m"
    and remove_lookup: "wf t \<Longrightarrow> lookup (remove t k) j = (if j = k then None else lookup t j)"
begin

lemma run_lookup:
  assumes "run_commands install remove t cs = Some t'" "wf t"
    and "\<And>m. Define m \<in> set cs \<Longrightarrow> admissible t m"
  shows "wf t' \<and> lookup t' = command_map key (lookup t) cs"
  using assms
proof (induction cs arbitrary: t)
  case Nil
  then show ?case by simp
next
  case (Cons c cs)
  show ?case
  proof (cases c)
    case (Define m)
    with Cons.prems obtain u where u: "install t m = Some u" "run_commands install remove u cs = Some t'"
      by (auto split: option.splits)
    have m: "admissible t m" using Cons.prems(3) Define by simp
    have "wf u" by (rule install_wf [OF Cons.prems(2) m u(1)])
    moreover have "\<And>x. Define x \<in> set cs \<Longrightarrow> admissible u x"
      using Cons.prems(3) install_admissible [OF u(1) Cons.prems(2)] by simp
    ultimately have "wf t' \<and> lookup t' = command_map key (lookup u) cs"
      using Cons.IH [OF u(2)] by blast
    moreover have "lookup u = (if lookup t (key m) = None then (lookup t)(key m \<mapsto> m) else lookup t)"
      using install_lookup [OF Cons.prems(2) m u(1)] by (auto simp: fun_eq_iff)
    ultimately show ?thesis by (simp add: Define)
  next
    case (Undefine k)
    have "wf (remove t k)" by (rule remove_wf [OF Cons.prems(2)])
    moreover have "\<And>x. Define x \<in> set cs \<Longrightarrow> admissible (remove t k) x"
      using Cons.prems(3) by (simp add: remove_admissible)
    ultimately have "wf t' \<and> lookup t' = command_map key (lookup (remove t k)) cs"
      using Cons.IH Cons.prems(1) Undefine by simp
    moreover have "lookup (remove t k) = (lookup t)(k := None)"
      using remove_lookup [OF Cons.prems(2)] by (auto simp: fun_eq_iff)
    ultimately show ?thesis by (simp add: Undefine)
  qed
qed

lemma redefinition_refused:
  assumes "wf t" "lookup t (key m) = Some m'" "\<not> same m' m"
  shows "install t m = None"
  using install_same [of t m] assms by (cases "install t m") auto

end

text \<open>The table of the program is such a map.\<close>

definition install_entry :: "preprocessor \<Rightarrow> preprocessor_macro \<Rightarrow> preprocessor option" where
  "install_entry p m =
     (let (ok, q) = install_macro p (macro_name m) (macro_value m) (macro_parameters m)
            (function_like m) (variadic m) (definition_line m) (definition_column m)
            (definition_source_name m) (definition_column m) DIAGNOSTIC_SYNTAX
      in if ok then Some q else None)"

lemma macro_eta:
  "\<lparr>macro_name = macro_name m, macro_value = macro_value m,
      macro_parameters = macro_parameters m, function_like = function_like m, variadic = variadic m,
      definition_source_name = definition_source_name m, definition_line = definition_line m,
      definition_column = definition_column m\<rparr> = m"
  by (cases m) simp

lemma install_entry_cases:
  assumes "install_entry p m = Some q"
  obtains (known) i where "q = p" "find_macro p (macro_name m) = Some i" "macro_equal (macros p ! i) m"
  | (new) p' where "find_macro p (macro_name m) = None" "reserve_macros p = Some p'"
      "q = p'\<lparr>macros := macros p' @ [m]\<rparr>"
proof -
  from assms have "install_macro p (macro_name m) (macro_value m) (macro_parameters m)
            (function_like m) (variadic m) (definition_line m) (definition_column m)
            (definition_source_name m) (definition_column m) DIAGNOSTIC_SYNTAX = (True, q)"
    by (auto simp: install_entry_def Let_def split: prod.splits if_splits)
  then show thesis
  proof (cases rule: install_macro_cases)
    case (known i)
    then show thesis by (intro that(1) [of i]) (simp_all add: macro_eta)
  next
    case (new p')
    then show thesis by (intro that(2) [of p']) (simp_all add: macro_eta)
  qed simp
qed

lemma install_entry_frame:
  assumes "install_entry p m = Some q" "table_ok p"
  shows "limits q = limits p" "memory q = memory p"
proof -
  from assms(1) have "limits q = limits p \<and> memory q = memory p"
  proof (cases rule: install_entry_cases)
    case (new p')
    then have "limits p' = limits p" "memory p' = memory p"
      using reserve_macros_frame [OF new(2)] by simp_all
    with new(3) show ?thesis by simp
  qed auto
  then show "limits q = limits p" "memory q = memory p" by simp_all
qed

lemma install_entry_table_ok:
  assumes "table_ok p" "macro_ok p m" "install_entry p m = Some q"
  shows "table_ok q"
proof -
  from assms(3) have "install_macro p (macro_name m) (macro_value m) (macro_parameters m)
            (function_like m) (variadic m) (definition_line m) (definition_column m)
            (definition_source_name m) (definition_column m) DIAGNOSTIC_SYNTAX = (True, q)"
    by (auto simp: install_entry_def Let_def split: prod.splits if_splits)
  then show ?thesis
    by (rule install_macro_table_ok) (use assms(1,2) in \<open>auto simp: macro_ok_def\<close>)
qed

lemma lookup_install_entry:
  assumes "table_ok p" "macro_ok p m" "install_entry p m = Some q"
  shows "lookup q k = (if k = macro_name m \<and> lookup p k = None then Some m else lookup p k)"
  using assms(3)
proof (cases rule: install_entry_cases)
  case (known i)
  then have "lookup p (macro_name m) \<noteq> None" by (simp add: lookup_def)
  with known show ?thesis by auto
next
  case (new p')
  have d: "distinct (map macro_name (macros p))" using assms(1) by (simp add: table_ok_def)
  have dq: "distinct (map macro_name (macros q))"
    using install_entry_table_ok [OF assms] by (simp add: table_ok_def)
  have q: "macros q = macros p @ [m]"
    using new(3) reserve_macros_frame [OF new(2)] by simp
  have absent: "\<forall>x \<in> set (macros p). macro_name x \<noteq> macro_name m"
    using new(1) unfolding find_macro_None by (metis imageI)
  have "lookup q k = Some x \<longleftrightarrow> (if k = macro_name m \<and> lookup p k = None then Some m else lookup p k) = Some x" for x
    using absent by (auto simp: lookup_Some_iff [OF d] lookup_Some_iff [OF dq] q lookup_None_iff)
  then show ?thesis by (metis not_Some_eq)
qed

lemma install_entry_macro_ok:
  "install_entry p m = Some q \<Longrightarrow> table_ok p \<Longrightarrow> macro_ok q x = macro_ok p x"
  by (rule macro_ok_limits, rule install_entry_frame)

lemma install_entry_same:
  assumes "table_ok p" "install_entry p m = Some q" "lookup p (macro_name m) = Some m'"
  shows "macro_equal m' m"
  using assms(2)
proof (cases rule: install_entry_cases)
  case (known i)
  with assms(3) show ?thesis by (auto simp: lookup_def)
next
  case (new p')
  with assms(3) show ?thesis by (simp add: lookup_def)
qed

interpretation table: macro_map lookup install_entry undefine macro_name macro_equal table_ok macro_ok
proof (unfold_locales, goal_cases)
  case (1 t m t')
  then show ?case by (rule install_entry_table_ok)
next
  case (2 t m t' x)
  then show ?case by (rule install_entry_macro_ok)
next
  case (3 t k)
  then show ?case by (rule undefine_table_ok)
next
  case (4 t k x)
  then show ?case by (rule macro_ok_limits [OF undefine_frame(2)])
next
  case (5 t m t' k)
  then show ?case by (rule lookup_install_entry)
next
  case (6 t m t' m')
  then show ?case by (rule install_entry_same)
next
  case (7 t k j)
  then show ?case by (rule lookup_undefine)
qed

section \<open>White space in replacement lists\<close>

text \<open>
  The canonical spacing of a replacement list: no white space at the ends, one blank for every run of
  white space inside.
\<close>

function squeeze :: "string \<Rightarrow> string" where
  "squeeze [] = []"
| "squeeze (c # s) =
     (if isspace c then (let t = skip_space s in if t = [] then [] else CHR '' '' # squeeze t)
      else c # squeeze s)"
  by pat_completeness auto
termination
  by (relation "measure length") (auto simp: less_Suc_eq_le)

definition canonical_spacing :: "string \<Rightarrow> string" where
  "canonical_spacing s = squeeze (skip_space s)"

lemma drop_skip_value_space:
  "i \<le> length v \<Longrightarrow> drop (skip_value_space v i) v = skip_space (drop i v) \<and> skip_value_space v i \<le> length v"
proof (induction v i rule: skip_value_space.induct)
  case (1 v i)
  show ?case
  proof (cases "i < length v \<and> isspace (v ! i)")
    case True
    then have "skip_value_space v i = skip_value_space v (i + 1)"
      by (subst skip_value_space.simps) simp
    moreover have "drop i v = v ! i # drop (i + 1) v"
      using True by (simp add: Cons_nth_drop_Suc)
    ultimately show ?thesis using 1 True by simp
  next
    case False
    then have "skip_value_space v i = i"
      by (subst skip_value_space.simps) (simp only: if_False)
    moreover have "skip_space (drop i v) = drop i v"
      using False 1(2) by (cases "i < length v") (auto simp: Cons_nth_drop_Suc [symmetric])
    ultimately show ?thesis using 1(2) by simp
  qed
qed

lemma skip_value_space_eq_iff:
  assumes "i \<le> length v"
  shows "skip_value_space v i = i \<longleftrightarrow> skip_space (drop i v) = drop i v"
proof -
  have "length (drop (skip_value_space v i) v) = length (drop i v) \<longleftrightarrow> skip_value_space v i = i"
    using drop_skip_value_space [OF assms] assms by (metis diff_diff_cancel length_drop)
  then show ?thesis
    using drop_skip_value_space [OF assms] by metis
qed

lemma squeeze_skip:
  assumes "skip_space s = c # t"
  shows "squeeze s = (if skip_space s = s then c # squeeze t else CHR '' '' # c # squeeze t)"
proof (cases s)
  case Nil
  with assms show ?thesis by simp
next
  case (Cons d u)
  have "\<not> isspace c" using skip_space_not_space [of s] assms by simp
  moreover have "isspace d \<Longrightarrow> skip_space u \<noteq> d # u"
    using skip_space_length [of u] by (metis impossible_Cons)
  ultimately show ?thesis using assms by (auto simp: Cons)
qed

lemma squeeze_Nil: "skip_space s = [] \<Longrightarrow> squeeze s = []"
  by (cases s) (auto split: if_splits)

lemma squeeze_ends:
  assumes "skip_space s = [] \<or> skip_space t = []"
  shows "squeeze s = squeeze t \<longleftrightarrow> skip_space s = [] \<and> skip_space t = []"
  using assms squeeze_skip [of s] squeeze_skip [of t] squeeze_Nil [of s] squeeze_Nil [of t]
  by (metis list.exhaust list.discI)

text \<open>After the first character, the comparison is equality of the squeezed texts.\<close>

lemma replacement_equal_from_eq:
  assumes "i \<le> length l" "j \<le> length r" "(0 < i \<and> 0 < j) \<or> (i = 0 \<and> j = 0)"
  shows "replacement_equal_from l r i j \<longleftrightarrow>
    (if i = 0 then squeeze (skip_space l) = squeeze (skip_space r) else squeeze (drop i l) = squeeze (drop j r))"
  using assms
proof (induction l r i j rule: replacement_equal_from.induct)
  case (1 l r i j)
  define i' where "i' = skip_value_space l i"
  define j' where "j' = skip_value_space r j"
  note di = drop_skip_value_space [OF 1(2), folded i'_def]
  note dj = drop_skip_value_space [OF 1(3), folded j'_def]
  note eqs = skip_value_space_eq_iff [OF 1(2), folded i'_def] skip_value_space_eq_iff [OF 1(3), folded j'_def]
  note step = replacement_equal_from.simps [of l r i j, unfolded Let_def, folded i'_def j'_def]
  show ?case
  proof (cases "i' \<ge> length l \<or> j' \<ge> length r")
    case True
    have e: "skip_space (drop i l) = [] \<longleftrightarrow> i' \<ge> length l" "skip_space (drop j r) = [] \<longleftrightarrow> j' \<ge> length r"
      using di dj by (metis drop_eq_Nil)+
    then have "skip_space (drop i l) = [] \<or> skip_space (drop j r) = []" using True by simp
    note ends = squeeze_ends [OF this] squeeze_ends [of "skip_space (drop i l)" "skip_space (drop j r)"]
    then show ?thesis using True 1(4) e by (subst step) auto
  next
    case False
    define c where "c = l ! i'"
    define d where "d = r ! j'"
    have sl: "skip_space (drop i l) = c # drop (Suc i') l"
      using di False unfolding c_def by (metis Cons_nth_drop_Suc not_le)
    have sr: "skip_space (drop j r) = d # drop (Suc j') r"
      using dj False unfolding d_def by (metis Cons_nth_drop_Suc not_le)
    have nc: "\<not> isspace c" "\<not> isspace d"
      using skip_space_not_space [of "drop i l"] skip_space_not_space [of "drop j r"] sl sr by simp_all
    then have blank: "c \<noteq> CHR '' ''" "d \<noteq> CHR '' ''" by (auto simp: char_class)
    have rec: "replacement_equal_from l r i j \<longleftrightarrow>
        \<not> ((i' \<noteq> i) \<noteq> (j' \<noteq> j) \<and> i' \<noteq> 0 \<and> j' \<noteq> 0) \<and> c = d \<and> squeeze (drop (Suc i') l) = squeeze (drop (Suc j') r)"
      using step False 1(1) [OF i'_def j'_def refl refl False, folded c_def d_def]
      by (auto simp: c_def d_def)
    show ?thesis
    proof (cases "i = 0")
      case True
      then show ?thesis using rec 1(4) sl sr nc by auto
    next
      case i: False
      have pos: "i' \<noteq> 0" "j' \<noteq> 0"
        using i 1(4) skip_value_space_ge [of i l] skip_value_space_ge [of j r]
        by (auto simp: i'_def j'_def)
      with i rec blank show ?thesis
        unfolding squeeze_skip [OF sl] squeeze_skip [OF sr] eqs [symmetric] by auto
    qed
  qed
qed

lemma replacement_equal_iff:
  "replacement_equal a b \<longleftrightarrow> canonical_spacing (macro_value a) = canonical_spacing (macro_value b)"
  by (simp add: replacement_equal_def replacement_equal_from_eq canonical_spacing_def)

lemma macro_equal_iff:
  "macro_equal a b \<longleftrightarrow> function_like a = function_like b \<and> variadic a = variadic b \<and>
    macro_parameters a = macro_parameters b \<and>
    canonical_spacing (macro_value a) = canonical_spacing (macro_value b)"
proof -
  have "(length (macro_parameters a) = length (macro_parameters b) \<and>
      (\<forall>i \<in> {0..<length (macro_parameters a)}. macro_parameters a ! i = macro_parameters b ! i)) \<longleftrightarrow>
    macro_parameters a = macro_parameters b"
    by (auto intro: nth_equalityI)
  then show ?thesis unfolding macro_equal_def replacement_equal_iff by blast
qed

section \<open>Properties\<close>

text \<open>
  C21: The macro table implements a finite map. After any sequence of definitions and removals that the
  table accepts, a lookup finds exactly the definition that the sequence leaves for the name (the
  first one since the name was last removed), although removal reorders the array; and the table
  stays well formed: distinct valid names, within its limit and its capacity.
\<close>
theorem macro_table_refines_map:
  assumes "run_commands install_entry undefine p cs = Some q" "table_ok p"
    and "\<And>m. Define m \<in> set cs \<Longrightarrow> macro_ok p m"
  shows "table_ok q \<and> lookup q = command_map macro_name (lookup p) cs"
  using assms by (rule table.run_lookup)

definition sample_preprocessor :: preprocessor where
  "sample_preprocessor = \<lparr>macros = [], macro_capacity = 0, conditionals = [], conditional_capacity = 0,
     conditional_base = 0, current_source_name = ''a.F90'', current_line = 1, pending_source_name = [],
     pending_line = 0, location_pending = False, source_form = SOURCE_FREE, include_depth = 0,
     include_parent = [''a.F90''], continued_character_quote = NUL, continued_hollerith_characters = 0,
     is_active = True,
     limits = \<lparr>max_parse_depth = 512, max_preprocessor_definitions = 1048576, max_macro_arguments = 4096,
       max_macro_expansion_depth = 256, max_preprocessed_bytes = 67108864, max_include_depth = 64,
       max_include_files = 4096, max_input_bytes = 67108864\<rparr>,
     source_names = [''a.F90''], source_name_capacity = 8, include_file_count = 0, input_bytes = 0,
     preprocessed_bytes = 0, memory = (\<lambda>_. True), diagnostics = []\<rparr>"

definition sample_macro :: "string \<Rightarrow> string \<Rightarrow> preprocessor_macro" where
  "sample_macro name val = \<lparr>macro_name = name, macro_value = val, macro_parameters = [],
     function_like = False, variadic = False, definition_source_name = ''a.F90'',
     definition_line = 1, definition_column = 9\<rparr>"

lemma sample_table_ok [simp]: "table_ok sample_preprocessor"
  by (simp add: table_ok_def sample_preprocessor_def)

lemmas sample_evaluation = install_entry_def install_macro_def Let_def valid_macro_name_iff is_name_def
  identifier_start_def identifier_continue_def char_class sample_preprocessor_def sample_macro_def
  reserve_macros_def find_macro_def undefine_def macro_ok_def

theorem macro_table_refines_map_witness:
  "\<exists>q. run_commands install_entry undefine sample_preprocessor
      [Define (sample_macro ''A'' ''1''), Define (sample_macro ''B'' ''2''), Undefine ''A''] = Some q
    \<and> lookup q ''A'' = None \<and> map_option macro_value (lookup q ''B'') = Some ''2''"
proof -
  let ?cs = "[Define (sample_macro ''A'' ''1''), Define (sample_macro ''B'' ''2''), Undefine ''A'']"
  obtain q where q: "run_commands install_entry undefine sample_preprocessor ?cs = Some q"
    by (simp add: sample_evaluation)
  have ok: "\<And>m. Define m \<in> set ?cs \<Longrightarrow> macro_ok sample_preprocessor m"
    by (auto simp: sample_evaluation)
  have "lookup sample_preprocessor = (\<lambda>_. None)"
    by (auto simp: lookup_def find_macro_def sample_preprocessor_def)
  with macro_table_refines_map [OF q sample_table_ok ok] q show ?thesis
    by (auto simp: sample_macro_def)
qed

text \<open>
  C23: Redefining a macro is accepted exactly when the new definition has the same form, the same
  parameters and a replacement list that differs in white space only; either way the table is not
  changed, and a refusal is reported.
\<close>
theorem macro_redefinition_compatible:
  assumes "table_ok p" "lookup p n = Some m" "memory p (length n + 1)" "memory p (length v + 1)"
    and "install_macro p n v ps f va ln c src dc code = (ok, q)"
  shows "(ok \<longleftrightarrow> function_like m = f \<and> variadic m = va \<and> macro_parameters m = ps \<and>
      canonical_spacing (macro_value m) = canonical_spacing v)
    \<and> macros q = macros p \<and> (ok \<longleftrightarrow> diagnostics q = diagnostics p)"
proof -
  obtain i where i: "find_macro p n = Some i" "m = macros p ! i"
    using assms(2) by (auto simp: lookup_def)
  have "valid_macro_name n"
    using assms(1) find_macro_Some [OF i(1)]
    by (auto simp: valid_macro_name_iff table_ok_def macro_ok_def)
  define e where "e = \<lparr>macro_name = n, macro_value = v, macro_parameters = ps, function_like = f,
    variadic = va, definition_source_name = src, definition_line = ln, definition_column = dc\<rparr>"
  have "(ok, q) = (if macro_equal m e then (True, p) else
      (False, diagnose_name p code ln c ''incompatible redefinition of preprocessor macro'' n))"
    unfolding assms(5) [symmetric] install_macro_def Let_def e_def [symmetric]
    using \<open>valid_macro_name n\<close> assms(3,4) by (simp add: i)
  then have "ok = macro_equal m e" "macros q = macros p" "ok \<longleftrightarrow> diagnostics q = diagnostics p"
    by (simp_all split: if_splits)
  then show ?thesis by (simp add: macro_equal_iff e_def)
qed

theorem macro_redefinition_compatible_witness:
  "\<not> fst (install_macro (sample_preprocessor\<lparr>macros := [sample_macro ''A'' ''x + 1''], macro_capacity := 8\<rparr>)
      ''A'' ''x +1'' [] False False 2 1 ''b.F90'' 9 DIAGNOSTIC_SYNTAX) \<and>
   fst (install_macro (sample_preprocessor\<lparr>macros := [sample_macro ''A'' ''x + 1''], macro_capacity := 8\<rparr>)
      ''A'' ''x  +   1'' [] False False 2 1 ''b.F90'' 9 DIAGNOSTIC_SYNTAX)"
proof -
  let ?p = "sample_preprocessor\<lparr>macros := [sample_macro ''A'' ''x + 1''], macro_capacity := 8\<rparr>"
  have p: "table_ok ?p" "lookup ?p ''A'' = Some (sample_macro ''A'' ''x + 1'')" "\<And>n. memory ?p n"
    by (simp_all add: table_ok_def sample_evaluation lookup_def)
  note inst = macro_redefinition_compatible [OF p(1,2) p(3) p(3) prod.collapse [symmetric]]
  show ?thesis
    unfolding inst [THEN conjunct1]
    by (simp add: sample_macro_def canonical_spacing_def char_class)
qed

end
