(* ===== verification/Macro_Define.thy ===== *)
theory Macro_Define
  imports Macro_Table
begin

text \<open>
  \<open>#define\<close> (\<open>f2c_preprocessor_process_define\<close> of \<open>frontend/preprocessor/definition.c\<close>): the operand is
  a name, an optional parameter list that follows it with no white space, and the replacement list.
  The lemmas show that the table stays well formed, that a refusal changes nothing but the reports,
  and that \<open>#define\<close> reads back every well-formed definition that is written out.
\<close>

section \<open>\<open>#define\<close>\<close>

text \<open>
  \<open>append_parameter\<close>: the new parameter array and its capacity, or \<^const>\<open>None\<close> with a report.
  \<open>sizeof(PreprocessorMacroParameter)\<close> is 16 bytes.
\<close>

definition append_parameter ::
  "preprocessor \<Rightarrow> string list \<Rightarrow> nat \<Rightarrow> string \<Rightarrow> nat \<Rightarrow> nat \<Rightarrow>
    preprocessor \<times> (string list \<times> nat) option" where
  "append_parameter p parameters capacity name ln column =
     (if name = ''__VA_ARGS__'' \<or> name = ''__VA_OPT__'' then
        (diagnose_name p DIAGNOSTIC_SYNTAX ln column ''reserved function-like macro parameter'' name, None)
      else if length parameters \<ge> max_macro_arguments (limits p) then
        (diagnose_at p DIAGNOSTIC_RESOURCE_LIMIT ln column
           ''function-like macro parameter limit exceeded'', None)
      else if name \<in> set parameters then
        (diagnose_name p DIAGNOSTIC_SYNTAX ln column ''duplicate function-like macro parameter'' name, None)
      else
        let full = (length parameters = capacity);
            next_capacity = (if capacity = 0 then 4 else capacity * 2 mod (SIZE_MAX + 1))
        in if full \<and> (next_capacity < capacity \<or> next_capacity > SIZE_MAX div 16) then
             (diagnose_at p DIAGNOSTIC_RESOURCE_LIMIT ln column
                ''function-like macro parameter count is too large'', None)
           else if full \<and> \<not> memory p (next_capacity * 16) then
             (diagnose_at p DIAGNOSTIC_OUT_OF_MEMORY ln column
                ''out of memory while parsing function-like macro parameters'', None)
           else if \<not> memory p (length name + 1) then
             (diagnose_at p DIAGNOSTIC_OUT_OF_MEMORY ln column
                ''out of memory while storing a function-like macro parameter'', None)
           else (p, Some (parameters @ [name], if full then next_capacity else capacity)))"

text \<open>
  The loop over the parameters: the parameters, whether there is a final \<open>...\<close>, and the position of
  the closing parenthesis. \<open>rest\<close> is the start of the operand, for the columns of the reports.
\<close>

definition column_of :: "nat \<Rightarrow> cptr \<Rightarrow> cptr \<Rightarrow> nat" where
  "column_of column rest cursor = column + (length rest - length cursor)"

function define_parameters ::
  "preprocessor \<Rightarrow> cptr \<Rightarrow> nat \<Rightarrow> nat \<Rightarrow> cptr \<Rightarrow> string list \<Rightarrow> nat \<Rightarrow>
    preprocessor \<times> (string list \<times> bool \<times> cptr) option" where
  "define_parameters p rest ln column cursor parameters capacity =
     (if peek cursor = CHR '')'' then (p, Some (parameters, False, cursor))
      else if peek cursor = CHR ''.'' \<and> peek (drop 1 cursor) = CHR ''.'' \<and> peek (drop 2 cursor) = CHR ''.'' then
        (let after = skip_space (drop 3 cursor)
         in if peek after \<noteq> CHR '')''
            then (diagnose_at p DIAGNOSTIC_SYNTAX ln (column_of column rest after)
                    ''variadic marker must be the final macro parameter'', None)
            else (p, Some (parameters, True, after)))
      else if \<not> identifier_start (peek cursor) then
        (diagnose_at p DIAGNOSTIC_SYNTAX ln (column_of column rest cursor)
           ''expected a function-like macro parameter'', None)
      else
        (case append_parameter p parameters capacity (word_text cursor) ln (column_of column rest cursor) of
           (p', None) \<Rightarrow> (p', None)
         | (p', Some (parameters', capacity')) \<Rightarrow>
             (let after = skip_space (word_end cursor)
              in if peek after = CHR '')'' then (p', Some (parameters', False, after))
                 else if peek after \<noteq> CHR '','' then
                   (diagnose_at p' DIAGNOSTIC_SYNTAX ln (column_of column rest after)
                      (''expected '' @ [CHR 0x27] @ '','' @ [CHR 0x27] @ '' or '' @ [CHR 0x27] @ '')'' @ [CHR 0x27] @ '' after macro parameter''), None)
                 else
                   let next = skip_space (drop 1 after)
                   in if peek next = CHR '')'' then
                        (diagnose_at p' DIAGNOSTIC_SYNTAX ln (column_of column rest next)
                           ''trailing comma in function-like macro parameters'', None)
                      else define_parameters p' rest ln column next parameters' capacity')))"
  by pat_completeness auto

lemma next_parameter_less:
  assumes "identifier_start (peek s)"
  shows "length (skip_space (drop n (skip_space (word_end s)))) < length s"
proof -
  have "length (skip_space (drop n (skip_space (word_end s)))) \<le> length (word_end s)"
    using skip_space_length [of "drop n (skip_space (word_end s))"] skip_space_length [of "word_end s"]
    by (simp only: length_drop)
  also have "\<dots> < length s"
    using assms by (rule word_end_decreases)
  finally show ?thesis .
qed

termination define_parameters
  by (relation "measure (\<lambda>(p, rest, ln, column, cursor, parameters, capacity). length cursor)")
    (auto intro: next_parameter_less [of _ 1, simplified])

declare define_parameters.simps [simp del]

text \<open>\<open>f2c_preprocessor_process_define\<close>: the status and the state.\<close>

definition process_define :: "preprocessor \<Rightarrow> cptr \<Rightarrow> nat \<Rightarrow> nat \<Rightarrow> bool \<times> preprocessor" where
  "process_define p rest ln column =
     (let name_at = skip_space rest
      in if \<not> identifier_start (peek name_at) then
           (False, diagnose_at p DIAGNOSTIC_SYNTAX ln column ''expected a name after #define'')
         else
           let name = word_text name_at;
               cursor = word_end name_at;
               finish = (\<lambda>p parameters is_function is_variadic cursor.
                 let val = skip_space cursor
                 in install_macro p name val parameters is_function is_variadic ln
                      (column_of column rest name_at) (current_source_name p)
                      (column_of column rest val) DIAGNOSTIC_SYNTAX)
           in if peek cursor = CHR ''('' then
                (case define_parameters p rest ln column (skip_space (drop 1 cursor)) [] 0 of
                   (p', None) \<Rightarrow> (False, p')
                 | (p', Some (parameters, is_variadic, closing)) \<Rightarrow>
                     finish p' parameters True is_variadic (drop 1 closing))
              else finish p [] False False cursor)"


section \<open>What a definition can change\<close>

definition reports_only :: "preprocessor \<Rightarrow> preprocessor \<Rightarrow> bool" where
  "reports_only p q \<longleftrightarrow> q = p\<lparr>diagnostics := diagnostics q\<rparr>"

lemma reports_only_refl [simp, intro]: "reports_only p p"
  by (simp add: reports_only_def)

lemma reports_only_diagnose [simp, intro]:
  "reports_only p (diagnose_at p c l k m)" "reports_only p (diagnose_name p c l k m n)"
  by (simp_all add: reports_only_def diagnose_at_def diagnose_name_def)

lemma reports_only_fields:
  assumes "reports_only p q"
  shows "macros q = macros p" "macro_capacity q = macro_capacity p" "limits q = limits p"
    "memory q = memory p" "current_source_name q = current_source_name p"
proof -
  obtain d where "q = p\<lparr>diagnostics := d\<rparr>" using assms unfolding reports_only_def by (rule that)
  then show "macros q = macros p" "macro_capacity q = macro_capacity p" "limits q = limits p"
    "memory q = memory p" "current_source_name q = current_source_name p" by simp_all
qed

definition parameters_ok :: "preprocessor \<Rightarrow> string list \<Rightarrow> bool" where
  "parameters_ok p ps \<longleftrightarrow>
     (\<forall>x \<in> set ps. is_name x \<and> x \<noteq> ''__VA_ARGS__'' \<and> x \<noteq> ''__VA_OPT__'') \<and> distinct ps \<and>
     length ps \<le> max_macro_arguments (limits p)"

lemma append_parameter_cases:
  assumes "append_parameter p ps cap name ln column = (q, r)"
  shows "(r = None \<and> reports_only p q \<and> diagnostics q \<noteq> diagnostics p) \<or>
    (\<exists>cap'. q = p \<and> r = Some (ps @ [name], cap') \<and> name \<noteq> ''__VA_ARGS__'' \<and> name \<noteq> ''__VA_OPT__'' \<and>
      name \<notin> set ps \<and> length ps < max_macro_arguments (limits p))"
  using assms by (auto simp: append_parameter_def Let_def not_le split: if_splits)

lemma append_parameter_ok:
  assumes "append_parameter p ps cap name ln column = (q, Some (ps', cap'))" "parameters_ok p ps" "is_name name"
  shows "q = p" "parameters_ok p ps'" "ps' = ps @ [name]"
  using append_parameter_cases [OF assms(1)] assms(2,3) by (auto simp: parameters_ok_def)

lemma define_parameters_outcome:
  assumes "define_parameters p rest ln column cursor ps cap = (q, r)" "parameters_ok p ps"
  shows "(r = None \<and> reports_only p q \<and> diagnostics q \<noteq> diagnostics p) \<or>
    (\<exists>ps' va closing. q = p \<and> r = Some (ps', va, closing) \<and> parameters_ok p ps' \<and> peek closing = CHR '')'')"
  using assms
proof (induction p rest ln column cursor ps cap rule: define_parameters.induct)
  case (1 p rest ln column cursor ps cap)
  note step = 1(2) [unfolded define_parameters.simps [of p rest ln column cursor ps cap] Let_def]
  show ?case
  proof (cases "peek cursor = CHR '')'' \<or> (peek cursor = CHR ''.'' \<and> peek (drop 1 cursor) = CHR ''.'' \<and>
      peek (drop 2 cursor) = CHR ''.'') \<or> \<not> identifier_start (peek cursor)")
    case True
    with step 1(3) show ?thesis by (auto split: if_splits)
  next
    case False
    obtain p' r' where a: "append_parameter p ps cap (word_text cursor) ln (column_of column rest cursor) = (p', r')"
      by fastforce
    show ?thesis
    proof (cases r')
      case None
      with step False a append_parameter_cases [OF a] show ?thesis by auto
    next
      case (Some x)
      then obtain ps' cap' where x: "r' = Some (ps', cap')" by (cases x) auto
      have "is_name (word_text cursor)" using False word_text_is_name by blast
      note new = append_parameter_ok [OF a [unfolded x] 1(3) this]
      show ?thesis
        using step False a x new 1(1) [of p' "Some (ps', cap')" "(ps', cap')" ps' cap']
        by (auto split: if_splits)
    qed
  qed
qed

text \<open>The outcome of a \<open>#define\<close>, whatever the operand.\<close>

lemma process_define_outcome:
  assumes "process_define p rest ln column = (ok, q)" "table_ok p"
  shows "table_ok q \<and> limits q = limits p \<and>
    (\<not> ok \<longrightarrow> macros q = macros p \<and> diagnostics q \<noteq> diagnostics p)"
proof (cases "identifier_start (peek (skip_space rest))")
  case False
  with assms show ?thesis by (auto simp: process_define_def Let_def)
next
  case start: True
  define at where "at = skip_space rest"
  define finish where "finish = (\<lambda>p parameters is_function is_variadic cursor.
     install_macro p (word_text at) (skip_space cursor) parameters is_function is_variadic ln
       (column_of column rest at) (current_source_name p) (column_of column rest (skip_space cursor)) DIAGNOSTIC_SYNTAX)"
  have final_step: "table_ok q \<and> limits q = limits p \<and> (\<not> ok \<longrightarrow> macros q = macros p \<and> diagnostics q \<noteq> diagnostics p)"
    if "finish p ps f va cursor = (ok, q)" "parameters_ok p ps" "\<not> f \<longrightarrow> ps = [] \<and> \<not> va" for ps f va cursor
  proof -
    have i: "install_macro p (word_text at) (skip_space cursor) ps f va ln (column_of column rest at)
        (current_source_name p) (column_of column rest (skip_space cursor)) DIAGNOSTIC_SYNTAX = (ok, q)"
      using that(1) by (simp add: finish_def)
    have "\<not> ok \<longrightarrow> macros q = macros p \<and> diagnostics q \<noteq> diagnostics p"
      using i by (cases rule: install_macro_cases) auto
    moreover have "table_ok q \<and> limits q = limits p"
      using install_macro_table_ok [OF i assms(2)] that(2,3) by (simp add: parameters_ok_def)
    ultimately show ?thesis by simp
  qed
  have none: "parameters_ok p []" by (simp add: parameters_ok_def)
  have unfolded: "process_define p rest ln column = (if peek (word_end at) = CHR ''('' then
      (case define_parameters p rest ln column (skip_space (drop 1 (word_end at))) [] 0 of
        (p', None) \<Rightarrow> (False, p')
      | (p', Some (parameters, is_variadic, closing)) \<Rightarrow> finish p' parameters True is_variadic (drop 1 closing))
      else finish p [] False False (word_end at))"
    using start unfolding process_define_def Let_def at_def [symmetric] finish_def by simp
  show ?thesis
  proof (cases "peek (word_end at) = CHR ''(''")
    case False
    with unfolded assms(1) final_step none show ?thesis by auto
  next
    case True
    obtain p' r where d: "define_parameters p rest ln column (skip_space (drop 1 (word_end at))) [] 0 = (p', r)"
      by fastforce
    from define_parameters_outcome [OF d none] show ?thesis
    proof (elim disjE conjE exE)
      assume "r = None" "reports_only p p'" "diagnostics p' \<noteq> diagnostics p"
      moreover from this have "q = p'" "\<not> ok" using unfolded True assms(1) d by auto
      ultimately show ?thesis
        using table_ok_frame [OF assms(2)] reports_only_fields [of p p'] by simp
    next
      fix ps va closing
      assume "p' = p" "r = Some (ps, va, closing)" "parameters_ok p ps"
      with unfolded True assms(1) d show ?thesis by (intro final_step [of ps True va "drop 1 closing"]) auto
    qed
  qed
qed

section \<open>Writing a definition out\<close>

fun join :: "string \<Rightarrow> string list \<Rightarrow> string" where
  "join sep [] = []"
| "join sep [x] = x"
| "join sep (x # y # xs) = x @ sep @ join sep (y # xs)"

definition written_parameters :: "string list \<Rightarrow> bool \<Rightarrow> string" where
  "written_parameters ps va = join '','' (ps @ (if va then [''...''] else []))"

text \<open>The operand of a \<open>#define\<close> that has a given definition.\<close>

definition written_define :: "preprocessor_macro \<Rightarrow> string" where
  "written_define m = macro_name m @
     (if function_like m then ''('' @ written_parameters (macro_parameters m) (variadic m) @ '')'' else []) @
     '' '' @ macro_value m"

lemma punctuation_class [simp]:
  "\<not> identifier_continue CHR ''(''" "\<not> identifier_continue CHR '')''" "\<not> identifier_continue CHR '',''"
  "\<not> identifier_continue CHR '' ''" "\<not> identifier_start CHR ''.''" "\<not> identifier_start CHR '')''"
  "\<not> isspace CHR ''(''" "\<not> isspace CHR '')''" "\<not> isspace CHR '',''" "\<not> isspace CHR ''.''" "isspace CHR '' ''"
  by (simp_all add: identifier_start_def identifier_continue_def char_class)

lemma join_Cons: "join sep (x # xs) = (if xs = [] then x else x @ sep @ join sep xs)"
  by (cases xs) auto

lemma peek_append: "s \<noteq> [] \<Longrightarrow> peek (s @ t) = peek s"
  by (cases s) auto

lemma is_name_peek_not: "is_name x \<Longrightarrow> \<not> identifier_start c \<Longrightarrow> peek (x @ t) \<noteq> c"
  using is_name_peek by metis

lemma append_parameter_succeeds:
  assumes "parameters_ok p (ps @ [name])" "\<And>n. memory p n" "max_macro_arguments (limits p) \<le> 2 ^ 58"
  shows "\<exists>cap'. append_parameter p ps cap name ln column = (p, Some (ps @ [name], cap'))"
proof -
  have len: "length ps < max_macro_arguments (limits p)" using assms(1) by (simp add: parameters_ok_def)
  have "\<not> (length ps = cap \<and> ((if cap = 0 then 4 else cap * 2 mod (SIZE_MAX + 1)) < cap \<or>
      (if cap = 0 then 4 else cap * 2 mod (SIZE_MAX + 1)) > SIZE_MAX div 16))"
    using len assms(3) by (auto simp: mod_less)
  then show ?thesis
    using assms(1,2) len unfolding append_parameter_def Let_def by (auto simp: parameters_ok_def)
qed

lemma define_parameters_named:
  assumes "identifier_start (peek cursor)"
    and "append_parameter p ps cap (word_text cursor) ln (column_of column rest cursor) = (p', Some (ps', cap'))"
    and "skip_space (word_end cursor) = after"
  shows "peek after = CHR '')'' \<Longrightarrow> define_parameters p rest ln column cursor ps cap = (p', Some (ps', False, after))"
    and "peek after = CHR '','' \<Longrightarrow> skip_space (drop 1 after) = next \<Longrightarrow> peek next \<noteq> CHR '')'' \<Longrightarrow>
      define_parameters p rest ln column cursor ps cap = define_parameters p' rest ln column next ps' cap'"
proof -
  have "peek cursor \<noteq> CHR '')''" "peek cursor \<noteq> CHR ''.''"
    using assms(1) punctuation_class(5,6) by metis+
  then show "peek after = CHR '')'' \<Longrightarrow> define_parameters p rest ln column cursor ps cap = (p', Some (ps', False, after))"
    and "peek after = CHR '','' \<Longrightarrow> skip_space (drop 1 after) = next \<Longrightarrow> peek next \<noteq> CHR '')'' \<Longrightarrow>
      define_parameters p rest ln column cursor ps cap = define_parameters p' rest ln column next ps' cap'"
    using assms by (subst define_parameters.simps, simp)+
qed

lemma written_parameters_peek:
  assumes "\<forall>x \<in> set ps. is_name x"
  shows "\<not> isspace (peek (written_parameters ps va @ '')'' @ t))"
    and "ps \<noteq> [] \<or> va \<Longrightarrow> peek (written_parameters ps va @ '')'' @ t) \<noteq> CHR '')''"
proof -
  have "\<not> isspace (peek (written_parameters ps va @ '')'' @ t)) \<and>
    (ps \<noteq> [] \<or> va \<longrightarrow> peek (written_parameters ps va @ '')'' @ t) \<noteq> CHR '')'')"
  proof (cases ps)
    case Nil
    then show ?thesis by (simp add: written_parameters_def)
  next
    case (Cons y ys)
    then have y: "is_name y" using assms by simp
    obtain u where "written_parameters ps va @ '')'' @ t = y @ u"
      by (cases "ys @ (if va then [''...''] else [])") (auto simp: written_parameters_def Cons)
    with is_name_not_space [OF y, of u] is_name_peek_not [OF y, of "CHR '')''" u] show ?thesis by simp
  qed
  then show "\<not> isspace (peek (written_parameters ps va @ '')'' @ t))"
    "ps \<noteq> [] \<or> va \<Longrightarrow> peek (written_parameters ps va @ '')'' @ t) \<noteq> CHR '')''" by simp_all
qed

lemma define_parameters_written:
  assumes "parameters_ok p (acc @ ps)" "\<And>n. memory p n" "max_macro_arguments (limits p) \<le> 2 ^ 58"
  shows "define_parameters p rest ln column (written_parameters ps va @ '')'' @ tail) acc cap =
    (p, Some (acc @ ps, va, '')'' @ tail))"
  using assms(1)
proof (induction ps arbitrary: acc cap)
  case Nil
  then show ?case
    by (subst define_parameters.simps) (simp add: written_parameters_def)
next
  case (Cons x ps)
  have x: "is_name x" using Cons.prems by (simp add: parameters_ok_def)
  define more where "more = written_parameters ps va @ '')'' @ tail"
  define rem where "rem = (if ps = [] \<and> \<not> va then '')'' @ tail else '','' @ more)"
  have written: "written_parameters (x # ps) va @ '')'' @ tail = x @ rem"
    by (auto simp: written_parameters_def join_Cons rem_def more_def)
  have rem: "\<not> identifier_continue (peek rem)" "\<not> isspace (peek rem)"
    by (auto simp: rem_def)
  have "list_all identifier_continue x" using x by (simp add: is_name_def)
  note w = word_of_append [OF this rem(1)]
  note start = is_name_peek [OF x, of rem]
  have ok: "parameters_ok p ((acc @ [x]) @ ps)" "parameters_ok p (acc @ [x])"
    using Cons.prems by (auto simp: parameters_ok_def)
  obtain cap' where a: "append_parameter p acc cap (word_text (x @ rem)) ln (column_of column rest (x @ rem))
      = (p, Some (acc @ [x], cap'))"
    using append_parameter_succeeds [OF ok(2) assms(2,3)] unfolding w(1) by blast
  have after: "skip_space (word_end (x @ rem)) = rem"
    using w skip_space_identity [OF rem(2)] by simp
  note named = define_parameters_named [OF start a after]
  show ?case
  proof (cases "ps = [] \<and> \<not> va")
    case True
    then have "peek rem = CHR '')''" by (simp add: rem_def)
    note named(1) [OF this]
    with True show ?thesis unfolding written by (simp add: rem_def)
  next
    case False
    then have "rem = '','' @ more" unfolding rem_def by (rule if_not_P)
    then have r: "peek rem = CHR '',''" "drop 1 rem = more" by simp_all
    have m: "\<not> isspace (peek more) \<and> peek more \<noteq> CHR '')''"
      using written_parameters_peek [of ps va tail] ok(1) False by (auto simp: parameters_ok_def more_def)
    then have "skip_space (drop 1 rem) = more" using r skip_space_identity by simp
    with named(2) r(1) m have "define_parameters p rest ln column (x @ rem) acc cap
        = define_parameters p rest ln column more (acc @ [x]) cap'"
      by blast
    with Cons.IH [OF ok(1), of cap'] show ?thesis
      unfolding written more_def by simp
  qed
qed

lemma install_entry_new:
  assumes "table_ok p" "lookup p (macro_name e) = None" "is_name (macro_name e)"
    and "length (macros p) < max_preprocessor_definitions (limits p)" "\<And>n. memory p n"
    and "macro_capacity p \<le> 2 ^ 56"
  shows "\<exists>q. install_entry p e = Some q"
proof -
  have "\<exists>q. reserve_macros p = Some q"
    using assms(1,5,6) by (auto simp: reserve_macros_def Let_def table_ok_def)
  then show ?thesis
    using assms(2-5)
    by (auto simp: install_entry_def install_macro_def Let_def valid_macro_name_iff lookup_def)
qed

lemma install_entry_install:
  assumes "install_entry p e = Some q"
  shows "install_macro p (macro_name e) (macro_value e) (macro_parameters e) (function_like e)
    (variadic e) (definition_line e) c (definition_source_name e) (definition_column e) DIAGNOSTIC_SYNTAX = (True, q)"
  using assms by (auto simp: install_entry_def install_macro_def Let_def split: if_splits option.splits)

section \<open>Properties\<close>

text \<open>
  C22: \<open>#define\<close> reads back what is written: for a well-formed macro that is new to the table, within the
  limits and with memory available, processing its written form succeeds and installs a macro
  with the same name, form, parameters and replacement list, at the given position; every other
  lookup is unchanged.
\<close>
theorem define_roundtrip:
  assumes "table_ok p" "macro_ok p m" "lookup p (macro_name m) = None" "\<not> isspace (peek (macro_value m))"
    and "length (macros p) < max_preprocessor_definitions (limits p)" "\<And>n. memory p n"
    and "max_macro_arguments (limits p) \<le> 2 ^ 58" "macro_capacity p \<le> 2 ^ 56"
  shows "\<exists>q. process_define p ('' '' @ written_define m) ln column = (True, q) \<and>
    lookup q = (lookup p)(macro_name m \<mapsto> m\<lparr>definition_source_name := current_source_name p,
      definition_line := ln,
      definition_column := column + 1 + length (written_define m) - length (macro_value m)\<rparr>)"
proof -
  define rest where "rest = '' '' @ written_define m"
  define dcol where "dcol = column + 1 + length (written_define m) - length (macro_value m)"
  define e where "e = m\<lparr>definition_source_name := current_source_name p, definition_line := ln,
    definition_column := dcol\<rparr>"
  have name: "is_name (macro_name m)" and par: "parameters_ok p ([] @ macro_parameters m)"
    using assms(2) by (auto simp: macro_ok_def parameters_ok_def)
  define tail where "tail = '' '' @ macro_value m"
  define args where "args = (if function_like m
    then ''('' @ written_parameters (macro_parameters m) (variadic m) @ '')'' @ tail else tail)"
  have wd: "written_define m = macro_name m @ args"
    by (simp add: written_define_def args_def tail_def)
  have at: "skip_space rest = written_define m"
    using is_name_not_space [OF name, of args] by (simp add: rest_def wd skip_space_identity)
  have "list_all identifier_continue (macro_name m)" "\<not> identifier_continue (peek args)"
    using name by (auto simp: is_name_def args_def tail_def)
  note w = word_of_append [OF this, folded wd]
  have val: "skip_space tail = macro_value m"
    using assms(4) by (simp add: tail_def skip_space_identity)
  have dcol: "column_of column rest (macro_value m) = dcol"
    by (simp add: column_of_def dcol_def rest_def wd args_def tail_def)
  obtain q where q: "install_entry p e = Some q"
    using install_entry_new [OF assms(1) _ _ assms(5) assms(6) assms(8), of e] assms(3) name
    by (auto simp: e_def)
  have fits: "macro_ok p e" using assms(2) by (simp add: e_def macro_ok_def)
  have inst: "install_macro p (macro_name m) (macro_value m) (macro_parameters m) (function_like m) (variadic m)
      ln c (current_source_name p) dcol DIAGNOSTIC_SYNTAX = (True, q)" for c
    using install_entry_install [OF q, of c] by (simp add: e_def)
  have "process_define p rest ln column = (True, q)"
  proof (cases "function_like m")
    case False
    then have "macro_parameters m = []" "\<not> variadic m" using assms(2) by (auto simp: macro_ok_def)
    with False inst show ?thesis
      using is_name_peek [OF name, of args]
      unfolding process_define_def Let_def at w wd [symmetric]
      by (simp add: args_def val dcol) (simp add: tail_def)
  next
    case True
    have sp: "skip_space (drop 1 args) = drop 1 args"
      using written_parameters_peek(1) [of "macro_parameters m" "variadic m" tail] par True
      by (intro skip_space_identity) (simp add: args_def parameters_ok_def)
    have "define_parameters p rest ln column (drop 1 args) [] 0
        = (p, Some (macro_parameters m, variadic m, '')'' @ tail))"
      using define_parameters_written [OF par assms(6,7)] True by (simp add: args_def)
    with True inst show ?thesis
      using is_name_peek [OF name, of args]
      unfolding process_define_def Let_def at w wd [symmetric] sp
      by (simp add: val dcol) (simp add: args_def)
  qed
  moreover have "lookup q = (lookup p)(macro_name m \<mapsto> e)"
    using lookup_install_entry [OF assms(1) fits q] assms(3) by (auto simp: fun_eq_iff e_def)
  ultimately show ?thesis by (auto simp: rest_def e_def dcol_def)
qed

definition sample_function_macro :: preprocessor_macro where
  "sample_function_macro = \<lparr>macro_name = ''F'', macro_value = ''x+y'', macro_parameters = [''x'', ''y''],
     function_like = True, variadic = True, definition_source_name = ''a.F90'',
     definition_line = 7, definition_column = 18\<rparr>"

theorem define_roundtrip_witness:
  "written_define sample_function_macro = ''F(x,y,...) x+y'' \<and>
   (\<exists>q. process_define sample_preprocessor ('' '' @ written_define sample_function_macro) 7 8 = (True, q) \<and>
      lookup q ''F'' \<noteq> None)"
proof -
  have text_of: "written_define sample_function_macro = ''F(x,y,...) x+y''"
    by (simp add: sample_function_macro_def written_define_def written_parameters_def)
  have "\<exists>q. process_define sample_preprocessor ('' '' @ written_define sample_function_macro) 7 8 = (True, q) \<and>
    lookup q = (lookup sample_preprocessor)(macro_name sample_function_macro \<mapsto> sample_function_macro
      \<lparr>definition_source_name := current_source_name sample_preprocessor, definition_line := 7,
       definition_column := 8 + 1 + length (written_define sample_function_macro)
         - length (macro_value sample_function_macro)\<rparr>)"
    by (rule define_roundtrip [OF sample_table_ok])
      (simp_all add: sample_evaluation sample_function_macro_def lookup_def)
  then show ?thesis
    using text_of by (auto simp: sample_function_macro_def)
qed

text \<open>
  C32: Every \<open>#define\<close>, whatever its text and also when memory runs out, leaves a well-formed table; one
  that is refused leaves the macros as they were and reports why.
\<close>
theorem define_keeps_table:
  assumes "process_define p rest ln column = (ok, q)" "table_ok p"
  shows "table_ok q \<and> (\<not> ok \<longrightarrow> macros q = macros p \<and> diagnostics q \<noteq> diagnostics p)"
  using process_define_outcome [OF assms] by blast

theorem define_keeps_table_witness:
  "table_ok (snd (process_define sample_preprocessor '' F(x,x) 1'' 1 8))
    \<and> macros (snd (process_define sample_preprocessor '' F(x,x) 1'' 1 8)) = []"
proof -
  have "macros (snd (process_define sample_preprocessor '' F(x,x) 1'' 1 8)) = []"
    by (simp add: sample_evaluation process_define_def word_end_def word_text_def define_parameters.simps
        append_parameter_def diagnose_name_def)
  with define_keeps_table [OF prod.collapse [symmetric] sample_table_ok, of "'' F(x,x) 1''" 1 8]
  show ?thesis by blast
qed

end
