(* ===== verification/Token_Lexer.thy ===== *)
theory Token_Lexer
  imports Preprocessor_State
begin

text \<open>
  The token model (\<open>frontend/token.h\<close>) and the scanner (\<open>frontend/lexer.c\<close>).

  \<^item> A \<open>const char *\<close> into the text of a line is the suffix of the text that begins there, so
    pointer differences are differences of lengths, and reading is \<^const>\<open>peek\<close>. The texts are
    NUL-terminated and hold no NUL.
  \<^item> A \<open>source_name\<close> may be NULL: \<^typ>\<open>string option\<close>.
  \<^item> A function that returns 1 after moving the stream and 0 without touching it yields
    \<^typ>\<open>'a option\<close>.
  \<^item> The character classes and \<open>identifier_start\<close>, \<open>identifier_continue\<close> are those the
    preprocessor uses; \<open>lexer.c\<close> repeats their definitions.
\<close>

section \<open>Positions, spans and tokens\<close>

record source_position =
  position_source :: "string option"
  position_line :: nat
  position_column :: nat

record source_span =
  span_begin :: source_position
  span_end :: source_position
  spelling_begin :: source_position
  spelling_end :: source_position
  span_has_spelling :: bool

datatype token_kind =
  TOKEN_END | TOKEN_IDENTIFIER | TOKEN_NUMBER | TOKEN_STRING | TOKEN_HOLLERITH | TOKEN_BOZ
| TOKEN_LEFT_PAREN | TOKEN_RIGHT_PAREN | TOKEN_LEFT_BRACKET | TOKEN_RIGHT_BRACKET
| TOKEN_ARRAY_BEGIN | TOKEN_ARRAY_END | TOKEN_COMMA | TOKEN_COLON | TOKEN_DOUBLE_COLON
| TOKEN_SEMICOLON | TOKEN_PERCENT | TOKEN_OPERATOR | TOKEN_INVALID

record token =
  kind :: token_kind
  token_begin :: cptr
  token_length :: nat
  token_line :: nat
  token_column :: nat
  token_span :: source_span

record token_stream =
  stream_source :: cptr
  stream_cursor :: cptr
  stream_line :: nat
  base_column :: nat
  error_at :: "cptr option"
  stream_token :: token

definition null_position :: source_position where
  "null_position = \<lparr>position_source = None, position_line = 0, position_column = 0\<rparr>"

definition null_span :: source_span where
  "null_span = \<lparr>span_begin = null_position, span_end = null_position,
     spelling_begin = null_position, spelling_end = null_position, span_has_spelling = False\<rparr>"

text \<open>The characters of a token.\<close>

definition token_text :: "token \<Rightarrow> string" where
  "token_text t = take (token_length t) (token_begin t)"

definition token_stream_init :: "cptr option \<Rightarrow> nat \<Rightarrow> nat \<Rightarrow> token_stream" where
  "token_stream_init source ln column =
     (let text = (case source of Some s \<Rightarrow> s | None \<Rightarrow> []);
          at = null_position\<lparr>position_line := ln, position_column := column\<rparr>
      in \<lparr>stream_source = text, stream_cursor = text, stream_line = ln, base_column = column,
          error_at = None,
          stream_token = \<lparr>kind = TOKEN_END, token_begin = text, token_length = 0, token_line = ln,
            token_column = column, token_span = null_span\<lparr>span_begin := at, span_end := at\<rparr>\<rparr>\<rparr>)"

section \<open>Comparing a token with a word\<close>

definition token_character_equal :: "char \<Rightarrow> char \<Rightarrow> bool" where
  "token_character_equal a b \<longleftrightarrow> tolower a = tolower b"

function token_equals_from :: "cptr \<Rightarrow> cptr \<Rightarrow> bool" where
  "token_equals_from cursor text =
     (if cursor = [] \<and> text = [] then True
      else let cursor = skip_space cursor
           in if cursor = [] \<or> text = [] then cursor = [] \<and> text = []
              else if token_character_equal (hd cursor) (hd text)
              then token_equals_from (tl cursor) (tl text) else False)"
  by auto
termination by (relation "measure (\<lambda>(cursor, text). length text)") auto

declare token_equals_from.simps [simp del]

definition token_equals :: "token \<Rightarrow> string \<Rightarrow> bool" where
  "token_equals t text = token_equals_from (token_text t) text"

definition token_logical_literal :: "token \<Rightarrow> nat" where
  "token_logical_literal t =
     (if kind t \<noteq> TOKEN_OPERATOR then 0
      else let value = (if CHR ''_'' \<in> set (token_text t)
                        then t\<lparr>token_length := length (takeWhile (\<lambda>c. c \<noteq> CHR ''_'') (token_text t))\<rparr>
                        else t)
           in if token_equals value ''.true.'' then 1
              else if token_equals value ''.false.'' then 2 else 0)"

section \<open>Scanning\<close>

definition set_error :: "token_stream \<Rightarrow> cptr \<Rightarrow> token_stream" where
  "set_error s at = (if error_at s = None then s\<lparr>error_at := Some at\<rparr> else s)"

definition set_kind :: "token_stream \<Rightarrow> token_kind \<Rightarrow> token_stream" where
  "set_kind s k = s\<lparr>stream_token := (stream_token s)\<lparr>kind := k\<rparr>\<rparr>"

definition move_to :: "token_stream \<Rightarrow> cptr \<Rightarrow> token_stream" where
  "move_to s cursor = s\<lparr>stream_cursor := cursor\<rparr>"

definition is_one_of :: "char \<Rightarrow> string \<Rightarrow> bool" where
  "is_one_of c cs \<longleftrightarrow> c \<in> set cs"

definition valid_real_fraction :: "cptr \<Rightarrow> bool" where
  "valid_real_fraction cursor =
     (let after = peek (drop 1 cursor) in
      if \<not> isalpha after then True
      else if is_one_of after ''eEdD''
      then let exponent = peek (drop 2 cursor) in
           isdigit exponent \<or> (is_one_of exponent ''+-'' \<and> isdigit (peek (drop 3 cursor)))
      else is_one_of after ''fF'' \<and> \<not> identifier_continue (peek (drop 2 cursor)))"

text \<open>The library's \<open>strtoull\<close> in base ten at a digit: the value of the digits, saturated, where
  they end, and whether it set \<open>errno\<close> to \<open>ERANGE\<close>.\<close>

definition decimal_value :: "string \<Rightarrow> nat" where
  "decimal_value ds = foldl (\<lambda>n c. 10 * n + (ascii c - 48)) 0 ds"

definition strtoull :: "cptr \<Rightarrow> nat \<times> cptr \<times> bool" where
  "strtoull s =
     (let value = decimal_value (takeWhile isdigit s)
      in (min value SIZE_MAX, dropWhile isdigit s, SIZE_MAX < value))"

definition scan_hollerith :: "token_stream \<Rightarrow> cptr \<Rightarrow> cptr \<Rightarrow> token_stream option" where
  "scan_hollerith s begin_ptr digits_end =
     (if \<not> is_one_of (peek digits_end) ''hH'' \<or> digits_end = begin_ptr then None
      else let (n, end_ptr, range_error) = strtoull begin_ptr in
        if range_error \<or> end_ptr \<noteq> digits_end \<or> SIZE_MAX < n
        then Some (set_kind (move_to (set_error s begin_ptr) (drop 1 digits_end)) TOKEN_INVALID)
        else let payload = drop 1 digits_end; available = length payload in
          if available < n
          then Some (set_kind (move_to (set_error s begin_ptr) (drop available payload)) TOKEN_INVALID)
          else Some (set_kind (move_to s (drop n payload)) TOKEN_HOLLERITH))"

definition scan_exponent :: "token_stream \<Rightarrow> token_stream \<times> bool" where
  "scan_exponent s =
     (if is_one_of (peek (stream_cursor s)) ''eEdDqQ''
      then let exponent = stream_cursor s;
               cursor = drop 1 exponent;
               cursor = (if is_one_of (peek cursor) ''+-'' then drop 1 cursor else cursor);
               valid = isdigit (peek cursor);
               s = (if valid then s else set_error s exponent)
           in (move_to s (dropWhile isdigit cursor), valid)
      else (s, True))"

definition scan_kind_suffix :: "token_stream \<Rightarrow> token_stream \<times> bool" where
  "scan_kind_suffix s =
     (if peek (stream_cursor s) = CHR ''_''
      then let suffix = stream_cursor s;
               cursor = drop 1 suffix;
               valid = identifier_continue (peek cursor);
               s = (if valid then s else set_error s suffix)
           in (move_to s (dropWhile identifier_continue cursor), valid)
      else (s, True))"

definition scan_number :: "token_stream \<Rightarrow> cptr \<Rightarrow> token_stream" where
  "scan_number s begin_ptr =
     (let cursor = stream_cursor s;
          cursor = (if peek cursor = CHR ''.'' then drop 1 cursor else cursor);
          digits_end = dropWhile isdigit cursor;
          s = move_to s digits_end
      in case (if peek begin_ptr \<noteq> CHR ''.'' then scan_hollerith s begin_ptr digits_end else None) of
           Some scanned \<Rightarrow> scanned
         | None \<Rightarrow>
             let s = (if peek digits_end = CHR ''.'' \<and> valid_real_fraction digits_end
                      then move_to s (dropWhile isdigit (drop 1 digits_end)) else s);
                 (s, valid_exponent) = scan_exponent s;
                 (s, valid_suffix) = scan_kind_suffix s;
                 s = (if is_one_of (peek (stream_cursor s)) ''fF''
                      then move_to s (drop 1 (stream_cursor s)) else s)
             in set_kind s (if valid_exponent \<and> valid_suffix then TOKEN_NUMBER else TOKEN_INVALID))"

text \<open>The loop of \<open>scan_string\<close> after the opening quote: the rest, and whether it was closed.\<close>

function string_rest :: "char \<Rightarrow> cptr \<Rightarrow> cptr \<times> bool" where
  "string_rest quote [] = ([], False)"
| "string_rest quote (c # cursor) =
     (if c = quote
      then if peek cursor = quote then string_rest quote (drop 1 cursor) else (cursor, True)
      else string_rest quote cursor)"
  by pat_completeness auto
termination by (relation "measure (\<lambda>(quote, cursor). length cursor)") auto

definition scan_string :: "token_stream \<Rightarrow> cptr \<Rightarrow> token_stream" where
  "scan_string s begin_ptr =
     (let quote = peek (stream_cursor s);
          (cursor, closed) = string_rest quote (drop 1 (stream_cursor s));
          s = set_kind (move_to s cursor) (if closed then TOKEN_STRING else TOKEN_INVALID)
      in if closed then s else set_error s begin_ptr)"

definition character_literal_quote :: "cptr option \<Rightarrow> cptr option" where
  "character_literal_quote ptr =
     (case ptr of None \<Rightarrow> None | Some text \<Rightarrow>
        if is_one_of (peek text) [CHR 0x27, CHR 0x22] then Some text
        else if isdigit (peek text)
        then let cursor = dropWhile isdigit text in
             if peek cursor = CHR ''_'' \<and> is_one_of (peek (drop 1 cursor)) [CHR 0x27, CHR 0x22]
             then Some (drop 1 cursor) else None
        else if \<not> identifier_start (peek text) then None
        else let cursor = dropWhile identifier_continue (drop 1 text);
                 distance = length text - length cursor
             in if distance \<le> 1 \<or> text ! (distance - 1) \<noteq> CHR ''_'' \<or>
                   \<not> is_one_of (peek cursor) [CHR 0x27, CHR 0x22]
                then None else Some cursor)"

definition scan_kind_string :: "token_stream \<Rightarrow> cptr \<Rightarrow> token_stream option" where
  "scan_kind_string s begin_ptr =
     (case character_literal_quote (Some begin_ptr) of None \<Rightarrow> None | Some quote \<Rightarrow>
        if quote = begin_ptr then None else Some (scan_string (move_to s quote) begin_ptr))"

definition isxdigit :: "char \<Rightarrow> bool" where
  "isxdigit c \<longleftrightarrow> isdigit c \<or> (65 \<le> ascii c \<and> ascii c \<le> 70) \<or> (97 \<le> ascii c \<and> ascii c \<le> 102)"

definition valid_boz_digit :: "char \<Rightarrow> char \<Rightarrow> bool" where
  "valid_boz_digit prefix c =
     (if prefix = CHR ''b'' then c = CHR ''0'' \<or> c = CHR ''1''
      else if prefix = CHR ''o'' then 48 \<le> ascii c \<and> ascii c \<le> 55
      else isxdigit c)"

fun boz_digits :: "char \<Rightarrow> char \<Rightarrow> cptr \<Rightarrow> cptr option \<Rightarrow> nat \<Rightarrow> cptr \<times> cptr option \<times> nat" where
  "boz_digits prefix quote [] first_invalid digit_count = ([], first_invalid, digit_count)"
| "boz_digits prefix quote (c # cursor) first_invalid digit_count =
     (if c = quote then (c # cursor, first_invalid, digit_count)
      else boz_digits prefix quote cursor
             (if \<not> valid_boz_digit prefix c \<and> first_invalid = None then Some (c # cursor)
              else first_invalid)
             (digit_count + 1))"

definition scan_boz :: "token_stream \<Rightarrow> cptr \<Rightarrow> token_stream option" where
  "scan_boz s begin_ptr =
     (let prefix = tolower (peek begin_ptr); quote = peek (drop 1 begin_ptr) in
      if \<not> is_one_of prefix ''bozx'' \<or> \<not> is_one_of quote [CHR 0x27, CHR 0x22] then None
      else let (cursor, first_invalid, digit_count) =
                 boz_digits prefix quote (drop 2 begin_ptr) None 0
        in if peek cursor \<noteq> quote
           then Some (set_error (set_kind (move_to s cursor) TOKEN_INVALID) begin_ptr)
           else let s = move_to s (drop 1 cursor) in
             if digit_count = 0 \<or> first_invalid \<noteq> None
             then Some (set_error (set_kind s TOKEN_INVALID)
                          (case first_invalid of Some at \<Rightarrow> at | None \<Rightarrow> drop 2 begin_ptr))
             else Some (set_kind s TOKEN_BOZ))"

section \<open>The next token\<close>

text \<open>The last two assignments of \<open>f2c_token_stream_next\<close>, which every branch but the end of the
  line runs.\<close>

definition finish_token :: "token_stream \<Rightarrow> cptr \<Rightarrow> token_stream" where
  "finish_token s begin_ptr =
     (let t = stream_token s;
          len = length begin_ptr - length (stream_cursor s);
          span = token_span t
      in s\<lparr>stream_token := t\<lparr>token_length := len,
             token_span := span\<lparr>span_end := (span_end span)\<lparr>position_column := token_column t + len\<rparr>\<rparr>\<rparr>\<rparr>)"

definition two_character_operators :: "string list" where
  "two_character_operators = [''**'', ''//'', ''/='', ''=='', ''=>'', ''<='', ''>='', ''<>'']"

text \<open>A dotted operator or logical literal, at its first dot.\<close>

definition scan_dotted :: "token_stream \<Rightarrow> cptr \<Rightarrow> token_stream" where
  "scan_dotted s begin_ptr =
     (let cursor = skip_space (dropWhile isalpha (skip_space (drop 1 begin_ptr))) in
      if peek cursor = CHR ''.''
      then let cursor = drop 1 cursor;
               s = set_kind (move_to s cursor) TOKEN_OPERATOR;
               s = s\<lparr>stream_token := (stream_token s)\<lparr>token_length := length begin_ptr - length cursor\<rparr>\<rparr>
           in if token_logical_literal (stream_token s) \<noteq> 0 \<and> peek cursor = CHR ''_''
              then let after = drop 1 cursor;
                       s = (if identifier_continue (peek after) then s
                            else set_error (set_kind s TOKEN_INVALID) cursor)
                   in move_to s (dropWhile identifier_continue after)
              else s
      else set_error (set_kind (move_to s cursor) TOKEN_INVALID) begin_ptr)"

definition scan_symbol :: "token_stream \<Rightarrow> cptr \<Rightarrow> token_stream" where
  "scan_symbol s begin_ptr =
     (let c = peek begin_ptr; after = peek (drop 1 begin_ptr);
          one = (\<lambda>k. set_kind (move_to s (drop 1 begin_ptr)) k);
          two = (\<lambda>k. set_kind (move_to s (drop 2 begin_ptr)) k)
      in if c = CHR ''('' \<and> after = CHR ''/'' then two TOKEN_ARRAY_BEGIN
         else if c = CHR ''/'' \<and> after = CHR '')'' then two TOKEN_ARRAY_END
         else if c = CHR ''('' then one TOKEN_LEFT_PAREN
         else if c = CHR '')'' then one TOKEN_RIGHT_PAREN
         else if c = CHR ''['' then one TOKEN_LEFT_BRACKET
         else if c = CHR '']'' then one TOKEN_RIGHT_BRACKET
         else if c = CHR '','' then one TOKEN_COMMA
         else if c = CHR '':'' \<and> after = CHR '':'' then two TOKEN_DOUBLE_COLON
         else if c = CHR '':'' then one TOKEN_COLON
         else if c = CHR '';'' then one TOKEN_SEMICOLON
         else if c = CHR ''%'' then one TOKEN_PERCENT
         else if c = CHR ''.'' then scan_dotted s begin_ptr
         else if is_one_of c ''+-*/=<>~''
         then if [c, after] \<in> set two_character_operators then two TOKEN_OPERATOR
              else one TOKEN_OPERATOR
         else set_error (one TOKEN_INVALID) begin_ptr)"

definition scan_word :: "token_stream \<Rightarrow> cptr \<Rightarrow> token_stream" where
  "scan_word s begin_ptr =
     (case scan_kind_string s begin_ptr of Some scanned \<Rightarrow> scanned | None \<Rightarrow>
        case scan_boz s begin_ptr of Some scanned \<Rightarrow> scanned | None \<Rightarrow>
          set_kind (move_to s (dropWhile identifier_continue (drop 1 begin_ptr))) TOKEN_IDENTIFIER)"

definition start_token :: "token_stream \<Rightarrow> token_stream" where
  "start_token s =
     (let begin_ptr = skip_space (stream_cursor s);
          t = stream_token s;
          column = base_column s + (length (stream_source s) - length begin_ptr);
          span = token_span t;
          at = (span_begin span)\<lparr>position_line := stream_line s, position_column := column\<rparr>
      in s\<lparr>stream_cursor := begin_ptr,
           stream_token := t\<lparr>token_begin := begin_ptr, token_length := 0, token_line := stream_line s,
             token_column := column, token_span := span\<lparr>span_begin := at, span_end := at\<rparr>\<rparr>\<rparr>)"

definition scan_token :: "token_stream \<Rightarrow> cptr \<Rightarrow> token_stream" where
  "scan_token s begin_ptr =
     (let c = peek begin_ptr in
      if identifier_start c then scan_word s begin_ptr
      else if isdigit c \<or> (c = CHR ''.'' \<and> isdigit (peek (drop 1 begin_ptr)))
      then case scan_kind_string s begin_ptr of
             Some scanned \<Rightarrow> scanned | None \<Rightarrow> scan_number s begin_ptr
      else if is_one_of c [CHR 0x27, CHR 0x22] then scan_string s begin_ptr
      else scan_symbol s begin_ptr)"

definition token_stream_next :: "token_stream \<Rightarrow> token_stream" where
  "token_stream_next s =
     (let s = start_token s; begin_ptr = stream_cursor s; c = peek begin_ptr in
      if c = NUL \<or> c = CHR ''!''
      then let s = set_kind s TOKEN_END in if c = CHR ''!'' then move_to s [] else s
      else finish_token (scan_token s begin_ptr) begin_ptr)"

end
