(* ===== verification/Source_Map.thy ===== *)
theory Source_Map
  imports Token_Lexer
begin

text \<open>
  Source maps (\<open>frontend/source_map.c\<close>): the runs that map the characters of a normalized text
  back to where they were written (spelling) and where they ended up (expansion).

  \<^item> The array up to \<open>count\<close> is the list of segments; the capacity is kept, so that the reallocation
    path is the code's. \<open>sizeof(F2cSourceMapSegment)\<close> is 88 bytes.
  \<^item> \<open>size_t\<close> sums and products are taken modulo \<open>2^64\<close> by \<open>size_add\<close>, \<open>size_sub\<close> and \<open>size_mul\<close>.
  \<^item> The code passes maps that are not NULL, and the same segment pointers it just read.
\<close>

definition size_add :: "nat \<Rightarrow> nat \<Rightarrow> nat" where
  "size_add a b = (a + b) mod (SIZE_MAX + 1)"

definition size_mul :: "nat \<Rightarrow> nat \<Rightarrow> nat" where
  "size_mul a b = a * b mod (SIZE_MAX + 1)"

definition size_sub :: "nat \<Rightarrow> nat \<Rightarrow> nat" where
  "size_sub a b = (a + (SIZE_MAX + 1 - b)) mod (SIZE_MAX + 1)"

record segment =
  logical_begin :: nat
  segment_length :: nat
  expansion :: source_position
  spelling :: source_position
  expansion_width :: nat
  spelling_width :: nat
  expansion_column_step :: nat
  spelling_column_step :: nat
  has_spelling :: bool

record source_map =
  segments :: "segment list"
  segment_capacity :: nat

section \<open>Operations\<close>

definition same_name :: "string option \<Rightarrow> string option \<Rightarrow> bool" where
  "same_name left right \<longleftrightarrow> left = right"

text \<open>The doubling loop; the capacity it starts from is at least eight.\<close>

function grow_capacity :: "nat \<Rightarrow> nat \<Rightarrow> nat option" where
  "grow_capacity capacity required =
     (if capacity = 0 \<or> required \<le> capacity then Some capacity
      else if SIZE_MAX div 2 < capacity then None
      else grow_capacity (capacity * 2) required)"
  by auto
termination by (relation "measure (\<lambda>(capacity, required). required - capacity)") auto

declare grow_capacity.simps [simp del]

definition reserve_segments :: "(nat \<Rightarrow> bool) \<Rightarrow> source_map \<Rightarrow> nat \<Rightarrow> source_map option" where
  "reserve_segments mem m additional =
     (let n = length (segments m) in
      if SIZE_MAX - n < additional then None
      else let required = n + additional in
        if required \<le> segment_capacity m then Some m
        else case grow_capacity (if segment_capacity m = 0 then 8 else segment_capacity m) required of
            None \<Rightarrow> None
          | Some capacity \<Rightarrow>
              if SIZE_MAX div 88 < capacity then None
              else if \<not> mem (capacity * 88) then None
              else Some (m\<lparr>segment_capacity := capacity\<rparr>))"

definition advanced_column :: "nat \<Rightarrow> nat \<Rightarrow> nat \<Rightarrow> nat" where
  "advanced_column column len step =
     (if step = 0 then column else if SIZE_MAX - column < len then SIZE_MAX else column + len)"

definition source_span_cover :: "source_span option \<Rightarrow> source_span option \<Rightarrow> source_span" where
  "source_span_cover first_span last_span =
     (case (first_span, last_span) of
        (Some f, Some l) \<Rightarrow>
          let spelled_span = span_has_spelling f \<or> span_has_spelling l in
          null_span\<lparr>span_begin := span_begin f, span_end := span_end l,
            span_has_spelling := spelled_span,
            spelling_begin := (if spelled_span
              then if span_has_spelling f then spelling_begin f else span_begin f
              else null_position),
            spelling_end := (if spelled_span
              then if span_has_spelling l then spelling_end l else span_end l
              else null_position)\<rparr>
      | _ \<Rightarrow> null_span)"

text \<open>The condition under which a run continues the last segment.\<close>

definition continues :: "segment \<Rightarrow> segment \<Rightarrow> bool" where
  "continues l s \<longleftrightarrow>
     size_add (logical_begin l) (segment_length l) = logical_begin s \<and>
     position_line (expansion l) = position_line (expansion s) \<and>
     same_name (position_source (expansion l)) (position_source (expansion s)) \<and>
     expansion_column_step l = expansion_column_step s \<and>
     advanced_column (position_column (expansion l)) (segment_length l) (expansion_column_step s) =
       position_column (expansion s) \<and>
     has_spelling l = has_spelling s \<and>
     position_line (spelling l) = position_line (spelling s) \<and>
     same_name (position_source (spelling l)) (position_source (spelling s)) \<and>
     spelling_column_step l = spelling_column_step s \<and>
     advanced_column (position_column (spelling l)) (segment_length l) (spelling_column_step s) =
       position_column (spelling s) \<and>
     (expansion_column_step s \<noteq> 0 \<or> expansion_width l = expansion_width s) \<and>
     (spelling_column_step s \<noteq> 0 \<or> spelling_width l = spelling_width s)"

definition extend_segment :: "segment \<Rightarrow> segment \<Rightarrow> segment" where
  "extend_segment l s =
     l\<lparr>segment_length := size_add (segment_length l) (segment_length s),
       expansion_width := (if expansion_column_step l \<noteq> 0
         then size_add (expansion_width l) (expansion_width s) else expansion_width l),
       spelling_width := (if spelling_column_step l \<noteq> 0
         then size_add (spelling_width l) (spelling_width s) else spelling_width l)\<rparr>"

definition source_map_append ::
  "(nat \<Rightarrow> bool) \<Rightarrow> source_map \<Rightarrow> nat \<Rightarrow> nat \<Rightarrow> source_position \<Rightarrow> nat \<Rightarrow> nat \<Rightarrow>
    source_position \<Rightarrow> nat \<Rightarrow> nat \<Rightarrow> bool \<Rightarrow> bool \<times> source_map" where
  "source_map_append mem m begin_at len expansion_at width expansion_step spelling_at
      spelled_width spelling_step spelled_run =
     (if len = 0 then (True, m)
      else if SIZE_MAX - len < begin_at then (False, m)
      else let s = \<lparr>logical_begin = begin_at, segment_length = len, expansion = expansion_at,
                    spelling = spelling_at, expansion_width = width, spelling_width = spelled_width,
                    expansion_column_step = expansion_step, spelling_column_step = spelling_step,
                    has_spelling = spelled_run\<rparr>
        in if segments m \<noteq> [] \<and> continues (last (segments m)) s
           then (True, m\<lparr>segments := butlast (segments m) @
                             [extend_segment (last (segments m)) s]\<rparr>)
           else case reserve_segments mem m 1 of
               None \<Rightarrow> (False, m)
             | Some m \<Rightarrow> (True, m\<lparr>segments := segments m @ [s]\<rparr>))"

text \<open>The loop of \<open>f2c_source_map_append_slice\<close> over the source, with the count of the characters
  covered so far.\<close>

definition move_column :: "source_position \<Rightarrow> nat \<Rightarrow> nat \<Rightarrow> source_position" where
  "move_column p offset step =
     p\<lparr>position_column := size_add (position_column p) (size_mul offset step)\<rparr>"

definition append_overlap ::
  "(nat \<Rightarrow> bool) \<Rightarrow> source_map \<Rightarrow> nat \<Rightarrow> segment \<Rightarrow> nat \<Rightarrow> nat \<Rightarrow> nat \<Rightarrow> bool \<times> source_map" where
  "append_overlap mem m begin_at s source_begin overlap_begin overlap_end =
     (let offset = overlap_begin - logical_begin s in
      source_map_append mem m (size_sub (size_add begin_at overlap_begin) source_begin)
        (overlap_end - overlap_begin)
        (move_column (expansion s) offset (expansion_column_step s))
        (if expansion_column_step s \<noteq> 0 then overlap_end - overlap_begin else expansion_width s)
        (expansion_column_step s)
        (move_column (spelling s) offset (spelling_column_step s))
        (if spelling_column_step s \<noteq> 0 then overlap_end - overlap_begin else spelling_width s)
        (spelling_column_step s) (has_spelling s))"

definition segment_end :: "segment \<Rightarrow> nat" where
  "segment_end s = size_add (logical_begin s) (segment_length s)"

primrec append_overlaps ::
  "(nat \<Rightarrow> bool) \<Rightarrow> nat \<Rightarrow> nat \<Rightarrow> nat \<Rightarrow> segment list \<Rightarrow> nat \<Rightarrow> source_map \<Rightarrow>
    nat option \<times> source_map" where
  "append_overlaps mem begin_at source_begin source_end [] covered m = (Some covered, m)"
| "append_overlaps mem begin_at source_begin source_end (s # source) covered m =
     (let overlap_begin = max (logical_begin s) source_begin;
          overlap_end = min (segment_end s) source_end
      in if overlap_end \<le> overlap_begin
         then append_overlaps mem begin_at source_begin source_end source covered m
         else case append_overlap mem m begin_at s source_begin overlap_begin overlap_end of
             (False, m) \<Rightarrow> (None, m)
           | (True, m) \<Rightarrow> append_overlaps mem begin_at source_begin source_end source
                            (size_add covered (overlap_end - overlap_begin)) m)"

definition source_map_append_slice ::
  "(nat \<Rightarrow> bool) \<Rightarrow> source_map \<Rightarrow> nat \<Rightarrow> segment list \<Rightarrow> nat \<Rightarrow> nat \<Rightarrow> bool \<times> source_map" where
  "source_map_append_slice mem m begin_at source source_begin len =
     (if SIZE_MAX - len < source_begin \<or> SIZE_MAX - len < begin_at then (False, m)
      else case append_overlaps mem begin_at source_begin (source_begin + len) source 0 m of
             (None, m) \<Rightarrow> (False, m)
           | (Some covered, m) \<Rightarrow> (covered = len, m))"

definition source_map_discard :: "source_map" where
  "source_map_discard = \<lparr>segments = [], segment_capacity = 0\<rparr>"

definition source_map_slice :: "(nat \<Rightarrow> bool) \<Rightarrow> segment list \<Rightarrow> nat \<Rightarrow> nat \<Rightarrow> segment list option" where
  "source_map_slice mem source begin_at len =
     (if len = 0 then None
      else case source_map_append_slice mem source_map_discard 0 source begin_at len of
             (False, _) \<Rightarrow> None
           | (True, m) \<Rightarrow> Some (segments m))"

section \<open>Where a character comes from\<close>

text \<open>What a map says of a character: its expansion and spelling positions, whether it has a
  spelling, and the widths of generated runs, whose columns do not advance.\<close>

type_synonym character_origin =
  "source_position \<times> source_position \<times> bool \<times> nat option \<times> nat option"

definition segment_origin :: "segment \<Rightarrow> nat \<Rightarrow> character_origin" where
  "segment_origin s x =
     (move_column (expansion s) (x - logical_begin s) (expansion_column_step s),
      move_column (spelling s) (x - logical_begin s) (spelling_column_step s),
      has_spelling s,
      if expansion_column_step s = 0 then Some (expansion_width s) else None,
      if spelling_column_step s = 0 then Some (spelling_width s) else None)"

definition covers :: "segment \<Rightarrow> nat \<Rightarrow> bool" where
  "covers s x \<longleftrightarrow> logical_begin s \<le> x \<and> x < logical_begin s + segment_length s"

definition origin :: "segment list \<Rightarrow> nat \<Rightarrow> character_origin option" where
  "origin ss x = map_option (\<lambda>s. segment_origin s x) (List.find (\<lambda>s. covers s x) ss)"

text \<open>Column steps are zero or one, and no position of a run wraps.\<close>

definition segment_ok :: "segment \<Rightarrow> bool" where
  "segment_ok s \<longleftrightarrow> 0 < segment_length s \<and> logical_begin s + segment_length s \<le> SIZE_MAX
     \<and> expansion_column_step s \<le> 1 \<and> spelling_column_step s \<le> 1
     \<and> position_column (expansion s) + segment_length s * expansion_column_step s \<le> SIZE_MAX
     \<and> position_column (spelling s) + segment_length s * spelling_column_step s \<le> SIZE_MAX"

definition ends_by :: "segment list \<Rightarrow> nat \<Rightarrow> bool" where
  "ends_by ss n \<longleftrightarrow> (\<forall>s \<in> set ss. logical_begin s + segment_length s \<le> n)"

definition map_ok :: "segment list \<Rightarrow> bool" where
  "map_ok ss \<longleftrightarrow> list_all segment_ok ss \<and>
     sorted_wrt (\<lambda>s t. logical_begin s + segment_length s \<le> logical_begin t) ss"

lemma size_add_small [simp]: "a + b \<le> SIZE_MAX \<Longrightarrow> size_add a b = a + b"
  by (simp add: size_add_def)

lemma origin_simps [simp]:
  "origin [] x = None"
  "origin (s # ss) x = (if covers s x then Some (segment_origin s x) else origin ss x)"
  by (simp_all add: origin_def)

lemma origin_append: "origin (ss @ ts) x = (case origin ss x of None \<Rightarrow> origin ts x | Some o' \<Rightarrow> Some o')"
  by (induction ss) auto

lemma origin_None_iff: "origin ss x = None \<longleftrightarrow> (\<forall>s \<in> set ss. \<not> covers s x)"
  by (induction ss) auto

lemma ends_by_origin: "ends_by ss n \<Longrightarrow> n \<le> x \<Longrightarrow> origin ss x = None"
  by (fastforce simp: origin_None_iff ends_by_def covers_def)

lemma map_ok_snoc:
  "map_ok (ss @ [s]) \<longleftrightarrow> map_ok ss \<and> segment_ok s \<and> ends_by ss (logical_begin s)"
  by (auto simp: map_ok_def ends_by_def sorted_wrt_append)

lemma map_ok_Cons:
  "map_ok (s # ss) \<longleftrightarrow> segment_ok s \<and> map_ok ss \<and>
     (\<forall>t \<in> set ss. logical_begin s + segment_length s \<le> logical_begin t)"
  by (auto simp: map_ok_def)

lemma move_column_0 [simp]: "position_column p \<le> SIZE_MAX \<Longrightarrow> move_column p n 0 = p"
  by (simp add: move_column_def size_add_def size_mul_def)

lemma move_column_move: "move_column (move_column p a k) b k = move_column p (a + b) k"
  by (simp add: move_column_def size_add_def size_mul_def mod_simps distrib_right add.assoc)

text \<open>The last segment and its continuation read as the segment they are merged into.\<close>

lemma continues_position:
  assumes "advanced_column (position_column p) n k = position_column q" "k \<le> 1"
    and "position_line p = position_line q" "position_source p = position_source q"
    and "position_column p + n * k \<le> SIZE_MAX"
  shows "q = move_column p n k" "position_column q = position_column p + n * k"
proof -
  have k: "k = 0 \<or> k = 1" using assms(2) by auto
  then show *: "position_column q = position_column p + n * k"
    using assms(1,5) by (auto simp: advanced_column_def split: if_splits)
  have "position_column q = size_add (position_column p) (size_mul n k)"
    using * assms(5) by (simp add: size_mul_def)
  with assms(3,4) show "q = move_column p n k" by (cases p; cases q) (simp add: move_column_def)
qed

lemma extend_segment_ok:
  assumes "continues l s" "segment_ok l" "segment_ok s"
  shows "segment_ok (extend_segment l s)" "logical_begin (extend_segment l s) = logical_begin l"
    "segment_length (extend_segment l s) = segment_length l + segment_length s"
    "covers (extend_segment l s) x \<longleftrightarrow> covers l x \<or> covers s x"
    "covers l x \<Longrightarrow> segment_origin (extend_segment l s) x = segment_origin l x"
    "covers s x \<Longrightarrow> segment_origin (extend_segment l s) x = segment_origin s x"
proof -
  have begin_s: "logical_begin s = logical_begin l + segment_length l"
    using assms by (auto simp: continues_def segment_ok_def)
  have "advanced_column (position_column (expansion l)) (segment_length l) (expansion_column_step s) =
      position_column (expansion s)" "expansion_column_step s \<le> 1"
    "position_line (expansion l) = position_line (expansion s)"
    "position_source (expansion l) = position_source (expansion s)"
    "position_column (expansion l) + segment_length l * expansion_column_step s \<le> SIZE_MAX"
    using assms by (simp_all add: continues_def segment_ok_def same_name_def)
  note e = continues_position [OF this]
  have "advanced_column (position_column (spelling l)) (segment_length l) (spelling_column_step s) =
      position_column (spelling s)" "spelling_column_step s \<le> 1"
    "position_line (spelling l) = position_line (spelling s)"
    "position_source (spelling l) = position_source (spelling s)"
    "position_column (spelling l) + segment_length l * spelling_column_step s \<le> SIZE_MAX"
    using assms by (simp_all add: continues_def segment_ok_def same_name_def)
  note p = continues_position [OF this]
  show len: "segment_length (extend_segment l s) = segment_length l + segment_length s"
    using assms begin_s by (simp add: extend_segment_def segment_ok_def)
  show beg: "logical_begin (extend_segment l s) = logical_begin l"
    by (simp add: extend_segment_def)
  have fields: "expansion (extend_segment l s) = expansion l" "spelling (extend_segment l s) = spelling l"
    "expansion_column_step (extend_segment l s) = expansion_column_step s"
    "spelling_column_step (extend_segment l s) = spelling_column_step s"
    "has_spelling (extend_segment l s) = has_spelling s"
    "expansion_column_step s = 0 \<Longrightarrow> expansion_width (extend_segment l s) = expansion_width s"
    "spelling_column_step s = 0 \<Longrightarrow> spelling_width (extend_segment l s) = spelling_width s"
    using assms(1) by (auto simp: extend_segment_def continues_def)
  have left: "expansion_column_step l = expansion_column_step s"
    "spelling_column_step l = spelling_column_step s" "has_spelling l = has_spelling s"
    "expansion_column_step s = 0 \<Longrightarrow> expansion_width l = expansion_width s"
    "spelling_column_step s = 0 \<Longrightarrow> spelling_width l = spelling_width s"
    using assms(1) by (auto simp: continues_def)
  show "covers (extend_segment l s) x \<longleftrightarrow> covers l x \<or> covers s x"
    using len beg begin_s by (auto simp: covers_def)
  show "covers l x \<Longrightarrow> segment_origin (extend_segment l s) x = segment_origin l x"
    using fields left beg by (simp add: segment_origin_def)
  show "covers s x \<Longrightarrow> segment_origin (extend_segment l s) x = segment_origin s x"
    using fields beg begin_s e(1) p(1)
    by (simp add: segment_origin_def covers_def move_column_move)
  show "segment_ok (extend_segment l s)"
    using assms(2,3) len beg begin_s fields e(2) p(2) by (simp add: segment_ok_def distrib_right)
qed

section \<open>Appending a run\<close>

lemma grow_capacity_bounds:
  "grow_capacity c n = Some r \<Longrightarrow> 0 < c \<Longrightarrow> n \<le> r \<and> 0 < r"
  by (induction c n rule: grow_capacity.induct)
    (subst (asm) (2) grow_capacity.simps, auto split: if_splits)

lemma grow_capacity_Some:
  "0 < c \<Longrightarrow> n \<le> SIZE_MAX div 176 \<Longrightarrow> c < 2 * n \<or> c \<le> 8 \<Longrightarrow>
   \<exists>r. grow_capacity c n = Some r \<and> r \<le> SIZE_MAX div 88"
proof (induction c n rule: grow_capacity.induct)
  case (1 c n)
  show ?case
  proof (cases "n \<le> c")
    case True
    with 1 show ?thesis by (subst grow_capacity.simps) auto
  next
    case False
    with 1 have "\<exists>r. grow_capacity (c * 2) n = Some r \<and> r \<le> SIZE_MAX div 88"
      by auto
    with False 1 show ?thesis by (subst grow_capacity.simps) auto
  qed
qed

lemma reserve_segments_keeps: "reserve_segments mem m n = Some m' \<Longrightarrow> segments m' = segments m"
  by (auto simp: reserve_segments_def Let_def split: if_splits option.splits)

lemma reserve_segments_succeeds:
  assumes "\<forall>n. mem n" "length (segments m) < SIZE_MAX div 176"
  shows "\<exists>m'. reserve_segments mem m 1 = Some m'"
proof -
  define c where "c = (if segment_capacity m = 0 then 8 else segment_capacity m)"
  have room: "\<not> SIZE_MAX - length (segments m) < 1" using assms(2) by simp
  show ?thesis
  proof (cases "length (segments m) + 1 \<le> segment_capacity m")
    case True
    with room show ?thesis by (simp add: reserve_segments_def Let_def)
  next
    case False
    have "\<exists>r. grow_capacity c (length (segments m) + 1) = Some r \<and> r \<le> SIZE_MAX div 88"
      using False assms(2) by (intro grow_capacity_Some) (auto simp: c_def)
    with False room assms(1) show ?thesis
      by (auto simp: reserve_segments_def Let_def c_def [symmetric])
  qed
qed

lemma append_run:
  assumes "source_map_append mem m at len e w k e' w' k' sp = (True, m')" "0 < len"
    and s: "s = \<lparr>logical_begin = at, segment_length = len, expansion = e, spelling = e',
      expansion_width = w, spelling_width = w', expansion_column_step = k,
      spelling_column_step = k', has_spelling = sp\<rparr>"
    and ok: "segment_ok s" "map_ok (segments m)" "ends_by (segments m) at"
  shows "map_ok (segments m')" "ends_by (segments m') (at + len)"
    "origin (segments m') x = (if covers s x then Some (segment_origin s x) else origin (segments m) x)"
    "length (segments m') \<le> length (segments m) + 1"
proof -
  have base: "logical_begin s = at" "segment_length s = len" by (simp_all add: s)
  have fits: "\<not> SIZE_MAX - len < at" using ok(1) base by (auto simp: segment_ok_def)
  have beyond: "origin (segments m) x = None" if "covers s x"
    using ok(3) that base by (intro ends_by_origin) (auto simp: covers_def)
  have "map_ok (segments m') \<and> ends_by (segments m') (at + len) \<and>
    origin (segments m') x = (if covers s x then Some (segment_origin s x) else origin (segments m) x) \<and>
    length (segments m') \<le> length (segments m) + 1"
  proof (cases "segments m \<noteq> [] \<and> continues (last (segments m)) s")
    case True
    define l where "l = last (segments m)"
    define ss where "ss = butlast (segments m)"
    have m: "segments m = ss @ [l]" using True by (simp add: l_def ss_def)
    have "source_map_append mem m at len e w k e' w' k' sp =
        (True, m\<lparr>segments := ss @ [extend_segment l s]\<rparr>)"
      unfolding source_map_append_def s [symmetric] Let_def
      using assms(2) fits True by (simp add: l_def ss_def)
    with assms(1) have merged: "segments m' = ss @ [extend_segment l s]" by auto
    have l: "continues l s" "segment_ok l" "map_ok ss" "ends_by ss (logical_begin l)"
      using True ok(2) by (simp_all add: m map_ok_snoc)
    note extended = extend_segment_ok [OF l(1,2) ok(1)]
    have s_begin: "logical_begin s = logical_begin l + segment_length l"
      using l ok(1) by (auto simp: continues_def segment_ok_def)
    have ends: "ends_by (segments m') (at + len)"
      using ok(3) m extended(2,3) s_begin base by (auto simp: merged ends_by_def)
    have "origin (segments m') x =
        (if covers s x then Some (segment_origin s x) else origin (segments m) x)"
      using extended(4-6) [of x] beyond m
      by (auto simp: merged origin_append split: option.splits)
    with extended l ends m show ?thesis by (simp add: merged map_ok_snoc)
  next
    case False
    with assms(2) fits have "source_map_append mem m at len e w k e' w' k' sp =
        (case reserve_segments mem m 1 of None \<Rightarrow> (False, m)
         | Some m \<Rightarrow> (True, m\<lparr>segments := segments m @ [s]\<rparr>))"
      unfolding source_map_append_def s [symmetric] Let_def by auto
    with assms(1) have "segments m' = segments m @ [s]"
      by (auto simp: reserve_segments_keeps split: option.splits)
    with ok base beyond show ?thesis
      by (auto simp: map_ok_snoc origin_append ends_by_def split: option.splits)
  qed
  then show "map_ok (segments m')" "ends_by (segments m') (at + len)"
    "origin (segments m') x = (if covers s x then Some (segment_origin s x) else origin (segments m) x)"
    "length (segments m') \<le> length (segments m) + 1"
    by blast+
qed

lemma append_run_succeeds:
  assumes "\<forall>n. mem n" "length (segments m) < SIZE_MAX div 176" "at + len \<le> SIZE_MAX"
  shows "fst (source_map_append mem m at len e w k e' w' k' sp)"
  using reserve_segments_succeeds [OF assms(1,2)] assms(3)
  by (auto simp: source_map_append_def Let_def)

section \<open>Slices\<close>

text \<open>The run that \<open>append_overlap\<close> appends for the part of \<open>s\<close> from \<open>ob\<close> to \<open>oe\<close>, moved from
  \<open>from_at\<close> to \<open>at\<close>.\<close>

definition moved_run :: "segment \<Rightarrow> nat \<Rightarrow> nat \<Rightarrow> nat \<Rightarrow> nat \<Rightarrow> segment" where
  "moved_run s at from_at ob oe =
     \<lparr>logical_begin = at + (ob - from_at), segment_length = oe - ob,
      expansion = move_column (expansion s) (ob - logical_begin s) (expansion_column_step s),
      spelling = move_column (spelling s) (ob - logical_begin s) (spelling_column_step s),
      expansion_width = (if expansion_column_step s \<noteq> 0 then oe - ob else expansion_width s),
      spelling_width = (if spelling_column_step s \<noteq> 0 then oe - ob else spelling_width s),
      expansion_column_step = expansion_column_step s,
      spelling_column_step = spelling_column_step s, has_spelling = has_spelling s\<rparr>"

lemma move_column_column:
  assumes "position_column p + n * k \<le> SIZE_MAX" "a + b \<le> n"
  shows "position_column (move_column p a k) + b * k \<le> SIZE_MAX"
proof -
  have "a * k + b * k \<le> n * k" using assms(2) by (metis distrib_right mult_le_mono1)
  with assms(1) show ?thesis by (simp add: move_column_def size_mul_def)
qed

lemma moved_run_ok:
  assumes "segment_ok s" "logical_begin s \<le> ob" "ob < oe" "oe \<le> logical_begin s + segment_length s"
    "at + (oe - from_at) \<le> SIZE_MAX" "from_at \<le> ob"
  shows "segment_ok (moved_run s at from_at ob oe)"
    "covers (moved_run s at from_at ob oe) y \<longleftrightarrow> at \<le> y \<and> ob \<le> y - at + from_at \<and> y - at + from_at < oe"
    "covers (moved_run s at from_at ob oe) y \<Longrightarrow>
       segment_origin (moved_run s at from_at ob oe) y = segment_origin s (y - at + from_at)"
proof -
  show c: "covers (moved_run s at from_at ob oe) y \<longleftrightarrow>
      at \<le> y \<and> ob \<le> y - at + from_at \<and> y - at + from_at < oe"
    using assms(3,6) by (auto simp: covers_def moved_run_def)
  have "ob - logical_begin s + (oe - ob) \<le> segment_length s" using assms by simp
  with assms(1) have
    "position_column (move_column (expansion s) (ob - logical_begin s) (expansion_column_step s)) +
       (oe - ob) * expansion_column_step s \<le> SIZE_MAX"
    "position_column (move_column (spelling s) (ob - logical_begin s) (spelling_column_step s)) +
       (oe - ob) * spelling_column_step s \<le> SIZE_MAX"
    by (auto simp: segment_ok_def intro: move_column_column)
  then show "segment_ok (moved_run s at from_at ob oe)"
    using assms by (simp add: segment_ok_def moved_run_def)
  show "segment_origin (moved_run s at from_at ob oe) y = segment_origin s (y - at + from_at)"
    if "covers (moved_run s at from_at ob oe) y"
  proof -
    have "ob - logical_begin s + (y - (at + (ob - from_at))) = y - at + from_at - logical_begin s"
      using that assms(2,6) unfolding c by arith
    then show ?thesis by (simp add: segment_origin_def moved_run_def move_column_move)
  qed
qed

definition known :: "segment list \<Rightarrow> nat \<Rightarrow> bool" where
  "known ss x \<longleftrightarrow> (\<exists>s \<in> set ss. covers s x)"

lemma known_iff: "known ss x \<longleftrightarrow> origin ss x \<noteq> None"
  by (simp only: known_def origin_None_iff) blast

definition covered_in :: "segment list \<Rightarrow> nat \<Rightarrow> nat \<Rightarrow> nat" where
  "covered_in ss a b = card {x \<in> {a..<b}. known ss x}"

lemma covered_in_le: "covered_in ss a b \<le> b - a"
proof -
  have "card {x \<in> {a..<b}. known ss x} \<le> card {a..<b}" by (intro card_mono) auto
  then show ?thesis by (simp add: covered_in_def)
qed

lemma covered_in_full: "covered_in ss a b = b - a \<longleftrightarrow> (\<forall>x \<in> {a..<b}. known ss x)"
proof
  assume "covered_in ss a b = b - a"
  then have "{x \<in> {a..<b}. known ss x} = {a..<b}"
    by (intro card_subset_eq) (auto simp: covered_in_def)
  then show "\<forall>x \<in> {a..<b}. known ss x" by blast
next
  assume "\<forall>x \<in> {a..<b}. known ss x"
  then have "{x \<in> {a..<b}. known ss x} = {a..<b}" by blast
  then show "covered_in ss a b = b - a" by (simp add: covered_in_def)
qed

lemma later_origin:
  "map_ok (s # ss) \<Longrightarrow> covers s x \<Longrightarrow> origin ss x = None"
  by (fastforce simp: map_ok_Cons covers_def origin_None_iff)

lemma covered_in_Cons:
  assumes "map_ok (s # ss)"
  shows "covered_in (s # ss) a b =
    (min (logical_begin s + segment_length s) b - max (logical_begin s) a) + covered_in ss a b"
proof -
  have split: "{x \<in> {a..<b}. known (s # ss) x} =
      {max (logical_begin s) a..<min (logical_begin s + segment_length s) b} \<union>
      {x \<in> {a..<b}. known ss x}"
    by (auto simp: known_def covers_def)
  have "{max (logical_begin s) a..<min (logical_begin s + segment_length s) b} \<inter>
      {x \<in> {a..<b}. known ss x} = {}"
    using later_origin [OF assms] by (auto simp: known_iff covers_def)
  then show ?thesis unfolding covered_in_def split by (subst card_Un_disjoint) auto
qed

lemma shift_begin:
  assumes "sb \<le> ob" "ob \<le> SIZE_MAX" "at + (ob - sb) \<le> SIZE_MAX"
  shows "size_sub (size_add at ob) sb = at + (ob - sb)"
proof -
  have "at + ob + (SIZE_MAX + 1 - sb) = at + (ob - sb) + (SIZE_MAX + 1)"
    using assms(1,2) by simp
  moreover have "size_sub (size_add at ob) sb = (at + ob + (SIZE_MAX + 1 - sb)) mod (SIZE_MAX + 1)"
    unfolding size_sub_def size_add_def mod_add_left_eq ..
  ultimately have "size_sub (size_add at ob) sb = (at + (ob - sb)) mod (SIZE_MAX + 1)"
    by (simp only: mod_add_self2)
  then show ?thesis using assms(3) by simp
qed

text \<open>What the loop leaves: characters the source covers come from there, the others as before.\<close>

lemma append_overlaps_origin:
  assumes "append_overlaps mem at sb se source covered m = (Some tot, m')"
    and "map_ok source" "map_ok (segments m)" "ends_by (segments m) (at + (p - sb))"
    and "sb \<le> p" "\<forall>s \<in> set source. p \<le> max (logical_begin s) sb"
    and "se \<le> SIZE_MAX" "at + (se - sb) \<le> SIZE_MAX" "covered + covered_in source sb se \<le> SIZE_MAX"
  shows "map_ok (segments m') \<and> tot = covered + covered_in source sb se \<and>
    (\<forall>y. origin (segments m') y =
       (if at \<le> y \<and> y - at + sb < se \<and> origin source (y - at + sb) \<noteq> None
        then origin source (y - at + sb) else origin (segments m) y))"
  using assms
proof (induction source arbitrary: covered m p)
  case Nil
  then show ?case by (simp add: covered_in_def known_def)
next
  case (Cons s source)
  define ob where "ob = max (logical_begin s) sb"
  define oe where "oe = min (logical_begin s + segment_length s) se"
  have s_ok: "segment_ok s" "map_ok source" "\<forall>t \<in> set source. logical_begin s + segment_length s \<le> logical_begin t"
    using Cons.prems(2) by (auto simp: map_ok_Cons)
  have seg_end: "segment_end s = logical_begin s + segment_length s"
    using s_ok(1) by (simp add: segment_end_def segment_ok_def)
  have count: "covered_in (s # source) sb se = (oe - ob) + covered_in source sb se"
    using covered_in_Cons [OF Cons.prems(2)] by (simp add: ob_def oe_def)
  show ?case
  proof (cases "oe \<le> ob")
    case True
    have run: "append_overlaps mem at sb se source covered m = (Some tot, m')"
      using Cons.prems(1) True by (simp add: seg_end ob_def oe_def Let_def)
    have no_cover: "\<not> covers s x" if "sb \<le> x" "x < se" for x
      using True that by (auto simp: covers_def ob_def oe_def)
    have "map_ok (segments m') \<and> tot = covered + covered_in source sb se \<and>
      (\<forall>y. origin (segments m') y =
         (if at \<le> y \<and> y - at + sb < se \<and> origin source (y - at + sb) \<noteq> None
          then origin source (y - at + sb) else origin (segments m) y))"
      using run s_ok(2) Cons.prems(3-8) Cons.prems(9) count True by (intro Cons.IH [of covered m p]) auto
    with count True no_cover show ?thesis by auto
  next
    case False
    define n where "n = moved_run s at sb ob oe"
    have range: "logical_begin s \<le> ob" "ob < oe" "oe \<le> logical_begin s + segment_length s"
      "at + (oe - sb) \<le> SIZE_MAX" "sb \<le> ob" "oe \<le> se"
      using False Cons.prems(8) by (auto simp: ob_def oe_def)
    note n = moved_run_ok [OF s_ok(1) range(1-5), folded n_def]
    have shift: "size_sub (size_add at ob) sb = at + (ob - sb)"
      using range(2,4-6) Cons.prems(7) by (intro shift_begin) simp_all
    from Cons.prems(1) False obtain m1 where
      step: "append_overlap mem m at s sb ob oe = (True, m1)" and
      run: "append_overlaps mem at sb se source (size_add covered (oe - ob)) m1 = (Some tot, m')"
      by (auto simp: seg_end ob_def oe_def Let_def split: prod.splits bool.splits)
    from step have step': "source_map_append mem m (logical_begin n) (oe - ob) (expansion n) (expansion_width n)
        (expansion_column_step n) (spelling n) (spelling_width n) (spelling_column_step n)
        (has_spelling n) = (True, m1)"
      by (simp add: append_overlap_def Let_def shift n_def moved_run_def)
    have n_is: "n = \<lparr>logical_begin = logical_begin n, segment_length = oe - ob, expansion = expansion n,
        spelling = spelling n, expansion_width = expansion_width n, spelling_width = spelling_width n,
        expansion_column_step = expansion_column_step n, spelling_column_step = spelling_column_step n,
        has_spelling = has_spelling n\<rparr>" "logical_begin n = at + (ob - sb)"
      by (simp_all add: n_def moved_run_def)
    have "p \<le> ob" using Cons.prems(6) by (simp add: ob_def)
    then have "ends_by (segments m) (logical_begin n)"
      using Cons.prems(4) n_is(2) by (fastforce simp: ends_by_def)
    note appended = append_run [OF step' _ n_is(1) n(1) Cons.prems(3) this]
    have covered': "size_add covered (oe - ob) = covered + (oe - ob)"
      using Cons.prems(9) count by (intro size_add_small) linarith
    have "map_ok (segments m') \<and> tot = size_add covered (oe - ob) + covered_in source sb se \<and>
      (\<forall>y. origin (segments m') y =
         (if at \<le> y \<and> y - at + sb < se \<and> origin source (y - at + sb) \<noteq> None
          then origin source (y - at + sb) else origin (segments m1) y))"
    proof (rule Cons.IH [OF run s_ok(2)])
      show "map_ok (segments m1)" using appended(1) range(2) by simp
      show "ends_by (segments m1) (at + (oe - sb))"
        using appended(2) range(2,5) n_is(2) by simp
      show "sb \<le> oe" using range by simp
      show "\<forall>t \<in> set source. oe \<le> max (logical_begin t) sb" using s_ok(3) range(3) by fastforce
    qed (use Cons.prems(7,8) Cons.prems(9) count covered' in auto)
    then have result: "map_ok (segments m')" "tot = covered + covered_in (s # source) sb se"
      "origin (segments m') y = (if at \<le> y \<and> y - at + sb < se \<and> origin source (y - at + sb) \<noteq> None
          then origin source (y - at + sb)
          else if covers n y then Some (segment_origin n y) else origin (segments m) y)" for y
      using appended(3) range(2) covered' count by auto
    have cover: "covers s (y - at + sb) \<longleftrightarrow> covers n y" if "at \<le> y" "y - at + sb < se" for y
      using that n(2) by (auto simp: covers_def ob_def oe_def)
    have "origin (segments m') y =
       (if at \<le> y \<and> y - at + sb < se \<and> origin (s # source) (y - at + sb) \<noteq> None
        then origin (s # source) (y - at + sb) else origin (segments m) y)" for y
    proof (cases "covers n y")
      case True
      then have "at \<le> y" "y - at + sb < se" using n(2) range(6) by auto
      with True cover have "covers s (y - at + sb)" by blast
      with True \<open>at \<le> y\<close> \<open>y - at + sb < se\<close> later_origin [OF Cons.prems(2)] n(3) show ?thesis
        by (simp add: result(3))
    next
      case False
      with cover show ?thesis by (auto simp: result(3))
    qed
    with result show ?thesis by blast
  qed
qed

lemma append_length:
  "length (segments (snd (source_map_append mem m at len e w k e' w' k' sp))) \<le> length (segments m) + 1"
  by (auto simp: source_map_append_def Let_def reserve_segments_keeps split: option.splits)

lemma append_overlaps_succeeds:
  assumes "\<forall>n. mem n" "length (segments m) + length source < SIZE_MAX div 176"
    and "se \<le> SIZE_MAX" "at + (se - sb) \<le> SIZE_MAX"
  shows "fst (append_overlaps mem at sb se source covered m) \<noteq> None"
  using assms(2)
proof (induction source arbitrary: covered m)
  case Nil
  then show ?case by simp
next
  case (Cons s source)
  define ob where "ob = max (logical_begin s) sb"
  define oe where "oe = min (segment_end s) se"
  show ?case
  proof (cases "oe \<le> ob")
    case True
    with Cons show ?thesis by (simp add: ob_def oe_def)
  next
    case False
    have bounds: "ob \<le> SIZE_MAX" "at + (ob - sb) \<le> SIZE_MAX" "sb \<le> ob" "at + (oe - sb) \<le> SIZE_MAX"
      using False assms(3,4) by (auto simp: ob_def oe_def)
    obtain ok m1 where step: "append_overlap mem m at s sb ob oe = (ok, m1)" by fastforce
    have "at + (ob - sb) + (oe - ob) \<le> SIZE_MAX" "length (segments m) < SIZE_MAX div 176"
      using bounds False Cons.prems by auto
    then have "ok"
      using append_run_succeeds [OF assms(1), of m "at + (ob - sb)" "oe - ob"] step
        shift_begin [OF bounds(3,1,2)] by (simp add: append_overlap_def Let_def) (metis fst_conv)
    moreover have "length (segments m1) \<le> length (segments m) + 1"
      using append_length step unfolding append_overlap_def Let_def by (metis snd_conv)
    then have "fst (append_overlaps mem at sb se source (size_add covered (oe - ob)) m1) \<noteq> None"
      using Cons.prems by (intro Cons.IH) simp
    ultimately show ?thesis using False step by (simp add: ob_def [symmetric] oe_def [symmetric])
  qed
qed

text \<open>
  C8: copying a slice of one source map to the end of another keeps the origin of every character.
  With memory, \<open>f2c_source_map_append_slice\<close> succeeds exactly when the source map knows every
  character of the slice; the destination stays a well-formed map, its old characters keep their
  origins, and each copied character that the source knows has there the expansion position,
  the spelling position and the generated width it had in the source, merged runs included.
\<close>

theorem source_slice_origins:
  assumes "map_ok source" "map_ok (segments m)" "ends_by (segments m) at"
    and "from_at + len \<le> SIZE_MAX" "at + len \<le> SIZE_MAX"
    and "\<forall>n. mem n" "length (segments m) + length source < SIZE_MAX div 176"
    and "source_map_append_slice mem m at source from_at len = (ok, m')"
  shows "(ok \<longleftrightarrow> (\<forall>x \<in> {from_at..<from_at + len}. known source x)) \<and> map_ok (segments m') \<and>
    (\<forall>y. origin (segments m') y =
       (if at \<le> y \<and> y < at + len \<and> known source (y - at + from_at)
        then origin source (y - at + from_at) else origin (segments m) y))"
proof -
  have span: "from_at + len - from_at = len" by simp
  obtain r m1 where run: "append_overlaps mem at from_at (from_at + len) source 0 m = (r, m1)"
    by fastforce
  from append_overlaps_succeeds [OF assms(6,7,4), of at from_at 0] run assms(5)
  obtain n where "r = Some n" by auto
  with run have run: "append_overlaps mem at from_at (from_at + len) source 0 m = (Some n, m1)" by simp
  have "covered_in source from_at (from_at + len) \<le> len"
    using covered_in_le [of source from_at "from_at + len"] by simp
  with assms have done_run: "map_ok (segments m1) \<and> n = 0 + covered_in source from_at (from_at + len) \<and>
    (\<forall>y. origin (segments m1) y =
       (if at \<le> y \<and> y - at + from_at < from_at + len \<and> origin source (y - at + from_at) \<noteq> None
        then origin source (y - at + from_at) else origin (segments m) y))"
    by (intro append_overlaps_origin [OF run, where p = from_at]) auto
  have "\<not> (SIZE_MAX - len < from_at \<or> SIZE_MAX - len < at)" using assms(4,5) by linarith
  with assms(8) run have "m' = m1" "ok \<longleftrightarrow> n = len"
    by (simp_all add: source_map_append_slice_def)
  moreover have "n = len \<longleftrightarrow> (\<forall>x \<in> {from_at..<from_at + len}. known source x)"
    using done_run covered_in_full [of source from_at "from_at + len"] by simp
  moreover have "at \<le> y \<and> y - at + from_at < from_at + len \<longleftrightarrow> at \<le> y \<and> y < at + len" for y
    by auto
  ultimately show ?thesis using done_run by (auto simp: known_iff)
qed

text \<open>Two runs, the second one of generated text that a macro of width three stands for; the slice
  takes the last two characters of the first and the first of the second, and merges into a
  destination that ends with the same line.\<close>

definition example_position :: "nat \<Rightarrow> nat \<Rightarrow> source_position" where
  "example_position ln column =
     \<lparr>position_source = Some ''a.f90'', position_line = ln, position_column = column\<rparr>"

definition example_source :: "segment list" where
  "example_source =
     [\<lparr>logical_begin = 0, segment_length = 4, expansion = example_position 3 7,
        spelling = example_position 3 7, expansion_width = 4, spelling_width = 4,
        expansion_column_step = 1, spelling_column_step = 1, has_spelling = False\<rparr>,
      \<lparr>logical_begin = 4, segment_length = 2, expansion = example_position 3 11,
        spelling = example_position 1 9, expansion_width = 3, spelling_width = 2,
        expansion_column_step = 0, spelling_column_step = 1, has_spelling = True\<rparr>]"

definition example_destination :: "source_map" where
  "example_destination =
     \<lparr>segments = [\<lparr>logical_begin = 0, segment_length = 2, expansion = example_position 3 7,
        spelling = example_position 3 7, expansion_width = 2, spelling_width = 2,
        expansion_column_step = 1, spelling_column_step = 1, has_spelling = False\<rparr>],
      segment_capacity = 8\<rparr>"

lemma source_slice_origins_witness:
  "fst (source_map_append_slice (\<lambda>_. True) example_destination 2 example_source 2 3) \<and>
   origin (segments (snd (source_map_append_slice (\<lambda>_. True) example_destination 2 example_source 2 3))) 3
     = origin example_source 3"
proof -
  obtain ok m' where run:
    "source_map_append_slice (\<lambda>_. True) example_destination 2 example_source 2 3 = (ok, m')"
    by fastforce
  have "map_ok example_source" "map_ok (segments example_destination)"
    "ends_by (segments example_destination) 2"
    by (simp_all add: map_ok_def ends_by_def segment_ok_def example_source_def
        example_destination_def example_position_def)
  moreover have "\<forall>x \<in> {2..<2 + 3}. known example_source x"
    by (auto simp: known_def covers_def example_source_def)
  moreover have "length (segments example_destination) + length example_source < SIZE_MAX div 176"
    by (simp add: example_source_def example_destination_def)
  ultimately have "ok" "origin (segments m') 3 = (if (2::nat) \<le> 3 \<and> (3::nat) < 2 + 3 \<and>
      known example_source (3 - 2 + 2) then origin example_source (3 - 2 + 2)
      else origin (segments example_destination) 3)"
    using source_slice_origins [of example_source example_destination 2 2 3 "\<lambda>_. True" ok m'] run
    by auto
  moreover have "known example_source 3" by (simp add: known_def covers_def example_source_def)
  moreover have "3 - 2 + 2 = (3::nat)" by (rule le_add_diff_inverse2) simp
  ultimately show ?thesis using run by (simp del: One_nat_def diff_numeral_Suc add_2_eq_Suc' add_2_eq_Suc)
qed

end
