(* ===== verification/Macro_Replacement.thy ===== *)
theory Macro_Replacement
  imports Macro_Define Source_Map
begin

text \<open>
  Growing text buffers (\<open>core/support.c\<close>) and the replacement list of a macro with its arguments
  substituted and its \<open>#\<close> and \<open>##\<close> operators applied (\<open>frontend/preprocessor/expansion.c\<close>).

  \<^item> A buffer holds its text, its capacity, its limit and its two flags. The data pointer is NULL
    exactly when the capacity is zero, and the text read from it is then empty.
  \<^item> A function that reports and returns 0 yields \<open>Inl\<close> of the preprocessor with the report; on
    success the preprocessor is the one it was given, and the result is \<open>Inr\<close>.
  \<^item> The arguments of an invocation are given by their texts. The positions that the code keeps
    beside them are not read here.
\<close>

section \<open>Buffers\<close>

record buffer =
  buffer_text :: string
  buffer_capacity :: nat
  buffer_limit :: nat
  limit_exceeded :: bool
  buffer_failed :: bool

definition empty_buffer :: buffer where
  "empty_buffer = \<lparr>buffer_text = [], buffer_capacity = 0, buffer_limit = 0,
     limit_exceeded = False, buffer_failed = False\<rparr>"

text \<open>The doubling loop; the capacity it starts from is at least 256.\<close>

function grow_buffer :: "nat \<Rightarrow> nat \<Rightarrow> nat" where
  "grow_buffer capacity needed =
     (if capacity = 0 \<or> needed \<le> capacity then capacity
      else if SIZE_MAX div 2 < capacity then needed
      else grow_buffer (capacity * 2) needed)"
  by auto
termination by (relation "measure (\<lambda>(capacity, needed). needed - capacity)") auto

declare grow_buffer.simps [simp del]

definition buffer_reserve :: "(nat \<Rightarrow> bool) \<Rightarrow> buffer \<Rightarrow> nat \<Rightarrow> buffer" where
  "buffer_reserve mem b extra =
     (let len = length (buffer_text b) in
      if buffer_limit b \<noteq> 0 \<and> (buffer_limit b < len \<or> buffer_limit b - len < extra)
      then b\<lparr>limit_exceeded := True, buffer_failed := True\<rparr>
      else if buffer_failed b \<or> SIZE_MAX - len - 1 < extra then b\<lparr>buffer_failed := True\<rparr>
      else let needed = len + extra + 1 in
        if needed \<le> buffer_capacity b then b
        else let capacity = grow_buffer (if buffer_capacity b = 0 then 256 else buffer_capacity b) needed
          in if mem capacity then b\<lparr>buffer_capacity := capacity\<rparr> else b\<lparr>buffer_failed := True\<rparr>)"

definition buffer_append :: "(nat \<Rightarrow> bool) \<Rightarrow> buffer \<Rightarrow> string \<Rightarrow> buffer" where
  "buffer_append mem b s =
     (let b = buffer_reserve mem b (length s)
      in if buffer_failed b then b else b\<lparr>buffer_text := buffer_text b @ s\<rparr>)"

definition buffer_take :: "(nat \<Rightarrow> bool) \<Rightarrow> buffer \<Rightarrow> string option" where
  "buffer_take mem b =
     (if buffer_failed b then None
      else if buffer_capacity b = 0 then if mem 1 then Some [] else None
      else Some (buffer_text b))"

lemma buffer_reserve_text [simp]:
  "buffer_text (buffer_reserve mem b n) = buffer_text b"
  "buffer_limit (buffer_reserve mem b n) = buffer_limit b"
  by (simp_all add: buffer_reserve_def Let_def)

lemma buffer_reserve_fails: "buffer_failed b \<Longrightarrow> buffer_failed (buffer_reserve mem b n)"
  by (simp add: buffer_reserve_def Let_def)

text \<open>A buffer without a limit appends whatever is handed to it, as long as there is memory.\<close>

lemma buffer_append_limit [simp]: "buffer_limit (buffer_append mem b s) = buffer_limit b"
  by (simp add: buffer_append_def Let_def)

lemma buffer_append_text:
  "\<not> buffer_failed (buffer_append mem b s) \<Longrightarrow> buffer_text (buffer_append mem b s) = buffer_text b @ s"
  by (auto simp: buffer_append_def Let_def)

lemma buffer_append_failed: "buffer_failed b \<Longrightarrow> buffer_failed (buffer_append mem b s)"
  by (simp add: buffer_append_def Let_def buffer_reserve_fails)

lemma buffer_append_succeeds:
  assumes "\<forall>n. mem n" "\<not> buffer_failed b"
    and "length (buffer_text b) + length s < SIZE_MAX"
    and "buffer_limit b = 0 \<or> length (buffer_text b) + length s \<le> buffer_limit b"
  shows "\<not> buffer_failed (buffer_append mem b s)"
    and "limit_exceeded (buffer_append mem b s) = limit_exceeded b"
  using assms by (auto simp: buffer_append_def buffer_reserve_def Let_def)

section \<open>Literals and parameters\<close>

text \<open>
  \<open>quoted_end\<close>, from after the opening quote: the rest of the text after the literal, whose quote is
  written twice inside it, and whether it is closed.
\<close>

function quoted_end :: "char \<Rightarrow> cptr \<Rightarrow> cptr \<times> bool" where
  "quoted_end quote [] = ([], False)"
| "quoted_end quote (c # s) =
     (if c = quote
      then if s \<noteq> [] \<and> peek s = quote then quoted_end quote (drop 1 s) else (s, True)
      else quoted_end quote s)"
  by pat_completeness auto
termination by (relation "measure (\<lambda>(quote, s). length s)") auto

lemma quoted_end_length [simp]: "length (fst (quoted_end q s)) \<le> length s"
  by (induction q s rule: quoted_end.induct) (auto intro: le_trans [OF _ le_SucI])

definition is_quote :: "char \<Rightarrow> bool" where
  "is_quote c \<longleftrightarrow> ascii c = 39 \<or> ascii c = 34"

text \<open>\<open>macro_parameter\<close>: the index of the parameter and whether it is the variable part.\<close>

fun parameter_from :: "string list \<Rightarrow> nat \<Rightarrow> string \<Rightarrow> nat option" where
  "parameter_from [] index name = None"
| "parameter_from (x # xs) index name = (if x = name then Some index else parameter_from xs (index + 1) name)"

definition macro_parameter :: "preprocessor_macro \<Rightarrow> string \<Rightarrow> (nat \<times> bool) option" where
  "macro_parameter m name =
     (case parameter_from (macro_parameters m) 0 name of
        Some index \<Rightarrow> Some (index, False)
      | None \<Rightarrow>
          if variadic m \<and> name = ''__VA_ARGS__'' then Some (length (macro_parameters m), True) else None)"

function operator_from :: "cptr \<Rightarrow> bool" where
  "operator_from [] = False"
| "operator_from (c # s) =
     (if is_quote c then operator_from (fst (quoted_end c s))
      else if c = CHR ''#'' then True
      else operator_from s)"
  by pat_completeness auto
termination by (relation "measure length") (simp_all add: le_imp_less_Suc)

definition replacement_has_operator :: "preprocessor_macro \<Rightarrow> bool" where
  "replacement_has_operator m = operator_from (macro_value m)"

section \<open>Pieces of the replacement\<close>

definition trim_buffer_space :: "buffer \<Rightarrow> buffer" where
  "trim_buffer_space b = b\<lparr>buffer_text := rev (dropWhile isspace (rev (buffer_text b)))\<rparr>"

definition append_replacement_piece ::
  "(nat \<Rightarrow> bool) \<Rightarrow> buffer \<Rightarrow> string \<Rightarrow> bool \<Rightarrow> buffer \<times> bool" where
  "append_replacement_piece mem b s paste_pending =
     (let piece = (if paste_pending then skip_space s else s)
      in (buffer_append mem b piece, if piece \<noteq> [] then False else paste_pending))"

text \<open>The arguments from the first one of the variable part on, with commas between them.\<close>

fun append_variadic_from :: "(nat \<Rightarrow> bool) \<Rightarrow> bool \<Rightarrow> string list \<Rightarrow> buffer \<times> bool \<Rightarrow> buffer \<times> bool" where
  "append_variadic_from mem is_first [] (b, paste_pending) = (b, paste_pending)"
| "append_variadic_from mem is_first (x # xs) (b, paste_pending) =
     (let (b, paste_pending) =
            (if is_first then (b, paste_pending)
             else append_replacement_piece mem b '', '' paste_pending)
      in append_variadic_from mem False xs (append_replacement_piece mem b x paste_pending))"

definition append_variadic_arguments ::
  "(nat \<Rightarrow> bool) \<Rightarrow> buffer \<Rightarrow> string list \<Rightarrow> nat \<Rightarrow> bool \<Rightarrow> buffer \<times> bool" where
  "append_variadic_arguments mem b arguments first_one paste_pending =
     append_variadic_from mem True (drop first_one arguments) (b, paste_pending)"

text \<open>
  The loop of \<open>append_stringized_argument\<close>: runs of white space become one space, quotes and
  backslashes are escaped. A space is dropped after a character that is a quote.
\<close>

fun stringize_from :: "(nat \<Rightarrow> bool) \<Rightarrow> bool \<Rightarrow> cptr \<Rightarrow> buffer \<Rightarrow> buffer" where
  "stringize_from mem pending_space [] b = b"
| "stringize_from mem pending_space (c # s) b =
     (if isspace c then stringize_from mem True s b
      else
        let b = (if pending_space \<and> buffer_text b \<noteq> [] \<and> ascii (last (buffer_text b)) \<noteq> 34
                 then buffer_append mem b '' '' else b);
            b = (if ascii c = 92 \<or> ascii c = 34 then buffer_append mem b [CHR 0x5C] else b)
        in stringize_from mem False s (buffer_append mem b [c]))"

definition append_stringized_argument ::
  "(nat \<Rightarrow> bool) \<Rightarrow> buffer \<Rightarrow> string list \<Rightarrow> nat \<Rightarrow> bool \<Rightarrow> bool \<Rightarrow> buffer \<times> bool" where
  "append_stringized_argument mem b arguments parameter is_variadic paste_pending =
     (let raw = empty_buffer\<lparr>buffer_limit := buffer_limit b\<rparr>;
          (raw, pending_space) =
            (if is_variadic then append_variadic_arguments mem raw arguments parameter False
             else (buffer_append mem raw (arguments ! parameter), False));
          (b, paste_pending) = append_replacement_piece mem b [CHR 0x22] paste_pending
      in (buffer_append mem (stringize_from mem pending_space (buffer_text raw) b) [CHR 0x22], paste_pending))"

section \<open>The replacement list\<close>

definition diagnose_expansion ::
  "preprocessor \<Rightarrow> diagnostic_code \<Rightarrow> source_position \<Rightarrow> string \<Rightarrow> string \<Rightarrow> preprocessor" where
  "diagnose_expansion p code at message name =
     p\<lparr>diagnostics := diagnostics p @
        [\<lparr>report_code = code, report_source = (case position_source at of Some s \<Rightarrow> s | None \<Rightarrow> []),
          report_line = position_line at, report_begin_column = position_column at,
          report_end_column = position_column at + (if length name \<noteq> 0 then length name else 1),
          report_message = message @ '' '' @ [CHR 0x27] @ take 2147483647 name @ [CHR 0x27]\<rparr>]\<rparr>"

text \<open>A word of the replacement list: an argument, the variable part, or the word itself.\<close>

definition substitute_word ::
  "(nat \<Rightarrow> bool) \<Rightarrow> preprocessor_macro \<Rightarrow> string list \<Rightarrow> string \<Rightarrow> buffer \<Rightarrow> bool \<Rightarrow> buffer \<times> bool" where
  "substitute_word mem m arguments word b paste_pending =
     (case macro_parameter m word of
        None \<Rightarrow> append_replacement_piece mem b word paste_pending
      | Some (parameter, True) \<Rightarrow>
          (fst (append_variadic_arguments mem b arguments parameter paste_pending), False)
      | Some (parameter, False) \<Rightarrow>
          let (b, paste_pending) = append_replacement_piece mem b (arguments ! parameter) paste_pending
          in (b, if arguments ! parameter = [] then False else paste_pending))"

text \<open>
  The loop of \<open>build_operator_replacement\<close> over the rest of the replacement list: the buffer and
  whether a paste is pending at the end.
\<close>

function replace_from ::
  "preprocessor \<Rightarrow> preprocessor_macro \<Rightarrow> string list \<Rightarrow> source_position \<Rightarrow> cptr \<Rightarrow> buffer \<Rightarrow> bool \<Rightarrow> bool \<Rightarrow>
    preprocessor + buffer \<times> bool" where
  "replace_from p m arguments at [] b paste_pending saw_operand = Inr (b, paste_pending)"
| "replace_from p m arguments at (c # s) b paste_pending saw_operand =
     (if is_quote c then
        (let after = fst (quoted_end c s);
             (b, paste_pending) =
               append_replacement_piece (memory p) b (take (length (c # s) - length after) (c # s)) paste_pending
         in replace_from p m arguments at after b paste_pending True)
      else if c = CHR ''#'' \<and> peek s = CHR ''#'' then
        (let b = trim_buffer_space b; after = skip_space (drop 1 s)
         in if \<not> saw_operand \<or> paste_pending then
              Inl (diagnose_expansion p DIAGNOSTIC_SYNTAX at ''invalid leading token-paste operator in'' (macro_name m))
            else if after = [] then
              Inl (diagnose_expansion p DIAGNOSTIC_SYNTAX at ''invalid trailing token-paste operator in'' (macro_name m))
            else replace_from p m arguments at after b True saw_operand)
      else if c = CHR ''#'' then
        (let name_at = skip_space s
         in if \<not> identifier_start (peek name_at) then
              Inl (diagnose_expansion p DIAGNOSTIC_SYNTAX at
                ''stringizing operator does not name a parameter in'' (macro_name m))
            else case macro_parameter m (word_text name_at) of
              None \<Rightarrow> Inl (diagnose_expansion p DIAGNOSTIC_SYNTAX at
                ''stringizing operator does not name a parameter in'' (macro_name m))
            | Some (parameter, is_variadic) \<Rightarrow>
                let (b, paste_pending) =
                      append_stringized_argument (memory p) b arguments parameter is_variadic paste_pending
                in replace_from p m arguments at (word_end name_at) b paste_pending True)
      else if identifier_start c then
        (let (b, paste_pending) =
               substitute_word (memory p) m arguments (word_text (c # s)) b paste_pending
         in replace_from p m arguments at (word_end (c # s)) b paste_pending True)
      else
        (let (b, paste_pending) = append_replacement_piece (memory p) b [c] paste_pending
         in replace_from p m arguments at s b paste_pending (saw_operand \<or> \<not> isspace c)))"
  by pat_completeness auto

lemma after_stringize_less:
  "identifier_start (peek (skip_space s)) \<Longrightarrow> length (word_end (skip_space s)) < Suc (length s)"
  using word_end_decreases [of "skip_space s"] skip_space_length [of s] by linarith

lemma after_paste_less: "length (skip_space (drop (Suc 0) s)) < Suc (length s)"
  using skip_space_length [of "drop (Suc 0) s"] by simp

lemma after_word_less: "identifier_start c \<Longrightarrow> length (word_end (c # s)) < Suc (length s)"
  using word_end_decreases [of "c # s"] by simp

termination replace_from
  by (relation "measure (\<lambda>(p, m, arguments, at, s, b, paste_pending, saw_operand). length s)")
    (auto simp: le_imp_less_Suc after_stringize_less after_paste_less after_word_less)

definition build_operator_replacement ::
  "preprocessor \<Rightarrow> preprocessor_macro \<Rightarrow> string list \<Rightarrow> source_position \<Rightarrow> buffer \<Rightarrow> preprocessor + buffer" where
  "build_operator_replacement p m arguments at b =
     (case replace_from p m arguments at (macro_value m)
        (b\<lparr>buffer_limit := max_preprocessed_bytes (limits p)\<rparr>) False False of
        Inl p \<Rightarrow> Inl p
      | Inr (b, paste_pending) \<Rightarrow>
          if paste_pending then
            Inl (diagnose_expansion p DIAGNOSTIC_SYNTAX at ''invalid trailing token-paste operator in'' (macro_name m))
          else if buffer_failed b \<or> limit_exceeded b then
            Inl (diagnose_expansion p
              (if limit_exceeded b then DIAGNOSTIC_RESOURCE_LIMIT else DIAGNOSTIC_OUT_OF_MEMORY) at
              (if limit_exceeded b then ''function-like macro replacement is too large for''
               else ''out of memory while replacing'') (macro_name m))
          else Inr b)"

end
