(* ===== verification/Cond_Operation.thy ===== *)
theory Cond_Operation
  imports Preprocessor_State
begin

text \<open>
  The arithmetic of \<open>#if\<close> expressions: \<open>frontend/preprocessor/condition/private.h\<close> and
  \<open>operation.c\<close>. A value is an \<open>intmax_t\<close> or a \<open>uintmax_t\<close>, both of 64 bits. The code tests every
  signed operation for overflow before it performs it; the lemmas show that those tests are exact,
  so that each operation is the mathematical one or reports an error, and no C operation with
  undefined behaviour is reached.
\<close>

section \<open>Values and operators\<close>

record integer_value =
  unsigned_part :: u64
  signed_part :: int
  is_unsigned :: bool

definition signed_integer :: "int \<Rightarrow> integer_value" where
  "signed_integer v = \<lparr>unsigned_part = u64 v, signed_part = v, is_unsigned = False\<rparr>"

definition unsigned_integer :: "u64 \<Rightarrow> integer_value" where
  "unsigned_integer v = \<lparr>unsigned_part = v, signed_part = 0, is_unsigned = True\<rparr>"

definition integer_unsigned :: "integer_value \<Rightarrow> u64" where
  "integer_unsigned v = (if is_unsigned v then unsigned_part v else u64 (signed_part v))"

definition signed_from_bits :: "u64 \<Rightarrow> int" where
  "signed_from_bits v =
     (if v \<le> u64 INT64_MAX then sint v else - 1 - sint (- 1 - v))"

definition integer_true :: "integer_value \<Rightarrow> bool" where
  "integer_true v = (if is_unsigned v then unsigned_part v \<noteq> 0 else signed_part v \<noteq> 0)"

definition common_zero :: "integer_value \<Rightarrow> integer_value \<Rightarrow> integer_value" where
  "common_zero l r = (if is_unsigned l \<or> is_unsigned r then unsigned_integer 0 else signed_integer 0)"

datatype condition_operator =
  CONDITION_NONE | CONDITION_ADD | CONDITION_SUBTRACT | CONDITION_MULTIPLY | CONDITION_DIVIDE
| CONDITION_REMAINDER | CONDITION_LEFT_SHIFT | CONDITION_RIGHT_SHIFT | CONDITION_LESS
| CONDITION_LESS_EQUAL | CONDITION_GREATER | CONDITION_GREATER_EQUAL | CONDITION_EQUAL
| CONDITION_NOT_EQUAL | CONDITION_BIT_AND | CONDITION_BIT_XOR | CONDITION_BIT_OR
| CONDITION_LOGICAL_AND | CONDITION_LOGICAL_OR | CONDITION_LOGICAL_NOT | CONDITION_BIT_NOT

section \<open>The parser state\<close>

text \<open>
  \<open>ExpressionParser\<close>. The cursor is the unread part of \<open>text\<close>, so the offset of a position in the
  text is the difference of the lengths.
\<close>

record expression_parser =
  parser_preprocessor :: preprocessor
  parser_text :: cptr
  cursor :: cptr
  parser_line :: nat
  parser_column :: nat
  failed :: bool

definition condition_error_code ::
  "expression_parser \<Rightarrow> diagnostic_code \<Rightarrow> cptr \<Rightarrow> string \<Rightarrow> expression_parser" where
  "condition_error_code parser code at message =
     (if failed parser then parser
      else parser\<lparr>failed := True,
        parser_preprocessor := diagnose_at (parser_preprocessor parser) code (parser_line parser)
          (parser_column parser + (length (parser_text parser) - length at)) message\<rparr>)"

definition expression_error_at :: "expression_parser \<Rightarrow> cptr \<Rightarrow> string \<Rightarrow> expression_parser" where
  "expression_error_at parser at message = condition_error_code parser DIAGNOSTIC_SYNTAX at message"

definition expression_error :: "expression_parser \<Rightarrow> string \<Rightarrow> expression_parser" where
  "expression_error parser message = expression_error_at parser (cursor parser) message"

definition expression_space :: "expression_parser \<Rightarrow> expression_parser" where
  "expression_space parser = parser\<lparr>cursor := skip_space (cursor parser)\<rparr>"

text \<open>\<open>strncmp(cursor, token, strlen(token)) == 0\<close>\<close>

definition at_token :: "cptr \<Rightarrow> string \<Rightarrow> bool" where
  "at_token s token \<longleftrightarrow> take (length token) s = token"

definition expression_consume :: "expression_parser \<Rightarrow> string \<Rightarrow> bool \<times> expression_parser" where
  "expression_consume parser token =
     (let parser = expression_space parser
      in if \<not> at_token (cursor parser) token then (False, parser)
         else (True, parser\<lparr>cursor := drop (length token) (cursor parser)\<rparr>))"

section \<open>Operations\<close>

text \<open>\<open>signed_multiply\<close>; \<^const>\<open>None\<close> is its return 0. C division truncates, as \<open>sdiv\<close> does.\<close>

definition signed_multiply :: "int \<Rightarrow> int \<Rightarrow> int option" where
  "signed_multiply l r =
     (if l = 0 \<or> r = 0 then Some 0
      else if (l = -1 \<and> r = INT64_MIN) \<or> (r = -1 \<and> l = INT64_MIN) then None
      else if (if l > 0 then (if r > 0 then l > INT64_MAX sdiv r else r < INT64_MIN sdiv l)
               else (if r > 0 then l < INT64_MIN sdiv r else l < INT64_MAX sdiv r))
      then None
      else Some (l * r))"

definition integer_compare :: "integer_value \<Rightarrow> integer_value \<Rightarrow> int" where
  "integer_compare left right =
     (if is_unsigned left \<or> is_unsigned right then
        (let l = integer_unsigned left; r = integer_unsigned right
         in if l < r then -1 else of_bool (l > r))
      else if signed_part left < signed_part right then -1
      else of_bool (signed_part left > signed_part right))"

definition condition_unary ::
  "expression_parser \<Rightarrow> condition_operator \<Rightarrow> integer_value \<Rightarrow> bool \<Rightarrow> cptr \<Rightarrow>
    integer_value \<times> expression_parser" where
  "condition_unary parser operation val evaluate at =
     (if operation = CONDITION_ADD then (val, parser)
      else if operation = CONDITION_LOGICAL_NOT then
        (signed_integer (of_bool (evaluate \<and> \<not> integer_true val)), parser)
      else if \<not> evaluate then
        (if is_unsigned val then unsigned_integer 0 else signed_integer 0, parser)
      else if operation = CONDITION_BIT_NOT then
        (if is_unsigned val then unsigned_integer (NOT (unsigned_part val))
         else signed_integer (signed_from_bits (NOT (u64 (signed_part val)))), parser)
      else if operation = CONDITION_SUBTRACT then
        (if is_unsigned val then (unsigned_integer (0 - unsigned_part val), parser)
         else if signed_part val = INT64_MIN then
           (signed_integer 0, expression_error_at parser at ''signed negation overflows intmax_t'')
         else (signed_integer (- signed_part val), parser))
      else (signed_integer 0, expression_error_at parser at ''invalid unary preprocessor operation''))"

definition relational :: "condition_operator set" where
  "relational = {CONDITION_LESS, CONDITION_LESS_EQUAL, CONDITION_GREATER, CONDITION_GREATER_EQUAL,
     CONDITION_EQUAL, CONDITION_NOT_EQUAL}"

fun comparison_holds :: "condition_operator \<Rightarrow> int \<Rightarrow> bool" where
  "comparison_holds CONDITION_LESS c = (c < 0)"
| "comparison_holds CONDITION_LESS_EQUAL c = (c \<le> 0)"
| "comparison_holds CONDITION_GREATER c = (c > 0)"
| "comparison_holds CONDITION_GREATER_EQUAL c = (c \<ge> 0)"
| "comparison_holds CONDITION_EQUAL c = (c = 0)"
| "comparison_holds _ c = (c \<noteq> 0)"

text \<open>The branches of \<open>f2c_condition_binary\<close>, in its order.\<close>

definition condition_shift ::
  "expression_parser \<Rightarrow> condition_operator \<Rightarrow> integer_value \<Rightarrow> integer_value \<Rightarrow> bool \<Rightarrow> cptr \<Rightarrow>
    integer_value \<times> expression_parser" where
  "condition_shift parser operation left right evaluate at =
     (if \<not> evaluate then (left, parser)
      else if (\<not> is_unsigned right \<and> signed_part right < 0) \<or> integer_unsigned right \<ge> 64 then
        (signed_integer 0, expression_error_at parser at ''invalid shift count in preprocessor condition'')
      else
        let count = unat (integer_unsigned right);
            right_shift = (operation = CONDITION_RIGHT_SHIFT)
        in if is_unsigned left then
             (unsigned_integer (if right_shift then drop_bit count (unsigned_part left)
                                else push_bit count (unsigned_part left)), parser)
           else if \<not> right_shift then
             if signed_part left < 0 \<or> (count \<noteq> 0 \<and> signed_part left > drop_bit count INT64_MAX) then
               (signed_integer 0, expression_error_at parser at ''signed left shift overflows intmax_t'')
             else (signed_integer (push_bit count (signed_part left)), parser)
           else
             (signed_integer (if signed_part left \<ge> 0 then drop_bit count (signed_part left)
                              else - 1 - drop_bit count (- 1 - signed_part left)), parser))"

definition condition_unsigned ::
  "expression_parser \<Rightarrow> condition_operator \<Rightarrow> u64 \<Rightarrow> u64 \<Rightarrow> cptr \<Rightarrow> integer_value \<times> expression_parser" where
  "condition_unsigned parser operation l r at =
     (if operation \<in> {CONDITION_DIVIDE, CONDITION_REMAINDER} \<and> r = 0 then
        (signed_integer 0, expression_error_at parser at ''division by zero in preprocessor condition'')
      else case operation of
        CONDITION_ADD \<Rightarrow> (unsigned_integer (l + r), parser)
      | CONDITION_SUBTRACT \<Rightarrow> (unsigned_integer (l - r), parser)
      | CONDITION_MULTIPLY \<Rightarrow> (unsigned_integer (l * r), parser)
      | CONDITION_DIVIDE \<Rightarrow> (unsigned_integer (l div r), parser)
      | CONDITION_REMAINDER \<Rightarrow> (unsigned_integer (l mod r), parser)
      | _ \<Rightarrow> (signed_integer 0, expression_error_at parser at ''invalid binary preprocessor operation''))"

definition condition_signed ::
  "expression_parser \<Rightarrow> condition_operator \<Rightarrow> int \<Rightarrow> int \<Rightarrow> cptr \<Rightarrow> integer_value \<times> expression_parser" where
  "condition_signed parser operation l r at =
     (if operation \<in> {CONDITION_ADD, CONDITION_SUBTRACT} then
        if (operation = CONDITION_ADD \<and> ((r > 0 \<and> l > INT64_MAX - r) \<or> (r < 0 \<and> l < INT64_MIN - r))) \<or>
           (operation = CONDITION_SUBTRACT \<and> ((r < 0 \<and> l > INT64_MAX + r) \<or> (r > 0 \<and> l < INT64_MIN + r)))
        then (signed_integer 0, expression_error_at parser at ''signed addition overflows intmax_t'')
        else (signed_integer (if operation = CONDITION_ADD then l + r else l - r), parser)
      else if operation = CONDITION_MULTIPLY then
        (case signed_multiply l r of
           None \<Rightarrow> (signed_integer 0, expression_error_at parser at ''signed multiplication overflows intmax_t'')
         | Some result \<Rightarrow> (signed_integer result, parser))
      else if operation \<in> {CONDITION_DIVIDE, CONDITION_REMAINDER} then
        if r = 0 then
          (signed_integer 0, expression_error_at parser at ''division by zero in preprocessor condition'')
        else if l = INT64_MIN \<and> r = -1 then
          (signed_integer 0, expression_error_at parser at ''signed division overflows intmax_t'')
        else (signed_integer (if operation = CONDITION_DIVIDE then l sdiv r else l smod r), parser)
      else (signed_integer 0, expression_error_at parser at ''invalid binary preprocessor operation''))"

definition condition_binary ::
  "expression_parser \<Rightarrow> condition_operator \<Rightarrow> integer_value \<Rightarrow> integer_value \<Rightarrow> bool \<Rightarrow> cptr \<Rightarrow>
    integer_value \<times> expression_parser" where
  "condition_binary parser operation left right evaluate at =
     (if operation \<in> {CONDITION_LOGICAL_AND, CONDITION_LOGICAL_OR} then
        (let l = integer_true left; r = integer_true right
         in (signed_integer (of_bool (evaluate \<and>
               (if operation = CONDITION_LOGICAL_AND then l \<and> r else l \<or> r))), parser))
      else if operation \<in> relational then
        (if \<not> evaluate then (signed_integer 0, parser)
         else (signed_integer (of_bool (comparison_holds operation (integer_compare left right))), parser))
      else if operation \<in> {CONDITION_LEFT_SHIFT, CONDITION_RIGHT_SHIFT} then
        condition_shift parser operation left right evaluate at
      else if \<not> evaluate then (common_zero left right, parser)
      else if operation \<in> {CONDITION_BIT_AND, CONDITION_BIT_XOR, CONDITION_BIT_OR} then
        (let l = integer_unsigned left; r = integer_unsigned right;
             bits = (if operation = CONDITION_BIT_AND then l AND r
                     else if operation = CONDITION_BIT_XOR then l XOR r else l OR r)
         in (if is_unsigned left \<or> is_unsigned right then unsigned_integer bits
             else signed_integer (signed_from_bits bits), parser))
      else if is_unsigned left \<or> is_unsigned right then
        condition_unsigned parser operation (integer_unsigned left) (integer_unsigned right) at
      else condition_signed parser operation (signed_part left) (signed_part right) at)"

section \<open>What the operations mean\<close>

definition value_ok :: "integer_value \<Rightarrow> bool" where
  "value_ok v \<longleftrightarrow> in_i64 (signed_part v)"

definition denote :: "integer_value \<Rightarrow> int" where
  "denote v = (if is_unsigned v then uint (unsigned_part v) else signed_part v)"

text \<open>A result in the common type: unsigned results wrap, signed ones must be representable.\<close>

definition fit :: "bool \<Rightarrow> int \<Rightarrow> integer_value option" where
  "fit u x = (if u then Some (unsigned_integer (u64 x))
              else if in_i64 x then Some (signed_integer x) else None)"

text \<open>The usual arithmetic conversions.\<close>

definition operand :: "bool \<Rightarrow> integer_value \<Rightarrow> int" where
  "operand u v = (if u then denote v mod 18446744073709551616 else denote v)"

fun arithmetic_meaning :: "condition_operator \<Rightarrow> bool \<Rightarrow> int \<Rightarrow> int \<Rightarrow> integer_value option" where
  "arithmetic_meaning CONDITION_ADD u l r = fit u (l + r)"
| "arithmetic_meaning CONDITION_SUBTRACT u l r = fit u (l - r)"
| "arithmetic_meaning CONDITION_MULTIPLY u l r = fit u (l * r)"
| "arithmetic_meaning CONDITION_DIVIDE u l r = (if r = 0 then None else fit u (l sdiv r))"
| "arithmetic_meaning CONDITION_REMAINDER u l r =
     (if r = 0 \<or> fit u (l sdiv r) = None then None else fit u (l smod r))"
| "arithmetic_meaning CONDITION_BIT_AND u l r = fit u (l AND r)"
| "arithmetic_meaning CONDITION_BIT_XOR u l r = fit u (l XOR r)"
| "arithmetic_meaning CONDITION_BIT_OR u l r = fit u (l OR r)"
| "arithmetic_meaning CONDITION_LESS u l r = Some (signed_integer (of_bool (l < r)))"
| "arithmetic_meaning CONDITION_LESS_EQUAL u l r = Some (signed_integer (of_bool (l \<le> r)))"
| "arithmetic_meaning CONDITION_GREATER u l r = Some (signed_integer (of_bool (l > r)))"
| "arithmetic_meaning CONDITION_GREATER_EQUAL u l r = Some (signed_integer (of_bool (l \<ge> r)))"
| "arithmetic_meaning CONDITION_EQUAL u l r = Some (signed_integer (of_bool (l = r)))"
| "arithmetic_meaning CONDITION_NOT_EQUAL u l r = Some (signed_integer (of_bool (l \<noteq> r)))"
| "arithmetic_meaning _ u l r = None"

text \<open>The value of a binary operation; \<^const>\<open>None\<close> where C leaves it undefined.\<close>

definition binary_meaning :: "condition_operator \<Rightarrow> integer_value \<Rightarrow> integer_value \<Rightarrow> integer_value option" where
  "binary_meaning operation left right =
     (if operation = CONDITION_LOGICAL_AND then
        Some (signed_integer (of_bool (denote left \<noteq> 0 \<and> denote right \<noteq> 0)))
      else if operation = CONDITION_LOGICAL_OR then
        Some (signed_integer (of_bool (denote left \<noteq> 0 \<or> denote right \<noteq> 0)))
      else if operation = CONDITION_LEFT_SHIFT then
        (if denote right < 0 \<or> denote right \<ge> 64 \<or> denote left < 0 then None
         else fit (is_unsigned left) (denote left * 2 ^ nat (denote right)))
      else if operation = CONDITION_RIGHT_SHIFT then
        (if denote right < 0 \<or> denote right \<ge> 64 then None
         else fit (is_unsigned left) (denote left div 2 ^ nat (denote right)))
      else
        let u = (is_unsigned left \<or> is_unsigned right)
        in arithmetic_meaning operation u (operand u left) (operand u right))"

section \<open>Lemmas\<close>

lemma constructor_simps [simp]:
  "is_unsigned (signed_integer x) = False" "is_unsigned (unsigned_integer y) = True"
  "signed_part (signed_integer x) = x" "unsigned_part (unsigned_integer y) = y"
  "denote (signed_integer x) = x" "denote (unsigned_integer y) = uint y"
  "value_ok (unsigned_integer y)" "value_ok (signed_integer x) = in_i64 x"
  "signed_part (unsigned_integer y) = 0"
  by (simp_all add: signed_integer_def unsigned_integer_def denote_def value_ok_def in_i64_def)

lemma integer_true_denote: "integer_true v \<longleftrightarrow> denote v \<noteq> 0"
  by (simp add: integer_true_def denote_def uint_0_iff)

lemma uint_integer_unsigned: "uint (integer_unsigned v) = denote v mod 18446744073709551616"
  using uint_lt_2p64 [of "unsigned_part v"] by (simp add: integer_unsigned_def denote_def uint_u64)

lemma signed_from_bits_sint: "signed_from_bits v = sint v"
proof (cases "uint v \<le> INT64_MAX")
  case True
  then show ?thesis by (simp add: signed_from_bits_def word_le_def)
next
  case False
  have c: "uint (- 1 - v) = 18446744073709551615 - uint v"
    using uint_sub_lem [of v "- 1"] uint_lt_2p64 [of v] by (simp add: uint_minus_one_u64)
  then have "sint (- 1 - v) = 18446744073709551615 - uint v"
    using False by (subst sint_small) simp_all
  moreover have "v = u64 (uint v - 18446744073709551616)"
    by (rule word_uint_eqI) (use uint_lt_2p64 [of v] in \<open>simp add: uint_u64 mod_diff_right_eq [symmetric]\<close>)
  moreover have "in_i64 (uint v - 18446744073709551616)"
    using False uint_lt_2p64 [of v] by (simp add: in_i64_def)
  ultimately have "sint v = uint v - 18446744073709551616"
    using sint_u64_of_i64 by metis
  with \<open>sint (- 1 - v) = _\<close> show ?thesis using False by (simp add: signed_from_bits_def word_le_def)
qed

lemma sdiv_neg_right: "(a :: int) sdiv (- b) = - (a sdiv b)"
  by (simp add: signed_divide_int_def sgn_minus)

lemma sdiv_neg_left: "(- a) sdiv b = - ((a :: int) sdiv b)"
  by (simp add: signed_divide_int_def sgn_minus)

lemma signed_multiply_eq:
  assumes "in_i64 l" "in_i64 r"
  shows "signed_multiply l r = (if in_i64 (l * r) then Some (l * r) else None)"
proof (cases "l = 0 \<or> r = 0 \<or> (l = -1 \<and> r = INT64_MIN) \<or> (r = -1 \<and> l = INT64_MIN)")
  case True
  then show ?thesis by (auto simp: signed_multiply_def in_i64_def)
next
  case False
  have m: "INT64_MIN sdiv x = - (9223372036854775808 div x)" "INT64_MAX sdiv x = INT64_MAX div x"
    "INT64_MAX sdiv (- x) = - (INT64_MAX div x)" if "0 < x" for x
    using that sdiv_neg_left [of 9223372036854775808 x]
    by (simp_all add: sdiv_nonneg sdiv_neg_right)
  have refuse: "(if l > 0 then (if r > 0 then l > INT64_MAX sdiv r else r < INT64_MIN sdiv l)
      else (if r > 0 then l < INT64_MIN sdiv r else l < INT64_MAX sdiv r)) \<longleftrightarrow> \<not> in_i64 (l * r)"
  proof -
    consider "l > 0" "r > 0" | "l > 0" "r < 0" | "l < 0" "r > 0" | "l < 0" "r < 0" using False by linarith
    then show ?thesis
    proof cases
      case 1
      then have "0 < l * r" by simp
      then have "in_i64 (l * r) \<longleftrightarrow> l * r \<le> INT64_MAX" unfolding in_i64_def by linarith
      with 1 show ?thesis by (simp add: m div_less_iff not_le)
    next
      case 2
      then have "l * r < 0" by (simp add: mult_pos_neg)
      moreover have "r < - (9223372036854775808 div l) \<longleftrightarrow> l * r < INT64_MIN"
        using div_less_iff [OF 2(1), of 9223372036854775808 "- r"] by (simp add: mult.commute) linarith
      ultimately show ?thesis using 2 by (simp add: sdiv_nonneg in_i64_def not_le)
    next
      case 3
      then have "l * r < 0" by (simp add: mult_neg_pos)
      moreover have "l < - (9223372036854775808 div r) \<longleftrightarrow> l * r < INT64_MIN"
        using div_less_iff [OF 3(2), of 9223372036854775808 "- l"] by simp linarith
      ultimately show ?thesis using 3 by (simp add: sdiv_nonneg in_i64_def not_le)
    next
      case 4
      then have "0 < l * r" by (simp add: mult_neg_neg)
      moreover have "l < - (INT64_MAX div - r) \<longleftrightarrow> INT64_MAX < l * r"
        using div_less_iff [of "- r" INT64_MAX "- l"] 4 by simp linarith
      ultimately show ?thesis using 4 m(3) [of "- r"] by (simp add: in_i64_def) linarith
    qed
  qed
  show ?thesis
    unfolding signed_multiply_def refuse using False by auto
qed

lemma operand_signed: "\<not> is_unsigned l \<Longrightarrow> operand False l = signed_part l"
  by (simp add: operand_def denote_def)

lemma operand_unsigned: "operand True v = uint (integer_unsigned v)"
  by (simp add: operand_def uint_integer_unsigned)

lemma comparison_meaning:
  assumes "operation \<in> relational"
  defines "u \<equiv> \<lambda>l r. is_unsigned l \<or> is_unsigned r"
  shows "arithmetic_meaning operation (u l r) (operand (u l r) l) (operand (u l r) r) =
    Some (signed_integer (of_bool (comparison_holds operation (integer_compare l r))))"
proof -
  let ?l = "operand (u l r) l" and ?r = "operand (u l r) r"
  have "integer_compare l r = (if ?l < ?r then -1 else of_bool (?r < ?l))"
  proof (cases "is_unsigned l \<or> is_unsigned r")
    case True
    then have "u l r = True" by (simp add: u_def)
    with True show ?thesis
      by (simp add: integer_compare_def operand_unsigned word_less_def Let_def)
  next
    case False
    then have "u l r = False" by (simp add: u_def)
    with False show ?thesis by (simp add: integer_compare_def operand_signed)
  qed
  then show ?thesis
    using assms(1) by (cases ?l ?r rule: linorder_cases) (auto simp: relational_def)
qed

text \<open>An operation either has its value and leaves the parser alone, or it reports an error.\<close>

definition agrees ::
  "expression_parser \<Rightarrow> cptr \<Rightarrow> integer_value option \<Rightarrow> integer_value \<times> expression_parser \<Rightarrow> bool" where
  "agrees parser at meaning result \<longleftrightarrow>
     (case meaning of Some v \<Rightarrow> result = (v, parser)
      | None \<Rightarrow> \<exists>message. result = (signed_integer 0, expression_error_at parser at message))"

lemma agrees_Some [intro]: "result = (v, parser) \<Longrightarrow> agrees parser at (Some v) result"
  by (simp add: agrees_def)

lemma agrees_None [intro]: "agrees parser at None (signed_integer 0, expression_error_at parser at message)"
  by (auto simp: agrees_def)

lemma agrees_iff [simp]:
  "agrees parser at (Some v) (w, parser) \<longleftrightarrow> v = w"
  "agrees parser at None (signed_integer 0, expression_error_at parser at message)"
  by (auto simp: agrees_def)

lemma signed_integer_inj [simp]: "signed_integer a = signed_integer b \<longleftrightarrow> a = b"
  by (auto simp: signed_integer_def)

lemma unsigned_integer_inj [simp]: "unsigned_integer a = unsigned_integer b \<longleftrightarrow> a = b"
  by (auto simp: unsigned_integer_def)

lemma u64_uint [simp]: "u64 (uint w) = w"
  by (simp add: u64_def)

lemma condition_unsigned_agrees:
  assumes "operation \<in> {CONDITION_ADD, CONDITION_SUBTRACT, CONDITION_MULTIPLY, CONDITION_DIVIDE, CONDITION_REMAINDER}"
  shows "agrees parser at (arithmetic_meaning operation True (uint l) (uint r)) (condition_unsigned parser operation l r at)"
proof -
  have z: "uint r = 0 \<longleftrightarrow> r = 0" by (simp add: uint_0_iff)
  have "u64 (uint l + uint r) = l + r" "u64 (uint l - uint r) = l - r" "u64 (uint l * uint r) = l * r"
    by (simp_all add: u64_def)
  moreover have "r \<noteq> 0 \<Longrightarrow> u64 (uint l sdiv uint r) = l div r" "r \<noteq> 0 \<Longrightarrow> u64 (uint l smod uint r) = l mod r"
    by (simp_all add: sdiv_nonneg smod_nonneg z less_le u64_def uint_div [symmetric] uint_mod [symmetric]
        del: uint_div uint_mod)
  ultimately show ?thesis
    using assms by (auto simp: condition_unsigned_def z fit_def)
qed

lemma sdiv_in_range:
  assumes "in_i64 l" "in_i64 r" "r \<noteq> 0"
  shows "in_i64 (l sdiv r) \<longleftrightarrow> \<not> (l = INT64_MIN \<and> r = -1)" and "in_i64 (l smod r)"
proof -
  have q: "\<bar>l sdiv r\<bar> = \<bar>l\<bar> div \<bar>r\<bar>"
    using assms(3) by (cases "l = 0") (simp_all add: signed_divide_int_def abs_mult abs_sgn_eq pos_imp_zdiv_nonneg_iff)
  show "in_i64 (l sdiv r) \<longleftrightarrow> \<not> (l = INT64_MIN \<and> r = -1)"
  proof (cases "r = 1 \<or> r = -1")
    case True
    with assms(1) show ?thesis
      using sdiv_neg_right [of l 1] by (auto simp: in_i64_def signed_divide_int_def sgn_if split: if_splits)
  next
    case False
    then have "2 \<le> \<bar>r\<bar>" using assms(3) by linarith
    then have "\<bar>l\<bar> div \<bar>r\<bar> \<le> \<bar>l\<bar> div 2"
      by (intro zdiv_mono2) auto
    also have "\<bar>l\<bar> \<le> 9223372036854775808"
      using assms(1) unfolding in_i64_def by linarith
    then have "\<bar>l\<bar> div 2 \<le> 4611686018427387904"
      using zdiv_mono1 [of "\<bar>l\<bar>" 9223372036854775808 2] by simp
    finally show ?thesis using False q by (auto simp: in_i64_def)
  qed
  have "\<bar>l smod r\<bar> \<le> \<bar>r\<bar> - 1" using smod_int_range [of r l] assms(3) by auto
  moreover have "\<bar>r\<bar> \<le> 9223372036854775808" using assms(2) unfolding in_i64_def by linarith
  ultimately have "\<bar>l smod r\<bar> \<le> INT64_MAX" by linarith
  then show "in_i64 (l smod r)" unfolding in_i64_def by linarith
qed

lemma condition_signed_agrees:
  assumes "operation \<in> {CONDITION_ADD, CONDITION_SUBTRACT, CONDITION_MULTIPLY, CONDITION_DIVIDE, CONDITION_REMAINDER}"
    and "in_i64 l" "in_i64 r"
  shows "agrees parser at (arithmetic_meaning operation False l r) (condition_signed parser operation l r at)"
proof -
  have "(r > 0 \<and> l > INT64_MAX - r) \<or> (r < 0 \<and> l < INT64_MIN - r) \<longleftrightarrow> \<not> in_i64 (l + r)"
    "(r < 0 \<and> l > INT64_MAX + r) \<or> (r > 0 \<and> l < INT64_MIN + r) \<longleftrightarrow> \<not> in_i64 (l - r)"
    using assms(2,3) by (auto simp: in_i64_def)
  note tests = this signed_multiply_eq [OF assms(2,3)]
  have d: "r \<noteq> 0 \<Longrightarrow> in_i64 (l sdiv r) \<longleftrightarrow> \<not> (l = INT64_MIN \<and> r = -1)" "r \<noteq> 0 \<Longrightarrow> in_i64 (l smod r)"
    using sdiv_in_range [OF assms(2,3)] by blast+
  consider "operation = CONDITION_ADD" | "operation = CONDITION_SUBTRACT" | "operation = CONDITION_MULTIPLY"
    | "operation = CONDITION_DIVIDE" | "operation = CONDITION_REMAINDER" using assms(1) by blast
  then show ?thesis
  proof cases
    case 4
    then show ?thesis using d by (auto simp: condition_signed_def fit_def)
  next
    case 5
    then show ?thesis using d by (auto simp: condition_signed_def fit_def)
  next
    case 2
    then show ?thesis using tests(2) by (auto simp: condition_signed_def fit_def split: if_splits)
  qed (simp_all add: condition_signed_def tests fit_def)
qed

lemma div_complement: "- 1 - (- 1 - x) div 2 ^ n = (x :: int) div 2 ^ n"
proof -
  have "- 1 - x = NOT x" by (simp add: not_int_def)
  then have "(- 1 - x) div 2 ^ n = drop_bit n (NOT x)" by (simp add: drop_bit_eq_div)
  also have "\<dots> = NOT (drop_bit n x)"
    by (rule bit_eqI) (simp add: bit_simps)
  finally show ?thesis by (simp add: not_int_def drop_bit_eq_div)
qed

lemma in_i64_div_pow: "in_i64 x \<Longrightarrow> in_i64 (x div 2 ^ n)"
  by (simp add: in_i64_bits bit_drop_bit_eq flip: drop_bit_eq_div) (metis linorder_not_less min.absorb1
      min.absorb2 nat_le_linear trans_le_add1 add.commute)

lemma shift_count:
  assumes "value_ok v"
  shows "(\<not> is_unsigned v \<and> signed_part v < 0) \<or> integer_unsigned v \<ge> 64 \<longleftrightarrow> denote v < 0 \<or> denote v \<ge> 64"
    and "0 \<le> denote v \<Longrightarrow> denote v < 64 \<Longrightarrow> unat (integer_unsigned v) = nat (denote v)"
proof -
  have d: "denote v < 18446744073709551616"
    using assms uint_lt_2p64 [of "unsigned_part v"] by (auto simp: denote_def value_ok_def in_i64_def)
  then show "(\<not> is_unsigned v \<and> signed_part v < 0) \<or> integer_unsigned v \<ge> 64 \<longleftrightarrow> denote v < 0 \<or> denote v \<ge> 64"
    by (cases "is_unsigned v"; cases "denote v < 0") (auto simp: word_le_def uint_integer_unsigned denote_def)
  show "0 \<le> denote v \<Longrightarrow> denote v < 64 \<Longrightarrow> unat (integer_unsigned v) = nat (denote v)"
    by (simp add: unat_eq_nat_uint uint_integer_unsigned)
qed

lemma condition_shift_agrees:
  assumes "operation \<in> {CONDITION_LEFT_SHIFT, CONDITION_RIGHT_SHIFT}" "value_ok l" "value_ok r"
  shows "agrees parser at (binary_meaning operation l r) (condition_shift parser operation l r True at)"
proof (cases "denote r < 0 \<or> denote r \<ge> 64")
  case True
  with assms shift_count(1) [OF assms(3)] show ?thesis
    by (auto simp: condition_shift_def binary_meaning_def)
next
  case False
  define n where "n = nat (denote r)"
  have n: "unat (integer_unsigned r) = n" "n < 64"
    using shift_count(2) [OF assms(3)] False by (auto simp: n_def)
  have unfolded: "condition_shift parser operation l r True at =
      (if is_unsigned l then
         (unsigned_integer (if operation = CONDITION_RIGHT_SHIFT then drop_bit n (unsigned_part l)
                                else push_bit n (unsigned_part l)), parser)
       else if operation \<noteq> CONDITION_RIGHT_SHIFT then
         if signed_part l < 0 \<or> (n \<noteq> 0 \<and> signed_part l > drop_bit n INT64_MAX)
         then (signed_integer 0, expression_error_at parser at ''signed left shift overflows intmax_t'')
         else (signed_integer (push_bit n (signed_part l)), parser)
       else (signed_integer (if signed_part l \<ge> 0 then drop_bit n (signed_part l)
               else - 1 - drop_bit n (- 1 - signed_part l)), parser))"
    using False shift_count(1) [OF assms(3)] n(1)
    unfolding condition_shift_def Let_def by (simp only: simp_thms if_True if_False)
  have meaning: "binary_meaning operation l r =
      (if operation = CONDITION_RIGHT_SHIFT then fit (is_unsigned l) (denote l div 2 ^ n)
       else if denote l < 0 then None else fit (is_unsigned l) (denote l * 2 ^ n))"
    using False assms(1) by (auto simp: binary_meaning_def n_def)
  have right: "(if x \<ge> 0 then drop_bit n x else - 1 - drop_bit n (- 1 - x)) = x div 2 ^ n" for x :: int
    by (simp add: div_complement drop_bit_eq_div)
  show ?thesis
  proof (cases "is_unsigned l")
    case True
    then have "0 \<le> denote l" by (simp add: denote_def)
    moreover have "u64 (uint (unsigned_part l) div 2 ^ n) = drop_bit n (unsigned_part l)"
      by (auto intro!: bit_eqI simp: u64_def bit_simps simp flip: drop_bit_eq_div dest: bit_imp_le_length)
    moreover have "u64 (uint (unsigned_part l) * 2 ^ n) = push_bit n (unsigned_part l)"
      by (auto intro!: bit_eqI simp: u64_def bit_simps simp flip: push_bit_eq_mult)
    ultimately show ?thesis
      using True by (simp add: unfolded meaning fit_def denote_def)
  next
    case signed: False
    have i: "in_i64 (signed_part l)" using assms(2) by (simp add: value_ok_def)
    show ?thesis
    proof (cases "operation = CONDITION_RIGHT_SHIFT")
      case True
      then show ?thesis
        using signed unfolding unfolded meaning right
        by (simp add: fit_def denote_def in_i64_div_pow [OF i])
    next
      case left: False
      show ?thesis
      proof (cases "signed_part l < 0")
        case True
        then show ?thesis
          using left signed unfolding unfolded meaning by (simp add: denote_def)
      next
        case pos: False
        have "in_i64 (signed_part l * 2 ^ n) \<longleftrightarrow> \<not> (n \<noteq> 0 \<and> signed_part l > drop_bit n INT64_MAX)"
        proof (cases "n = 0")
          case True
          then show ?thesis using i by simp
        next
          case False
          have "0 \<le> signed_part l * 2 ^ n" using pos by simp
          then have "in_i64 (signed_part l * 2 ^ n) \<longleftrightarrow> signed_part l * 2 ^ n \<le> INT64_MAX"
            unfolding in_i64_def by linarith
          with False show ?thesis
            using div_less_iff [of "2 ^ n" INT64_MAX "signed_part l"] by (simp add: drop_bit_eq_div not_less)
        qed
        then show ?thesis
          using left signed pos unfolding unfolded meaning by (simp add: fit_def denote_def push_bit_eq_mult)
      qed
    qed
  qed
qed

lemma bitwise_meaning:
  assumes "operation \<in> {CONDITION_BIT_AND, CONDITION_BIT_XOR, CONDITION_BIT_OR}" "value_ok l" "value_ok r"
  defines "u \<equiv> is_unsigned l \<or> is_unsigned r"
    and "bits \<equiv> (if operation = CONDITION_BIT_AND then integer_unsigned l AND integer_unsigned r
                     else if operation = CONDITION_BIT_XOR then integer_unsigned l XOR integer_unsigned r
                     else integer_unsigned l OR integer_unsigned r)"
  shows "arithmetic_meaning operation u (operand u l) (operand u r) =
    Some (if u then unsigned_integer bits else signed_integer (signed_from_bits bits))"
proof (cases u)
  case True
  then have "operand u l = uint (integer_unsigned l)" "operand u r = uint (integer_unsigned r)"
    using operand_unsigned by metis+
  with True assms(1) show ?thesis
    by (auto simp: bits_def fit_def simp flip: u64_logical)
next
  case False
  then have s: "\<not> is_unsigned l" "\<not> is_unsigned r" by (simp_all add: u_def)
  then have o: "operand u l = signed_part l" "operand u r = signed_part r"
    using False operand_signed by metis+
  have w: "integer_unsigned l = u64 (signed_part l)" "integer_unsigned r = u64 (signed_part r)"
    using s by (simp_all add: integer_unsigned_def)
  have i: "in_i64 (signed_part l)" "in_i64 (signed_part r)"
    using assms(2,3) by (simp_all add: value_ok_def)
  note logical = in_i64_logical [OF i]
  from False assms(1) show ?thesis
    unfolding o
    by (auto simp: bits_def w fit_def signed_from_bits_sint c_arith sint_u64_of_i64 logical)
qed

definition binary_operators :: "condition_operator set" where
  "binary_operators = {CONDITION_ADD, CONDITION_SUBTRACT, CONDITION_MULTIPLY, CONDITION_DIVIDE,
     CONDITION_REMAINDER, CONDITION_LEFT_SHIFT, CONDITION_RIGHT_SHIFT, CONDITION_BIT_AND,
     CONDITION_BIT_XOR, CONDITION_BIT_OR, CONDITION_LOGICAL_AND, CONDITION_LOGICAL_OR} \<union> relational"

lemma condition_binary_agrees:
  assumes "operation \<in> binary_operators" "value_ok l" "value_ok r"
  shows "agrees parser at (binary_meaning operation l r) (condition_binary parser operation l r True at)"
proof -
  let ?u = "is_unsigned l \<or> is_unsigned r"
  consider (logical) "operation \<in> {CONDITION_LOGICAL_AND, CONDITION_LOGICAL_OR}"
    | (compare) "operation \<in> relational"
    | (shift) "operation \<in> {CONDITION_LEFT_SHIFT, CONDITION_RIGHT_SHIFT}"
    | (bits) "operation \<in> {CONDITION_BIT_AND, CONDITION_BIT_XOR, CONDITION_BIT_OR}"
    | (arith) "operation \<in> {CONDITION_ADD, CONDITION_SUBTRACT, CONDITION_MULTIPLY, CONDITION_DIVIDE, CONDITION_REMAINDER}"
    using assms(1) by (auto simp: binary_operators_def)
  then show ?thesis
  proof cases
    case logical
    then show ?thesis
      by (auto simp: condition_binary_def binary_meaning_def integer_true_denote Let_def)
  next
    case compare
    then have b: "binary_meaning operation l r = arithmetic_meaning operation ?u (operand ?u l) (operand ?u r)"
      by (auto simp: binary_meaning_def relational_def Let_def)
    from compare have "condition_binary parser operation l r True at =
        (signed_integer (of_bool (comparison_holds operation (integer_compare l r))), parser)"
      by (auto simp: condition_binary_def relational_def)
    then show ?thesis unfolding b comparison_meaning [OF compare] by simp
  next
    case shift
    then have "condition_binary parser operation l r True at = condition_shift parser operation l r True at"
      by (auto simp: condition_binary_def relational_def)
    then show ?thesis using condition_shift_agrees [OF shift assms(2,3)] by simp
  next
    case bits
    then have b: "binary_meaning operation l r = arithmetic_meaning operation ?u (operand ?u l) (operand ?u r)"
      by (auto simp: binary_meaning_def Let_def)
    show ?thesis
      unfolding b bitwise_meaning [OF bits assms(2,3)]
      using bits by (auto simp: condition_binary_def relational_def Let_def)
  next
    case arith
    then have b: "binary_meaning operation l r = arithmetic_meaning operation ?u (operand ?u l) (operand ?u r)"
      by (auto simp: binary_meaning_def Let_def)
    have c: "condition_binary parser operation l r True at = (if ?u
        then condition_unsigned parser operation (integer_unsigned l) (integer_unsigned r) at
        else condition_signed parser operation (signed_part l) (signed_part r) at)"
      using arith by (auto simp: condition_binary_def relational_def)
    show ?thesis
    proof (cases ?u)
      case True
      then have u: "?u = True" by simp
      show ?thesis
        unfolding b c u operand_unsigned if_True by (rule condition_unsigned_agrees [OF arith])
    next
      case False
      then have u: "?u = False" "operand False l = signed_part l" "operand False r = signed_part r"
        using operand_signed by auto
      show ?thesis
        unfolding b c u if_False
        by (rule condition_signed_agrees [OF arith]) (use assms(2,3) in \<open>simp_all add: value_ok_def\<close>)
    qed
  qed
qed

text \<open>The unary operators.\<close>

definition unary_operators :: "condition_operator set" where
  "unary_operators = {CONDITION_ADD, CONDITION_SUBTRACT, CONDITION_LOGICAL_NOT, CONDITION_BIT_NOT}"

definition unary_meaning :: "condition_operator \<Rightarrow> integer_value \<Rightarrow> integer_value option" where
  "unary_meaning operation v =
     (if operation = CONDITION_ADD then Some v
      else if operation = CONDITION_LOGICAL_NOT then Some (signed_integer (of_bool (denote v = 0)))
      else if operation = CONDITION_SUBTRACT then fit (is_unsigned v) (- denote v)
      else fit (is_unsigned v) (NOT (denote v)))"

lemma condition_unary_agrees:
  assumes "operation \<in> unary_operators" "value_ok v"
  shows "agrees parser at (unary_meaning operation v) (condition_unary parser operation v True at)"
proof -
  have neg: "in_i64 (- signed_part v) \<longleftrightarrow> signed_part v \<noteq> INT64_MIN"
    using assms(2) unfolding value_ok_def in_i64_def by linarith
  have not: "in_i64 (NOT (signed_part v))"
    using assms(2) in_i64_logical(4) by (simp add: value_ok_def)
  have "u64 (- uint (unsigned_part v)) = - unsigned_part v" "u64 (NOT (uint (unsigned_part v))) = NOT (unsigned_part v)"
    by (simp_all flip: u64_neg u64_logical)
  then show ?thesis
    using assms(1) neg not
    by (auto simp: unary_operators_def unary_meaning_def condition_unary_def integer_true_denote fit_def
        signed_from_bits_sint u64_logical sint_u64_of_i64) (auto simp: denote_def)
qed

lemma unevaluated:
  assumes "value_ok l" "value_ok r" "operation \<in> binary_operators"
  shows "\<exists>v. condition_binary parser operation l r False at = (v, parser) \<and> value_ok v \<and>
    (\<forall>w. binary_meaning operation l r = Some w \<longrightarrow> is_unsigned w = is_unsigned v)"
proof -
  have f: "\<And>u x w. fit u x = Some w \<Longrightarrow> is_unsigned w = u" by (auto simp: fit_def split: if_splits)
  show ?thesis
    using assms
    by (cases operation)
      (auto simp: condition_binary_def relational_def condition_shift_def binary_operators_def common_zero_def
        binary_meaning_def in_i64_def Let_def dest!: f split: if_splits)
qed

section \<open>Properties\<close>

text \<open>
  C11: Every evaluated operator of a \<open>#if\<close> expression is exact: on representable operands it returns the
  value that C gives the operation after the usual conversions (wrapping in \<open>uintmax_t\<close>, exact in
  \<open>intmax_t\<close>) and leaves the parser as it was, and where C leaves the operation undefined (overflow,
  zero divisor, bad shift) it reports an error instead.
\<close>
theorem condition_arithmetic_exact:
  assumes "value_ok l" "value_ok r" "binary \<in> binary_operators" "unary \<in> unary_operators"
  shows "agrees parser at (binary_meaning binary l r) (condition_binary parser binary l r True at)
    \<and> agrees parser at (unary_meaning unary l) (condition_unary parser unary l True at)"
  using condition_binary_agrees [OF assms(3,1,2)] condition_unary_agrees [OF assms(4,1)] by blast

theorem condition_arithmetic_exact_witness:
  "\<forall>parser at. condition_binary parser CONDITION_MULTIPLY (signed_integer 3) (unsigned_integer (- 1)) True at
      = (unsigned_integer (- 3), parser)
    \<and> (\<exists>message. condition_unary parser CONDITION_SUBTRACT (signed_integer INT64_MIN) True at
         = (signed_integer 0, expression_error_at parser at message))"
proof (intro allI)
  fix parser at
  have ok: "value_ok (signed_integer 3)" "value_ok (unsigned_integer (- 1))" "value_ok (signed_integer INT64_MIN)"
    by (simp_all add: in_i64_def)
  have ops: "CONDITION_MULTIPLY \<in> binary_operators" "CONDITION_SUBTRACT \<in> unary_operators"
    by (simp_all add: binary_operators_def unary_operators_def)
  have "u64 (3 * 18446744073709551615) = - 3" by (rule word_uint_eqI) (simp add: uint_u64)
  then have "binary_meaning CONDITION_MULTIPLY (signed_integer 3) (unsigned_integer (- 1)) = Some (unsigned_integer (- 3))"
    by (simp add: binary_meaning_def operand_def fit_def uint_minus_one_u64)
  moreover have "unary_meaning CONDITION_SUBTRACT (signed_integer INT64_MIN) = None"
    by (simp add: unary_meaning_def fit_def in_i64_def)
  ultimately show "condition_binary parser CONDITION_MULTIPLY (signed_integer 3) (unsigned_integer (- 1)) True at
      = (unsigned_integer (- 3), parser)
    \<and> (\<exists>message. condition_unary parser CONDITION_SUBTRACT (signed_integer INT64_MIN) True at
         = (signed_integer 0, expression_error_at parser at message))"
    using condition_arithmetic_exact [OF ok(1,2) ops, of parser at] condition_arithmetic_exact [OF ok(3,2) ops, of parser at]
    by (simp add: agrees_def)
qed

text \<open>
  An operator whose operands are not evaluated (behind a short circuit, or in a branch that is not
  selected) never reports an error, keeps the parser as it was, and still has the type that the
  evaluated operation would have.
\<close>
theorem condition_unevaluated_silent:
  assumes "value_ok l" "value_ok r" "operation \<in> binary_operators"
  shows "\<exists>v. condition_binary parser operation l r False at = (v, parser) \<and> value_ok v \<and>
    (\<forall>w. binary_meaning operation l r = Some w \<longrightarrow> is_unsigned w = is_unsigned v)"
  using assms by (rule unevaluated)

theorem condition_unevaluated_silent_witness:
  "\<forall>parser at. \<exists>v. condition_binary parser CONDITION_DIVIDE (signed_integer 1) (signed_integer 0) False at = (v, parser)"
  using condition_unevaluated_silent [of "signed_integer 1" "signed_integer 0" CONDITION_DIVIDE]
  by (simp add: in_i64_def binary_operators_def) blast

end
