(* ===== verification/Cond_Literal.thy ===== *)
theory Cond_Literal
  imports Cond_Operation Macro_Table
begin

text \<open>
  The operands of \<open>#if\<close> expressions (\<open>frontend/preprocessor/condition/literal.c\<close>): integer and
  character constants, \<open>defined\<close>, and names that are no macros. The lemmas give the value of every
  integer constant, the contract that the expression machine needs of an operand (it consumes
  input or reports an error), and that \<open>defined\<close> reads the macro table.
\<close>

section \<open>Integer constants\<close>

definition digit_value :: "char \<Rightarrow> int" where
  "digit_value c =
     (if 48 \<le> ascii c \<and> ascii c \<le> 57 then int (ascii c) - 48
      else if 97 \<le> ascii c \<and> ascii c \<le> 102 then int (ascii c) - 97 + 10
      else if 65 \<le> ascii c \<and> ascii c \<le> 70 then int (ascii c) - 65 + 10
      else -1)"

text \<open>
  The digit loop of \<open>parse_integer_literal\<close>: the value, whether there was a digit, and the end;
  \<^const>\<open>None\<close> where the constant exceeds \<open>uintmax_t\<close>.
\<close>

fun literal_digits :: "int \<Rightarrow> u64 \<Rightarrow> bool \<Rightarrow> cptr \<Rightarrow> (u64 \<times> bool \<times> cptr) option" where
  "literal_digits base val digits [] = Some (val, digits, [])"
| "literal_digits base val digits (c # s) =
     (let digit = digit_value c
      in if digit < 0 \<or> digit \<ge> base then Some (val, digits, c # s)
         else if val > (- 1 - u64 digit) div u64 base then None
         else literal_digits base (val * u64 base + u64 digit) True s)"

text \<open>The suffix loop; the error is a message and its position.\<close>

function literal_suffix :: "bool \<Rightarrow> nat \<Rightarrow> cptr \<Rightarrow> string \<times> cptr + bool \<times> cptr" where
  "literal_suffix explicit_unsigned long_seen s =
     (if peek s = CHR ''u'' \<or> peek s = CHR ''U'' then
        if explicit_unsigned then Inl (''duplicate unsigned integer suffix'', s)
        else literal_suffix True long_seen (drop 1 s)
      else if peek s = CHR ''l'' \<or> peek s = CHR ''L'' then
        let suffix = peek s;
            after = drop 1 s;
            twice = (peek after = suffix);
            next = (if twice then drop 1 after else after);
            seen = (if twice then 2 else 1)
        in if long_seen \<noteq> 0 \<or> seen > 2 then Inl (''invalid long integer suffix'', next)
           else literal_suffix explicit_unsigned seen next
      else Inr (explicit_unsigned, s))"
  by pat_completeness auto
termination
proof (relation "measure (\<lambda>(u, l, s). length s)", goal_cases)
  case (2 u l s)
  then have "s \<noteq> []" by (auto simp: NUL_code)
  then show ?case by (cases s) auto
next
  case (3 u l s)
  then have "s \<noteq> []" by (auto simp: NUL_code)
  with 3 show ?case by (cases s) (auto simp: less_Suc_eq_le)
qed simp

declare literal_suffix.simps [simp del]

definition parse_integer_literal :: "expression_parser \<Rightarrow> integer_value \<times> expression_parser" where
  "parse_integer_literal parser =
     (let begin = cursor parser;
          hex = (peek begin = CHR ''0'' \<and> (peek (drop 1 begin) = CHR ''x'' \<or> peek (drop 1 begin) = CHR ''X''));
          octal = (\<not> hex \<and> peek begin = CHR ''0'');
          base = (if hex then 16 else if octal then 8 else 10);
          start = (if hex then drop 2 begin else if octal then drop 1 begin else begin)
      in case literal_digits base 0 octal start of
        None \<Rightarrow> (signed_integer 0, expression_error_at parser begin ''integer constant exceeds uintmax_t'')
      | Some (val, digits, after) \<Rightarrow>
          if \<not> digits \<or> (base = 8 \<and> (peek after = CHR ''8'' \<or> peek after = CHR ''9'')) then
            (signed_integer 0, expression_error_at parser begin ''invalid integer in preprocessor condition'')
          else (case literal_suffix False 0 after of
            Inl (message, at) \<Rightarrow> (signed_integer 0, expression_error_at parser at message)
          | Inr (explicit_unsigned, end) \<Rightarrow>
              if identifier_continue (peek end) then
                (signed_integer 0, expression_error_at parser end ''invalid integer suffix in preprocessor condition'')
              else
                let parser = parser\<lparr>cursor := end\<rparr>
                in if explicit_unsigned \<or> (base \<noteq> 10 \<and> val > u64 INT64_MAX) then (unsigned_integer val, parser)
                   else if val > u64 INT64_MAX then
                     (signed_integer 0, expression_error_at parser begin ''decimal integer constant exceeds intmax_t'')
                   else (signed_integer (sint val), parser)))"

section \<open>Character constants\<close>

text \<open>
  \<open>parse_escape\<close>: the character and the position after it, or a message and its position. A
  \<open>uint32_t\<close> is a 32-bit word.
\<close>

fun escape_hex :: "32 word \<Rightarrow> nat \<Rightarrow> cptr \<Rightarrow> string \<times> cptr + 32 word \<times> nat \<times> cptr" where
  "escape_hex parsed seen [] = Inr (parsed, seen, [])"
| "escape_hex parsed seen (c # s) =
     (let digit = digit_value c
      in if digit < 0 then Inr (parsed, seen, c # s)
         else if parsed > (- 1 - word_of_int digit) div 16 then
           Inl (''hexadecimal character escape is too large'', c # s)
         else escape_hex (parsed * 16 + word_of_int digit) (seen + 1) s)"

fun escape_universal :: "nat \<Rightarrow> 32 word \<Rightarrow> cptr \<Rightarrow> string \<times> cptr + 32 word \<times> cptr" where
  "escape_universal 0 parsed s = Inr (parsed, s)"
| "escape_universal (Suc n) parsed s =
     (let digit = digit_value (peek s)
      in if digit < 0 then Inl (''invalid universal character escape'', s)
         else escape_universal n (parsed * 16 + word_of_int digit) (drop 1 s))"

fun escape_octal :: "nat \<Rightarrow> 32 word \<Rightarrow> cptr \<Rightarrow> 32 word \<times> cptr" where
  "escape_octal 0 val s = (val, s)"
| "escape_octal (Suc n) val s =
     (if 48 \<le> ascii (peek s) \<and> ascii (peek s) \<le> 55
      then escape_octal n (val * 8 + of_nat (ascii (peek s) - 48)) (drop 1 s)
      else (val, s))"

definition simple_escape :: "char \<Rightarrow> 32 word option" where
  "simple_escape c =
     (if ascii c \<in> {39, 34, 63, 92} then Some (of_nat (ascii c))
      else if c = CHR ''a'' then Some 7
      else if c = CHR ''b'' then Some 8
      else if c = CHR ''f'' then Some 12
      else if c = CHR ''n'' then Some 10
      else if c = CHR ''r'' then Some 13
      else if c = CHR ''t'' then Some 9
      else if c = CHR ''v'' then Some 11
      else None)"

definition parse_escape :: "cptr \<Rightarrow> string \<times> cptr + 32 word \<times> cptr" where
  "parse_escape at =
     (if ascii (peek at) \<noteq> 92 then Inr (of_nat (ascii (peek at)), drop 1 at)
      else
        let at = drop 1 at; c = peek at
        in case simple_escape c of
          Some v \<Rightarrow> Inr (v, drop 1 at)
        | None \<Rightarrow>
            if c = CHR ''x'' then
              (case escape_hex 0 0 (drop 1 at) of
                 Inl e \<Rightarrow> Inl e
               | Inr (parsed, seen, after) \<Rightarrow>
                   if seen = 0 then Inl (''hexadecimal character escape has no digits'', after)
                   else Inr (parsed, after))
            else if c = CHR ''u'' \<or> c = CHR ''U'' then
              (case escape_universal (if c = CHR ''u'' then 4 else 8) 0 (drop 1 at) of
                 Inl e \<Rightarrow> Inl e
               | Inr (parsed, after) \<Rightarrow>
                   if parsed > 0x10FFFF \<or> (parsed \<ge> 0xD800 \<and> parsed \<le> 0xDFFF) then
                     Inl (''invalid universal character value'', drop 1 at)
                   else Inr (parsed, after))
            else if ascii c < 48 \<or> ascii c > 55 then
              Inl (''invalid character escape in preprocessor condition'', at)
            else Inr (escape_octal 3 0 at))"

definition parse_character_literal :: "expression_parser \<Rightarrow> cptr \<Rightarrow> integer_value \<times> expression_parser" where
  "parse_character_literal parser quote =
     (let at = drop 1 quote
      in if peek at = NUL \<or> ascii (peek at) = 39 then
           (signed_integer 0, expression_error_at parser quote ''empty character constant in preprocessor condition'')
         else (case parse_escape at of
           Inl (message, where) \<Rightarrow> (signed_integer 0, expression_error_at parser where message)
         | Inr (val, after) \<Rightarrow>
             if ascii (peek after) \<noteq> 39 then
               (signed_integer 0, expression_error_at parser after
                  ''multi-character constants are not portable in preprocessor conditions'')
             else (signed_integer (uint val), parser\<lparr>cursor := drop 1 after\<rparr>)))"

section \<open>Operands\<close>

text \<open>The operand of \<open>defined\<close>, from the position after the word.\<close>

definition parse_defined :: "expression_parser \<Rightarrow> bool \<Rightarrow> integer_value \<times> expression_parser" where
  "parse_defined parser evaluate =
     (let parser = expression_space parser;
          parenthesized = (peek (cursor parser) = CHR ''('');
          parser = (if parenthesized then expression_space (parser\<lparr>cursor := drop 1 (cursor parser)\<rparr>) else parser);
          name_at = cursor parser
      in if \<not> identifier_start (peek name_at) then
           (signed_integer 0, expression_error parser ''expected a name after defined'')
         else
           let parser = parser\<lparr>cursor := word_end name_at\<rparr>;
               parser = (if parenthesized then
                   (case expression_consume parser '')'' of
                      (True, parser) \<Rightarrow> parser
                    | (False, parser) \<Rightarrow> expression_error parser
                        (''expected '' @ [CHR 0x27] @ '')'' @ [CHR 0x27] @ '' after defined operand''))
                 else parser)
           in (signed_integer (of_bool (evaluate \<and>
                 find_macro (parser_preprocessor parser) (word_text name_at) \<noteq> None)), parser))"

definition condition_atom :: "expression_parser \<Rightarrow> bool \<Rightarrow> integer_value \<times> expression_parser" where
  "condition_atom parser evaluate =
     (let parser = expression_space parser;
          begin = cursor parser;
          prefixed = ((peek begin = CHR ''L'' \<or> peek begin = CHR ''u'' \<or> peek begin = CHR ''U'') \<and>
                      ascii (peek (drop 1 begin)) = 39)
      in if ascii (peek begin) = 39 \<or> prefixed then
           parse_character_literal parser (if ascii (peek begin) \<noteq> 39 then drop 1 begin else begin)
         else if identifier_start (peek begin) then
           (let parser = parser\<lparr>cursor := word_end begin\<rparr>
            in if word_text begin = ''defined'' then parse_defined parser evaluate
               else (signed_integer 0, parser))
         else if isdigit (peek begin) then parse_integer_literal parser
         else (signed_integer 0, expression_error parser ''expected an integer preprocessor expression''))"

section \<open>The contract of an operand\<close>

text \<open>
  What the rest of the condition evaluator may rely on after a step of the parser: the text and the
  tables are unchanged, input is only consumed, and either nothing is wrong and nothing was
  reported, or the parser has failed.
\<close>

definition advances :: "expression_parser \<Rightarrow> expression_parser \<Rightarrow> bool" where
  "advances p q \<longleftrightarrow>
     parser_text q = parser_text p \<and> parser_line q = parser_line p \<and> parser_column q = parser_column p \<and>
     length (cursor q) \<le> length (cursor p) \<and>
     macros (parser_preprocessor q) = macros (parser_preprocessor p) \<and>
     limits (parser_preprocessor q) = limits (parser_preprocessor p) \<and>
     (failed p \<longrightarrow> failed q) \<and>
     (\<not> failed q \<longrightarrow> parser_preprocessor q = parser_preprocessor p)"

lemma advances_refl [simp, intro]: "advances p p"
  by (simp add: advances_def)

lemma advances_trans [trans]: "advances p q \<Longrightarrow> advances q r \<Longrightarrow> advances p r"
  by (auto simp: advances_def)

lemma failed_error [simp]:
  "failed (condition_error_code p code at m)" "failed (expression_error_at p at m)" "failed (expression_error p m)"
  by (auto simp: condition_error_code_def expression_error_at_def expression_error_def)

lemma cursor_error [simp]:
  "cursor (condition_error_code p code at m) = cursor p" "cursor (expression_error_at p at m) = cursor p"
  "cursor (expression_error p m) = cursor p"
  by (auto simp: condition_error_code_def expression_error_at_def expression_error_def)

lemma advances_error [simp, intro]:
  "advances p (condition_error_code p code at m)" "advances p (expression_error_at p at m)"
  "advances p (expression_error p m)"
  by (auto simp: advances_def condition_error_code_def expression_error_at_def expression_error_def)

lemma advances_cursor [intro]: "length s \<le> length (cursor p) \<Longrightarrow> advances p (p\<lparr>cursor := s\<rparr>)"
  by (simp add: advances_def)

lemma advances_space [simp, intro]: "advances p (expression_space p)"
  by (auto simp: expression_space_def)

lemma failed_space [simp]: "failed (expression_space p) = failed p"
  by (simp add: expression_space_def)

lemma cursor_space [simp]: "cursor (expression_space p) = skip_space (cursor p)"
  by (simp add: expression_space_def)

lemma expression_consume_cases:
  assumes "expression_consume p token = (ok, q)"
  shows "advances p q" "failed q = failed p" "ok \<Longrightarrow> token \<noteq> [] \<Longrightarrow> length (cursor q) < length (cursor p)"
proof -
  have q: "q = (if ok then (expression_space p)\<lparr>cursor := drop (length token) (skip_space (cursor p))\<rparr>
      else expression_space p)" "ok = at_token (skip_space (cursor p)) token"
    using assms by (auto simp: expression_consume_def Let_def split: if_splits)
  have le: "length (drop n (skip_space (cursor p))) \<le> length (cursor p)" for n
    using skip_space_length [of "cursor p"] unfolding length_drop by linarith
  then show "advances p q"
    unfolding q(1) by (auto intro!: advances_trans [OF advances_space advances_cursor])
  show "failed q = failed p" by (simp add: q(1))
  assume ok: "ok" "token \<noteq> []"
  then have "skip_space (cursor p) \<noteq> []" using q(2) by (auto simp: at_token_def)
  then show "length (cursor q) < length (cursor p)"
    using ok skip_space_length [of "cursor p"] by (simp add: q(1) less_le_trans [of _ "length (skip_space (cursor p))"])
qed

text \<open>Every operand that is accepted consumes at least one character.\<close>

definition operand_result :: "expression_parser \<Rightarrow> integer_value \<times> expression_parser \<Rightarrow> bool" where
  "operand_result p r \<longleftrightarrow> value_ok (fst r) \<and> advances p (snd r) \<and>
     (failed (snd r) \<or> length (cursor (snd r)) < length (cursor p))"

lemma operand_result_error [intro]:
  "operand_result p (signed_integer 0, expression_error_at p at m)"
  "operand_result p (signed_integer 0, expression_error p m)"
  by (simp_all add: operand_result_def in_i64_def)

lemma operand_result_accept [intro]:
  "value_ok v \<Longrightarrow> length s < length (cursor p) \<Longrightarrow> operand_result p (v, p\<lparr>cursor := s\<rparr>)"
  by (auto simp: operand_result_def)

lemma literal_digits_length:
  "literal_digits base v d s = Some (v', d', s') \<Longrightarrow> length s' \<le> length s \<and> (d' \<longrightarrow> d \<or> length s' < length s)"
  by (induction base v d s rule: literal_digits.induct)
    (fastforce simp: Let_def split: if_splits)+

lemma literal_suffix_length:
  "literal_suffix u l s = Inr (u', s') \<Longrightarrow> length s' \<le> length s"
proof (induction u l s rule: literal_suffix.induct)
  case (1 u l s)
  note step = 1(3) [unfolded literal_suffix.simps [of u l s] Let_def]
  consider "peek s = CHR ''u'' \<or> peek s = CHR ''U''"
    | "\<not> (peek s = CHR ''u'' \<or> peek s = CHR ''U'')" "peek s = CHR ''l'' \<or> peek s = CHR ''L''"
    | "\<not> (peek s = CHR ''u'' \<or> peek s = CHR ''U'')" "\<not> (peek s = CHR ''l'' \<or> peek s = CHR ''L'')"
    by blast
  then show ?case
  proof cases
    case 1
    then have "\<not> u" "literal_suffix True l (drop 1 s) = Inr (u', s')"
      using step by (auto split: if_splits)
    with "1.IH"(1) [OF 1] show ?thesis by (simp add: le_diff_conv)
  next
    case 2
    then show ?thesis using step "1.IH"(2) [OF 2 refl refl refl refl refl] by (auto split: if_splits)
  next
    case 3
    then show ?thesis using step by simp
  qed
qed

lemma integer_literal_result:
  assumes "cursor p \<noteq> []"
  shows "operand_result p (parse_integer_literal p)"
proof -
  define at where "at = cursor p"
  define hex where "hex \<longleftrightarrow> peek at = CHR ''0'' \<and> (peek (drop 1 at) = CHR ''x'' \<or> peek (drop 1 at) = CHR ''X'')"
  define octal where "octal \<longleftrightarrow> \<not> hex \<and> peek at = CHR ''0''"
  define base :: int where "base = (if hex then 16 else if octal then 8 else 10)"
  define start where "start = (if hex then drop 2 at else if octal then drop 1 at else at)"
  note unfolded = parse_integer_literal_def [of p, unfolded Let_def, folded at_def, folded hex_def,
      folded octal_def, folded base_def start_def]
  have start: "length start \<le> length at" "octal \<or> hex \<Longrightarrow> length start < length at"
    using assms by (auto simp: start_def at_def)
  show ?thesis
  proof (cases "literal_digits base 0 octal start")
    case None
    then show ?thesis unfolding unfolded by auto
  next
    case (Some r)
    obtain val digits after where r: "r = (val, digits, after)" by (cases r)
    note len = literal_digits_length [OF Some [unfolded r]]
    show ?thesis
    proof (cases "digits \<and> \<not> (base = 8 \<and> (peek after = CHR ''8'' \<or> peek after = CHR ''9''))")
      case False
      then show ?thesis unfolding unfolded Some r by auto
    next
      case True
      have after: "length after < length at" using len start True by force
      show ?thesis
      proof (cases "literal_suffix False 0 after")
        case (Inl e)
        then show ?thesis using True unfolding unfolded Some r by (cases e) auto
      next
        case (Inr x)
        obtain u endp where x: "x = (u, endp)" by (cases x)
        have "length endp < length (cursor p)"
          using literal_suffix_length [OF Inr [unfolded x]] after by (simp add: at_def)
        moreover have "in_i64 (sint val)"
          using sint_lt [of val] sint_ge [of val] by (simp add: in_i64_def)
        ultimately show ?thesis
          using True Inr x unfolding unfolded Some r
          by (auto simp: operand_result_def in_i64_def intro!: advances_trans [OF advances_cursor advances_error(2)])
      qed
    qed
  qed
qed

lemma digit_value_NUL [simp]: "digit_value NUL = -1"
  by (simp add: digit_value_def)

lemma escape_hex_length: "escape_hex v n s = Inr (v', n', s') \<Longrightarrow> length s' \<le> length s"
  by (induction v n s rule: escape_hex.induct) (fastforce simp: Let_def split: if_splits)+

lemma escape_universal_length: "escape_universal n v s = Inr (v', s') \<Longrightarrow> length s' \<le> length s"
  by (induction n v s rule: escape_universal.induct) (fastforce simp: Let_def split: if_splits)+

lemma escape_octal_length: "length (snd (escape_octal n v s)) \<le> length s"
  by (induction n v s rule: escape_octal.induct) (auto intro: order_trans)

lemma parse_escape_length: "parse_escape s = Inr (v, s') \<Longrightarrow> length s' \<le> length s"
  using escape_octal_length [of 3 0 "drop 1 s"]
  by (fastforce simp: parse_escape_def Let_def split: if_splits option.splits sum.splits prod.splits
      dest!: escape_hex_length escape_universal_length)

lemma character_literal_result:
  assumes "length quote \<le> length (cursor p)" "quote \<noteq> []"
  shows "operand_result p (parse_character_literal p quote)"
proof (cases "parse_escape (drop 1 quote)")
  case (Inl e)
  then show ?thesis by (cases e) (auto simp: parse_character_literal_def Let_def)
next
  case (Inr r)
  obtain v after where r: "r = (v, after)" by (cases r)
  have "length (drop 1 after) < length (cursor p)"
    using parse_escape_length [OF Inr [unfolded r]] assms by (cases quote) auto
  moreover have "in_i64 (uint v)"
  proof -
    have "0 \<le> uint v" "uint v < 4294967296" using uint_lt2p [of v] by simp_all
    then show ?thesis unfolding in_i64_def by linarith
  qed
  ultimately show ?thesis
    using Inr r by (auto simp: parse_character_literal_def Let_def)
qed

lemma operand_result_trans:
  assumes "advances p q" "operand_result q r"
  shows "operand_result p r"
  using assms advances_trans [of p q "snd r"] by (auto simp: operand_result_def) (auto simp: advances_def)

lemma defined_result:
  assumes "advances p q" "length (cursor q) < length (cursor p)"
  shows "operand_result p (parse_defined q evaluate)"
proof -
  define q1 where "q1 = expression_space q"
  define par where "par \<longleftrightarrow> peek (cursor q1) = CHR ''(''"
  define q2 where "q2 = (if par then expression_space (q1\<lparr>cursor := drop 1 (cursor q1)\<rparr>) else q1)"
  define q3 where "q3 = q2\<lparr>cursor := word_end (cursor q2)\<rparr>"
  define q4 where "q4 = (if par then (case expression_consume q3 '')'' of
                      (True, parser) \<Rightarrow> parser
                    | (False, parser) \<Rightarrow> expression_error parser
                        (''expected '' @ [CHR 0x27] @ '')'' @ [CHR 0x27] @ '' after defined operand'')) else q3)"
  define r0 where "r0 = q1\<lparr>cursor := drop 1 (cursor q1)\<rparr>"
  have "advances q q1" unfolding q1_def by (rule advances_space)
  moreover have "advances q1 r0" unfolding r0_def by auto
  then have "advances q1 q2"
    unfolding q2_def r0_def [symmetric] using advances_trans [OF _ advances_space] by simp
  ultimately have 2: "advances q q2" "advances p q2"
    using advances_trans [OF assms(1)] advances_trans by blast+
  have "advances q2 q3" unfolding q3_def by (rule advances_cursor) (rule word_end_length)
  moreover have "advances q3 q4"
  proof (cases par)
    case True
    obtain ok r where c: "expression_consume q3 '')'' = (ok, r)" by fastforce
    have "advances q3 r" by (rule expression_consume_cases(1) [OF c])
    then show ?thesis
      using True c by (cases ok) (auto simp: q4_def intro: advances_trans)
  qed (simp add: q4_def)
  ultimately have 4: "advances q2 q4" by (rule advances_trans)
  then have "length (cursor q4) < length (cursor p)"
    using 2(1) assms(2) by (simp add: advances_def)
  moreover have "parse_defined q evaluate = (if \<not> identifier_start (peek (cursor q2))
      then (signed_integer 0, expression_error q2 ''expected a name after defined'')
      else (signed_integer (of_bool (evaluate \<and>
        find_macro (parser_preprocessor q4) (word_text (cursor q2)) \<noteq> None)), q4))"
    unfolding parse_defined_def Let_def q1_def [symmetric] par_def [symmetric] q2_def [symmetric]
      q3_def [symmetric] q4_def [symmetric] ..
  ultimately show ?thesis
    using 2(2) advances_trans [OF 2(2) 4]
    by (auto simp: operand_result_def in_i64_def intro: advances_trans)
qed

lemma condition_atom_result: "operand_result p (condition_atom p evaluate)"
proof -
  define q where "q = expression_space p"
  define at where "at = cursor q"
  have q: "advances p q" by (simp add: q_def)
  have nonempty: "peek at = c \<Longrightarrow> c \<noteq> NUL \<Longrightarrow> at \<noteq> []" for c by auto
  note unfolded = condition_atom_def [of p evaluate, unfolded Let_def, folded q_def, folded at_def]
  consider (char) "ascii (peek at) = 39 \<or> ((peek at = CHR ''L'' \<or> peek at = CHR ''u'' \<or> peek at = CHR ''U'') \<and>
        ascii (peek (drop 1 at)) = 39)"
    | (name) "\<not> (ascii (peek at) = 39 \<or> ((peek at = CHR ''L'' \<or> peek at = CHR ''u'' \<or> peek at = CHR ''U'') \<and>
        ascii (peek (drop 1 at)) = 39))" "identifier_start (peek at)"
    | (rest) "\<not> (ascii (peek at) = 39 \<or> ((peek at = CHR ''L'' \<or> peek at = CHR ''u'' \<or> peek at = CHR ''U'') \<and>
        ascii (peek (drop 1 at)) = 39))" "\<not> identifier_start (peek at)"
    by blast
  then show ?thesis
  proof cases
    case char
    define quote where "quote = (if ascii (peek at) \<noteq> 39 then drop 1 at else at)"
    have "quote \<noteq> []" using char by (cases "ascii (peek at) = 39") (auto simp: quote_def)
    moreover have "length quote \<le> length (cursor q)" by (simp add: quote_def at_def)
    ultimately have "operand_result q (parse_character_literal q quote)"
      by (intro character_literal_result)
    with char operand_result_trans [OF q] show ?thesis
      unfolding unfolded quote_def by auto
  next
    case name
    define r where "r = q\<lparr>cursor := word_end at\<rparr>"
    have len: "length (word_end at) < length (cursor q)"
      using word_end_decreases [OF name(2)] by (simp add: at_def)
    then have r: "advances p r" "length (cursor r) < length (cursor p)"
      using q by (auto simp: r_def advances_def)
    show ?thesis
      using name defined_result [OF r] r
      unfolding unfolded r_def [symmetric] by (auto simp: operand_result_def in_i64_def)
  next
    case rest
    show ?thesis
    proof (cases "isdigit (peek at)")
      case True
      then have "cursor q \<noteq> []" by (auto simp: at_def)
      from operand_result_trans [OF q integer_literal_result [OF this]] show ?thesis
        unfolding unfolded if_not_P [OF rest(1)] if_not_P [OF rest(2)] if_P [OF True] .
    next
      case False
      from operand_result_trans [OF q operand_result_error(2)] show ?thesis
        unfolding unfolded if_not_P [OF rest(1)] if_not_P [OF rest(2)] if_not_P [OF False] .
    qed
  qed
qed

section \<open>The value of an integer constant\<close>

definition radix_value :: "int \<Rightarrow> int \<Rightarrow> string \<Rightarrow> int" where
  "radix_value base v ds = foldl (\<lambda>v c. v * base + digit_value c) v ds"

definition integer_prefixes :: "(string \<times> int) list" where
  "integer_prefixes = [('''', 10), (''0'', 8), (''0x'', 16), (''0X'', 16)]"

text \<open>The suffixes and whether they make the constant unsigned.\<close>

definition integer_suffixes :: "(string \<times> bool) list" where
  "integer_suffixes =
     (let longs = ['''', ''l'', ''L'', ''ll'', ''LL'']; unsigneds = [''u'', ''U'']
      in map (\<lambda>l. (l, False)) longs @
         concat (map (\<lambda>u. concat (map (\<lambda>l. [(u @ l, True), (l @ u, True)]) longs)) unsigneds))"

definition valid_digits :: "int \<Rightarrow> string \<Rightarrow> bool" where
  "valid_digits base ds \<longleftrightarrow> (\<forall>c \<in> set ds. 0 \<le> digit_value c \<and> digit_value c < base)"

lemma radix_value_ge:
  "1 \<le> base \<Longrightarrow> 0 \<le> v \<Longrightarrow> valid_digits base ds \<Longrightarrow> v \<le> radix_value base v ds"
proof (induction ds arbitrary: v)
  case Nil
  then show ?case by (simp add: radix_value_def)
next
  case (Cons c ds)
  have "v * 1 \<le> v * base" using Cons.prems by (intro mult_left_mono) auto
  with Cons.prems have "v \<le> v * base + digit_value c" "0 \<le> v * base + digit_value c"
    by (auto simp: valid_digits_def)
  with Cons.IH [of "v * base + digit_value c"] Cons.prems show ?case
    by (auto simp: radix_value_def valid_digits_def)
qed

lemma literal_digits_value:
  assumes "valid_digits base ds" "1 < base" "base \<le> 16" "0 \<le> v" "v < 18446744073709551616"
    and stop: "digit_value (peek t) < 0 \<or> digit_value (peek t) \<ge> base"
  shows "literal_digits base (u64 v) d (ds @ t) =
    (if radix_value base v ds < 18446744073709551616
     then Some (u64 (radix_value base v ds), d \<or> ds \<noteq> [], t) else None)"
  using assms(1,4,5)
proof (induction ds arbitrary: v d)
  case Nil
  then show ?case using stop by (cases t) (auto simp: radix_value_def Let_def)
next
  case (Cons c ds)
  define x where "x = digit_value c"
  have x: "0 \<le> x" "x < base" using Cons.prems by (auto simp: valid_digits_def x_def)
  have big: "u64 v > (- 1 - u64 x) div u64 base \<longleftrightarrow> v * base + x \<ge> 18446744073709551616"
  proof -
    have ux: "uint (u64 x) = x" "uint (u64 base) = base" "uint (u64 v) = v"
      using x assms(2,3) Cons.prems by simp_all
    have "uint (- 1 - u64 x) = 18446744073709551615 - x"
      using uint_sub_lem [of "u64 x" "- 1"] x assms(3) ux by (simp add: uint_minus_one_u64)
    then have "uint ((- 1 - u64 x) div u64 base) = (18446744073709551615 - x) div base"
      by (simp only: uint_div_word ux)
    then show ?thesis
      using div_less_iff [of base "18446744073709551615 - x" v] assms(2)
      by (simp only: word_less_def ux) linarith
  qed
  have digits: "valid_digits base ds" using Cons.prems by (simp add: valid_digits_def)
  have nn: "0 \<le> v * base + x" using Cons.prems x assms(2) by simp
  show ?case
  proof (cases "v * base + x \<ge> 18446744073709551616")
    case True
    have "v * base + x \<le> radix_value base v (c # ds)"
      using radix_value_ge [OF _ nn digits] assms(2) by (simp add: radix_value_def x_def)
    with True big x show ?thesis by (simp add: Let_def x_def [symmetric])
  next
    case False
    have "u64 v * u64 base + u64 x = u64 (v * base + x)" by (simp add: u64_def)
    with False big x Cons.IH [OF digits nn, of True] show ?thesis
      by (simp add: Let_def x_def [symmetric] radix_value_def)
  qed
qed

lemma literal_suffix_value:
  assumes "(sfx, u) \<in> set integer_suffixes" "\<not> identifier_continue (peek t)"
  shows "literal_suffix False 0 (sfx @ t) = Inr (u, t)"
proof -
  have t: "peek t \<noteq> CHR ''u''" "peek t \<noteq> CHR ''U''" "peek t \<noteq> CHR ''l''" "peek t \<noteq> CHR ''L''"
    using assms(2) by (auto simp: identifier_continue_def char_class)
  have l: "literal_suffix b n t = Inr (b, t)" for b n
    by (subst literal_suffix.simps) (simp add: t)
  have "\<forall>(sfx, u) \<in> set integer_suffixes. literal_suffix False 0 (sfx @ t) = Inr (u, t)"
    by (simp add: integer_suffixes_def Let_def literal_suffix.simps [of _ _ "_ # _"] l t [THEN not_sym] t)
  with assms(1) show ?thesis by auto
qed

lemma digit_value_suffix:
  "digit_value CHR ''u'' = -1" "digit_value CHR ''U'' = -1" "digit_value CHR ''l'' = -1" "digit_value CHR ''L'' = -1"
  by (simp_all add: digit_value_def ascii_def)

lemma suffix_stops_digits:
  assumes "(sfx, u) \<in> set integer_suffixes" "\<not> identifier_continue (peek t)"
  shows "digit_value (peek (sfx @ t)) < 0" "peek (sfx @ t) \<noteq> CHR ''x''" "peek (sfx @ t) \<noteq> CHR ''X''"
proof -
  have t: "digit_value (peek t) < 0" "peek t \<noteq> CHR ''x''" "peek t \<noteq> CHR ''X''"
    using assms(2) by (auto simp: identifier_continue_def digit_value_def char_class)
  have "\<forall>(sfx, u) \<in> set integer_suffixes. digit_value (peek (sfx @ t)) < 0 \<and>
      peek (sfx @ t) \<noteq> CHR ''x'' \<and> peek (sfx @ t) \<noteq> CHR ''X''"
    using t by (simp add: integer_suffixes_def Let_def digit_value_suffix)
  with assms(1) show "digit_value (peek (sfx @ t)) < 0" "peek (sfx @ t) \<noteq> CHR ''x''"
    "peek (sfx @ t) \<noteq> CHR ''X''"
    by auto
qed

lemma digit_not_x: "0 \<le> digit_value c \<Longrightarrow> c \<noteq> CHR ''x'' \<and> c \<noteq> CHR ''X''"
  by (auto simp: digit_value_def ascii_def)

text \<open>What the code makes of a value that the digits denote.\<close>

definition literal_outcome ::
  "expression_parser \<Rightarrow> cptr \<Rightarrow> int \<Rightarrow> bool \<Rightarrow> int \<Rightarrow> integer_value \<times> expression_parser" where
  "literal_outcome p rest base u v =
     (if v \<ge> 18446744073709551616 then
        (signed_integer 0, expression_error_at p (cursor p) ''integer constant exceeds uintmax_t'')
      else if u \<or> (base \<noteq> 10 \<and> v > INT64_MAX) then (unsigned_integer (u64 v), p\<lparr>cursor := rest\<rparr>)
      else if v > INT64_MAX then
        (signed_integer 0, expression_error_at (p\<lparr>cursor := rest\<rparr>) (cursor p)
           ''decimal integer constant exceeds intmax_t'')
      else (signed_integer v, p\<lparr>cursor := rest\<rparr>))"

definition literal_digits_ok :: "int \<Rightarrow> string \<Rightarrow> bool" where
  "literal_digits_ok base ds \<longleftrightarrow> valid_digits base ds \<and> (base \<noteq> 8 \<longrightarrow> ds \<noteq> []) \<and>
     (base = 10 \<longrightarrow> peek ds \<noteq> CHR ''0'')"

lemma literal_head:
  assumes "(pre, base) \<in> set integer_prefixes" "literal_digits_ok base ds"
    and tail: "digit_value (peek tail) < 0" "peek tail \<noteq> CHR ''x''" "peek tail \<noteq> CHR ''X''"
  defines "s \<equiv> pre @ ds @ tail"
  shows "(peek s = CHR ''0'' \<and> (peek (drop 1 s) = CHR ''x'' \<or> peek (drop 1 s) = CHR ''X'')) \<longleftrightarrow> base = 16"
    and "peek s = CHR ''0'' \<longleftrightarrow> base \<noteq> 10" and "pre = take (length pre) s"
    and "base = 16 \<Longrightarrow> drop 2 s = ds @ tail" "base = 8 \<Longrightarrow> drop 1 s = ds @ tail" "base = 10 \<Longrightarrow> s = ds @ tail"
    and "base \<in> {8, 10, 16}"
proof -
  have x: "base = 8 \<Longrightarrow> peek (ds @ tail) \<noteq> CHR ''x'' \<and> peek (ds @ tail) \<noteq> CHR ''X''"
    using tail assms(2) digit_not_x by (cases ds) (auto simp: literal_digits_ok_def valid_digits_def)
  have z: "base = 10 \<Longrightarrow> peek (ds @ tail) \<noteq> CHR ''0''"
    using assms(2) by (cases ds) (auto simp: literal_digits_ok_def)
  from assms(1) have "(pre = '''' \<and> base = 10) \<or> (pre = ''0'' \<and> base = 8) \<or> (pre = ''0x'' \<and> base = 16) \<or> (pre = ''0X'' \<and> base = 16)"
    by (auto simp: integer_prefixes_def)
  then show "(peek s = CHR ''0'' \<and> (peek (drop 1 s) = CHR ''x'' \<or> peek (drop 1 s) = CHR ''X'')) \<longleftrightarrow> base = 16"
    "peek s = CHR ''0'' \<longleftrightarrow> base \<noteq> 10" "pre = take (length pre) s"
    "base = 16 \<Longrightarrow> drop 2 s = ds @ tail" "base = 8 \<Longrightarrow> drop 1 s = ds @ tail" "base = 10 \<Longrightarrow> s = ds @ tail"
    "base \<in> {8, 10, 16}"
    using x z by (auto simp: s_def numeral_2_eq_2)
qed

lemma parse_integer_literal_value:
  assumes "(pre, base) \<in> set integer_prefixes" "literal_digits_ok base ds" "(sfx, u) \<in> set integer_suffixes"
    and "\<not> identifier_continue (peek rest)" "cursor p = pre @ ds @ sfx @ rest"
  shows "parse_integer_literal p = literal_outcome p rest base u (radix_value base 0 ds)"
proof -
  define tail where "tail = sfx @ rest"
  define v where "v = radix_value base 0 ds"
  note stop = suffix_stops_digits [OF assms(3,4), folded tail_def]
  note head = literal_head [OF assms(1,2) stop, folded assms(5) [folded tail_def]]
  have base: "1 < base" "base \<le> 16" using head(7) by auto
  have d: "literal_digits base 0 oct (ds @ tail) =
      (if v < 18446744073709551616 then Some (u64 v, oct \<or> ds \<noteq> [], tail) else None)" for oct
    using literal_digits_value [of base ds 0 tail oct] assms(2) base stop(1)
    by (simp add: literal_digits_ok_def v_def)
  have v0: "0 \<le> v" using radix_value_ge [of base 0 ds] assms(2) base by (simp add: v_def literal_digits_ok_def)
  have digits: "ds \<noteq> [] \<or> base = 8" using assms(2) by (auto simp: literal_digits_ok_def)
  have "peek tail \<noteq> CHR ''8'' \<and> peek tail \<noteq> CHR ''9''"
    using stop(1) by (auto simp: digit_value_def ascii_def)
  note simple = this literal_suffix_value [OF assms(3,4), folded tail_def] assms(4)
  have start: "(if base = 16 then drop 2 (cursor p) else if base = 8 then drop 1 (cursor p) else cursor p) = ds @ tail"
    using head(4-7) by auto
  have eq: "(if base = 16 then 16 else if base = 8 then 8 else 10) = base" "base \<noteq> 16 \<and> base \<noteq> 10 \<longleftrightarrow> base = 8"
    using head(7) by auto
  show ?thesis
  proof (cases "v < 18446744073709551616")
    case False
    then show ?thesis
      unfolding parse_integer_literal_def Let_def head(1) unfolding head(2) eq start d literal_outcome_def v_def [symmetric] by simp
  next
    case True
    then have "u64 INT64_MAX < u64 v \<longleftrightarrow> INT64_MAX < v" "v \<le> INT64_MAX \<Longrightarrow> sint (u64 v) = v"
      using v0 by (simp_all add: word_less_def sint_u64_of_i64 in_i64_def)
    with True digits simple show ?thesis
      unfolding parse_integer_literal_def Let_def head(1) unfolding head(2) eq start d literal_outcome_def v_def [symmetric]
      by auto
  qed
qed

section \<open>Properties\<close>

text \<open>
  C13: Integer constants of \<open>#if\<close> expressions have their C value and type: for every prefix (decimal,
  octal, hexadecimal), digits and suffix that C allows, the parser returns the value that the
  digits denote, unsigned exactly when the suffix says so or a non-decimal value exceeds
  \<open>intmax_t\<close>, and refuses exactly the values that the type cannot hold.
\<close>
theorem integer_constant_value:
  assumes "(pre, base) \<in> set integer_prefixes" "literal_digits_ok base ds" "(sfx, u) \<in> set integer_suffixes"
    and "\<not> identifier_continue (peek rest)" "cursor p = pre @ ds @ sfx @ rest"
  shows "parse_integer_literal p = literal_outcome p rest base u (radix_value base 0 ds)"
  using assms by (rule parse_integer_literal_value)

definition sample_parser :: "string \<Rightarrow> expression_parser" where
  "sample_parser s = \<lparr>parser_preprocessor = sample_preprocessor, parser_text = s, cursor = s,
     parser_line = 1, parser_column = 5, failed = False\<rparr>"

theorem integer_constant_value_witness:
  "fst (parse_integer_literal (sample_parser ''0xFFFFFFFFFFFFFFFF'')) = unsigned_integer (- 1)
    \<and> fst (parse_integer_literal (sample_parser ''017ull)'')) = unsigned_integer 15"
proof -
  have m: "u64 18446744073709551615 = - 1" by (rule word_uint_eqI) (simp add: uint_u64 uint_minus_one_u64)
  have "fst (parse_integer_literal (sample_parser ''0xFFFFFFFFFFFFFFFF'')) = unsigned_integer (- 1)"
    by (subst integer_constant_value [of "''0x''" 16 "''FFFFFFFFFFFFFFFF''" "''''" False "''''"])
      (simp_all add: integer_prefixes_def literal_digits_ok_def valid_digits_def digit_value_def ascii_def
        integer_suffixes_def identifier_continue_def NUL_code char_class sample_parser_def literal_outcome_def radix_value_def m)
  moreover have "u64 15 = 15" by (simp add: u64_def)
  then have "fst (parse_integer_literal (sample_parser ''017ull)'')) = unsigned_integer 15"
    by (subst integer_constant_value [of "''0''" 8 "''17''" "''ull''" True "'')''"])
      (simp_all add: integer_prefixes_def literal_digits_ok_def valid_digits_def digit_value_def ascii_def
        integer_suffixes_def identifier_continue_def char_class sample_parser_def literal_outcome_def radix_value_def)
  ultimately show ?thesis by blast
qed

end
