(* ===== verification/Cond_Machine.thy ===== *)
theory Cond_Machine
  imports Cond_Literal
begin

text \<open>
  The parser of \<open>#if\<close> expressions (\<open>frontend/preprocessor/condition/parse.c\<close>): an explicit stack of
  activation records instead of recursion. One iteration of the \<open>while\<close> loop is
  \<open>condition_step\<close>; \<open>run_condition\<close> is the loop, which terminates because every iteration consumes
  input, removes a frame or fails.
\<close>

section \<open>Frames\<close>

datatype frame_state =
  FRAME_OPERAND | FRAME_OPERATOR | FRAME_UNARY | FRAME_PARENTHESIS | FRAME_BINARY
| FRAME_TRUE_BRANCH | FRAME_FALSE_BRANCH

record condition_frame =
  frame_state :: frame_state
  minimum_precedence :: nat
  frame_depth :: nat
  frame_evaluate :: bool
  frame_selected :: bool
  frame_operation :: condition_operator
  operation_at :: cptr
  frame_left :: integer_value
  frame_when_true :: integer_value

text \<open>The stack; the head of the list is the frame at \<open>count - 1\<close>.\<close>

record condition_stack =
  stack_frames :: "condition_frame list"
  stack_capacity :: nat

definition operator_tokens :: "(string \<times> condition_operator \<times> nat) list" where
  "operator_tokens =
    [(''||'', CONDITION_LOGICAL_OR, 2), (''&&'', CONDITION_LOGICAL_AND, 3),
     (''|'', CONDITION_BIT_OR, 4), (''^'', CONDITION_BIT_XOR, 5),
     (''&'', CONDITION_BIT_AND, 6), (''=='', CONDITION_EQUAL, 7),
     (''!='', CONDITION_NOT_EQUAL, 7), (''<='', CONDITION_LESS_EQUAL, 8),
     (''>='', CONDITION_GREATER_EQUAL, 8), (''<<'', CONDITION_LEFT_SHIFT, 9),
     (''>>'', CONDITION_RIGHT_SHIFT, 9), (''<'', CONDITION_LESS, 8),
     (''>'', CONDITION_GREATER, 8), (''+'', CONDITION_ADD, 10),
     (''-'', CONDITION_SUBTRACT, 10), (''*'', CONDITION_MULTIPLY, 11),
     (''/'', CONDITION_DIVIDE, 11), (''%'', CONDITION_REMAINDER, 11)]"

definition peek_operator :: "cptr \<Rightarrow> (string \<times> condition_operator \<times> nat) option" where
  "peek_operator s = find (\<lambda>(token, _). at_token (skip_space s) token) operator_tokens"

text \<open>The zero-initialized frame with its designated members; \<open>sizeof(ConditionFrame)\<close> is 88 bytes.\<close>

definition zero_integer :: integer_value where
  "zero_integer = \<lparr>unsigned_part = 0, signed_part = 0, is_unsigned = False\<rparr>"

definition new_frame :: "nat \<Rightarrow> bool \<Rightarrow> nat \<Rightarrow> condition_frame" where
  "new_frame precedence evaluate depth =
     \<lparr>frame_state = FRAME_OPERAND, minimum_precedence = precedence, frame_depth = depth,
      frame_evaluate = evaluate, frame_selected = False, frame_operation = CONDITION_NONE,
      operation_at = [], frame_left = zero_integer, frame_when_true = zero_integer\<rparr>"

definition push_frame ::
  "expression_parser \<Rightarrow> condition_stack \<Rightarrow> nat \<Rightarrow> bool \<Rightarrow> nat \<Rightarrow> bool \<times> expression_parser \<times> condition_stack" where
  "push_frame parser stack precedence evaluate depth =
     (let full = (length (stack_frames stack) = stack_capacity stack);
          capacity = stack_capacity stack * 2
      in if full \<and> stack_capacity stack > SIZE_MAX div 2 div 88 then
           (False, condition_error_code parser DIAGNOSTIC_RESOURCE_LIMIT (cursor parser)
              ''preprocessor condition stack capacity exceeded'', stack)
         else if full \<and> \<not> memory (parser_preprocessor parser) (capacity * 88) then
           (False, condition_error_code parser DIAGNOSTIC_OUT_OF_MEMORY (cursor parser)
              ''out of memory while parsing a preprocessor condition'', stack)
         else (True, parser,
           stack\<lparr>stack_frames := new_frame precedence evaluate depth # stack_frames stack,
                 stack_capacity := (if full then capacity else stack_capacity stack)\<rparr>))"

definition push_nested ::
  "expression_parser \<Rightarrow> condition_stack \<Rightarrow> nat \<Rightarrow> bool \<Rightarrow> nat \<Rightarrow> bool \<times> expression_parser \<times> condition_stack" where
  "push_nested parser stack precedence evaluate depth =
     (if depth \<ge> max_parse_depth (limits (parser_preprocessor parser)) then
        (False, condition_error_code parser DIAGNOSTIC_RESOURCE_LIMIT (cursor parser)
           ''preprocessor condition expression depth limit exceeded'', stack)
      else push_frame parser stack precedence evaluate (depth + 1))"

section \<open>One iteration\<close>

text \<open>
  A step gives whether the loop goes on (\<open>continue\<close> against \<open>break\<close>), the parser, the stack and the
  variable \<open>value\<close>. \<open>current\<close> is the frame on top of the stack, \<open>below\<close> the others.
\<close>

type_synonym step_result = "bool \<times> expression_parser \<times> condition_stack \<times> integer_value"

definition pushed :: "bool \<times> expression_parser \<times> condition_stack \<Rightarrow> integer_value \<Rightarrow> step_result" where
  "pushed r val = (case r of (ok, parser, stack) \<Rightarrow> (ok, parser, stack, val))"

definition advance_cursor :: "expression_parser \<Rightarrow> nat \<Rightarrow> expression_parser" where
  "advance_cursor parser n = parser\<lparr>cursor := drop n (cursor parser)\<rparr>"

definition unary_token :: "char \<Rightarrow> condition_operator option" where
  "unary_token c =
     (if c = CHR ''+'' then Some CONDITION_ADD
      else if c = CHR ''-'' then Some CONDITION_SUBTRACT
      else if c = CHR ''!'' then Some CONDITION_LOGICAL_NOT
      else if c = CHR ''~'' then Some CONDITION_BIT_NOT
      else None)"

definition operand_step ::
  "expression_parser \<Rightarrow> condition_stack \<Rightarrow> condition_frame \<Rightarrow> condition_frame list \<Rightarrow> integer_value \<Rightarrow> step_result" where
  "operand_step parser stack current below val =
     (if peek (cursor parser) = CHR ''('' then
        (let current = current\<lparr>frame_state := FRAME_PARENTHESIS\<rparr>
         in pushed (push_nested (advance_cursor parser 1) (stack\<lparr>stack_frames := current # below\<rparr>) 1
              (frame_evaluate current) (frame_depth current)) val)
      else case unary_token (peek (cursor parser)) of
        Some operation \<Rightarrow>
          (let current = current\<lparr>frame_operation := operation, operation_at := cursor parser, frame_state := FRAME_UNARY\<rparr>
           in pushed (push_nested (advance_cursor parser 1) (stack\<lparr>stack_frames := current # below\<rparr>) 12
                (frame_evaluate current) (frame_depth current)) val)
      | None \<Rightarrow>
          (case condition_atom parser (frame_evaluate current) of
             (left, parser) \<Rightarrow>
               (True, parser,
                stack\<lparr>stack_frames := current\<lparr>frame_left := left, frame_state := FRAME_OPERATOR\<rparr> # below\<rparr>, val)))"

text \<open>The frame below receives the value of a finished frame (the \<open>switch\<close>).\<close>

definition select_branch :: "condition_frame \<Rightarrow> integer_value \<Rightarrow> integer_value" where
  "select_branch frame val =
     (let left = (if frame_selected frame then frame_when_true frame else val);
          left = (if is_unsigned (frame_when_true frame) \<or> is_unsigned val
                  then unsigned_integer (integer_unsigned left) else left)
      in if \<not> frame_evaluate frame then (if is_unsigned left then unsigned_integer 0 else signed_integer 0)
         else left)"

definition return_step ::
  "expression_parser \<Rightarrow> condition_stack \<Rightarrow> condition_frame \<Rightarrow> condition_frame list \<Rightarrow> integer_value \<Rightarrow> step_result" where
  "return_step parser stack frame below val =
     (let update = (\<lambda>parser frame. (True, parser, stack\<lparr>stack_frames := frame # below\<rparr>, val))
      in case frame_state frame of
        FRAME_UNARY \<Rightarrow>
          (case condition_unary parser (frame_operation frame) val (frame_evaluate frame) (operation_at frame) of
             (left, parser) \<Rightarrow> update parser (frame\<lparr>frame_left := left, frame_state := FRAME_OPERATOR\<rparr>))
      | FRAME_PARENTHESIS \<Rightarrow>
          (case expression_consume parser '')'' of
             (ok, parser) \<Rightarrow>
               update (if ok then parser else expression_error parser
                   (''expected '' @ [CHR 0x27] @ '')'' @ [CHR 0x27] @ '' in preprocessor condition''))
                 (frame\<lparr>frame_left := val, frame_state := FRAME_OPERATOR\<rparr>))
      | FRAME_BINARY \<Rightarrow>
          (case condition_binary parser (frame_operation frame) (frame_left frame) val (frame_evaluate frame)
                  (operation_at frame) of
             (left, parser) \<Rightarrow> update parser (frame\<lparr>frame_left := left, frame_state := FRAME_OPERATOR\<rparr>))
      | FRAME_TRUE_BRANCH \<Rightarrow>
          (case expression_consume parser '':'' of
             (False, parser) \<Rightarrow> update (expression_error parser
                 (''expected '' @ [CHR 0x27] @ '':'' @ [CHR 0x27] @ '' in preprocessor conditional expression'')) frame
           | (True, parser) \<Rightarrow>
               (let frame = frame\<lparr>frame_when_true := val, frame_state := FRAME_FALSE_BRANCH\<rparr>
                in case push_nested parser (stack\<lparr>stack_frames := frame # below\<rparr>) 1
                     (frame_evaluate frame \<and> \<not> frame_selected frame) (frame_depth frame) of
                   (_, parser, stack) \<Rightarrow> (True, parser, stack, val)))
      | FRAME_FALSE_BRANCH \<Rightarrow>
          update parser (frame\<lparr>frame_left := select_branch frame val, frame_state := FRAME_OPERATOR\<rparr>)
      | _ \<Rightarrow> update (expression_error parser ''invalid preprocessor condition parser state'') frame)"

definition operator_step ::
  "expression_parser \<Rightarrow> condition_stack \<Rightarrow> condition_frame \<Rightarrow> condition_frame list \<Rightarrow> integer_value \<Rightarrow> step_result" where
  "operator_step parser stack current below val =
     (let finish_frame =
        (case below of
           [] \<Rightarrow> (False, parser, stack\<lparr>stack_frames := []\<rparr>, frame_left current)
         | frame # below \<Rightarrow> return_step parser stack frame below (frame_left current))
      in
      if peek (cursor parser) = CHR ''?'' \<and> minimum_precedence current \<le> 1 then
        (let current = current\<lparr>frame_selected := integer_true (frame_left current), frame_state := FRAME_TRUE_BRANCH\<rparr>
         in pushed (push_nested (advance_cursor parser 1) (stack\<lparr>stack_frames := current # below\<rparr>) 1
              (frame_evaluate current \<and> frame_selected current) (frame_depth current)) val)
      else case peek_operator (cursor parser) of
        Some (token, operation, precedence) \<Rightarrow>
          if precedence \<ge> minimum_precedence current then
            (let current = current\<lparr>frame_operation := operation, operation_at := cursor parser, frame_state := FRAME_BINARY\<rparr>;
                 rhs_evaluate =
                   (if operation = CONDITION_LOGICAL_AND then frame_evaluate current \<and> integer_true (frame_left current)
                    else if operation = CONDITION_LOGICAL_OR then frame_evaluate current \<and> \<not> integer_true (frame_left current)
                    else frame_evaluate current)
             in pushed (push_frame (advance_cursor parser (length token)) (stack\<lparr>stack_frames := current # below\<rparr>)
                  (precedence + 1) rhs_evaluate (frame_depth current)) val)
          else finish_frame
      | None \<Rightarrow> finish_frame)"

definition condition_step ::
  "expression_parser \<Rightarrow> condition_stack \<Rightarrow> condition_frame \<Rightarrow> condition_frame list \<Rightarrow> integer_value \<Rightarrow> step_result" where
  "condition_step parser stack current below val =
     (let parser = expression_space parser
      in if frame_state current = FRAME_OPERAND then operand_step parser stack current below val
         else if frame_state current = FRAME_OPERATOR then operator_step parser stack current below val
         else (True, expression_error parser ''invalid preprocessor condition parser state'', stack, val))"

section \<open>Every iteration makes progress\<close>

lemma push_frame_cases:
  assumes "push_frame p st prec ev d = (ok, q, st')"
  shows "(ok \<and> q = p \<and> stack_frames st' = new_frame prec ev d # stack_frames st) \<or>
    (\<not> ok \<and> st' = st \<and> failed q \<and> advances p q)"
  using assms by (auto simp: push_frame_def Let_def split: if_splits)

lemma push_nested_cases:
  assumes "push_nested p st prec ev d = (ok, q, st')"
  shows "(ok \<and> q = p \<and> d < max_parse_depth (limits (parser_preprocessor p)) \<and>
      stack_frames st' = new_frame prec ev (d + 1) # stack_frames st) \<or>
    (\<not> ok \<and> st' = st \<and> failed q \<and> advances p q)"
  using assms push_frame_cases [of p st prec ev "d + 1" ok q st']
  by (auto simp: push_nested_def split: if_splits)

lemma advance_cursor_fields [simp]:
  "cursor (advance_cursor p n) = drop n (cursor p)" "failed (advance_cursor p n) = failed p"
  "parser_preprocessor (advance_cursor p n) = parser_preprocessor p"
  by (simp_all add: advance_cursor_def)

lemma advances_advance_cursor [simp, intro]: "advances p (advance_cursor p n)"
  by (auto simp: advance_cursor_def)

text \<open>What a step does, as far as the loop's progress and its contract are concerned.\<close>

definition progress ::
  "expression_parser \<Rightarrow> nat \<Rightarrow> expression_parser \<Rightarrow> nat \<Rightarrow> bool" where
  "progress p n q m \<longleftrightarrow> advances p q \<and>
     (failed q \<or> length (cursor q) < length (cursor p) \<or> m < n)"

lemma pushed_progress:
  assumes "pushed (push_nested (advance_cursor p k) st prec ev d) val = (go, q, st', val')"
    and "cursor p \<noteq> []" "0 < k"
  shows "progress p n q (length (stack_frames st'))"
proof -
  obtain ok r st'' where r: "push_nested (advance_cursor p k) st prec ev d = (ok, r, st'')"
    by (metis prod_cases3)
  with assms push_nested_cases [OF r] show ?thesis
    by (auto simp: pushed_def progress_def dest: advances_trans [OF advances_advance_cursor])
qed

lemma pushed_frame_progress:
  assumes "pushed (push_frame (advance_cursor p k) st prec ev d) val = (go, q, st', val')"
    and "cursor p \<noteq> []" "0 < k"
  shows "progress p n q (length (stack_frames st'))"
proof -
  obtain ok r st'' where r: "push_frame (advance_cursor p k) st prec ev d = (ok, r, st'')"
    by (metis prod_cases3)
  with assms push_frame_cases [OF r] show ?thesis
    by (auto simp: pushed_def progress_def dest: advances_trans [OF advances_advance_cursor])
qed

lemma operand_step_progress:
  assumes "operand_step p st cur below val = (go, q, st', val')"
  shows "progress p n q (length (stack_frames st'))"
proof -
  consider (paren) "peek (cursor p) = CHR ''(''"
    | (unary) c where "peek (cursor p) \<noteq> CHR ''(''" "unary_token (peek (cursor p)) = Some c"
    | (atom) "peek (cursor p) \<noteq> CHR ''(''" "unary_token (peek (cursor p)) = None"
    by fastforce
  then show ?thesis
  proof cases
    case paren
    then have "cursor p \<noteq> []" by (auto simp: NUL_code)
    with paren assms show ?thesis by (auto simp: operand_step_def Let_def intro: pushed_progress)
  next
    case unary
    then have "cursor p \<noteq> []" by (auto simp: unary_token_def NUL_code split: if_splits)
    with unary assms show ?thesis by (auto simp: operand_step_def Let_def intro: pushed_progress)
  next
    case atom
    with assms condition_atom_result [of p "frame_evaluate cur"] show ?thesis
      by (auto simp: operand_step_def progress_def operand_result_def split: prod.splits)
  qed
qed

lemma condition_unary_advances:
  "condition_unary p op v ev at = (w, q) \<Longrightarrow> advances p q"
  by (auto simp: condition_unary_def split: if_splits)

lemma condition_binary_advances:
  "condition_binary p op l r ev at = (w, q) \<Longrightarrow> advances p q"
  by (cases op) (auto simp: condition_binary_def condition_shift_def condition_unsigned_def condition_signed_def
      relational_def Let_def split: if_splits option.splits)

lemma return_step_progress:
  assumes "return_step p st f below val = (go, q, st', val')"
  shows "progress p (Suc (Suc (length below))) q (length (stack_frames st'))"
proof (cases "frame_state f")
  case FRAME_TRUE_BRANCH
  obtain ok r where c: "expression_consume p '':'' = (ok, r)" by fastforce
  note consume = expression_consume_cases [OF c]
  show ?thesis
  proof (cases ok)
    case False
    with assms FRAME_TRUE_BRANCH c consume(1) show ?thesis
      by (auto simp: return_step_def progress_def Let_def dest: advances_trans [OF _ advances_error(3)])
  next
    case True
    obtain ok' r' st'' where n: "push_nested r (st\<lparr>stack_frames := f\<lparr>frame_when_true := val,
        frame_state := FRAME_FALSE_BRANCH\<rparr> # below\<rparr>) 1 (frame_evaluate f \<and> \<not> frame_selected f) (frame_depth f)
      = (ok', r', st'')" by (metis prod_cases3)
    from assms FRAME_TRUE_BRANCH c True n have q: "q = r'" "st' = st''"
      by (auto simp: return_step_def Let_def)
    have "advances r r'" "failed r' \<or> r' = r" using push_nested_cases [OF n] by auto
    with consume True show ?thesis
      unfolding q progress_def using advances_trans by auto
  qed
next
  case FRAME_PARENTHESIS
  obtain ok r where c: "expression_consume p '')'' = (ok, r)" by fastforce
  from assms FRAME_PARENTHESIS c expression_consume_cases [OF c] show ?thesis
    by (auto simp: return_step_def progress_def Let_def dest: advances_trans [OF _ advances_error(3)])
qed (use assms in \<open>auto simp: return_step_def progress_def Let_def split: prod.splits
      dest: condition_unary_advances condition_binary_advances\<close>)

lemma peek_operator_nonempty:
  assumes "peek_operator s = Some (token, operation, precedence)"
  shows "(token, operation, precedence) \<in> set operator_tokens" "at_token (skip_space s) token" "token \<noteq> []"
    "skip_space s \<noteq> []"
proof -
  show in_set: "(token, operation, precedence) \<in> set operator_tokens" and at: "at_token (skip_space s) token"
    using assms by (auto simp: peek_operator_def find_Some_iff) (metis nth_mem)
  show "token \<noteq> []" using in_set by (auto simp: operator_tokens_def)
  with at show "skip_space s \<noteq> []" by (auto simp: at_token_def)
qed

lemma operator_step_progress:
  assumes "operator_step p st cur below val = (go, q, st', val')"
  shows "progress p (Suc (length below)) q (length (stack_frames st'))"
proof -
  define finish where "finish = (case below of
           [] \<Rightarrow> (False, p, st\<lparr>stack_frames := []\<rparr>, frame_left cur)
         | frame # below \<Rightarrow> return_step p st frame below (frame_left cur))"
  have fin: "finish = (go, q, st', val') \<Longrightarrow> ?thesis"
    by (cases below) (auto simp: finish_def progress_def dest: return_step_progress)
  show ?thesis
  proof (cases "peek (cursor p) = CHR ''?'' \<and> minimum_precedence cur \<le> 1")
    case True
    then have "cursor p \<noteq> []" by (auto simp: NUL_code)
    with True assms show ?thesis by (auto simp: operator_step_def Let_def intro: pushed_progress)
  next
    case not_conditional: False
    note step = assms [unfolded operator_step_def Let_def finish_def [symmetric] if_not_P [OF not_conditional]]
    show ?thesis
    proof (cases "peek_operator (cursor p)")
      case None
      with step fin show ?thesis by simp
    next
      case (Some x)
      obtain token op prec where x: "x = (token, op, prec)" by (cases x) auto
      note tok = peek_operator_nonempty [OF Some [unfolded x]]
      then have "cursor p \<noteq> []" by auto
      with step fin Some x tok(3) show ?thesis
        by (auto split: if_splits intro: pushed_frame_progress)
    qed
  qed
qed

lemma progress_trans:
  assumes "advances p r" "progress r n q m"
  shows "progress p n q m"
  using assms advances_trans [of p r q] by (auto simp: progress_def) (auto simp: advances_def)

lemma condition_step_progress:
  assumes "condition_step p st cur below val = (go, q, st', val')"
  shows "progress p (Suc (length below)) q (length (stack_frames st'))"
proof (rule progress_trans [OF advances_space])
  show "progress (expression_space p) (Suc (length below)) q (length (stack_frames st'))"
    using assms operand_step_progress [of "expression_space p" st cur below val]
      operator_step_progress [of "expression_space p" st cur below val]
    by (cases "frame_state cur") (auto simp: condition_step_def Let_def, auto simp: progress_def)
qed

section \<open>The loop\<close>

function run_condition ::
  "expression_parser \<Rightarrow> condition_stack \<Rightarrow> integer_value \<Rightarrow> integer_value \<times> expression_parser" where
  "run_condition parser stack val =
     (if failed parser then (val, parser)
      else case stack_frames stack of
        [] \<Rightarrow> (val, parser)
      | current # below \<Rightarrow>
          (case condition_step parser stack current below val of
             (True, parser', stack', val') \<Rightarrow> run_condition parser' stack' val'
           | (False, parser', stack', val') \<Rightarrow> (val', parser')))"
  by pat_completeness auto
termination
  apply (relation "measures [\<lambda>(p, st, v). if failed p then 0 else 1, \<lambda>(p, st, v). length (cursor p),
    \<lambda>(p, st, v). length (stack_frames st)]")
  subgoal by simp
  subgoal for parser stack val current below
    by (auto simp: progress_def advances_def dest!: condition_step_progress [OF sym] split: if_splits)
  done

declare run_condition.simps [simp del]

definition parse_condition :: "expression_parser \<Rightarrow> bool \<Rightarrow> integer_value \<times> expression_parser" where
  "parse_condition parser evaluate =
     (let val = signed_integer 0
      in case push_frame parser \<lparr>stack_frames = [], stack_capacity = 16\<rparr> 1 evaluate 0 of
           (False, parser, _) \<Rightarrow> (val, parser)
         | (True, parser, stack) \<Rightarrow> run_condition parser stack val)"

text \<open>
  \<open>f2c_preprocessor_evaluate_condition\<close> from the point where the macros of the text are expanded:
  the preprocessor with the reports, and \<open>*condition\<close> or \<^const>\<open>None\<close> for \<open>return 0\<close>.
\<close>

definition evaluate_expanded ::
  "preprocessor \<Rightarrow> cptr \<Rightarrow> nat \<Rightarrow> nat \<Rightarrow> bool \<Rightarrow> preprocessor \<times> bool option" where
  "evaluate_expanded p expanded ln column evaluate =
     (let parser = \<lparr>parser_preprocessor = p, parser_text = expanded, cursor = expanded,
                    parser_line = ln, parser_column = column, failed = False\<rparr>;
          (val, parser) = parse_condition parser evaluate;
          parser = expression_space parser;
          parser = (if \<not> failed parser \<and> peek (cursor parser) \<noteq> NUL
                    then expression_error parser ''unexpected token in preprocessor condition'' else parser)
      in (parser_preprocessor parser,
          if failed parser then None else Some (evaluate \<and> integer_true val)))"

section \<open>The stack is bounded by the nesting limit\<close>

type_synonym machine_state = "expression_parser \<times> condition_stack \<times> integer_value"

inductive machine_step :: "machine_state \<Rightarrow> machine_state \<Rightarrow> bool" where
  iterate: "\<not> failed p \<Longrightarrow> stack_frames st = f # below \<Longrightarrow>
    condition_step p st f below val = (True, p', st', val') \<Longrightarrow> machine_step (p, st, val) (p', st', val')"

inductive_cases machine_step_elim: "machine_step (p, st, val) (p', st', val')"

definition initial_stack :: "bool \<Rightarrow> condition_stack" where
  "initial_stack evaluate = \<lparr>stack_frames = [new_frame 1 evaluate 0], stack_capacity = 16\<rparr>"

definition reachable :: "expression_parser \<Rightarrow> bool \<Rightarrow> machine_state \<Rightarrow> bool" where
  "reachable p evaluate = machine_step\<^sup>*\<^sup>* (p, initial_stack evaluate, signed_integer 0)"

text \<open>
  Within one nesting depth the minimum precedences of the frames increase, and there are twelve of
  them; a deeper frame starts again. So this number grows strictly from the bottom to the top.
\<close>

definition frame_rank :: "condition_frame \<Rightarrow> nat" where
  "frame_rank f = 12 * frame_depth f + minimum_precedence f"

definition frame_ok :: "nat \<Rightarrow> condition_frame \<Rightarrow> bool" where
  "frame_ok limit f \<longleftrightarrow> frame_depth f \<le> limit \<and> 1 \<le> minimum_precedence f \<and> minimum_precedence f \<le> 12"

definition stack_ok :: "nat \<Rightarrow> condition_frame list \<Rightarrow> bool" where
  "stack_ok limit fs \<longleftrightarrow> sorted_wrt (>) (map frame_rank fs) \<and> (\<forall>f \<in> set fs. frame_ok limit f)"

lemma stack_ok_Cons:
  "stack_ok n (f # fs) \<longleftrightarrow> stack_ok n fs \<and> frame_ok n f \<and> (\<forall>g \<in> set fs. frame_rank g < frame_rank f)"
  by (auto simp: stack_ok_def)

lemma stack_ok_update:
  "stack_ok n (f # fs) \<Longrightarrow> frame_depth g = frame_depth f \<Longrightarrow> minimum_precedence g = minimum_precedence f \<Longrightarrow>
    stack_ok n (g # fs)"
  by (simp add: stack_ok_Cons frame_rank_def frame_ok_def)

lemma stack_ok_length:
  assumes "stack_ok n fs"
  shows "length fs \<le> 12 * (n + 1)"
proof -
  have "distinct (map frame_rank fs)"
    using assms by (auto simp: stack_ok_def sorted_wrt_iff_nth_less distinct_conv_nth)
      (metis length_map less_irrefl_nat linorder_neqE_nat nth_map)
  then have "length fs = card (frame_rank ` set fs)"
    by (metis distinct_card length_map set_map)
  also have "\<dots> \<le> card {1..12 * (n + 1)}"
    using assms by (intro card_mono) (auto simp: stack_ok_def frame_ok_def frame_rank_def)
  finally show ?thesis by simp
qed

lemma stack_ok_push:
  assumes "stack_ok n (f # fs)" "prec \<le> 12" "1 \<le> prec"
    and "(d = frame_depth f \<and> minimum_precedence f < prec) \<or> (d = frame_depth f + 1 \<and> d \<le> n)"
  shows "stack_ok n (new_frame prec ev d # f # fs)"
  using assms
  by (auto simp: stack_ok_Cons new_frame_def frame_rank_def frame_ok_def intro: less_trans)

definition nesting_limit :: "expression_parser \<Rightarrow> nat" where
  "nesting_limit p = max_parse_depth (limits (parser_preprocessor p))"

lemma nesting_limit_simps [simp]:
  "nesting_limit (advance_cursor p n) = nesting_limit p" "nesting_limit (expression_space p) = nesting_limit p"
  by (simp_all add: nesting_limit_def expression_space_def)

lemma nesting_limit_advances: "advances p q \<Longrightarrow> nesting_limit q = nesting_limit p"
  by (simp add: nesting_limit_def advances_def)

lemma pushed_nested_stack_ok:
  assumes "pushed (push_nested p st prec ev (frame_depth f)) val = (True, q, st', val')"
    and "stack_frames st = f # below" "stack_ok (nesting_limit p) (f # below)" "1 \<le> prec" "prec \<le> 12"
  shows "stack_ok (nesting_limit p) (stack_frames st')"
proof -
  have r: "push_nested p st prec ev (frame_depth f) = (True, q, st')"
    using assms(1) by (auto simp: pushed_def split: prod.splits)
  show ?thesis
    using push_nested_cases [OF r] assms stack_ok_push [of "nesting_limit p" f below prec "frame_depth f + 1" ev]
    by (auto simp: nesting_limit_def)
qed

lemma operand_step_stack_ok:
  assumes "operand_step p st cur below val = (True, q, st', val')" "stack_ok (nesting_limit p) (cur # below)"
  shows "stack_ok (nesting_limit p) (stack_frames st')"
proof -
  have up: "stack_ok (nesting_limit p) (g # below)"
    if "frame_depth g = frame_depth cur" "minimum_precedence g = minimum_precedence cur" for g
    using stack_ok_update [OF assms(2) that] .
  have nested: "stack_ok (nesting_limit p) (stack_frames st')"
    if "pushed (push_nested (advance_cursor p 1) (st\<lparr>stack_frames := g # below\<rparr>) prec ev (frame_depth g)) val = (True, q, st', val')"
      "1 \<le> prec" "prec \<le> 12" "frame_depth g = frame_depth cur" "minimum_precedence g = minimum_precedence cur" for g prec ev
    using pushed_nested_stack_ok [OF that(1)] that up [of g] by simp
  consider (paren) "peek (cursor p) = CHR ''(''"
    | (unary) c where "peek (cursor p) \<noteq> CHR ''(''" "unary_token (peek (cursor p)) = Some c"
    | (atom) "peek (cursor p) \<noteq> CHR ''(''" "unary_token (peek (cursor p)) = None"
    by fastforce
  then show ?thesis
  proof cases
    case paren
    with assms(1) show ?thesis
      by (intro nested [of "cur\<lparr>frame_state := FRAME_PARENTHESIS\<rparr>" 1 "frame_evaluate cur"])
        (simp_all add: operand_step_def)
  next
    case unary
    with assms(1) show ?thesis
      by (intro nested [of "cur\<lparr>frame_operation := c, operation_at := cursor p, frame_state := FRAME_UNARY\<rparr>" 12 "frame_evaluate cur"])
        (simp_all add: operand_step_def)
  next
    case atom
    with assms(1) up show ?thesis by (auto simp: operand_step_def split: prod.splits)
  qed
qed

lemma return_step_stack_ok:
  assumes "return_step p st f below val = (True, q, st', val')" "stack_ok (nesting_limit p) (f # below)"
  shows "failed q \<or> stack_ok (nesting_limit p) (stack_frames st')"
proof -
  have up: "stack_ok (nesting_limit p) (g # below)"
    if "frame_depth g = frame_depth f" "minimum_precedence g = minimum_precedence f" for g
    using stack_ok_update [OF assms(2) that] .
  show ?thesis
  proof (cases "frame_state f")
    case FRAME_TRUE_BRANCH
    obtain ok r where c: "expression_consume p '':'' = (ok, r)" by fastforce
    have r: "nesting_limit r = nesting_limit p"
      using expression_consume_cases(1) [OF c] by (rule nesting_limit_advances)
    define g where "g = f\<lparr>frame_when_true := val, frame_state := FRAME_FALSE_BRANCH\<rparr>"
    obtain ok' r' st'' where nested: "push_nested r (st\<lparr>stack_frames := g # below\<rparr>) 1
        (frame_evaluate g \<and> \<not> frame_selected g) (frame_depth g) = (ok', r', st'')" by (metis prod_cases3)
    show ?thesis
    proof (cases ok)
      case False
      with assms(1) FRAME_TRUE_BRANCH c show ?thesis by (auto simp: return_step_def Let_def)
    next
      case True
      have unfolded: "(case push_nested r (st\<lparr>stack_frames := g # below\<rparr>) 1
          (frame_evaluate g \<and> \<not> frame_selected g) (frame_depth g) of
          (_, parser, stack) \<Rightarrow> (True, parser, stack, val)) = (True, q, st', val')"
        using assms(1) FRAME_TRUE_BRANCH c True by (simp add: return_step_def g_def)
      then have q: "q = r'" "st' = st''" unfolding nested by simp_all
      have g: "stack_ok (nesting_limit p) (g # below)" by (rule up) (simp_all add: g_def)
      with push_nested_cases [OF nested] r show ?thesis
        unfolding q using stack_ok_push [OF g, of 1 "frame_depth g + 1"] by (auto simp: nesting_limit_def)
    qed
  qed (use assms(1) up in \<open>auto simp: return_step_def Let_def split: prod.splits\<close>)
qed

lemma operator_precedence_bounds:
  "(token, operation, precedence) \<in> set operator_tokens \<Longrightarrow> 2 \<le> precedence \<and> precedence \<le> 11"
  by (auto simp: operator_tokens_def)

lemma operator_step_stack_ok:
  assumes "operator_step p st cur below val = (True, q, st', val')" "stack_ok (nesting_limit p) (cur # below)"
  shows "failed q \<or> stack_ok (nesting_limit p) (stack_frames st')"
proof -
  have up: "stack_ok (nesting_limit p) (g # below)"
    if "frame_depth g = frame_depth cur" "minimum_precedence g = minimum_precedence cur" for g
    using stack_ok_update [OF assms(2) that] .
  define finish where "finish = (case below of
           [] \<Rightarrow> (False, p, st\<lparr>stack_frames := []\<rparr>, frame_left cur)
         | frame # below \<Rightarrow> return_step p st frame below (frame_left cur))"
  have fin: "finish = (True, q, st', val') \<Longrightarrow> ?thesis"
    using assms(2) return_step_stack_ok [of p st _ _ "frame_left cur" q st' val']
    by (cases below) (auto simp: finish_def stack_ok_Cons)
  show ?thesis
  proof (cases "peek (cursor p) = CHR ''?'' \<and> minimum_precedence cur \<le> 1")
    case True
    define g where "g = cur\<lparr>frame_selected := integer_true (frame_left cur), frame_state := FRAME_TRUE_BRANCH\<rparr>"
    have "stack_ok (nesting_limit p) (g # below)" by (rule up) (simp_all add: g_def)
    moreover have "pushed (push_nested (advance_cursor p 1) (st\<lparr>stack_frames := g # below\<rparr>) 1
        (frame_evaluate g \<and> frame_selected g) (frame_depth g)) val = (True, q, st', val')"
      using True assms(1) by (simp add: operator_step_def g_def)
    ultimately show ?thesis using pushed_nested_stack_ok [of "advance_cursor p 1"] by simp
  next
    case not_conditional: False
    note step = assms(1) [unfolded operator_step_def Let_def finish_def [symmetric] if_not_P [OF not_conditional]]
    show ?thesis
    proof (cases "peek_operator (cursor p)")
      case None
      with step fin show ?thesis by simp
    next
      case (Some x)
      obtain token op prec where x: "x = (token, op, prec)" by (cases x) auto
      note bounds = operator_precedence_bounds [OF peek_operator_nonempty(1) [OF Some [unfolded x]]]
      show ?thesis
      proof (cases "minimum_precedence cur \<le> prec")
        case False
        with step fin Some x show ?thesis by simp
      next
        case True
        define g where "g = cur\<lparr>frame_operation := op, operation_at := cursor p, frame_state := FRAME_BINARY\<rparr>"
        have "stack_ok (nesting_limit p) (g # below)" by (rule up) (simp_all add: g_def)
        then have "stack_ok (nesting_limit p) (new_frame (prec + 1) ev (frame_depth cur) # g # below)" for ev
          using True bounds by (intro stack_ok_push) (auto simp: g_def)
        with step Some x True show ?thesis
          by (auto simp: pushed_def g_def split: prod.splits dest!: push_frame_cases)
      qed
    qed
  qed
qed

lemma condition_step_stack_ok:
  assumes "condition_step p st f below val = (True, q, st', val')" "stack_ok (nesting_limit p) (f # below)"
  shows "failed q \<or> stack_ok (nesting_limit p) (stack_frames st')"
  using assms operand_step_stack_ok [of "expression_space p"] operator_step_stack_ok [of "expression_space p"]
  by (cases "frame_state f") (fastforce simp: condition_step_def Let_def)+

lemma reachable_stack_ok:
  assumes "reachable p ev (q, st, val)"
  shows "failed q \<or> (stack_ok (nesting_limit p) (stack_frames st) \<and> nesting_limit q = nesting_limit p)"
proof -
  have "machine_step\<^sup>*\<^sup>* (p, initial_stack ev, signed_integer 0) (q, st, val)"
    using assms by (simp add: reachable_def)
  then show ?thesis
  proof (induction "(q, st, val)" arbitrary: q st val rule: rtranclp_induct)
    case base
    then show ?case
      by (auto simp: initial_stack_def stack_ok_def frame_ok_def new_frame_def)
  next
    case (step c)
    obtain p1 st1 v1 where c: "c = (p1, st1, v1)" by (cases c) auto
    from step(2) [unfolded c] obtain f below where i: "stack_frames st1 = f # below" "\<not> failed p1"
      "condition_step p1 st1 f below v1 = (True, q, st, val)"
      by (auto elim: machine_step_elim)
    then have "stack_ok (nesting_limit p1) (f # below)" "nesting_limit p1 = nesting_limit p"
      using step(3) [OF c] by auto
    then show ?case
      using condition_step_stack_ok [OF i(3)] condition_step_progress [OF i(3)] nesting_limit_advances [of p1 q]
      by (auto simp: progress_def)
  qed
qed

text \<open>
  C12: Whatever the expression, the machine that reads it keeps at most twelve frames per nesting
  level, so the explicit stack is bounded by the configured nesting limit: every state that the
  loop reaches has failed or holds at most twelve times (limit + 1) frames.
\<close>
theorem condition_stack_bounded:
  assumes "reachable p evaluate (q, stack, val)"
  shows "failed q \<or> length (stack_frames stack) \<le> 12 * (nesting_limit p + 1)"
  using reachable_stack_ok [OF assms] stack_ok_length by blast

theorem condition_stack_bounded_witness:
  "\<exists>q stack val. reachable (sample_parser ''(1)'') True (q, stack, val) \<and> length (stack_frames stack) = 2 \<and>
    (failed q \<or> length (stack_frames stack) \<le> 12 * 513)"
proof -
  let ?p = "sample_parser ''(1)''"
  let ?f = "new_frame 1 True 0"
  define st where "st = \<lparr>stack_frames = [new_frame 1 True 1, ?f\<lparr>frame_state := FRAME_PARENTHESIS\<rparr>], stack_capacity = 16\<rparr>"
  have step: "condition_step ?p (initial_stack True) ?f [] (signed_integer 0) =
      (True, ?p\<lparr>cursor := ''1)''\<rparr>,
       st, signed_integer 0)"
    by (simp add: condition_step_def operand_step_def new_frame_def initial_stack_def sample_parser_def sample_preprocessor_def
        pushed_def push_nested_def push_frame_def advance_cursor_def st_def expression_space_def isspace_def ascii_def Let_def)
  have "machine_step (?p, initial_stack True, signed_integer 0) (?p\<lparr>cursor := ''1)''\<rparr>,
       st, signed_integer 0)"
    by (rule iterate [OF _ _ step]) (simp_all add: initial_stack_def sample_parser_def)
  then have r: "reachable ?p True (?p\<lparr>cursor := ''1)''\<rparr>,
       st, signed_integer 0)"
    unfolding reachable_def by (rule r_into_rtranclp)
  have limit: "nesting_limit ?p = 512"
    by (simp add: nesting_limit_def sample_parser_def sample_preprocessor_def)
  show ?thesis
    using condition_stack_bounded [OF r] r unfolding limit by (intro exI conjI) (assumption | simp add: st_def)+
qed

end
