(* ===== verification/Cond_Expansion.thy ===== *)
theory Cond_Expansion
  imports Macro_Replacement Cond_Machine
begin

text \<open>
  Expansion of the macros in a condition (\<open>frontend/preprocessor/condition/expansion.c\<close>) and the
  evaluation of the condition text that follows \<open>#if\<close> or \<open>#elif\<close>
  (\<open>f2c_preprocessor_evaluate_condition\<close> of \<open>condition/parse.c\<close>).

  \<^item> A text given by pointer and length is the string it spans; an index into it is the suffix
    that begins there, so columns are computed from differences of lengths.
  \<^item> The chain of \<open>ExpansionFrame\<close>s is the list of the names of the macros that are being expanded.
  \<^item> The recursion ends because \<open>max_macro_expansion_depth\<close> bounds the depth, and each text is
    finite.
\<close>

section \<open>Literals and arguments\<close>

text \<open>\<open>quoted_end\<close> of this file, where a backslash protects the character after it.\<close>

function condition_quoted_end :: "char \<Rightarrow> cptr \<Rightarrow> cptr" where
  "condition_quoted_end quote [] = []"
| "condition_quoted_end quote (c # s) =
     (if ascii c = 92 \<and> s \<noteq> [] then condition_quoted_end quote (drop 1 s)
      else if c = quote then s
      else condition_quoted_end quote s)"
  by pat_completeness auto
termination by (relation "measure (\<lambda>(quote, s). length s)") auto

lemma condition_quoted_end_length [simp]: "length (condition_quoted_end q s) \<le> length s"
proof (induction q s rule: condition_quoted_end.induct)
  case (2 q c s)
  then show ?case
    by (cases "ascii c = 92 \<and> s \<noteq> []"; cases "c = q") auto
qed simp

text \<open>\<open>reserve_arguments\<close>; \<open>sizeof(PreprocessorMacroArgument)\<close> is 40 bytes.\<close>

definition reserve_arguments :: "(nat \<Rightarrow> bool) \<Rightarrow> nat \<Rightarrow> nat \<Rightarrow> nat option" where
  "reserve_arguments mem capacity used =
     (if used < capacity then Some capacity
      else let next_capacity = (if capacity = 0 then 4 else size_mul capacity 2) in
        if next_capacity < capacity \<or> SIZE_MAX div 40 < next_capacity then None
        else if mem (next_capacity * 40) then Some next_capacity else None)"

definition trim_space :: "string \<Rightarrow> string" where
  "trim_space s = rev (dropWhile isspace (rev (skip_space s)))"

definition append_condition_argument ::
  "preprocessor \<Rightarrow> string list \<Rightarrow> nat \<Rightarrow> string \<Rightarrow> nat \<Rightarrow> nat \<Rightarrow> preprocessor_macro \<Rightarrow>
    preprocessor + string list \<times> nat" where
  "append_condition_argument p arguments capacity piece ln column m =
     (if max_macro_arguments (limits p) \<le> length arguments then
        Inl (diagnose_name p DIAGNOSTIC_RESOURCE_LIMIT ln column
          ''conditional macro argument limit exceeded for'' (macro_name m))
      else case reserve_arguments (memory p) capacity (length arguments) of
        None \<Rightarrow> Inl (diagnose_at p DIAGNOSTIC_OUT_OF_MEMORY ln column
          ''out of memory while parsing conditional macro arguments'')
      | Some capacity \<Rightarrow> Inr (arguments @ [trim_space piece], capacity))"

definition arity_matches :: "preprocessor_macro \<Rightarrow> nat \<Rightarrow> bool" where
  "arity_matches m argument_count =
     (if variadic m then length (macro_parameters m) \<le> argument_count
      else argument_count = length (macro_parameters m))"

text \<open>What happens at the parenthesis that closes the invocation.\<close>

definition close_condition_arguments ::
  "preprocessor \<Rightarrow> preprocessor_macro \<Rightarrow> nat \<Rightarrow> nat \<Rightarrow> string \<Rightarrow> bool \<Rightarrow> string list \<Rightarrow> nat \<Rightarrow>
    preprocessor + string list" where
  "close_condition_arguments p m ln column piece saw_separator arguments capacity =
     (case (if saw_separator \<or> skip_space piece \<noteq> [] \<or> macro_parameters m \<noteq> [] \<or> variadic m
            then append_condition_argument p arguments capacity piece ln column m
            else Inr (arguments, capacity)) of
        Inl p \<Rightarrow> Inl p
      | Inr (arguments, capacity) \<Rightarrow>
          if \<not> arity_matches m (length arguments) then
            Inl (diagnose_name p DIAGNOSTIC_SYNTAX ln column
              ''conditional macro argument count mismatch for'' (macro_name m))
          else Inr arguments)"

text \<open>
  The loop of \<open>parse_invocation_arguments\<close>: \<open>start_at\<close> is where the current argument begins, the
  result holds the arguments and the text after the closing parenthesis.
\<close>

function condition_arguments_from ::
  "preprocessor \<Rightarrow> preprocessor_macro \<Rightarrow> nat \<Rightarrow> nat \<Rightarrow> cptr \<Rightarrow> cptr \<Rightarrow> nat \<Rightarrow> bool \<Rightarrow> string list \<Rightarrow> nat \<Rightarrow>
    preprocessor + string list \<times> cptr" where
  "condition_arguments_from p m ln column start_at [] depth saw_separator arguments capacity =
     Inl (diagnose_name p DIAGNOSTIC_SYNTAX ln column
       ''unterminated conditional macro invocation for'' (macro_name m))"
| "condition_arguments_from p m ln column start_at (c # s) depth saw_separator arguments capacity =
     (let piece = take (length start_at - length (c # s)) start_at in
      if is_quote c then
        condition_arguments_from p m ln column start_at (condition_quoted_end c s) depth
          saw_separator arguments capacity
      else if c = CHR ''('' then
        (if max_parse_depth (limits p) \<le> depth then
           Inl (diagnose_name p DIAGNOSTIC_RESOURCE_LIMIT ln column
             ''conditional macro invocation nesting limit exceeded for'' (macro_name m))
         else condition_arguments_from p m ln column start_at s (depth + 1) saw_separator arguments capacity)
      else if c = CHR '')'' then
        (if depth = 1 then
           (case close_condition_arguments p m ln column piece saw_separator arguments capacity of
              Inl p \<Rightarrow> Inl p
            | Inr arguments \<Rightarrow> Inr (arguments, s))
         else condition_arguments_from p m ln column start_at s (depth - 1) saw_separator arguments capacity)
      else if c = CHR '','' \<and> depth = 1 then
        (case append_condition_argument p arguments capacity piece ln column m of
           Inl p \<Rightarrow> Inl p
         | Inr (arguments, capacity) \<Rightarrow>
             condition_arguments_from p m ln column s s depth True arguments capacity)
      else condition_arguments_from p m ln column start_at s depth saw_separator arguments capacity)"
  by pat_completeness auto
termination
  by (relation "measure (\<lambda>(p, m, ln, column, start_at, s, depth, saw, arguments, capacity). length s)")
    (auto simp: le_imp_less_Suc)

lemma condition_arguments_length:
  "condition_arguments_from p m ln column start_at s depth saw arguments capacity = Inr (result, after) \<Longrightarrow>
    length after \<le> length s"
proof (induction p m ln column start_at s depth saw arguments capacity arbitrary: result after
    rule: condition_arguments_from.induct)
  case (2 p m ln column start_at c s depth saw arguments capacity)
  show ?case
    using 2(6) 2(1-5)[OF refl]
    by (fastforce simp: Let_def split: if_splits sum.splits prod.splits
        dest: le_trans [OF _ condition_quoted_end_length])
qed simp

section \<open>Expansion\<close>

text \<open>
  What the word at \<open>word_at\<close> invokes: nothing, or a macro with its replacement text and the position
  where reading goes on.
\<close>

definition condition_invocation ::
  "preprocessor \<Rightarrow> nat \<Rightarrow> nat \<Rightarrow> string list \<Rightarrow> nat \<Rightarrow> cptr \<Rightarrow> cptr \<Rightarrow>
    preprocessor + (string \<times> string \<times> cptr) option" where
  "condition_invocation p ln column parents depth content word_at =
     (let word = word_text word_at; after = word_end word_at; at = column_of column content word_at in
      case find_macro p word of
        None \<Rightarrow> Inr None
      | Some macro_index \<Rightarrow>
          let m = macros p ! macro_index;
              opening = (if function_like m then skip_space after else after)
          in if function_like m \<and> peek opening \<noteq> CHR ''('' then Inr None
             else if word \<in> set parents then
               Inl (diagnose_name p DIAGNOSTIC_SYNTAX ln at ''cyclic conditional macro expansion for'' word)
             else if max_macro_expansion_depth (limits p) \<le> depth then
               Inl (diagnose_at p DIAGNOSTIC_RESOURCE_LIMIT ln at
                 ''conditional macro expansion depth limit exceeded'')
             else case (if function_like m
                        then condition_arguments_from p m ln (column_of column content opening)
                               (drop 1 opening) (drop 1 opening) 1 False [] 0
                        else Inr ([], after)) of
               Inl p \<Rightarrow> Inl p
             | Inr (arguments, after) \<Rightarrow>
                 (case (if function_like m \<or> replacement_has_operator m
                        then build_operator_replacement p m arguments
                               \<lparr>position_source = Some (current_source_name p), position_line = ln,
                                position_column = at\<rparr> empty_buffer
                        else Inr (empty_buffer\<lparr>buffer_text := macro_value m\<rparr>)) of
                    Inl p \<Rightarrow> Inl p
                  | Inr replacement \<Rightarrow> Inr (Some (macro_name m, buffer_text replacement, after))))"

lemma condition_invocation_depth:
  "condition_invocation p ln column parents depth content s = Inr (Some x) \<Longrightarrow>
    depth < max_macro_expansion_depth (limits p)"
  by (auto simp: condition_invocation_def Let_def split: option.splits if_splits)

lemma condition_invocation_after:
  assumes "condition_invocation p ln column parents depth content s = Inr (Some (name, replacement, after))"
    and "identifier_start (peek s)"
  shows "length after < length s"
proof -
  have w: "length (word_end s) < length s" using assms(2) by (rule word_end_decreases)
  have "after = word_end s \<or> (\<exists>m k xs. condition_arguments_from p m ln k (drop 1 (skip_space (word_end s)))
      (drop 1 (skip_space (word_end s))) 1 False [] 0 = Inr (xs, after))"
    using assms(1)
    by (simp only: condition_invocation_def Let_def split: option.splits if_splits sum.splits prod.splits)
      (blast | simp)+
  then have "length after \<le> length (word_end s)"
  proof (elim disjE exE)
    fix m k xs
    assume "condition_arguments_from p m ln k (drop 1 (skip_space (word_end s)))
      (drop 1 (skip_space (word_end s))) 1 False [] 0 = Inr (xs, after)"
    then have "length after \<le> length (skip_space (word_end s)) - 1"
      by (drule_tac condition_arguments_length) simp
    then show ?thesis using skip_space_length [of "word_end s"] by linarith
  qed simp
  with w show ?thesis by simp
qed

text \<open>
  \<open>append_expanded_condition\<close> over the rest of \<open>content\<close>; \<open>defined_operand\<close> is set after the word
  \<open>defined\<close> until the next word, which is kept.
\<close>

function expand_condition_from ::
  "preprocessor \<Rightarrow> nat \<Rightarrow> nat \<Rightarrow> string list \<Rightarrow> nat \<Rightarrow> cptr \<Rightarrow> cptr \<Rightarrow> bool \<Rightarrow> buffer \<Rightarrow> preprocessor + buffer" where
  "expand_condition_from p ln column parents depth content [] defined_operand b =
     (if buffer_failed b \<or> limit_exceeded b then
        Inl (diagnose_at p (if limit_exceeded b then DIAGNOSTIC_RESOURCE_LIMIT else DIAGNOSTIC_OUT_OF_MEMORY)
          ln column (if limit_exceeded b then ''expanded preprocessor expression is too large''
                     else ''out of memory while expanding a preprocessor expression''))
      else Inr b)"
| "expand_condition_from p ln column parents depth content (c # s) defined_operand b =
     (if is_quote c then
        (let after = condition_quoted_end c s
         in expand_condition_from p ln column parents depth content after defined_operand
              (buffer_append (memory p) b (take (length (c # s) - length after) (c # s))))
      else if identifier_start c then
        (let word = word_text (c # s); after = word_end (c # s) in
         if word = ''defined'' then
           expand_condition_from p ln column parents depth content after True (buffer_append (memory p) b word)
         else if defined_operand then
           expand_condition_from p ln column parents depth content after False (buffer_append (memory p) b word)
         else case condition_invocation p ln column parents depth content (c # s) of
           Inl p \<Rightarrow> Inl p
         | Inr None \<Rightarrow>
             expand_condition_from p ln column parents depth content after False (buffer_append (memory p) b word)
         | Inr (Some (name, replacement, next_at)) \<Rightarrow>
             (case expand_condition_from p ln (column_of column content (c # s)) (name # parents) (depth + 1)
                replacement replacement False (buffer_append (memory p) b '' '') of
                Inl p \<Rightarrow> Inl p
              | Inr b \<Rightarrow>
                  expand_condition_from p ln column parents depth content next_at False
                    (buffer_append (memory p) b '' '')))
      else expand_condition_from p ln column parents depth content s defined_operand
             (buffer_append (memory p) b [c]))"
  by pat_completeness auto

termination expand_condition_from
  by (relation "measures [\<lambda>(p, ln, column, parents, depth, content, s, operand, b).
        max_macro_expansion_depth (limits p) - depth,
      \<lambda>(p, ln, column, parents, depth, content, s, operand, b). length s]")
    (auto simp: le_imp_less_Suc after_word_less
      dest: condition_invocation_depth condition_invocation_after)

section \<open>Evaluation of a condition\<close>

text \<open>
  \<open>f2c_preprocessor_evaluate_condition\<close>: the preprocessor with the reports, and \<open>*condition\<close> or
  \<^const>\<open>None\<close> for \<open>return 0\<close>.
\<close>

definition expand_condition ::
  "preprocessor \<Rightarrow> cptr \<Rightarrow> nat \<Rightarrow> nat \<Rightarrow> buffer \<Rightarrow> preprocessor + buffer" where
  "expand_condition p content ln column b = expand_condition_from p ln column [] 0 content content False b"

definition evaluate_condition ::
  "preprocessor \<Rightarrow> cptr \<Rightarrow> nat \<Rightarrow> nat \<Rightarrow> bool \<Rightarrow> preprocessor \<times> bool option" where
  "evaluate_condition p content ln column evaluate =
     (case expand_condition p content ln column
        (empty_buffer\<lparr>buffer_limit := max_preprocessed_bytes (limits p)\<rparr>) of
        Inl p \<Rightarrow> (p, None)
      | Inr b \<Rightarrow> evaluate_expanded p (buffer_text b) ln column evaluate)"

section \<open>Texts without macros\<close>

text \<open>
  The words of a text that the expansion looks up: not those in literals, not \<open>defined\<close>, and not the
  operand of \<open>defined\<close>, which \<open>pending\<close> says is next.
\<close>

function condition_words :: "bool \<Rightarrow> cptr \<Rightarrow> string list" where
  "condition_words pending [] = []"
| "condition_words pending (c # s) =
     (if is_quote c then condition_words pending (condition_quoted_end c s)
      else if identifier_start c then
        (if word_text (c # s) = ''defined'' then condition_words True (word_end (c # s))
         else if pending then condition_words False (word_end (c # s))
         else word_text (c # s) # condition_words False (word_end (c # s)))
      else condition_words pending s)"
  by pat_completeness auto
termination
  by (relation "measure (\<lambda>(pending, s). length s)") (auto simp: le_imp_less_Suc after_word_less)

text \<open>A buffer with room for \<open>n\<close> more characters.\<close>

definition buffer_room :: "(nat \<Rightarrow> bool) \<Rightarrow> buffer \<Rightarrow> nat \<Rightarrow> bool" where
  "buffer_room mem b n \<longleftrightarrow>
     (\<forall>k. mem k) \<and> \<not> buffer_failed b \<and> \<not> limit_exceeded b \<and> length (buffer_text b) + n < SIZE_MAX \<and>
     (buffer_limit b = 0 \<or> length (buffer_text b) + n \<le> buffer_limit b)"

lemma buffer_room_append:
  assumes "buffer_room mem b (length s + n)"
  shows "buffer_room mem (buffer_append mem b s) n"
    and "buffer_text (buffer_append mem b s) = buffer_text b @ s"
proof -
  have "\<not> buffer_failed (buffer_append mem b s)" "limit_exceeded (buffer_append mem b s) = limit_exceeded b"
    by (rule buffer_append_succeeds; use assms in \<open>auto simp: buffer_room_def\<close>)+
  with assms show "buffer_room mem (buffer_append mem b s) n"
    "buffer_text (buffer_append mem b s) = buffer_text b @ s"
    by (auto simp: buffer_room_def buffer_append_text)
qed

lemma buffer_room_split:
  assumes "buffer_room mem b (length s)" "s = u @ t"
  shows "buffer_room mem (buffer_append mem b u) (length t)"
    "buffer_text (buffer_append mem b u) = buffer_text b @ u"
  using buffer_room_append [of mem b u "length t"] assms by simp_all

lemma condition_quoted_end_suffix: "\<exists>u. s = u @ condition_quoted_end q s"
proof (induction q s rule: condition_quoted_end.induct)
  case (2 q c s)
  consider (escape) d t where "ascii c = 92" "s = d # t" | (close) "\<not> (ascii c = 92 \<and> s \<noteq> [])" "c = q"
    | (other) "\<not> (ascii c = 92 \<and> s \<noteq> [])" "c \<noteq> q"
    by (cases s) auto
  then show ?case
  proof cases
    case (escape d t)
    then obtain u where "t = u @ condition_quoted_end q t" using "2.IH"(1) by auto
    then have "c # s = (c # d # u) @ condition_quoted_end q t" by (simp add: escape)
    then show ?thesis using escape by (intro exI [of _ "c # d # u"]) simp
  next
    case close
    then show ?thesis by (intro exI [of _ "[c]"]) simp
  next
    case other
    then obtain u where "s = u @ condition_quoted_end q s" using "2.IH"(2) by blast
    moreover have "condition_quoted_end q (c # s) = condition_quoted_end q s" using other by auto
    ultimately show ?thesis by (intro exI [of _ "c # u"]) simp
  qed
qed simp

lemma literal_split:
  "take (length (c # s) - length (condition_quoted_end q s)) (c # s) @ condition_quoted_end q s = c # s"
proof -
  obtain u where "s = u @ condition_quoted_end q s" using condition_quoted_end_suffix by blast
  then have "c # s = (c # u) @ condition_quoted_end q s" by simp
  then show ?thesis by (metis add_diff_cancel_right' append_eq_conv_conj length_append)
qed

lemma no_invocation:
  "find_macro p (word_text s) = None \<Longrightarrow> condition_invocation p ln column parents depth content s = Inr None"
  by (simp add: condition_invocation_def)

lemma expand_condition_plain:
  assumes "\<forall>w \<in> set (condition_words pending s). find_macro p w = None" "buffer_room (memory p) b (length s)"
  shows "\<exists>b'. expand_condition_from p ln column parents depth content s pending b = Inr b' \<and>
    buffer_text b' = buffer_text b @ s"
  using assms
proof (induction pending s arbitrary: b rule: condition_words.induct)
  case (1 pending)
  then show ?case by (auto simp: buffer_room_def)
next
  case (2 pending c s)
  show ?case
  proof (cases "is_quote c")
    case True
    note r = buffer_room_split [OF "2.prems"(2) literal_split [symmetric, of _ _ c]]
    have "\<exists>b'. expand_condition_from p ln column parents depth content (condition_quoted_end c s) pending
        (buffer_append (memory p) b (take (length (c # s) - length (condition_quoted_end c s)) (c # s))) = Inr b' \<and>
      buffer_text b' = (buffer_text b @ take (length (c # s) - length (condition_quoted_end c s)) (c # s)) @
        condition_quoted_end c s"
      using "2.IH"(1) [OF True _ r(1)] "2.prems"(1) True unfolding r(2) by simp
    then show ?thesis unfolding append_assoc literal_split using True by (simp add: Let_def)
  next
    case q: False
    show ?thesis
    proof (cases "identifier_start c")
      case True
      note r = buffer_room_split [OF "2.prems"(2) word_split [symmetric]]
      let ?goal = "\<lambda>o'. \<exists>b'. expand_condition_from p ln column parents depth content (word_end (c # s)) o'
          (buffer_append (memory p) b (word_text (c # s))) = Inr b' \<and> buffer_text b' = buffer_text b @ (c # s)"
      have joined: "buffer_text b @ (c # s) = (buffer_text b @ word_text (c # s)) @ word_end (c # s)"
        unfolding append_assoc word_split ..
      consider (defined) "word_text (c # s) = ''defined''" | (skipped) "word_text (c # s) \<noteq> ''defined''" "pending"
        | (found) "word_text (c # s) \<noteq> ''defined''" "\<not> pending" by blast
      then show ?thesis
      proof cases
        case defined
        have "?goal True"
          unfolding joined using "2.IH"(2) [OF q True defined _ r(1)] "2.prems"(1) True q defined unfolding r(2) by simp
        then show ?thesis using True q defined by (simp add: Let_def)
      next
        case skipped
        have "?goal False"
          unfolding joined using "2.IH"(3) [OF q True skipped _ r(1)] "2.prems"(1) True q skipped unfolding r(2) by simp
        then show ?thesis using True q skipped by (simp add: Let_def)
      next
        case found
        have "?goal False"
          unfolding joined using "2.IH"(4) [OF q True found _ r(1)] "2.prems"(1) True q found unfolding r(2) by simp
        moreover have "find_macro p (word_text (c # s)) = None" using "2.prems"(1) True q found by simp
        ultimately show ?thesis using True q found by (simp add: Let_def no_invocation)
      qed
    next
      case False
      note r = buffer_room_split [OF "2.prems"(2), of "[c]" s, simplified]
      show ?thesis
        using "2.IH"(5) [OF q False _ r(1)] "2.prems"(1) False q unfolding r(2) by simp
    qed
  qed
qed

lemma evaluate_condition_plain:
  assumes "\<forall>w \<in> set (condition_words False s). find_macro p w = None" "\<forall>n. memory p n"
    and "max_preprocessed_bytes (limits p) = 0 \<or> length s \<le> max_preprocessed_bytes (limits p)"
    and "length s < SIZE_MAX"
  shows "evaluate_condition p s ln column ev = evaluate_expanded p s ln column ev"
proof -
  let ?b = "empty_buffer\<lparr>buffer_limit := max_preprocessed_bytes (limits p)\<rparr>"
  have "buffer_room (memory p) ?b (length s)"
    using assms by (auto simp: buffer_room_def empty_buffer_def)
  from expand_condition_plain [OF assms(1) this, of ln column "[]" 0 s]
  show ?thesis by (auto simp: evaluate_condition_def expand_condition_def empty_buffer_def)
qed

end
