(* ===== verification/Cond_Semantics.thy ===== *)
theory Cond_Semantics
  imports Cond_Machine
begin

text \<open>
  The condition evaluator computes the value of the expression. Expressions are given as syntax
  trees with their C meaning (usual conversions, short circuits, a conditional that converts to the
  common type), written with the fewest parentheses that C needs. The machine of \<open>parse.c\<close>, started on the
  written form, returns the meaning, or fails where the meaning is undefined; operands that are
  not evaluated cannot make it fail.
\<close>

section \<open>Expressions and their meaning\<close>

datatype operand =
  Integer_Constant string int string string bool
| Defined_Name string
| Plain_Name string

datatype condition =
  Operand operand
| Unary condition_operator condition
| Binary condition_operator condition condition
| Conditional condition condition condition

definition constant_value :: "bool \<Rightarrow> int \<Rightarrow> int \<Rightarrow> integer_value" where
  "constant_value u base v =
     (if u \<or> (base \<noteq> 10 \<and> v > INT64_MAX) then unsigned_integer (u64 v) else signed_integer v)"

fun operand_meaning :: "(string \<Rightarrow> bool) \<Rightarrow> operand \<Rightarrow> integer_value" where
  "operand_meaning defs (Integer_Constant pre base ds sfx u) = constant_value u base (radix_value base 0 ds)"
| "operand_meaning defs (Defined_Name n) = signed_integer (of_bool (defs n))"
| "operand_meaning defs (Plain_Name n) = signed_integer 0"

text \<open>The type of an expression does not depend on its evaluation.\<close>

fun unsigned_type :: "condition \<Rightarrow> bool" where
  "unsigned_type (Operand x) = is_unsigned (operand_meaning (\<lambda>_. False) x)"
| "unsigned_type (Unary operation e) = (operation \<noteq> CONDITION_LOGICAL_NOT \<and> unsigned_type e)"
| "unsigned_type (Binary operation a b) =
     (if operation \<in> relational \<union> {CONDITION_LOGICAL_AND, CONDITION_LOGICAL_OR} then False
      else if operation \<in> {CONDITION_LEFT_SHIFT, CONDITION_RIGHT_SHIFT} then unsigned_type a
      else unsigned_type a \<or> unsigned_type b)"
| "unsigned_type (Conditional c a b) = (unsigned_type a \<or> unsigned_type b)"

definition convert :: "bool \<Rightarrow> integer_value \<Rightarrow> integer_value" where
  "convert u v = (if u then unsigned_integer (integer_unsigned v) else v)"

text \<open>The value; \<^const>\<open>None\<close> where an evaluated operation is undefined.\<close>

fun meaning :: "(string \<Rightarrow> bool) \<Rightarrow> condition \<Rightarrow> integer_value option" where
  "meaning defs (Operand x) = Some (operand_meaning defs x)"
| "meaning defs (Unary operation e) = Option.bind (meaning defs e) (unary_meaning operation)"
| "meaning defs (Binary operation a b) =
     Option.bind (meaning defs a) (\<lambda>l.
       if operation = CONDITION_LOGICAL_AND \<and> denote l = 0 then Some (signed_integer 0)
       else if operation = CONDITION_LOGICAL_OR \<and> denote l \<noteq> 0 then Some (signed_integer 1)
       else Option.bind (meaning defs b) (binary_meaning operation l))"
| "meaning defs (Conditional c a b) =
     Option.bind (meaning defs c) (\<lambda>v.
       map_option (convert (unsigned_type a \<or> unsigned_type b)) (meaning defs (if denote v \<noteq> 0 then a else b)))"

section \<open>The written form\<close>

fun operator_spelling :: "condition_operator \<Rightarrow> string" where
  "operator_spelling CONDITION_LOGICAL_OR = ''||''" | "operator_spelling CONDITION_LOGICAL_AND = ''&&''"
| "operator_spelling CONDITION_BIT_OR = ''|''" | "operator_spelling CONDITION_BIT_XOR = ''^''"
| "operator_spelling CONDITION_BIT_AND = ''&''" | "operator_spelling CONDITION_EQUAL = ''==''"
| "operator_spelling CONDITION_NOT_EQUAL = ''!=''" | "operator_spelling CONDITION_LESS_EQUAL = ''<=''"
| "operator_spelling CONDITION_GREATER_EQUAL = ''>=''" | "operator_spelling CONDITION_LEFT_SHIFT = ''<<''"
| "operator_spelling CONDITION_RIGHT_SHIFT = ''>>''" | "operator_spelling CONDITION_LESS = ''<''"
| "operator_spelling CONDITION_GREATER = ''>''" | "operator_spelling CONDITION_ADD = ''+''"
| "operator_spelling CONDITION_SUBTRACT = ''-''" | "operator_spelling CONDITION_MULTIPLY = ''*''"
| "operator_spelling CONDITION_DIVIDE = ''/''" | "operator_spelling CONDITION_REMAINDER = ''%''"
| "operator_spelling CONDITION_LOGICAL_NOT = ''!''" | "operator_spelling CONDITION_BIT_NOT = ''~''"
| "operator_spelling CONDITION_NONE = []"

text \<open>The precedence levels of C, from the conditional (1) to the unary operators (12).\<close>

fun operator_level :: "condition_operator \<Rightarrow> nat" where
  "operator_level CONDITION_LOGICAL_OR = 2" | "operator_level CONDITION_LOGICAL_AND = 3"
| "operator_level CONDITION_BIT_OR = 4" | "operator_level CONDITION_BIT_XOR = 5"
| "operator_level CONDITION_BIT_AND = 6" | "operator_level CONDITION_EQUAL = 7"
| "operator_level CONDITION_NOT_EQUAL = 7" | "operator_level CONDITION_LESS = 8"
| "operator_level CONDITION_LESS_EQUAL = 8" | "operator_level CONDITION_GREATER = 8"
| "operator_level CONDITION_GREATER_EQUAL = 8" | "operator_level CONDITION_LEFT_SHIFT = 9"
| "operator_level CONDITION_RIGHT_SHIFT = 9" | "operator_level CONDITION_ADD = 10"
| "operator_level CONDITION_SUBTRACT = 10" | "operator_level CONDITION_MULTIPLY = 11"
| "operator_level CONDITION_DIVIDE = 11" | "operator_level CONDITION_REMAINDER = 11"
| "operator_level _ = 12"

fun operand_string :: "operand \<Rightarrow> string" where
  "operand_string (Integer_Constant pre base ds sfx u) = pre @ ds @ sfx"
| "operand_string (Defined_Name n) = ''defined('' @ n @ '')''"
| "operand_string (Plain_Name n) = n"

fun level :: "condition \<Rightarrow> nat" where
  "level (Operand x) = 12"
| "level (Unary operation e) = 12"
| "level (Binary operation a b) = operator_level operation"
| "level (Conditional c a b) = 1"

fun body :: "condition \<Rightarrow> string" and written :: "nat \<Rightarrow> condition \<Rightarrow> string" where
  "body (Operand x) = operand_string x"
| "body (Unary operation e) = operator_spelling operation @ written 12 e"
| "body (Binary operation a b) =
     written (operator_level operation) a @ operator_spelling operation @ written (operator_level operation + 1) b"
| "body (Conditional c a b) = written 2 c @ ''?'' @ written 1 a @ '':'' @ written 1 b"
| "written n e = (if level e < n then ''('' @ body e @ '')'' else body e)"

fun nesting_body :: "condition \<Rightarrow> nat" and nesting :: "nat \<Rightarrow> condition \<Rightarrow> nat" where
  "nesting_body (Operand x) = 0"
| "nesting_body (Unary operation e) = 1 + nesting 12 e"
| "nesting_body (Binary operation a b) =
     max (nesting (operator_level operation) a) (nesting (operator_level operation + 1) b)"
| "nesting_body (Conditional c a b) = max (nesting 2 c) (1 + max (nesting 1 a) (nesting 1 b))"
| "nesting n e = (if level e < n then 1 + nesting_body e else nesting_body e)"

fun operand_ok :: "operand \<Rightarrow> bool" where
  "operand_ok (Integer_Constant pre base ds sfx u) \<longleftrightarrow>
     (pre, base) \<in> set integer_prefixes \<and> literal_digits_ok base ds \<and> (sfx, u) \<in> set integer_suffixes \<and>
     radix_value base 0 ds < 18446744073709551616 \<and> (u \<or> base \<noteq> 10 \<or> radix_value base 0 ds \<le> INT64_MAX)"
| "operand_ok (Defined_Name n) \<longleftrightarrow> is_name n"
| "operand_ok (Plain_Name n) \<longleftrightarrow> is_name n \<and> n \<noteq> ''defined''"

fun condition_ok :: "condition \<Rightarrow> bool" where
  "condition_ok (Operand x) \<longleftrightarrow> operand_ok x"
| "condition_ok (Unary operation e) \<longleftrightarrow> operation \<in> unary_operators \<and> condition_ok e"
| "condition_ok (Binary operation a b) \<longleftrightarrow> operation \<in> binary_operators \<and> condition_ok a \<and> condition_ok b"
| "condition_ok (Conditional c a b) \<longleftrightarrow> condition_ok c \<and> condition_ok a \<and> condition_ok b"

section \<open>What may follow an operand\<close>

definition ends_word :: "cptr \<Rightarrow> bool" where
  "ends_word s \<longleftrightarrow> \<not> identifier_continue (peek s) \<and> ascii (peek s) \<noteq> 39 \<and> \<not> isspace (peek s)"

text \<open>\<open>follows n s\<close>: after an expression written at level \<open>n\<close>, the text \<open>s\<close> does not extend it.\<close>

definition follows :: "nat \<Rightarrow> cptr \<Rightarrow> bool" where
  "follows n s \<longleftrightarrow> ends_word s \<and> (peek s = CHR ''?'' \<longrightarrow> 2 \<le> n) \<and>
     (\<forall>token operation precedence. peek_operator s = Some (token, operation, precedence) \<longrightarrow> precedence \<le> n)"

text \<open>\<open>closes n s\<close>: a frame of minimum precedence \<open>n\<close> is finished at \<open>s\<close>.\<close>

definition closes :: "nat \<Rightarrow> cptr \<Rightarrow> bool" where
  "closes n s \<longleftrightarrow> ends_word s \<and> (peek s = CHR ''?'' \<longrightarrow> 2 \<le> n) \<and>
     (\<forall>token operation precedence. peek_operator s = Some (token, operation, precedence) \<longrightarrow> precedence < n)"

lemma follows_closes: "follows n s \<Longrightarrow> n < m \<Longrightarrow> closes m s"
  by (force simp: follows_def closes_def)

lemma follows_mono: "follows n s \<Longrightarrow> n \<le> m \<Longrightarrow> follows m s"
  by (force simp: follows_def)

lemma follows_one_closes: "follows 1 s \<Longrightarrow> closes 1 s"
  unfolding follows_def closes_def
  using operator_precedence_bounds peek_operator_nonempty(1) by force

text \<open>The characters that start an operand, and what an operator looks like before one.\<close>

definition starts_operand :: "cptr \<Rightarrow> bool" where
  "starts_operand s \<longleftrightarrow> identifier_continue (peek s) \<or> peek s \<in> {CHR ''('', CHR ''+'', CHR ''-'', CHR ''!'', CHR ''~''}"

lemma starts_operand_not_space: "starts_operand s \<Longrightarrow> \<not> isspace (peek s)"
  using identifier_not_space by (auto simp: starts_operand_def isspace_def ascii_def)

lemma at_token_append: "at_token (t @ s) t"
  by (simp add: at_token_def)

lemma operator_follow_chars:
  "starts_operand s \<Longrightarrow> peek s \<noteq> CHR ''|'' \<and> peek s \<noteq> CHR ''&'' \<and> peek s \<noteq> CHR ''='' \<and> peek s \<noteq> CHR ''<'' \<and> peek s \<noteq> CHR ''>''"
  by (auto simp: starts_operand_def identifier_continue_def char_class)

lemma at_token_Cons [simp]:
  "at_token s [] = True" "at_token s (c # t) \<longleftrightarrow> s \<noteq> [] \<and> peek s = c \<and> at_token (drop 1 s) t"
  by (cases s; auto simp: at_token_def)+

lemma peek_operator_spelling:
  assumes "operation \<in> binary_operators" "starts_operand s"
  shows "peek_operator (operator_spelling operation @ s)
    = Some (operator_spelling operation, operation, operator_level operation)"
proof -
  note c = operator_follow_chars [OF assms(2)]
  have nonspace: "skip_space (operator_spelling operation @ s) = operator_spelling operation @ s"
    using assms(1) by (auto simp: binary_operators_def relational_def isspace_def ascii_def)
  show ?thesis
    unfolding peek_operator_def nonspace
    using assms(1) c by (cases operation) (simp_all add: binary_operators_def relational_def operator_tokens_def)
qed

lemma operator_level_bounds: "operation \<in> binary_operators \<Longrightarrow> 2 \<le> operator_level operation \<and> operator_level operation \<le> 11"
  by (auto simp: binary_operators_def relational_def)

lemma operator_spelling_chars:
  assumes "operation \<in> binary_operators"
  shows "ends_word (operator_spelling operation @ s)" "peek (operator_spelling operation @ s) \<noteq> CHR ''?''"
  using assms
  by (auto simp: binary_operators_def relational_def ends_word_def identifier_continue_def char_class)

lemma follows_operator:
  assumes "operation \<in> binary_operators" "starts_operand s" "operator_level operation \<le> n"
  shows "follows n (operator_spelling operation @ s)"
  using assms operator_spelling_chars [OF assms(1), of s] peek_operator_spelling [OF assms(1,2)]
  by (simp add: follows_def)

lemma no_operator_at:
  assumes "peek s \<in> {CHR '')'', CHR ''?'', CHR '':'', NUL}"
  shows "peek_operator s = None"
proof -
  have "skip_space s = s" using assms by (intro skip_space_identity) (auto simp: isspace_def ascii_def NUL_code)
  then show ?thesis
    using assms by (auto simp: peek_operator_def operator_tokens_def NUL_code)
qed

lemma follows_closing:
  assumes "peek s \<in> {CHR '')'', CHR '':'', NUL}"
  shows "follows n s"
  using assms no_operator_at [of s]
  by (auto simp: follows_def ends_word_def identifier_continue_def char_class)

lemma follows_question: "2 \<le> n \<Longrightarrow> follows n (''?'' @ s)"
  using no_operator_at [of "''?'' @ s"]
  by (auto simp: follows_def ends_word_def identifier_continue_def char_class)

section \<open>Reading one operand\<close>

lemma operand_starts: "operand_ok x \<Longrightarrow> identifier_continue (peek (operand_string x @ s))"
proof (cases x)
  case (Integer_Constant pre base ds sfx u)
  assume "operand_ok x"
  then have h: "(pre, base) \<in> set integer_prefixes" "literal_digits_ok base ds"
    by (simp_all add: Integer_Constant)
  show ?thesis
  proof (cases pre)
    case Nil
    with h have "base = 10" by (auto simp: integer_prefixes_def)
    with h(2) obtain c r where "ds = c # r" "0 \<le> digit_value c" "digit_value c < 10"
      by (cases ds) (auto simp: literal_digits_ok_def valid_digits_def)
    then have "isdigit c" by (auto simp: digit_value_def isdigit_def split: if_splits)
    with \<open>ds = c # r\<close> Nil show ?thesis
      by (simp add: Integer_Constant identifier_continue_def isalnum_def)
  next
    case (Cons c r)
    with h(1) have "c = CHR ''0''" by (auto simp: integer_prefixes_def)
    with Cons show ?thesis by (simp add: Integer_Constant identifier_continue_def char_class)
  qed
qed (use is_name_peek identifier_start_continue in \<open>auto simp: identifier_continue_def char_class\<close>)

lemma expression_space_id: "\<not> isspace (peek (cursor p)) \<Longrightarrow> expression_space p = p"
  by (simp add: expression_space_def skip_space_identity)

lemma condition_atom_integer:
  assumes "operand_ok (Integer_Constant pre base ds sfx u)" "cursor p = pre @ ds @ sfx @ rest" "ends_word rest"
  shows "condition_atom p ev = (constant_value u base (radix_value base 0 ds), p\<lparr>cursor := rest\<rparr>)"
proof -
  have h: "(pre, base) \<in> set integer_prefixes" "literal_digits_ok base ds" "(sfx, u) \<in> set integer_suffixes"
    using assms(1) by simp_all
  have d: "isdigit (peek (cursor p))"
  proof (cases pre)
    case Nil
    with h have "base = 10" by (auto simp: integer_prefixes_def)
    with h(2) obtain c r where "ds = c # r" "0 \<le> digit_value c" "digit_value c < 10"
      by (cases ds) (auto simp: literal_digits_ok_def valid_digits_def)
    with Nil assms(2) show ?thesis by (auto simp: digit_value_def isdigit_def split: if_splits)
  next
    case (Cons c r)
    with h(1) have "c = CHR ''0''" by (auto simp: integer_prefixes_def)
    with Cons assms(2) show ?thesis by (simp add: char_class)
  qed
  then have n: "\<not> isspace (peek (cursor p))" "ascii (peek (cursor p)) \<noteq> 39" "\<not> identifier_start (peek (cursor p))"
    "peek (cursor p) \<noteq> CHR ''L''" "peek (cursor p) \<noteq> CHR ''u''" "peek (cursor p) \<noteq> CHR ''U''"
    by (auto simp: isdigit_def isspace_def identifier_start_def isalpha_def ascii_def)
  have "condition_atom p ev = parse_integer_literal p"
    unfolding condition_atom_def Let_def expression_space_id [OF n(1)] using n d by simp
  also have "\<dots> = literal_outcome p rest base u (radix_value base 0 ds)"
    using parse_integer_literal_value [OF h _ assms(2)] assms(3) by (simp add: ends_word_def)
  finally show ?thesis
    using assms(1) by (auto simp: literal_outcome_def constant_value_def)
qed

lemma identifier_not_quote: "identifier_continue c \<Longrightarrow> ascii c \<noteq> 39"
  by (auto simp: identifier_continue_def char_class)

lemma condition_atom_word:
  assumes "identifier_start (peek (cursor p))" "ascii (peek (drop 1 (cursor p))) \<noteq> 39"
  shows "condition_atom p ev =
    (if word_text (cursor p) = ''defined'' then parse_defined (p\<lparr>cursor := word_end (cursor p)\<rparr>) ev
     else (signed_integer 0, p\<lparr>cursor := word_end (cursor p)\<rparr>))"
proof -
  note c = identifier_start_continue [OF assms(1)]
  show ?thesis
    unfolding condition_atom_def Let_def expression_space_id [OF identifier_not_space [OF c]]
    by (simp only: assms identifier_not_quote [OF c] simp_thms if_True if_False)
qed

lemma condition_atom_name:
  assumes "is_name n" "n \<noteq> ''defined''" "cursor p = n @ rest" "ends_word rest"
  shows "condition_atom p ev = (signed_integer 0, p\<lparr>cursor := rest\<rparr>)"
proof -
  have "list_all identifier_continue n" "\<not> identifier_continue (peek rest)"
    using assms(1,4) by (auto simp: is_name_def ends_word_def)
  note w = word_of_append [OF this, folded assms(3)]
  have start: "identifier_start (peek (cursor p))" using is_name_peek [OF assms(1)] assms(3) by simp
  have second: "ascii (peek (drop 1 (cursor p))) \<noteq> 39"
  proof (cases "tl n")
    case Nil
    then have "drop 1 (cursor p) = rest" using assms(1,3) by (cases n) (auto simp: is_name_def)
    with assms(4) show ?thesis by (simp add: ends_word_def)
  next
    case (Cons c r)
    then have "identifier_continue c" "peek (drop 1 (cursor p)) = c"
      using assms(1,3) by (cases n; simp add: is_name_def)+
    then show ?thesis using identifier_not_quote by simp
  qed
  show ?thesis
    unfolding condition_atom_word [OF start second] w if_not_P [OF assms(2)] ..
qed

lemma condition_atom_defined:
  assumes "is_name n" "cursor p = ''defined('' @ n @ '')'' @ rest"
  shows "condition_atom p ev =
    (signed_integer (of_bool (ev \<and> find_macro (parser_preprocessor p) n \<noteq> None)), p\<lparr>cursor := rest\<rparr>)"
proof -
  define t where "t = n @ '')'' @ rest"
  have c: "cursor p = ''defined'' @ (CHR ''('' # t)" using assms(2) by (simp add: t_def)
  have w: "word_text (cursor p) = ''defined''" "word_end (cursor p) = CHR ''('' # t"
    unfolding c by (rule word_of_append; simp add: identifier_continue_def char_class)+
  have first: "identifier_start (peek (cursor p))" "ascii (peek (drop 1 (cursor p))) \<noteq> 39"
    unfolding c by (simp_all add: identifier_start_def char_class)
  have "list_all identifier_continue n" "\<not> identifier_continue (peek ('')'' @ rest))"
    using assms(1) by (simp_all add: is_name_def identifier_continue_def char_class)
  note wt = word_of_append [OF this, folded t_def]
  have t: "\<not> isspace (peek t)" "identifier_start (peek t)"
    using is_name_not_space [OF assms(1)] is_name_peek [OF assms(1)] by (simp_all add: t_def)
  have paren: "\<not> isspace CHR ''(''" "skip_space (CHR '')'' # rest) = CHR '')'' # rest"
    by (simp_all add: isspace_def ascii_def)
  have "condition_atom p ev = parse_defined (p\<lparr>cursor := CHR ''('' # t\<rparr>) ev"
    unfolding condition_atom_word [OF first] w by simp
  also have "\<dots> = (signed_integer (of_bool (ev \<and> find_macro (parser_preprocessor p) n \<noteq> None)), p\<lparr>cursor := rest\<rparr>)"
    using t wt paren
    by (simp add: parse_defined_def expression_space_def skip_space_identity expression_consume_def)
  finally show ?thesis .
qed

definition macro_defined :: "expression_parser \<Rightarrow> string \<Rightarrow> bool" where
  "macro_defined p n \<longleftrightarrow> find_macro (parser_preprocessor p) n \<noteq> None"

lemma condition_atom_operand:
  assumes "operand_ok x" "cursor p = operand_string x @ rest" "ends_word rest"
  shows "condition_atom p ev =
    (operand_meaning (if ev then macro_defined p else (\<lambda>_. False)) x, p\<lparr>cursor := rest\<rparr>)"
proof (cases x)
  case (Integer_Constant pre base ds sfx u)
  then show ?thesis using assms condition_atom_integer by simp
next
  case (Defined_Name n)
  then show ?thesis using assms condition_atom_defined [of n p rest ev] by (auto simp: macro_defined_def)
next
  case (Plain_Name n)
  then show ?thesis using assms condition_atom_name [of n p rest ev] by simp
qed

lemma operand_value_ok: "operand_ok x \<Longrightarrow> value_ok (operand_meaning defs x)"
  and operand_type: "is_unsigned (operand_meaning defs x) = is_unsigned (operand_meaning (\<lambda>_. False) x)"
proof -
  show "operand_ok x \<Longrightarrow> value_ok (operand_meaning defs x)"
  proof (cases x)
    case (Integer_Constant pre base ds sfx u)
    assume "operand_ok x"
    moreover from this have "valid_digits base ds" "1 < base"
      by (auto simp: Integer_Constant literal_digits_ok_def integer_prefixes_def)
    then have "0 \<le> radix_value base 0 ds" using radix_value_ge [of base 0 ds] by simp
    ultimately show ?thesis
      by (auto simp: Integer_Constant constant_value_def in_i64_def)
  qed (auto simp: in_i64_def)
  show "is_unsigned (operand_meaning defs x) = is_unsigned (operand_meaning (\<lambda>_. False) x)"
    by (cases x) simp_all
qed

end
