(* ===== verification/Cond_Correct.thy ===== *)
theory Cond_Correct
  imports Cond_Semantics
begin

text \<open>
  The machine of \<open>parse.c\<close> computes the meaning of an expression: the simulation, one lemma per kind of
  iteration, then an induction over the syntax tree, and the properties of the evaluator.
\<close>

section \<open>Iterations on a well-formed text\<close>

abbreviation frames_of :: "nat \<Rightarrow> condition_frame list \<Rightarrow> condition_stack" where
  "frames_of c fs \<equiv> \<lparr>stack_frames = fs, stack_capacity = c\<rparr>"

definition roomy :: "expression_parser \<Rightarrow> bool" where
  "roomy p \<longleftrightarrow> \<not> failed p \<and> (\<forall>n. memory (parser_preprocessor p) n) \<and> nesting_limit p \<le> 2 ^ 50"

lemma roomy_cursor [simp]: "roomy (p\<lparr>cursor := s\<rparr>) = roomy p"
  by (simp add: roomy_def nesting_limit_def)

lemma nesting_limit_cursor [simp]: "nesting_limit (p\<lparr>cursor := s\<rparr>) = nesting_limit p"
  by (simp add: nesting_limit_def)

lemma macro_defined_cursor [simp]: "macro_defined (p\<lparr>cursor := s\<rparr>) = macro_defined p"
  by (simp add: macro_defined_def fun_eq_iff)

lemma push_frame_succeeds:
  assumes "roomy p" "stack_ok (nesting_limit p) fs"
  shows "\<exists>c'. push_frame p (frames_of c fs) prec ev d = (True, p, frames_of c' (new_frame prec ev d # fs))"
proof -
  have "length fs \<le> 12 * (nesting_limit p + 1)" by (rule stack_ok_length [OF assms(2)])
  moreover have "12 * (nesting_limit p + 1) \<le> SIZE_MAX div 2 div 88"
    using assms(1) by (simp add: roomy_def)
  ultimately show ?thesis
    using assms(1) by (auto simp: push_frame_def Let_def roomy_def)
qed

lemma push_nested_succeeds:
  assumes "roomy p" "stack_ok (nesting_limit p) fs" "d < nesting_limit p"
  shows "\<exists>c'. push_nested p (frames_of c fs) prec ev d = (True, p, frames_of c' (new_frame prec ev (d + 1) # fs))"
  using push_frame_succeeds [OF assms(1,2), of c prec ev "d + 1"] assms(3)
  by (metis linorder_not_less nesting_limit_def push_nested_def)

lemma run_step:
  assumes "roomy p" "\<not> isspace (peek (cursor p))" "frame_state f = FRAME_OPERAND \<or> frame_state f = FRAME_OPERATOR"
  shows "run_condition p (frames_of c (f # S)) v =
    (case (if frame_state f = FRAME_OPERAND then operand_step p (frames_of c (f # S)) f S v
           else operator_step p (frames_of c (f # S)) f S v) of
       (True, p', st', v') \<Rightarrow> run_condition p' st' v' | (False, p', st', v') \<Rightarrow> (v', p'))"
  using assms by (subst run_condition.simps) (auto simp: roomy_def condition_step_def expression_space_id)

lemma run_operand:
  assumes "roomy p" "operand_ok x" "cursor p = operand_string x @ rest" "ends_word rest" "frame_state f = FRAME_OPERAND"
  shows "run_condition p (frames_of c (f # S)) v = run_condition (p\<lparr>cursor := rest\<rparr>)
    (frames_of c (f\<lparr>frame_left := operand_meaning (if frame_evaluate f then macro_defined p else (\<lambda>_. False)) x,
       frame_state := FRAME_OPERATOR\<rparr> # S)) v"
proof -
  have start: "identifier_continue (peek (cursor p))"
    using operand_starts [OF assms(2)] assms(3) by simp
  then have "peek (cursor p) \<noteq> CHR ''(''" "unary_token (peek (cursor p)) = None"
    by (auto simp: identifier_continue_def unary_token_def char_class)
  then show ?thesis
    using assms(5) condition_atom_operand [OF assms(2-4), of "frame_evaluate f"]
    by (subst run_step [OF assms(1) identifier_not_space [OF start]]) (simp_all add: operand_step_def)
qed

lemma run_paren:
  assumes "roomy p" "cursor p = CHR ''('' # t" "frame_state f = FRAME_OPERAND"
    and "stack_ok (nesting_limit p) (f # S)" "frame_depth f < nesting_limit p"
  obtains c' where "run_condition p (frames_of c (f # S)) v = run_condition (p\<lparr>cursor := t\<rparr>)
    (frames_of c' (new_frame 1 (frame_evaluate f) (frame_depth f + 1) # f\<lparr>frame_state := FRAME_PARENTHESIS\<rparr> # S)) v"
proof -
  have s: "\<not> isspace (peek (cursor p))" using assms(2) by (simp add: isspace_def ascii_def)
  have ok: "stack_ok (nesting_limit (p\<lparr>cursor := t\<rparr>)) (f\<lparr>frame_state := FRAME_PARENTHESIS\<rparr> # S)"
    using stack_ok_update [OF assms(4)] by simp
  obtain c' where "push_nested (p\<lparr>cursor := t\<rparr>) (frames_of c (f\<lparr>frame_state := FRAME_PARENTHESIS\<rparr> # S)) 1
      (frame_evaluate f) (frame_depth f) = (True, p\<lparr>cursor := t\<rparr>,
      frames_of c' (new_frame 1 (frame_evaluate f) (frame_depth f + 1) # f\<lparr>frame_state := FRAME_PARENTHESIS\<rparr> # S))"
    using push_nested_succeeds [OF _ ok, of "frame_depth f" c 1 "frame_evaluate f"] assms(1,5) by auto
  then have "run_condition p (frames_of c (f # S)) v = run_condition (p\<lparr>cursor := t\<rparr>)
    (frames_of c' (new_frame 1 (frame_evaluate f) (frame_depth f + 1) # f\<lparr>frame_state := FRAME_PARENTHESIS\<rparr> # S)) v"
    using assms(2,3) by (subst run_step [OF assms(1) s]) (simp_all add: operand_step_def pushed_def advance_cursor_def)
  then show thesis by (rule that)
qed

lemma run_unary:
  assumes "roomy p" "cursor p = operator_spelling operation @ t" "operation \<in> unary_operators"
    and "frame_state f = FRAME_OPERAND" "stack_ok (nesting_limit p) (f # S)" "frame_depth f < nesting_limit p"
  obtains c' where "run_condition p (frames_of c (f # S)) v = run_condition (p\<lparr>cursor := t\<rparr>)
    (frames_of c' (new_frame 12 (frame_evaluate f) (frame_depth f + 1) #
      f\<lparr>frame_operation := operation, operation_at := cursor p, frame_state := FRAME_UNARY\<rparr> # S)) v"
proof -
  define g where "g = f\<lparr>frame_operation := operation, operation_at := cursor p, frame_state := FRAME_UNARY\<rparr>"
  have ch: "\<not> isspace (peek (cursor p))" "peek (cursor p) \<noteq> CHR ''(''"
    "unary_token (peek (cursor p)) = Some operation" "drop 1 (cursor p) = t"
    using assms(2,3) by (auto simp: unary_operators_def unary_token_def isspace_def ascii_def)
  have ok: "stack_ok (nesting_limit (p\<lparr>cursor := t\<rparr>)) (g # S)"
    using stack_ok_update [OF assms(5), of g] by (simp add: g_def)
  obtain c' where "push_nested (p\<lparr>cursor := t\<rparr>) (frames_of c (g # S)) 12 (frame_evaluate f) (frame_depth f) =
      (True, p\<lparr>cursor := t\<rparr>, frames_of c' (new_frame 12 (frame_evaluate f) (frame_depth f + 1) # g # S))"
    using push_nested_succeeds [OF _ ok, of "frame_depth f" c 12 "frame_evaluate f"] assms(1,6) by auto
  then have "run_condition p (frames_of c (f # S)) v = run_condition (p\<lparr>cursor := t\<rparr>)
    (frames_of c' (new_frame 12 (frame_evaluate f) (frame_depth f + 1) # g # S)) v"
    using assms(4) ch
    by (subst run_step [OF assms(1) ch(1)]) (simp_all add: operand_step_def pushed_def advance_cursor_def g_def)
  then show thesis unfolding g_def by (rule that)
qed

lemma run_binary:
  assumes "roomy p" "cursor p = operator_spelling operation @ t" "operation \<in> binary_operators" "starts_operand t"
    and "frame_state f = FRAME_OPERATOR" "stack_ok (nesting_limit p) (f # S)"
    and "minimum_precedence f \<le> operator_level operation"
  defines "rhs \<equiv> (if operation = CONDITION_LOGICAL_AND then frame_evaluate f \<and> integer_true (frame_left f)
                    else if operation = CONDITION_LOGICAL_OR then frame_evaluate f \<and> \<not> integer_true (frame_left f)
                    else frame_evaluate f)"
  obtains c' where "run_condition p (frames_of c (f # S)) v = run_condition (p\<lparr>cursor := t\<rparr>)
    (frames_of c' (new_frame (operator_level operation + 1) rhs (frame_depth f) #
      f\<lparr>frame_operation := operation, operation_at := cursor p, frame_state := FRAME_BINARY\<rparr> # S)) v"
proof -
  define g where "g = f\<lparr>frame_operation := operation, operation_at := cursor p, frame_state := FRAME_BINARY\<rparr>"
  have ch: "\<not> isspace (peek (cursor p))" "peek (cursor p) \<noteq> CHR ''?''"
    "peek_operator (cursor p) = Some (operator_spelling operation, operation, operator_level operation)"
    "drop (length (operator_spelling operation)) (cursor p) = t"
    using operator_spelling_chars [OF assms(3), of t] peek_operator_spelling [OF assms(3,4)] assms(2)
    by (simp_all add: ends_word_def)
  have ok: "stack_ok (nesting_limit (p\<lparr>cursor := t\<rparr>)) (g # S)"
    using stack_ok_update [OF assms(6), of g] by (simp add: g_def)
  obtain c' where "push_frame (p\<lparr>cursor := t\<rparr>) (frames_of c (g # S)) (operator_level operation + 1) rhs (frame_depth f) =
      (True, p\<lparr>cursor := t\<rparr>, frames_of c' (new_frame (operator_level operation + 1) rhs (frame_depth f) # g # S))"
    using push_frame_succeeds [OF _ ok, of c "operator_level operation + 1" rhs "frame_depth f"] assms(1) by auto
  moreover have "(if operation = CONDITION_LOGICAL_AND then frame_evaluate g \<and> integer_true (frame_left g)
      else if operation = CONDITION_LOGICAL_OR then frame_evaluate g \<and> \<not> integer_true (frame_left g)
      else frame_evaluate g) = rhs" "frame_depth g = frame_depth f"
    by (simp_all add: g_def rhs_def)
  moreover have "\<not> (peek (cursor p) = CHR ''?'' \<and> minimum_precedence f \<le> 1)" using ch(2) by simp
  ultimately have "operator_step p (frames_of c (f # S)) f S v = (True, p\<lparr>cursor := t\<rparr>,
      frames_of c' (new_frame (operator_level operation + 1) rhs (frame_depth f) # g # S), v)"
    unfolding operator_step_def Let_def advance_cursor_def
    by (simp only: g_def [symmetric] ch(3,4) if_False option.case prod.case assms(7) if_True pushed_def
        condition_stack.update_convs)
  then have "run_condition p (frames_of c (f # S)) v = run_condition (p\<lparr>cursor := t\<rparr>)
    (frames_of c' (new_frame (operator_level operation + 1) rhs (frame_depth f) # g # S)) v"
    using assms(5) by (subst run_step [OF assms(1) ch(1)]) simp_all
  then show thesis unfolding g_def by (rule that)
qed

lemma run_question:
  assumes "roomy p" "cursor p = CHR ''?'' # t" "frame_state f = FRAME_OPERATOR" "minimum_precedence f \<le> 1"
    and "stack_ok (nesting_limit p) (f # S)" "frame_depth f < nesting_limit p"
  defines "g \<equiv> f\<lparr>frame_selected := integer_true (frame_left f), frame_state := FRAME_TRUE_BRANCH\<rparr>"
  obtains c' where "run_condition p (frames_of c (f # S)) v = run_condition (p\<lparr>cursor := t\<rparr>)
    (frames_of c' (new_frame 1 (frame_evaluate f \<and> integer_true (frame_left f)) (frame_depth f + 1) # g # S)) v"
proof -
  have s: "\<not> isspace (peek (cursor p))" using assms(2) by (simp add: isspace_def ascii_def)
  have ok: "stack_ok (nesting_limit (p\<lparr>cursor := t\<rparr>)) (g # S)"
    using stack_ok_update [OF assms(5), of g] by (simp add: g_def)
  obtain c' where "push_nested (p\<lparr>cursor := t\<rparr>) (frames_of c (g # S)) 1
      (frame_evaluate f \<and> integer_true (frame_left f)) (frame_depth f) = (True, p\<lparr>cursor := t\<rparr>,
      frames_of c' (new_frame 1 (frame_evaluate f \<and> integer_true (frame_left f)) (frame_depth f + 1) # g # S))"
    using push_nested_succeeds [OF _ ok, of "frame_depth f" c 1 "frame_evaluate f \<and> integer_true (frame_left f)"] assms(1,6) by auto
  then have "run_condition p (frames_of c (f # S)) v = run_condition (p\<lparr>cursor := t\<rparr>)
    (frames_of c' (new_frame 1 (frame_evaluate f \<and> integer_true (frame_left f)) (frame_depth f + 1) # g # S)) v"
    using assms(2-4)
    by (subst run_step [OF assms(1) s]) (simp_all add: operator_step_def pushed_def advance_cursor_def g_def)
  then show thesis by (rule that)
qed

lemma run_return:
  assumes "roomy p" "frame_state f = FRAME_OPERATOR" "closes (minimum_precedence f) (cursor p)"
  shows "run_condition p (frames_of c (f # g # S)) v =
    (case return_step p (frames_of c (f # g # S)) g S (frame_left f) of
       (True, p', st', v') \<Rightarrow> run_condition p' st' v' | (False, p', st', v') \<Rightarrow> (v', p'))"
    and "run_condition p (frames_of c [f]) v = (frame_left f, p)"
proof -
  have s: "\<not> isspace (peek (cursor p))" "\<not> (peek (cursor p) = CHR ''?'' \<and> minimum_precedence f \<le> 1)"
    using assms(3) by (auto simp: closes_def ends_word_def)
  have none: "(case peek_operator (cursor p) of None \<Rightarrow> x
      | Some (token, operation, precedence) \<Rightarrow> if minimum_precedence f \<le> precedence then y token operation precedence else x) = x"
    for x :: step_result and y
    using assms(3) by (fastforce simp: closes_def split: option.splits)
  have "operator_step p (frames_of c (f # T)) f T v = (case T of
           [] \<Rightarrow> (False, p, (frames_of c (f # T))\<lparr>stack_frames := []\<rparr>, frame_left f)
         | g # S \<Rightarrow> return_step p (frames_of c (f # T)) g S (frame_left f))" for T
    unfolding operator_step_def Let_def if_not_P [OF s(2)] by (rule none)
  then show "run_condition p (frames_of c (f # g # S)) v =
    (case return_step p (frames_of c (f # g # S)) g S (frame_left f) of
       (True, p', st', v') \<Rightarrow> run_condition p' st' v' | (False, p', st', v') \<Rightarrow> (v', p'))"
    "run_condition p (frames_of c [f]) v = (frame_left f, p)"
    using assms(2) by (subst run_step [OF assms(1) s(1)], simp, simp)+
qed

section \<open>Types of results\<close>

definition binary_type :: "condition_operator \<Rightarrow> bool \<Rightarrow> bool \<Rightarrow> bool" where
  "binary_type operation a b =
     (if operation \<in> relational \<union> {CONDITION_LOGICAL_AND, CONDITION_LOGICAL_OR} then False
      else if operation \<in> {CONDITION_LEFT_SHIFT, CONDITION_RIGHT_SHIFT} then a else a \<or> b)"

lemma fit_Some: "fit u x = Some v \<Longrightarrow> value_ok v \<and> is_unsigned v = u"
  by (auto simp: fit_def split: if_splits)

lemma value_ok_of_bool [simp]: "in_i64 (of_bool b)" "in_i64 0" "in_i64 1"
  by (simp_all add: in_i64_def)

lemma binary_meaning_type:
  assumes "binary_meaning operation l r = Some v" "operation \<in> binary_operators"
  shows "value_ok v \<and> is_unsigned v = binary_type operation (is_unsigned l) (is_unsigned r)"
  using assms
  by (cases operation)
    (auto simp: binary_meaning_def binary_type_def relational_def binary_operators_def Let_def
      dest: fit_Some split: if_splits)

lemma binary_silent:
  assumes "operation \<in> binary_operators" "value_ok l"
  shows "\<exists>v. condition_binary p operation l r False at = (v, p) \<and> value_ok v \<and>
    is_unsigned v = binary_type operation (is_unsigned l) (is_unsigned r)"
  using assms
  by (cases operation)
    (auto simp: condition_binary_def binary_type_def relational_def binary_operators_def condition_shift_def
      common_zero_def)

lemma unary_meaning_type:
  assumes "unary_meaning operation l = Some v" "value_ok l"
  shows "value_ok v \<and> is_unsigned v = (operation \<noteq> CONDITION_LOGICAL_NOT \<and> is_unsigned l)"
  using assms by (auto simp: unary_meaning_def dest: fit_Some split: if_splits)

lemma unary_silent:
  assumes "operation \<in> unary_operators" "value_ok l"
  shows "\<exists>v. condition_unary p operation l False at = (v, p) \<and> value_ok v \<and>
    is_unsigned v = (operation \<noteq> CONDITION_LOGICAL_NOT \<and> is_unsigned l)"
  using assms by (auto simp: condition_unary_def unary_operators_def)

section \<open>The simulation\<close>

text \<open>
  What the machine makes of an expression \<open>e\<close> that the frame \<open>f\<close> reads: either the expression is
  evaluated, undefined, and the machine fails; or the frame gets a value of the right type, which
  is the meaning if the expression is evaluated, and the machine goes on after the text of \<open>e\<close>.
\<close>

definition result_ok :: "bool \<Rightarrow> expression_parser \<Rightarrow> condition \<Rightarrow> integer_value \<Rightarrow> bool" where
  "result_ok ev p e w \<longleftrightarrow> value_ok w \<and> is_unsigned w = unsigned_type e \<and>
     (ev \<longrightarrow> meaning (macro_defined p) e = Some w)"

definition same_frame :: "condition_frame \<Rightarrow> condition_frame \<Rightarrow> bool" where
  "same_frame f g \<longleftrightarrow> minimum_precedence g = minimum_precedence f \<and> frame_depth g = frame_depth f \<and>
     frame_evaluate g = frame_evaluate f"

definition completes ::
  "integer_value \<times> expression_parser \<Rightarrow> expression_parser \<Rightarrow> condition_frame \<Rightarrow> condition_frame list \<Rightarrow> integer_value \<Rightarrow> bool" where
  "completes r q f S w \<longleftrightarrow> (\<exists>g c v. r = run_condition q (frames_of c (g # S)) v \<and>
     frame_state g = FRAME_OPERATOR \<and> frame_left g = w \<and> same_frame f g)"

definition outcome ::
  "integer_value \<times> expression_parser \<Rightarrow> expression_parser \<Rightarrow> condition_frame \<Rightarrow> condition_frame list \<Rightarrow> condition \<Rightarrow> cptr \<Rightarrow> bool" where
  "outcome r p f S e rest \<longleftrightarrow>
     (frame_evaluate f \<and> meaning (macro_defined p) e = None \<and> failed (snd r)) \<or>
     (\<exists>w. result_ok (frame_evaluate f) p e w \<and> completes r (p\<lparr>cursor := rest\<rparr>) f S w)"

lemma outcome_cases:
  assumes "outcome r p f S e rest"
  obtains (fails) "frame_evaluate f" "meaning (macro_defined p) e = None" "failed (snd r)"
  | (value_of) g c v where "r = run_condition (p\<lparr>cursor := rest\<rparr>) (frames_of c (g # S)) v"
      "frame_state g = FRAME_OPERATOR" "same_frame f g" "result_ok (frame_evaluate f) p e (frame_left g)"
  using assms by (auto simp: outcome_def completes_def)

lemma outcome_fails:
  "frame_evaluate f \<Longrightarrow> meaning (macro_defined p) e = None \<Longrightarrow> failed (snd r) \<Longrightarrow> outcome r p f S e rest"
  by (simp add: outcome_def)

lemma outcome_value:
  assumes "r = run_condition (p\<lparr>cursor := rest\<rparr>) (frames_of c (g # S)) v"
    and "frame_state g = FRAME_OPERATOR" "same_frame f g" "result_ok (frame_evaluate f) p e (frame_left g)"
  shows "outcome r p f S e rest"
  using assms by (auto simp: outcome_def completes_def)

lemma run_failed [simp]: "failed p \<Longrightarrow> run_condition p st v = (v, p)"
  by (subst run_condition.simps) simp

lemma written_starts:
  "condition_ok e \<Longrightarrow> starts_operand (body e @ s)" "condition_ok e \<Longrightarrow> starts_operand (written n e @ s)"
proof (induction e arbitrary: n s)
  case (Operand x)
  { case 1 then show ?case using operand_starts by (simp add: starts_operand_def) }
  { case 2 then show ?case using operand_starts by (simp add: starts_operand_def) }
next
  case (Unary operation e)
  { case 1 then show ?case by (auto simp: starts_operand_def unary_operators_def) }
  { case 2 then show ?case by (auto simp: starts_operand_def unary_operators_def) }
next
  case (Binary operation a b)
  { case 1 then show ?case using Binary(2) [of "operator_level operation"] by simp }
  { case 2 then show ?case using Binary(2) [of "operator_level operation"] by (simp add: starts_operand_def) }
next
  case (Conditional c a b)
  { case 1 then show ?case using Conditional(2) [of 2] by simp }
  { case 2 then show ?case using Conditional(2) [of 2] by (simp add: starts_operand_def) }
qed

text \<open>A finished frame returns its value to the frame below.\<close>

lemma return_paren:
  assumes "roomy p" "frame_state h = FRAME_OPERATOR" "closes (minimum_precedence h) (cursor p)"
    and "frame_state g = FRAME_PARENTHESIS" "cursor p = CHR '')'' # rest"
  shows "run_condition p (frames_of c (h # g # S)) v =
    run_condition (p\<lparr>cursor := rest\<rparr>) (frames_of c (g\<lparr>frame_left := frame_left h, frame_state := FRAME_OPERATOR\<rparr> # S))
      (frame_left h)"
proof -
  have "expression_consume p '')'' = (True, p\<lparr>cursor := rest\<rparr>)"
    using assms(5) by (simp add: expression_consume_def expression_space_def isspace_def ascii_def)
  then show ?thesis
    using assms(4) by (subst run_return(1) [OF assms(1-3)]) (simp add: return_step_def Let_def)
qed

lemma return_unary:
  assumes "roomy p" "frame_state h = FRAME_OPERATOR" "closes (minimum_precedence h) (cursor p)"
    and "frame_state g = FRAME_UNARY"
    and "condition_unary p (frame_operation g) (frame_left h) (frame_evaluate g) (operation_at g) = (l, q)"
  shows "run_condition p (frames_of c (h # g # S)) v =
    run_condition q (frames_of c (g\<lparr>frame_left := l, frame_state := FRAME_OPERATOR\<rparr> # S)) (frame_left h)"
  using assms(4,5) by (subst run_return(1) [OF assms(1-3)]) (simp add: return_step_def Let_def)

lemma return_binary:
  assumes "roomy p" "frame_state h = FRAME_OPERATOR" "closes (minimum_precedence h) (cursor p)"
    and "frame_state g = FRAME_BINARY"
    and "condition_binary p (frame_operation g) (frame_left g) (frame_left h) (frame_evaluate g) (operation_at g) = (l, q)"
  shows "run_condition p (frames_of c (h # g # S)) v =
    run_condition q (frames_of c (g\<lparr>frame_left := l, frame_state := FRAME_OPERATOR\<rparr> # S)) (frame_left h)"
  using assms(4,5) by (subst run_return(1) [OF assms(1-3)]) (simp add: return_step_def Let_def)

lemma return_false_branch:
  assumes "roomy p" "frame_state h = FRAME_OPERATOR" "closes (minimum_precedence h) (cursor p)"
    and "frame_state g = FRAME_FALSE_BRANCH"
  shows "run_condition p (frames_of c (h # g # S)) v =
    run_condition p (frames_of c (g\<lparr>frame_left := select_branch g (frame_left h), frame_state := FRAME_OPERATOR\<rparr> # S))
      (frame_left h)"
  using assms(4) by (subst run_return(1) [OF assms(1-3)]) (simp add: return_step_def Let_def)

lemma return_true_branch:
  assumes "roomy p" "frame_state h = FRAME_OPERATOR" "closes (minimum_precedence h) (cursor p)"
    and "frame_state g = FRAME_TRUE_BRANCH" "cursor p = CHR '':'' # t"
    and "stack_ok (nesting_limit p) (g # S)" "frame_depth g < nesting_limit p"
  obtains c' where "run_condition p (frames_of c (h # g # S)) v = run_condition (p\<lparr>cursor := t\<rparr>)
    (frames_of c' (new_frame 1 (frame_evaluate g \<and> \<not> frame_selected g) (frame_depth g + 1) #
      g\<lparr>frame_when_true := frame_left h, frame_state := FRAME_FALSE_BRANCH\<rparr> # S)) (frame_left h)"
proof -
  define k where "k = g\<lparr>frame_when_true := frame_left h, frame_state := FRAME_FALSE_BRANCH\<rparr>"
  have consume: "expression_consume p '':'' = (True, p\<lparr>cursor := t\<rparr>)"
    using assms(5) by (simp add: expression_consume_def expression_space_def isspace_def ascii_def)
  have ok: "stack_ok (nesting_limit (p\<lparr>cursor := t\<rparr>)) (k # S)"
    using stack_ok_update [OF assms(6), of k] by (simp add: k_def)
  obtain c' where n: "push_nested (p\<lparr>cursor := t\<rparr>) (frames_of c (k # S)) 1 (frame_evaluate k \<and> \<not> frame_selected k)
      (frame_depth k) = (True, p\<lparr>cursor := t\<rparr>,
      frames_of c' (new_frame 1 (frame_evaluate k \<and> \<not> frame_selected k) (frame_depth k + 1) # k # S))"
    using push_nested_succeeds [OF _ ok, of "frame_depth k" c 1 "frame_evaluate k \<and> \<not> frame_selected k"] assms(1,7)
    by (auto simp: k_def)
  have "return_step p (frames_of c (h # g # S)) g S (frame_left h) =
    (True, p\<lparr>cursor := t\<rparr>, frames_of c' (new_frame 1 (frame_evaluate k \<and> \<not> frame_selected k) (frame_depth k + 1) # k # S),
      frame_left h)"
    unfolding return_step_def Let_def k_def [symmetric] consume
    by (simp only: assms(4) frame_state.case prod.case bool.case condition_stack.update_convs n)
  then have "run_condition p (frames_of c (h # g # S)) v = run_condition (p\<lparr>cursor := t\<rparr>)
    (frames_of c' (new_frame 1 (frame_evaluate k \<and> \<not> frame_selected k) (frame_depth k + 1) # k # S)) (frame_left h)"
    by (subst run_return(1) [OF assms(1-3)]) simp
  then show thesis by (intro that) (simp add: k_def)
qed

lemma result_ok_cursor [simp]: "result_ok ev (p\<lparr>cursor := s\<rparr>) e w = result_ok ev p e w"
  by (simp add: result_ok_def)

lemma new_frame_simps [simp]:
  "frame_state (new_frame n ev d) = FRAME_OPERAND" "minimum_precedence (new_frame n ev d) = n"
  "frame_evaluate (new_frame n ev d) = ev" "frame_depth (new_frame n ev d) = d"
  by (simp_all add: new_frame_def)

definition machine_reads :: "(condition \<Rightarrow> string) \<Rightarrow> (condition \<Rightarrow> nat) \<Rightarrow> nat \<Rightarrow> condition \<Rightarrow> bool" where
  "machine_reads show need m e \<longleftrightarrow> (\<forall>p c v f S rest.
     roomy p \<longrightarrow> frame_state f = FRAME_OPERAND \<longrightarrow> minimum_precedence f \<le> m \<longrightarrow>
     cursor p = show e @ rest \<longrightarrow> follows m rest \<longrightarrow> frame_depth f + need e \<le> nesting_limit p \<longrightarrow>
     stack_ok (nesting_limit p) (f # S) \<longrightarrow> outcome (run_condition p (frames_of c (f # S)) v) p f S e rest)"

lemma machine_readsD:
  assumes "machine_reads show need m e" "roomy p" "frame_state f = FRAME_OPERAND" "minimum_precedence f \<le> m"
    and "cursor p = show e @ rest" "follows m rest" "frame_depth f + need e \<le> nesting_limit p"
    and "stack_ok (nesting_limit p) (f # S)"
  shows "outcome (run_condition p (frames_of c (f # S)) v) p f S e rest"
  using assms unfolding machine_reads_def by blast

lemma machine_readsI:
  assumes "\<And>p c v f S rest. roomy p \<Longrightarrow> frame_state f = FRAME_OPERAND \<Longrightarrow> minimum_precedence f \<le> m \<Longrightarrow>
     cursor p = show e @ rest \<Longrightarrow> follows m rest \<Longrightarrow> frame_depth f + need e \<le> nesting_limit p \<Longrightarrow>
     stack_ok (nesting_limit p) (f # S) \<Longrightarrow> outcome (run_condition p (frames_of c (f # S)) v) p f S e rest"
  shows "machine_reads show need m e"
  using assms unfolding machine_reads_def by blast

lemma level_positive: "1 \<le> level e"
proof (cases e)
  case (Binary operation a b)
  then show ?thesis by (cases operation) simp_all
qed simp_all

lemma reads_written:
  assumes "\<And>m. m \<le> level e \<Longrightarrow> machine_reads body nesting_body m e"
  shows "machine_reads (written m) (nesting m) m e"
proof (cases "level e < m")
  case False
  then show ?thesis using assms [of m] by (simp add: machine_reads_def)
next
  case True
  show ?thesis
  proof (rule machine_readsI)
    fix p c v f S rest
    assume roomy: "roomy p" and f: "frame_state f = FRAME_OPERAND"
      and cur: "cursor p = written m e @ rest" and follow: "follows m rest"
      and depth: "frame_depth f + nesting m e \<le> nesting_limit p" and ok: "stack_ok (nesting_limit p) (f # S)"
    define t where "t = body e @ '')'' @ rest"
    define g where "g = f\<lparr>frame_state := FRAME_PARENTHESIS\<rparr>"
    define k where "k = new_frame 1 (frame_evaluate f) (frame_depth f + 1)"
    have c: "cursor p = CHR ''('' # t" using cur True by (simp add: t_def)
    have d: "frame_depth f + 1 + nesting_body e \<le> nesting_limit p" using depth True by simp
    obtain c' where r: "run_condition p (frames_of c (f # S)) v =
        run_condition (p\<lparr>cursor := t\<rparr>) (frames_of c' (k # g # S)) v"
      unfolding k_def g_def using run_paren [OF roomy c f ok, of c v] d by auto
    have gok: "stack_ok (nesting_limit p) (g # S)" using stack_ok_update [OF ok] by (simp add: g_def)
    then have kok: "stack_ok (nesting_limit p) (k # g # S)"
      unfolding k_def using d by (intro stack_ok_push) (auto simp: g_def)
    note level_positive [of e]
    then have "outcome (run_condition (p\<lparr>cursor := t\<rparr>) (frames_of c' (k # g # S)) v) (p\<lparr>cursor := t\<rparr>) k (g # S) e ('')'' @ rest)"
      using assms [of 1] kok d roomy
      by (intro machine_readsD [of body nesting_body 1]) (auto simp: k_def t_def follows_closing)
    then show "outcome (run_condition p (frames_of c (f # S)) v) p f S e rest"
    proof (cases rule: outcome_cases)
      case fails
      then show ?thesis unfolding r by (intro outcome_fails) (simp_all add: k_def)
    next
      case (value_of h c2 v2)
      have h: "closes (minimum_precedence h) ('')'' @ rest)"
        using follows_closes [OF follows_closing, of "'')'' @ rest" 0 "minimum_precedence h"] value_of(3)
        by (simp add: same_frame_def k_def)
      have "run_condition p (frames_of c (f # S)) v = run_condition (p\<lparr>cursor := rest\<rparr>)
          (frames_of c2 (g\<lparr>frame_left := frame_left h, frame_state := FRAME_OPERATOR\<rparr> # S)) (frame_left h)"
        unfolding r value_of(1)
        using return_paren [of "p\<lparr>cursor := '')'' @ rest\<rparr>" h g rest S c2 v2] h roomy value_of(2)
        by (simp add: g_def)
      then show ?thesis
        by (rule outcome_value) (use value_of(4) in \<open>simp_all add: g_def same_frame_def k_def\<close>)
    qed
  qed
qed

section \<open>One lemma per kind of expression\<close>

lemma follows_closes_unary: "follows m s \<Longrightarrow> closes 12 s"
  using operator_precedence_bounds peek_operator_nonempty(1) by (fastforce simp: follows_def closes_def)

lemma unary_outcome:
  assumes "operation \<in> unary_operators" "value_ok w" "condition_unary p operation w ev at = (l, q)"
  obtains (undefined) "ev" "unary_meaning operation w = None" "failed q"
  | (defined) "q = p" "value_ok l" "is_unsigned l = (operation \<noteq> CONDITION_LOGICAL_NOT \<and> is_unsigned w)"
      "ev \<Longrightarrow> unary_meaning operation w = Some l"
proof (cases ev)
  case False
  then show thesis using unary_silent [OF assms(1,2), of p at] assms(3) defined by force
next
  case True
  then have "agrees p at (unary_meaning operation w) (l, q)"
    using condition_unary_agrees [OF assms(1,2), of p at] assms(3) by simp
  with True show thesis
    using undefined defined unary_meaning_type [OF _ assms(2)]
    by (cases "unary_meaning operation w") (force simp: agrees_def)+
qed

lemma binary_outcome:
  assumes "operation \<in> binary_operators" "value_ok w" "value_ok r" "condition_binary p operation w r ev at = (l, q)"
  obtains (undefined) "ev" "binary_meaning operation w r = None" "failed q"
  | (defined) "q = p" "value_ok l" "is_unsigned l = binary_type operation (is_unsigned w) (is_unsigned r)"
      "ev \<Longrightarrow> binary_meaning operation w r = Some l"
proof (cases ev)
  case False
  then show thesis using binary_silent [OF assms(1,2), of p r at] assms(4) defined by force
next
  case True
  then have "agrees p at (binary_meaning operation w r) (l, q)"
    using condition_binary_agrees [OF assms(1-3), of p at] assms(4) by simp
  with True show thesis
    using undefined defined binary_meaning_type [OF _ assms(1)]
    by (cases "binary_meaning operation w r") (force simp: agrees_def)+
qed

lemma reads_operand: "operand_ok x \<Longrightarrow> machine_reads body nesting_body m (Operand x)"
proof (rule machine_readsI)
  fix p c v S rest and f :: condition_frame
  assume x: "operand_ok x" and roomy: "roomy p" and f: "frame_state f = FRAME_OPERAND"
    and cur: "cursor p = body (Operand x) @ rest" and follow: "follows m rest"
  have cur': "cursor p = operand_string x @ rest" using cur by simp
  have r: "ends_word rest" using follow by (simp add: follows_def)
  show "outcome (run_condition p (frames_of c (f # S)) v) p f S (Operand x) rest"
    by (rule outcome_value [OF run_operand [OF roomy x cur' r f]])
      (use operand_value_ok [OF x] operand_type [of "if frame_evaluate f then macro_defined p else (\<lambda>_. False)" x]
       in \<open>auto simp: same_frame_def result_ok_def\<close>)
qed

lemma reads_unary:
  assumes "operation \<in> unary_operators" "machine_reads (written 12) (nesting 12) 12 e" "m \<le> 12"
  shows "machine_reads body nesting_body m (Unary operation e)"
proof (rule machine_readsI)
  fix p c v S rest and f :: condition_frame
  assume roomy: "roomy p" and f: "frame_state f = FRAME_OPERAND"
    and cur: "cursor p = body (Unary operation e) @ rest" and follow: "follows m rest"
    and depth: "frame_depth f + nesting_body (Unary operation e) \<le> nesting_limit p"
    and ok: "stack_ok (nesting_limit p) (f # S)"
  define t where "t = written 12 e @ rest"
  define g where "g = f\<lparr>frame_operation := operation, operation_at := cursor p, frame_state := FRAME_UNARY\<rparr>"
  define k where "k = new_frame 12 (frame_evaluate f) (frame_depth f + 1)"
  have cur': "cursor p = operator_spelling operation @ t" using cur by (simp add: t_def)
  have d: "frame_depth f + 1 + nesting 12 e \<le> nesting_limit p" using depth by simp
  obtain c' where r: "run_condition p (frames_of c (f # S)) v =
      run_condition (p\<lparr>cursor := t\<rparr>) (frames_of c' (k # g # S)) v"
    unfolding k_def g_def using run_unary [OF roomy cur' assms(1) f ok, of c v] d by auto
  have "stack_ok (nesting_limit p) (g # S)" using stack_ok_update [OF ok] by (simp add: g_def)
  then have kok: "stack_ok (nesting_limit p) (k # g # S)"
    unfolding k_def using d by (intro stack_ok_push) (auto simp: g_def)
  have "outcome (run_condition (p\<lparr>cursor := t\<rparr>) (frames_of c' (k # g # S)) v) (p\<lparr>cursor := t\<rparr>) k (g # S) e rest"
    using kok d roomy follows_mono [OF follow assms(3)]
    by (intro machine_readsD [OF assms(2)]) (simp_all add: k_def t_def del: nesting.simps written.simps)
  then show "outcome (run_condition p (frames_of c (f # S)) v) p f S (Unary operation e) rest"
  proof (cases rule: outcome_cases)
    case fails
    then show ?thesis unfolding r by (intro outcome_fails) (simp_all add: k_def)
  next
    case (value_of h c2 v2)
    have h: "closes (minimum_precedence h) rest"
      using follows_closes_unary [OF follow] value_of(3) by (simp add: same_frame_def k_def)
    have w: "value_ok (frame_left h)" using value_of(4) by (simp add: result_ok_def)
    obtain l q where u: "condition_unary (p\<lparr>cursor := rest\<rparr>) operation (frame_left h) (frame_evaluate f) (operation_at g) = (l, q)"
      by fastforce
    have s: "run_condition p (frames_of c (f # S)) v =
        run_condition q (frames_of c2 (g\<lparr>frame_left := l, frame_state := FRAME_OPERATOR\<rparr> # S)) (frame_left h)"
      unfolding r value_of(1)
      using return_unary [of "p\<lparr>cursor := rest\<rparr>" h g l q S c2 v2] h roomy value_of(2) u
      by (simp add: g_def)
    show ?thesis
    proof (cases rule: unary_outcome [OF assms(1) w u])
      case 1
      then show ?thesis using value_of(4) unfolding s
        by (intro outcome_fails) (auto simp: result_ok_def k_def)
    next
      case 2
      then show ?thesis using value_of(4) s
        by (intro outcome_value [OF s [unfolded 2(1)]]) (auto simp: result_ok_def k_def g_def same_frame_def)
    qed
  qed
qed

lemma short_circuit:
  assumes "binary_meaning operation l r = w" "operation \<in> binary_operators"
  shows "operation = CONDITION_LOGICAL_AND \<Longrightarrow> denote l = 0 \<Longrightarrow> w = Some (signed_integer 0)"
    and "operation = CONDITION_LOGICAL_OR \<Longrightarrow> denote l \<noteq> 0 \<Longrightarrow> w = Some (signed_integer 1)"
  using assms by (auto simp: binary_meaning_def)

lemma unsigned_type_binary:
  "unsigned_type (Binary operation a b) = binary_type operation (unsigned_type a) (unsigned_type b)"
  by (simp add: binary_type_def)

text \<open>Whether the right operand is evaluated.\<close>

definition evaluates_right :: "condition_operator \<Rightarrow> bool \<Rightarrow> integer_value \<Rightarrow> bool" where
  "evaluates_right operation ev l =
     (if operation = CONDITION_LOGICAL_AND then ev \<and> integer_true l
      else if operation = CONDITION_LOGICAL_OR then ev \<and> \<not> integer_true l else ev)"

lemma binary_meaning_value:
  assumes "operation \<in> binary_operators" "meaning defs a = Some l"
    and "evaluates_right operation True l \<Longrightarrow> meaning defs b = Some r"
  shows "meaning defs (Binary operation a b) = binary_meaning operation l r"
  using assms(2,3) short_circuit [OF refl assms(1), of l r]
  by (auto simp: evaluates_right_def integer_true_denote)

lemma binary_meaning_undefined:
  "evaluates_right operation True l \<Longrightarrow> meaning defs a = Some l \<Longrightarrow> meaning defs b = None \<Longrightarrow>
    meaning defs (Binary operation a b) = None"
  by (auto simp: evaluates_right_def integer_true_denote split: if_splits)

lemma evaluates_right_cases: "evaluates_right operation ev l \<longleftrightarrow> ev \<and> evaluates_right operation True l"
  by (simp add: evaluates_right_def)

lemma reads_binary:
  assumes "operation \<in> binary_operators" "condition_ok b" "m \<le> operator_level operation"
    and "machine_reads (written (operator_level operation)) (nesting (operator_level operation)) (operator_level operation) a"
    and "machine_reads (written (operator_level operation + 1)) (nesting (operator_level operation + 1)) (operator_level operation + 1) b"
  shows "machine_reads body nesting_body m (Binary operation a b)"
proof (rule machine_readsI)
  define L where "L = operator_level operation"
  fix p c v S rest and f :: condition_frame
  assume roomy: "roomy p" and f: "frame_state f = FRAME_OPERAND" and min: "minimum_precedence f \<le> m"
    and cur: "cursor p = body (Binary operation a b) @ rest" and follow: "follows m rest"
    and depth: "frame_depth f + nesting_body (Binary operation a b) \<le> nesting_limit p"
    and ok: "stack_ok (nesting_limit p) (f # S)"
  define t where "t = written (L + 1) b @ rest"
  have starts: "starts_operand t" unfolding t_def by (rule written_starts(2) [OF assms(2)])
  have d: "frame_depth f + nesting L a \<le> nesting_limit p" "frame_depth f + nesting (L + 1) b \<le> nesting_limit p"
    using depth by (simp_all add: L_def)
  have "outcome (run_condition p (frames_of c (f # S)) v) p f S a (operator_spelling operation @ t)"
    by (rule machine_readsD [OF assms(4) [folded L_def] roomy f _ _ follows_operator [OF assms(1) starts] d(1) ok])
      (use min assms(3) cur in \<open>simp_all add: L_def t_def del: written.simps\<close>)
  then show "outcome (run_condition p (frames_of c (f # S)) v) p f S (Binary operation a b) rest"
  proof (cases rule: outcome_cases)
    case fails
    then show ?thesis by (intro outcome_fails) simp_all
  next
    case left: (value_of h c2 v2)
    define q where "q = p\<lparr>cursor := operator_spelling operation @ t\<rparr>"
    define ev where "ev = evaluates_right operation (frame_evaluate f) (frame_left h)"
    define g where "g = h\<lparr>frame_operation := operation, operation_at := cursor q, frame_state := FRAME_BINARY\<rparr>"
    define k where "k = new_frame (L + 1) ev (frame_depth f)"
    have same: "minimum_precedence h = minimum_precedence f" "frame_depth h = frame_depth f"
      "frame_evaluate h = frame_evaluate f"
      using left(3) by (simp_all add: same_frame_def)
    have hok: "stack_ok (nesting_limit p) (h # S)" using stack_ok_update [OF ok] same by simp
    then have gok: "stack_ok (nesting_limit p) (g # S)" using stack_ok_update [OF hok] by (simp add: g_def)
    have kok: "stack_ok (nesting_limit p) (k # g # S)"
      unfolding k_def using min assms(1,3) operator_level_bounds [OF assms(1)] same
      by (intro stack_ok_push [OF gok]) (auto simp: g_def L_def)
    have q: "roomy q" "cursor q = operator_spelling operation @ t" "stack_ok (nesting_limit q) (h # S)"
      "minimum_precedence h \<le> operator_level operation" "q\<lparr>cursor := t\<rparr> = p\<lparr>cursor := t\<rparr>"
      using roomy min assms(3) same hok by (simp_all add: q_def)
    have k: "new_frame (operator_level operation + 1)
        (if operation = CONDITION_LOGICAL_AND then frame_evaluate h \<and> integer_true (frame_left h)
         else if operation = CONDITION_LOGICAL_OR then frame_evaluate h \<and> \<not> integer_true (frame_left h)
         else frame_evaluate h) (frame_depth h) = k"
      by (simp add: k_def L_def ev_def evaluates_right_def same)
    obtain c3 where r: "run_condition q (frames_of c2 (h # S)) v2 =
        run_condition (p\<lparr>cursor := t\<rparr>) (frames_of c3 (k # g # S)) v2"
      using run_binary [OF q(1,2) assms(1) starts left(2) q(3,4), of c2 v2] unfolding k q(5) g_def by blast
    have "outcome (run_condition (p\<lparr>cursor := t\<rparr>) (frames_of c3 (k # g # S)) v2) (p\<lparr>cursor := t\<rparr>) k (g # S) b rest"
    proof (rule machine_readsD [OF assms(5) [folded L_def]])
      show "follows (L + 1) rest" using assms(3) by (intro follows_mono [OF follow]) (simp add: L_def)
      show "frame_depth k + nesting (L + 1) b \<le> nesting_limit (p\<lparr>cursor := t\<rparr>)"
        using d(2) unfolding k_def new_frame_simps nesting_limit_cursor .
    qed (use kok roomy in \<open>simp_all add: k_def t_def del: nesting.simps written.simps\<close>)
    then show ?thesis
    proof (cases rule: outcome_cases)
      case fails
      then have "frame_evaluate f" "evaluates_right operation True (frame_left h)"
        using evaluates_right_cases [of operation "frame_evaluate f" "frame_left h"]
        unfolding k_def ev_def new_frame_simps by blast+
      with fails left(4) show ?thesis
        unfolding left(1) q_def [symmetric] r
        by (intro outcome_fails binary_meaning_undefined) (auto simp: result_ok_def)
    next
      case right: (value_of j c4 v4)
      have j: "closes (minimum_precedence j) rest"
        using follows_closes [OF follow] assms(3) right(3) by (simp add: same_frame_def k_def L_def)
      obtain l o' where u: "condition_binary (p\<lparr>cursor := rest\<rparr>) operation (frame_left h) (frame_left j)
          (frame_evaluate f) (operation_at g) = (l, o')" by fastforce
      have s: "run_condition p (frames_of c (f # S)) v =
          run_condition o' (frames_of c4 (g\<lparr>frame_left := l, frame_state := FRAME_OPERATOR\<rparr> # S)) (frame_left j)"
        unfolding left(1) q_def [symmetric] r right(1)
        using return_binary [of "p\<lparr>cursor := rest\<rparr>" j g l o' S c4 v4] j roomy right(2) u same
        by (simp add: g_def)
      have w: "value_ok (frame_left h)" "value_ok (frame_left j)"
        using left(4) right(4) by (simp_all add: result_ok_def)
      have evaluated: "frame_evaluate f \<Longrightarrow> meaning (macro_defined p) (Binary operation a b) =
          binary_meaning operation (frame_left h) (frame_left j)"
        using left(4) right(4) by (intro binary_meaning_value [OF assms(1)]) (auto simp: result_ok_def k_def ev_def)
      show ?thesis
      proof (cases rule: binary_outcome [OF assms(1) w u])
        case 1
        then show ?thesis using evaluated unfolding s by (intro outcome_fails) simp_all
      next
        case 2
        have "is_unsigned l = unsigned_type (Binary operation a b)"
          using left(4) right(4) 2(3) unfolding unsigned_type_binary by (simp add: result_ok_def)
        then show ?thesis using 2 evaluated same
          by (intro outcome_value [OF s [unfolded 2(1)]])
            (simp_all add: result_ok_def g_def same_frame_def del: meaning.simps unsigned_type.simps)
      qed
    qed
  qed
qed

lemma select_branch_value:
  assumes "value_ok (frame_when_true g)" "value_ok v"
  shows "value_ok (select_branch g v)"
    and "is_unsigned (select_branch g v) \<longleftrightarrow> is_unsigned (frame_when_true g) \<or> is_unsigned v"
    and "frame_evaluate g \<Longrightarrow> select_branch g v =
      convert (is_unsigned (frame_when_true g) \<or> is_unsigned v) (if frame_selected g then frame_when_true g else v)"
  using assms by (auto simp: select_branch_def Let_def convert_def)

lemma reads_conditional:
  assumes "machine_reads (written 2) (nesting 2) 2 c" "machine_reads (written 1) (nesting 1) 1 a"
    and "machine_reads (written 1) (nesting 1) 1 b" "m \<le> 1"
  shows "machine_reads body nesting_body m (Conditional c a b)"
proof (rule machine_readsI)
  fix p n v S rest and f :: condition_frame
  assume roomy: "roomy p" and f: "frame_state f = FRAME_OPERAND" and min: "minimum_precedence f \<le> m"
    and cur: "cursor p = body (Conditional c a b) @ rest" and follow: "follows m rest"
    and depth: "frame_depth f + nesting_body (Conditional c a b) \<le> nesting_limit p"
    and ok: "stack_ok (nesting_limit p) (f # S)"
  note [simp del] = nesting.simps written.simps
  define t2 where "t2 = written 1 b @ rest"
  define t1 where "t1 = written 1 a @ CHR '':'' # t2"
  have d: "frame_depth f + nesting 2 c \<le> nesting_limit p" "frame_depth f + 1 + nesting 1 a \<le> nesting_limit p"
    "frame_depth f + 1 + nesting 1 b \<le> nesting_limit p"
    using depth by simp_all
  have rest: "follows 1 rest" by (rule follows_mono [OF follow assms(4)])
  have question: "follows 2 (CHR ''?'' # t1)" using follows_question [of 2 t1] by simp
  have colon: "follows 1 (CHR '':'' # t2)" by (rule follows_closing) simp
  let ?result = "outcome (run_condition p (frames_of n (f # S)) v) p f S (Conditional c a b) rest"
  have "outcome (run_condition p (frames_of n (f # S)) v) p f S c (CHR ''?'' # t1)"
    by (rule machine_readsD [OF assms(1) roomy f _ _ question d(1) ok])
      (use min assms(4) cur in \<open>simp_all add: t1_def t2_def\<close>)
  then show ?result
  proof (cases rule: outcome_cases)
    case fails
    then show ?thesis by (intro outcome_fails) simp_all
  next
    case cond: (value_of h n2 v2)
    let ?true = "integer_true (frame_left h)"
    define g where "g = h\<lparr>frame_selected := ?true, frame_state := FRAME_TRUE_BRANCH\<rparr>"
    define k where "k = new_frame 1 (frame_evaluate f \<and> ?true) (frame_depth f + 1)"
    have same: "minimum_precedence h = minimum_precedence f" "frame_depth h = frame_depth f"
      "frame_evaluate h = frame_evaluate f"
      using cond(3) by (simp_all add: same_frame_def)
    have hok: "stack_ok (nesting_limit p) (h # S)" using stack_ok_update [OF ok] same by simp
    then have gok: "stack_ok (nesting_limit p) (g # S)" using stack_ok_update [OF hok] by (simp add: g_def)
    have nested: "stack_ok (nesting_limit p) (new_frame 1 ev (frame_depth f + 1) # g' # S)"
      if "stack_ok (nesting_limit p) (g' # S)" "frame_depth g' = frame_depth f" for g' ev
      using d(2) that(2) by (intro stack_ok_push [OF that(1)]) auto
    have meaning_c: "meaning (macro_defined p) c = Some (frame_left h)" if "frame_evaluate f"
      using cond(4) that by (simp add: result_ok_def)
    define q where "q = p\<lparr>cursor := CHR ''?'' # t1\<rparr>"
    have q: "roomy q" "cursor q = CHR ''?'' # t1" "minimum_precedence h \<le> 1" "stack_ok (nesting_limit q) (h # S)"
      "frame_depth h < nesting_limit q" "q\<lparr>cursor := t1\<rparr> = p\<lparr>cursor := t1\<rparr>"
      using roomy min assms(4) same d(2) hok by (simp_all add: q_def)
    have k: "new_frame 1 (frame_evaluate h \<and> ?true) (frame_depth h + 1) = k" by (simp add: k_def same)
    obtain n3 where r: "run_condition p (frames_of n (f # S)) v =
        run_condition (p\<lparr>cursor := t1\<rparr>) (frames_of n3 (k # g # S)) v2"
      using run_question [OF q(1,2) cond(2) q(3-5), of n2 v2]
      unfolding cond(1) q_def [symmetric] q(6) k g_def by blast
    have "outcome (run_condition (p\<lparr>cursor := t1\<rparr>) (frames_of n3 (k # g # S)) v2) (p\<lparr>cursor := t1\<rparr>) k (g # S) a (CHR '':'' # t2)"
      by (rule machine_readsD [OF assms(2) _ _ _ _ colon])
        (use roomy nested [OF gok] d(2) same in \<open>simp_all add: k_def g_def t1_def\<close>)
    then show ?thesis
    proof (cases rule: outcome_cases)
      case fails
      with meaning_c show ?thesis unfolding r
        by (intro outcome_fails) (simp_all add: k_def integer_true_denote)
    next
      case yes: (value_of j n4 v4)
      define g2 where "g2 = g\<lparr>frame_when_true := frame_left j, frame_state := FRAME_FALSE_BRANCH\<rparr>"
      define k2 where "k2 = new_frame 1 (frame_evaluate f \<and> \<not> ?true) (frame_depth f + 1)"
      have j: "closes (minimum_precedence j) (CHR '':'' # t2)"
        using follows_one_closes [OF colon] yes(3) by (simp add: same_frame_def k_def)
      have j': "roomy (p\<lparr>cursor := CHR '':'' # t2\<rparr>)" "frame_state g = FRAME_TRUE_BRANCH" "frame_depth g < nesting_limit p"
        using roomy q(5) by (simp_all add: g_def q_def)
      have g: "frame_evaluate g = frame_evaluate f" "frame_selected g = ?true" "frame_depth g = frame_depth f"
        using same by (simp_all add: g_def)
      obtain n5 where r2: "run_condition p (frames_of n (f # S)) v =
          run_condition (p\<lparr>cursor := t2\<rparr>) (frames_of n5 (k2 # g2 # S)) (frame_left j)"
        unfolding r yes(1) k2_def g2_def
        using return_true_branch [of "p\<lparr>cursor := CHR '':'' # t2\<rparr>" j g t2 S n4 v4, unfolded g] j j' gok yes(2) g
        by auto
      have g2ok: "stack_ok (nesting_limit p) (g2 # S)" using stack_ok_update [OF gok] by (simp add: g2_def)
      have "outcome (run_condition (p\<lparr>cursor := t2\<rparr>) (frames_of n5 (k2 # g2 # S)) (frame_left j)) (p\<lparr>cursor := t2\<rparr>)
          k2 (g2 # S) b rest"
        by (rule machine_readsD [OF assms(3) _ _ _ _ rest])
          (use roomy nested [OF g2ok] d(3) same in \<open>simp_all add: k2_def g2_def g_def t2_def\<close>)
      then show ?thesis
      proof (cases rule: outcome_cases)
        case fails
        with meaning_c show ?thesis unfolding r2
          by (intro outcome_fails) (simp_all add: k2_def integer_true_denote)
      next
        case no: (value_of i n6 v6)
        have i: "closes (minimum_precedence i) rest"
          using follows_one_closes [OF rest] no(3) by (simp add: same_frame_def k2_def)
        have s: "run_condition p (frames_of n (f # S)) v = run_condition (p\<lparr>cursor := rest\<rparr>)
            (frames_of n6 (g2\<lparr>frame_left := select_branch g2 (frame_left i), frame_state := FRAME_OPERATOR\<rparr> # S)) (frame_left i)"
          unfolding r2 no(1)
          using return_false_branch [of "p\<lparr>cursor := rest\<rparr>" i g2 S n6 v6] i roomy no(2) by (simp add: g2_def)
        have w: "value_ok (frame_when_true g2)" "value_ok (frame_left i)" "is_unsigned (frame_when_true g2) = unsigned_type a"
          "is_unsigned (frame_left i) = unsigned_type b"
          using yes(4) no(4) by (simp_all add: result_ok_def g2_def)
        note selected = select_branch_value [OF w(1,2), unfolded w(3,4)]
        have "meaning (macro_defined p) (Conditional c a b) = Some (select_branch g2 (frame_left i))" if "frame_evaluate f"
          using selected(3) meaning_c [OF that] that yes(4) no(4) g
          by (simp add: g2_def result_ok_def k_def k2_def integer_true_denote)
        then show ?thesis
          using selected(1,2) same
          by (intro outcome_value [OF s]) (simp_all add: g2_def g_def same_frame_def result_ok_def del: meaning.simps)
      qed
    qed
  qed
qed

theorem machine_reads_all:
  "condition_ok e \<Longrightarrow> m \<le> level e \<Longrightarrow> machine_reads body nesting_body m e"
proof (induction e arbitrary: m)
  case (Operand x)
  then show ?case using reads_operand by simp
next
  case (Unary operation e)
  then show ?case by (intro reads_unary reads_written) simp_all
next
  case (Binary operation a b)
  then show ?case by (intro reads_binary reads_written) simp_all
next
  case (Conditional c a b)
  then show ?case by (intro reads_conditional reads_written) simp_all
qed

section \<open>The evaluator\<close>

definition start_parser :: "preprocessor \<Rightarrow> cptr \<Rightarrow> nat \<Rightarrow> nat \<Rightarrow> expression_parser" where
  "start_parser p s ln column = \<lparr>parser_preprocessor = p, parser_text = s, cursor = s,
     parser_line = ln, parser_column = column, failed = False\<rparr>"

lemma parse_condition_start:
  "parse_condition p ev = run_condition p (frames_of 16 [new_frame 1 ev 0]) (signed_integer 0)"
  by (simp add: parse_condition_def push_frame_def Let_def)

lemma parse_condition_outcome:
  assumes "condition_ok e" "roomy p" "nesting_body e \<le> nesting_limit p" "cursor p = body e"
  obtains (undefined) "ev" "meaning (macro_defined p) e = None" "failed (snd (parse_condition p ev))"
  | (defined) w where "parse_condition p ev = (w, p\<lparr>cursor := []\<rparr>)" "result_ok ev p e w"
proof -
  have frame: "stack_ok (nesting_limit p) [new_frame 1 ev 0]"
    by (simp add: stack_ok_def frame_ok_def)
  have f: "follows 1 []" by (rule follows_closing) simp
  have "outcome (parse_condition p ev) p (new_frame 1 ev 0) [] e []"
    unfolding parse_condition_start
    by (rule machine_readsD [OF machine_reads_all [OF assms(1) level_positive] assms(2) _ _ _ f _ frame])
      (use assms(3,4) in simp_all)
  then show thesis
  proof (cases rule: outcome_cases)
    case fails
    then show thesis by (intro undefined) simp_all
  next
    case (value_of g c v)
    have "closes (minimum_precedence g) (cursor (p\<lparr>cursor := []\<rparr>))"
      using follows_one_closes [OF f] value_of(3) by (simp add: same_frame_def)
    then have "parse_condition p ev = (frame_left g, p\<lparr>cursor := []\<rparr>)"
      unfolding value_of(1) using run_return(2) [of "p\<lparr>cursor := []\<rparr>" g c v] assms(2) value_of(2) by simp
    then show thesis using value_of(4) by (intro defined) simp_all
  qed
qed

text \<open>
  The evaluator decides every well-formed \<open>#if\<close> expression as C defines it. Evaluating the
  written form of an expression whose nesting is within the limit gives whether its meaning is not
  zero and leaves the preprocessor unchanged; it returns no condition where the meaning is
  undefined (a division by zero, a signed overflow, a bad shift count in an operand that is
  evaluated); and with evaluation off the condition is false and nothing is reported, whatever the
  expression.
\<close>
theorem condition_decides:
  assumes "condition_ok e" "\<forall>n. memory p n" "max_parse_depth (limits p) \<le> 2 ^ 50"
    and "nesting_body e \<le> max_parse_depth (limits p)"
  shows "(case meaning (\<lambda>n. find_macro p n \<noteq> None) e of
      Some v \<Rightarrow> evaluate_expanded p (body e) ln column True = (p, Some (denote v \<noteq> 0))
    | None \<Rightarrow> snd (evaluate_expanded p (body e) ln column True) = None) \<and>
    evaluate_expanded p (body e) ln column False = (p, Some False)"
proof -
  define q where "q = start_parser p (body e) ln column"
  have q: "roomy q" "nesting_body e \<le> nesting_limit q" "cursor q = body e" "\<not> failed q"
    "parser_preprocessor q = p"
    using assms(2-4) by (simp_all add: q_def start_parser_def roomy_def nesting_limit_def)
  have m: "macro_defined q = (\<lambda>n. find_macro p n \<noteq> None)"
    by (simp add: macro_defined_def fun_eq_iff q(5))
  have run: "evaluate_expanded p (body e) ln column ev = (p, Some (ev \<and> integer_true w))"
    if "parse_condition q ev = (w, q\<lparr>cursor := []\<rparr>)" for ev w
    unfolding evaluate_expanded_def start_parser_def [symmetric] q_def [symmetric] Let_def that prod.case
    using q by (simp add: expression_space_def)
  have failing: "snd (evaluate_expanded p (body e) ln column ev) = None"
    if "failed (snd (parse_condition q ev))" for ev
  proof -
    obtain w r where r: "parse_condition q ev = (w, r)" by fastforce
    show ?thesis
      unfolding evaluate_expanded_def start_parser_def [symmetric] q_def [symmetric] Let_def r prod.case
      using that r by (simp add: expression_space_def)
  qed
  have "evaluate_expanded p (body e) ln column False = (p, Some False)"
    by (rule parse_condition_outcome [OF assms(1) q(1-3), of False]) (simp_all add: run)
  moreover have "case meaning (macro_defined q) e of
      Some v \<Rightarrow> evaluate_expanded p (body e) ln column True = (p, Some (denote v \<noteq> 0))
    | None \<Rightarrow> snd (evaluate_expanded p (body e) ln column True) = None"
    by (rule parse_condition_outcome [OF assms(1) q(1-3), of True])
      (simp_all add: run failing result_ok_def integer_true_denote)
  ultimately show ?thesis unfolding m by (rule conjI [rotated])
qed

text \<open>\<open>1+2*3==7&&!defined(N)?(1?2:3)<<4:1/0\<close>, whose last branch is undefined.\<close>

definition sample_condition :: condition where
  "sample_condition =
     (let k = (\<lambda>d. Operand (Integer_Constant [] 10 [d] [] False))
      in Conditional
        (Binary CONDITION_LOGICAL_AND
          (Binary CONDITION_EQUAL
            (Binary CONDITION_ADD (k CHR ''1'') (Binary CONDITION_MULTIPLY (k CHR ''2'') (k CHR ''3''))) (k CHR ''7''))
          (Unary CONDITION_LOGICAL_NOT (Operand (Defined_Name ''N''))))
        (Binary CONDITION_LEFT_SHIFT (Conditional (k CHR ''1'') (k CHR ''2'') (k CHR ''3'')) (k CHR ''4''))
        (Binary CONDITION_DIVIDE (k CHR ''1'') (Operand (Integer_Constant ''0'' 8 [] [] False))))"

theorem condition_decides_witness:
  "body sample_condition = ''1+2*3==7&&!defined(N)?(1?2:3)<<4:1/0'' \<and>
   evaluate_expanded sample_preprocessor (body sample_condition) 1 5 True = (sample_preprocessor, Some True) \<and>
   evaluate_expanded (sample_preprocessor\<lparr>macros := [sample_macro ''N'' []], macro_capacity := 8\<rparr>)
     (body sample_condition) 1 5 False = (sample_preprocessor\<lparr>macros := [sample_macro ''N'' []], macro_capacity := 8\<rparr>, Some False) \<and>
   snd (evaluate_expanded (sample_preprocessor\<lparr>macros := [sample_macro ''N'' []], macro_capacity := 8\<rparr>)
     (body sample_condition) 1 5 True) = None"
proof -
  let ?p = "sample_preprocessor\<lparr>macros := [sample_macro ''N'' []], macro_capacity := 8\<rparr>"
  have ok: "condition_ok sample_condition" "nesting_body sample_condition \<le> 512"
    by (simp_all add: sample_condition_def Let_def integer_prefixes_def integer_suffixes_def literal_digits_ok_def
        valid_digits_def digit_value_def radix_value_def unary_operators_def binary_operators_def relational_def is_name_def
        identifier_start_def identifier_continue_def char_class)
  have "body sample_condition = ''1+2*3==7&&!defined(N)?(1?2:3)<<4:1/0''"
    by (simp add: sample_condition_def Let_def)
  moreover have "meaning (\<lambda>n. find_macro sample_preprocessor n \<noteq> None) sample_condition = Some (signed_integer 32)"
    "meaning (\<lambda>n. find_macro ?p n \<noteq> None) sample_condition = None"
    by (simp_all add: sample_condition_def Let_def constant_value_def radix_value_def digit_value_def
      sample_evaluation binary_meaning_def unary_meaning_def relational_def fit_def in_i64_def denote_def operand_def convert_def)
  ultimately show ?thesis
    using condition_decides [OF ok(1), of sample_preprocessor 1 5] condition_decides [OF ok(1), of ?p 1 5] ok(2)
    by (simp add: sample_preprocessor_def)
qed

end
