(* ===== verification/Cond_Text.thy ===== *)
theory Cond_Text
  imports Cond_Expansion Cond_Correct
begin

text \<open>
  The condition of a directive, from its text to its value: the expansion of macros followed by the
  evaluation, for the texts whose words are not macros.
\<close>

text \<open>
  C9: The code decides the condition of a directive as C defines it. For the written form of a
  well-formed expression that uses no macro as a value and is within the limits, the evaluation of
  the text gives whether its meaning is not zero, where \<open>defined\<close> asks the macro table, and leaves
  the preprocessor unchanged; it gives no condition where the meaning is undefined (a division by
  zero, a signed overflow, a bad shift count in an operand that is evaluated); and with evaluation
  off the condition is false and nothing is reported, whatever the expression.
\<close>
theorem condition_text_decides:
  assumes "condition_ok e" "\<forall>n. memory p n" "max_parse_depth (limits p) \<le> 2 ^ 50"
    and "nesting_body e \<le> max_parse_depth (limits p)"
    and "\<forall>w \<in> set (condition_words False (body e)). find_macro p w = None"
    and "length (body e) \<le> max_preprocessed_bytes (limits p)" "length (body e) < SIZE_MAX"
  shows "(case meaning (\<lambda>n. find_macro p n \<noteq> None) e of
      Some v \<Rightarrow> evaluate_condition p (body e) ln column True = (p, Some (denote v \<noteq> 0))
    | None \<Rightarrow> snd (evaluate_condition p (body e) ln column True) = None) \<and>
    evaluate_condition p (body e) ln column False = (p, Some False)"
proof -
  have plain: "evaluate_condition p (body e) ln column ev = evaluate_expanded p (body e) ln column ev" for ev
    using assms(2,5-7) by (intro evaluate_condition_plain) simp_all
  show ?thesis unfolding plain by (rule condition_decides [OF assms(1-4)])
qed

text \<open>The sample expression asks for the macro \<open>N\<close> and its last branch is undefined.\<close>

theorem condition_text_decides_witness:
  "body sample_condition = ''1+2*3==7&&!defined(N)?(1?2:3)<<4:1/0'' \<and>
   evaluate_condition sample_preprocessor (body sample_condition) 1 5 True = (sample_preprocessor, Some True) \<and>
   evaluate_condition (sample_preprocessor\<lparr>macros := [sample_macro ''N'' []], macro_capacity := 8\<rparr>)
     (body sample_condition) 1 5 False = (sample_preprocessor\<lparr>macros := [sample_macro ''N'' []], macro_capacity := 8\<rparr>, Some False) \<and>
   snd (evaluate_condition (sample_preprocessor\<lparr>macros := [sample_macro ''N'' []], macro_capacity := 8\<rparr>)
     (body sample_condition) 1 5 True) = None"
proof -
  let ?p = "sample_preprocessor\<lparr>macros := [sample_macro ''N'' []], macro_capacity := 8\<rparr>"
  have ok: "condition_ok sample_condition" "nesting_body sample_condition \<le> 512"
    by (simp_all add: sample_condition_def Let_def integer_prefixes_def integer_suffixes_def literal_digits_ok_def
        valid_digits_def digit_value_def radix_value_def unary_operators_def binary_operators_def relational_def is_name_def
        identifier_start_def identifier_continue_def char_class)
  have written: "body sample_condition = ''1+2*3==7&&!defined(N)?(1?2:3)<<4:1/0''"
    by (simp add: sample_condition_def Let_def)
  have words: "condition_words False (body sample_condition) = []"
    unfolding written
    by (simp add: is_quote_def identifier_start_def identifier_continue_def word_text_def word_end_def char_class)
  have "meaning (\<lambda>n. find_macro sample_preprocessor n \<noteq> None) sample_condition = Some (signed_integer 32)"
    "meaning (\<lambda>n. find_macro ?p n \<noteq> None) sample_condition = None"
    by (simp_all add: sample_condition_def Let_def constant_value_def radix_value_def digit_value_def
      sample_evaluation binary_meaning_def unary_meaning_def relational_def fit_def in_i64_def denote_def operand_def convert_def)
  moreover have "denote (signed_integer 32) \<noteq> 0" by (simp add: denote_def signed_integer_def)
  moreover have "length (body sample_condition) \<le> 67108864" "length (body sample_condition) < SIZE_MAX"
    by (simp_all add: written)
  moreover have "\<forall>n. memory sample_preprocessor n" "\<forall>n. memory ?p n"
    "max_parse_depth (limits sample_preprocessor) = 512" "max_parse_depth (limits ?p) = 512"
    "max_preprocessed_bytes (limits sample_preprocessor) = 67108864" "max_preprocessed_bytes (limits ?p) = 67108864"
    by (simp_all add: sample_preprocessor_def)
  ultimately have "evaluate_condition sample_preprocessor (body sample_condition) 1 5 True = (sample_preprocessor, Some True)"
    "evaluate_condition ?p (body sample_condition) 1 5 False = (?p, Some False)"
    "snd (evaluate_condition ?p (body sample_condition) 1 5 True) = None"
    using condition_text_decides [OF ok(1), of sample_preprocessor 1 5] condition_text_decides [OF ok(1), of ?p 1 5]
      ok(2) words
    by (simp_all only: option.case) simp_all
  then show ?thesis using written by blast
qed

end
