(* ===== verification/Source_Expansion.thy ===== *)
theory Source_Expansion
  imports Cond_Expansion
begin

text \<open>
  Expansion of the macros in a source line (\<open>frontend/preprocessor/expansion.c\<close>) into the output text
  and its source map (\<open>f2c_preprocessor_append\<close> of \<open>frontend/preprocessor.c\<close>).

  \<^item> The output is the text buffer and the map that grow together. A function that fails yields the
    preprocessor with the report; the output is then discarded by the caller that owns it.
  \<^item> Literals, Hollerith constants and comments are copied; a literal or a Hollerith constant that is
    continued on the next line is remembered in the preprocessor, so that it is copied there too.
  \<^item> Every call of \<open>expand_text\<close> passes a null invocation, so that its branch for the arguments of an
    invocation is not part of the model: arguments are substituted before, by
    \<open>build_operator_replacement\<close>. For the same reason the positions of the arguments are not kept.
  \<^item> The name of the current source is not NULL, since \<open>initialize_preprocessor\<close> fails otherwise.
\<close>

section \<open>The output\<close>

type_synonym pp_output = "buffer \<times> source_map"

definition preprocessor_append ::
  "preprocessor \<Rightarrow> string \<Rightarrow> source_position \<Rightarrow> nat \<Rightarrow> nat \<Rightarrow> source_position \<Rightarrow> nat \<Rightarrow> nat \<Rightarrow> bool \<Rightarrow>
    pp_output \<Rightarrow> preprocessor + pp_output" where
  "preprocessor_append p s expanded_at expanded_width expanded_step spelled_at spelled_width spelled_step spelled out =
     (let consumed = preprocessed_bytes p; limit = max_preprocessed_bytes (limits p);
          begin_at = length (buffer_text (fst out)); ln = position_line expanded_at; col = position_column expanded_at
      in if limit < consumed \<or> limit - consumed < begin_at \<or> limit - consumed - begin_at < length s then
           Inl (diagnose_at p DIAGNOSTIC_RESOURCE_LIMIT ln col ''preprocessed source limit exceeded'')
         else
           let b = buffer_append (memory p) (fst out) s
           in if buffer_failed b then
                Inl (diagnose_at p DIAGNOSTIC_OUT_OF_MEMORY ln col ''out of memory while preprocessing source'')
              else case source_map_append (memory p) (snd out) begin_at (length s) expanded_at expanded_width
                     expanded_step spelled_at spelled_width spelled_step spelled of
                (False, _) \<Rightarrow>
                  Inl (diagnose_at p DIAGNOSTIC_OUT_OF_MEMORY ln col ''out of memory while mapping preprocessed source'')
              | (True, m) \<Rightarrow> Inr (b, m))"

text \<open>\<open>append_text\<close>; an \<open>ExpansionOrigin\<close> is a position and a width.\<close>

definition append_text ::
  "preprocessor \<Rightarrow> string \<Rightarrow> source_position \<Rightarrow> (source_position \<times> nat) option \<Rightarrow> pp_output \<Rightarrow>
    preprocessor + pp_output" where
  "append_text p s text_origin expanded out =
     (case expanded of
        None \<Rightarrow> preprocessor_append p s text_origin (length s) 1 text_origin (length s) 1 False out
      | Some (position, width) \<Rightarrow> preprocessor_append p s position width 0 text_origin (length s) 1 True out)"

section \<open>Hollerith constants and continued literals\<close>

fun hollerith_count :: "nat \<Rightarrow> cptr \<Rightarrow> (nat \<times> cptr) option" where
  "hollerith_count n [] = Some (n, [])"
| "hollerith_count n (c # s) =
     (if isdigit c
      then let digit = ascii c - 48
        in if (SIZE_MAX - digit) div 10 < n then None else hollerith_count (n * 10 + digit) s
      else Some (n, c # s))"

text \<open>
  \<open>hollerith_end\<close> at a digit: the text after the constant and the count of its characters that the
  text does not hold, or \<^const>\<open>None\<close> where there is no Hollerith constant.
\<close>

definition hollerith_end :: "cptr \<Rightarrow> (cptr \<times> nat) option" where
  "hollerith_end s =
     (case hollerith_count 0 s of
        None \<Rightarrow> None
      | Some (n, letter) \<Rightarrow>
          if letter = s \<or> (peek letter \<noteq> CHR ''h'' \<and> peek letter \<noteq> CHR ''H'') then None
          else let payload = drop 1 letter
            in if n \<le> length payload then Some (drop n payload, 0) else Some ([], n - length payload))"

lemma hollerith_count_length: "hollerith_count n s = Some (k, t) \<Longrightarrow> length t \<le> length s"
  by (induction n s rule: hollerith_count.induct) (auto simp: Let_def split: if_splits)

lemma hollerith_end_length: "hollerith_end s = Some (t, k) \<Longrightarrow> s \<noteq> [] \<Longrightarrow> length t < length s"
proof -
  assume e: "hollerith_end s = Some (t, k)"
  then obtain n letter where l: "hollerith_count 0 s = Some (n, letter)" "letter \<noteq> []"
      "t = drop n (drop 1 letter) \<or> t = []"
    by (fastforce simp: hollerith_end_def Let_def NUL_code split: option.splits if_splits elim: peek.elims)
  assume "s \<noteq> []"
  moreover have "length (drop n (drop 1 letter)) < length letter" using l(2) by (cases letter) auto
  ultimately show "length t < length s" using l(3) hollerith_count_length [OF l(1)] by auto
qed

definition trailing_ampersand :: "string \<Rightarrow> bool" where
  "trailing_ampersand s \<longleftrightarrow> peek (dropWhile isspace (rev s)) = CHR ''&''"

text \<open>The text after the constant at a digit, or after the digit.\<close>

definition digit_end :: "char \<Rightarrow> cptr \<Rightarrow> cptr" where
  "digit_end c s = (case hollerith_end (c # s) of Some (t, _) \<Rightarrow> t | None \<Rightarrow> s)"

lemma digit_end_length [simp]: "length (digit_end c s) \<le> length s"
  by (auto simp: digit_end_def split: option.splits dest: hollerith_end_length)

text \<open>\<open>continued_quote_in_line\<close> from a position of \<open>content\<close>.\<close>

function continued_quote_in_line :: "string \<Rightarrow> cptr \<Rightarrow> char" where
  "continued_quote_in_line content [] = NUL"
| "continued_quote_in_line content (c # s) =
     (if c = CHR ''!'' then NUL
      else if is_quote c then
        (if \<not> snd (quoted_end c s) then (if trailing_ampersand content then c else NUL)
         else continued_quote_in_line content (fst (quoted_end c s)))
      else if isdigit c then continued_quote_in_line content (digit_end c s)
      else continued_quote_in_line content s)"
  by pat_completeness auto
termination by (relation "measure (\<lambda>(content, s). length s)") (auto simp: le_imp_less_Suc)

definition continued_literal_end :: "cptr \<Rightarrow> char \<Rightarrow> bool \<Rightarrow> cptr \<times> bool" where
  "continued_literal_end s quote skip_ampersand =
     (let s = skip_space s;
          s = (if skip_ampersand \<and> peek s = CHR ''&'' then drop 1 s else s)
      in quoted_end quote s)"

definition fixed_continuation_line :: "string \<Rightarrow> bool" where
  "fixed_continuation_line s \<longleftrightarrow> length s > 5 \<and> s ! 5 \<noteq> CHR '' '' \<and> s ! 5 \<noteq> CHR ''0''"

text \<open>\<open>find_fixed_continuation_state\<close>: the quote and the count of Hollerith characters.\<close>

function fixed_continuation_state :: "cptr \<Rightarrow> char \<times> nat" where
  "fixed_continuation_state [] = (NUL, 0)"
| "fixed_continuation_state (c # s) =
     (if c = CHR ''!'' then (NUL, 0)
      else if is_quote c then
        (if \<not> snd (quoted_end c s) then (c, 0) else fixed_continuation_state (fst (quoted_end c s)))
      else if isdigit c then
        (case hollerith_end (c # s) of
           Some (t, remaining) \<Rightarrow> if remaining \<noteq> 0 then (NUL, remaining) else fixed_continuation_state t
         | None \<Rightarrow> fixed_continuation_state s)
      else fixed_continuation_state s)"
  by pat_completeness auto
termination
  by (relation "measure length") (auto simp: le_imp_less_Suc dest: hollerith_end_length)

section \<open>Invocations in a source line\<close>

definition append_source_argument ::
  "preprocessor \<Rightarrow> string list \<Rightarrow> nat \<Rightarrow> string \<Rightarrow> source_position \<Rightarrow> preprocessor_macro \<Rightarrow>
    preprocessor + string list \<times> nat" where
  "append_source_argument p arguments capacity piece at m =
     (if max_macro_arguments (limits p) \<le> length arguments then
        Inl (diagnose_expansion p DIAGNOSTIC_RESOURCE_LIMIT at
          ''function-like macro argument limit exceeded for'' (macro_name m))
      else case reserve_arguments (memory p) capacity (length arguments) of
        None \<Rightarrow> Inl (diagnose_expansion p DIAGNOSTIC_OUT_OF_MEMORY at
          ''out of memory while parsing arguments for'' (macro_name m))
      | Some capacity \<Rightarrow> Inr (arguments @ [trim_space piece], capacity))"

definition close_source_arguments ::
  "preprocessor \<Rightarrow> preprocessor_macro \<Rightarrow> source_position \<Rightarrow> string \<Rightarrow> bool \<Rightarrow> string list \<Rightarrow> nat \<Rightarrow>
    preprocessor + string list" where
  "close_source_arguments p m at piece saw_separator arguments capacity =
     (case (if saw_separator \<or> skip_space piece \<noteq> [] \<or> macro_parameters m \<noteq> [] \<or> variadic m
            then append_source_argument p arguments capacity piece at m
            else Inr (arguments, capacity)) of
        Inl p \<Rightarrow> Inl p
      | Inr (arguments, capacity) \<Rightarrow>
          if \<not> arity_matches m (length arguments) then
            Inl (diagnose_expansion p DIAGNOSTIC_SYNTAX at
              ''function-like macro argument count mismatch for'' (macro_name m))
          else Inr arguments)"

function source_arguments_from ::
  "preprocessor \<Rightarrow> preprocessor_macro \<Rightarrow> source_position \<Rightarrow> cptr \<Rightarrow> cptr \<Rightarrow> nat \<Rightarrow> bool \<Rightarrow> string list \<Rightarrow> nat \<Rightarrow>
    preprocessor + string list \<times> cptr" where
  "source_arguments_from p m at start_at [] depth saw_separator arguments capacity =
     Inl (diagnose_expansion p DIAGNOSTIC_SYNTAX at
       ''unterminated function-like macro invocation for'' (macro_name m))"
| "source_arguments_from p m at start_at (c # s) depth saw_separator arguments capacity =
     (let piece = take (length start_at - length (c # s)) start_at in
      if is_quote c then
        source_arguments_from p m at start_at (fst (quoted_end c s)) depth saw_separator arguments capacity
      else if isdigit c then
        source_arguments_from p m at start_at (digit_end c s) depth saw_separator arguments capacity
      else if c = CHR ''('' then
        (if max_parse_depth (limits p) \<le> depth then
           Inl (diagnose_expansion p DIAGNOSTIC_RESOURCE_LIMIT at
             ''macro invocation nesting limit exceeded for'' (macro_name m))
         else source_arguments_from p m at start_at s (depth + 1) saw_separator arguments capacity)
      else if c = CHR '')'' then
        (if depth = 1 then
           (case close_source_arguments p m at piece saw_separator arguments capacity of
              Inl p \<Rightarrow> Inl p
            | Inr arguments \<Rightarrow> Inr (arguments, s))
         else source_arguments_from p m at start_at s (depth - 1) saw_separator arguments capacity)
      else if c = CHR '','' \<and> depth = 1 then
        (case append_source_argument p arguments capacity piece at m of
           Inl p \<Rightarrow> Inl p
         | Inr (arguments, capacity) \<Rightarrow>
             source_arguments_from p m at s s depth True arguments capacity)
      else source_arguments_from p m at start_at s depth saw_separator arguments capacity)"
  by pat_completeness auto
termination
  by (relation "measure (\<lambda>(p, m, at, start_at, s, depth, saw, arguments, capacity). length s)")
    (auto simp: le_imp_less_Suc)

lemma source_arguments_length:
  "source_arguments_from p m at start_at s depth saw arguments capacity = Inr (result, after) \<Longrightarrow>
    length after \<le> length s"
proof (induction p m at start_at s depth saw arguments capacity arbitrary: result after
    rule: source_arguments_from.induct)
  case (2 p m at start_at c s depth saw arguments capacity)
  show ?case
    using 2(7) 2(1-6)[OF refl]
    by (fastforce simp: Let_def split: if_splits sum.splits prod.splits
        dest: le_trans [OF _ quoted_end_length] le_trans [OF _ digit_end_length])
qed simp

definition moved_position :: "source_position \<Rightarrow> nat \<Rightarrow> source_position" where
  "moved_position at n = at\<lparr>position_column := size_add (position_column at) n\<rparr>"

text \<open>
  What the word at \<open>word_at\<close> invokes: nothing, or a macro with its replacement text and the position
  where reading goes on. \<open>at\<close> is where the report of a failure points.
\<close>

definition source_invocation ::
  "preprocessor \<Rightarrow> source_position \<Rightarrow> string list \<Rightarrow> nat \<Rightarrow> cptr \<Rightarrow>
    preprocessor + (preprocessor_macro \<times> string \<times> cptr) option" where
  "source_invocation p at parents depth word_at =
     (let word = word_text word_at; after = word_end word_at in
      case find_macro p word of
        None \<Rightarrow> Inr None
      | Some macro_index \<Rightarrow>
          let m = macros p ! macro_index;
              opening = (if function_like m then skip_space after else after)
          in if function_like m \<and> peek opening \<noteq> CHR ''('' then Inr None
             else if word \<in> set parents then
               Inl (diagnose_expansion p DIAGNOSTIC_SYNTAX at ''cyclic source macro expansion for'' word)
             else if max_macro_expansion_depth (limits p) \<le> depth then
               Inl (diagnose_expansion p DIAGNOSTIC_RESOURCE_LIMIT at
                 ''source macro expansion depth limit exceeded for'' word)
             else case (if function_like m
                        then source_arguments_from p m at (drop 1 opening) (drop 1 opening) 1 False [] 0
                        else Inr ([], after)) of
               Inl p \<Rightarrow> Inl p
             | Inr (arguments, after) \<Rightarrow>
                 (case (if function_like m \<or> replacement_has_operator m
                        then build_operator_replacement p m arguments at empty_buffer
                        else Inr (empty_buffer\<lparr>buffer_text := macro_value m\<rparr>)) of
                    Inl p \<Rightarrow> Inl p
                  | Inr replacement \<Rightarrow> Inr (Some (m, buffer_text replacement, after))))"

lemma source_invocation_depth:
  "source_invocation p at parents depth s = Inr (Some x) \<Longrightarrow> depth < max_macro_expansion_depth (limits p)"
  by (auto simp: source_invocation_def Let_def split: option.splits if_splits)

lemma source_invocation_after:
  assumes "source_invocation p at parents depth s = Inr (Some (m, replacement, after))"
    and "identifier_start (peek s)"
  shows "length after < length s"
proof -
  have w: "length (word_end s) < length s" using assms(2) by (rule word_end_decreases)
  have "after = word_end s \<or> (\<exists>m xs. source_arguments_from p m at (drop 1 (skip_space (word_end s)))
      (drop 1 (skip_space (word_end s))) 1 False [] 0 = Inr (xs, after))"
    using assms(1)
    by (simp only: source_invocation_def Let_def split: option.splits if_splits sum.splits prod.splits)
      (blast | simp)+
  then have "length after \<le> length (word_end s)"
  proof (elim disjE exE)
    fix m xs
    assume "source_arguments_from p m at (drop 1 (skip_space (word_end s)))
      (drop 1 (skip_space (word_end s))) 1 False [] 0 = Inr (xs, after)"
    then have "length after \<le> length (skip_space (word_end s)) - 1"
      by (drule_tac source_arguments_length) simp
    then show ?thesis using skip_space_length [of "word_end s"] by linarith
  qed simp
  with w show ?thesis by simp
qed

section \<open>Expansion of a text\<close>

text \<open>The text after the unit at a character that begins no invocation.\<close>

definition unit_end :: "char \<Rightarrow> cptr \<Rightarrow> cptr" where
  "unit_end c s =
     (if is_quote c then fst (quoted_end c s)
      else if isdigit c then digit_end c s
      else if identifier_start c then word_end (c # s)
      else s)"

lemma unit_end_less [simp]: "length (unit_end c s) < Suc (length s)"
  by (auto simp: unit_end_def le_imp_less_Suc after_word_less)

text \<open>\<open>expand_text\<close> over the rest of \<open>content\<close>, whose first character stands at \<open>text_origin\<close>.\<close>

function expand_text_from ::
  "preprocessor \<Rightarrow> source_position \<Rightarrow> (source_position \<times> nat) option \<Rightarrow> string list \<Rightarrow> nat \<Rightarrow> cptr \<Rightarrow> cptr \<Rightarrow>
    pp_output \<Rightarrow> preprocessor + pp_output" where
  "expand_text_from p text_origin expanded parents depth content [] out = Inr out"
| "expand_text_from p text_origin expanded parents depth content (c # s) out =
     (let unit_origin = moved_position text_origin (length content - length (c # s));
          at = (case expanded of Some (position, _) \<Rightarrow> position | None \<Rightarrow> unit_origin) in
      if c = CHR ''!'' then append_text p (c # s) unit_origin expanded out
      else case (if identifier_start c then source_invocation p at parents depth (c # s) else Inr None) of
        Inl p \<Rightarrow> Inl p
      | Inr (Some (m, replacement, after)) \<Rightarrow>
          (case expand_text_from p
             \<lparr>position_source = Some (definition_source_name m), position_line = definition_line m,
              position_column = definition_column m\<rparr>
             (case expanded of Some e \<Rightarrow> Some e | None \<Rightarrow> Some (unit_origin, length (word_text (c # s))))
             (macro_name m # parents) (depth + 1) replacement replacement out of
             Inl p \<Rightarrow> Inl p
           | Inr out \<Rightarrow> expand_text_from p text_origin expanded parents depth content after out)
      | Inr None \<Rightarrow>
          (case append_text p (take (length (c # s) - length (unit_end c s)) (c # s)) unit_origin expanded out of
             Inl p \<Rightarrow> Inl p
           | Inr out \<Rightarrow> expand_text_from p text_origin expanded parents depth content (unit_end c s) out))"
  by pat_completeness auto

termination expand_text_from
  by (relation "measures [\<lambda>(p, text_origin, expanded, parents, depth, content, s, out).
        max_macro_expansion_depth (limits p) - depth,
      \<lambda>(p, text_origin, expanded, parents, depth, content, s, out). length s]")
    (auto split: if_splits dest: source_invocation_depth source_invocation_after)

definition expand_text ::
  "preprocessor \<Rightarrow> cptr \<Rightarrow> source_position \<Rightarrow> pp_output \<Rightarrow> preprocessor + pp_output" where
  "expand_text p content text_origin out = expand_text_from p text_origin None [] 0 content content out"

text \<open>\<open>f2c_preprocessor_expand_directive_operand\<close>, whose map is local.\<close>

definition expand_directive_operand ::
  "preprocessor \<Rightarrow> cptr \<Rightarrow> nat \<Rightarrow> nat \<Rightarrow> buffer \<Rightarrow> preprocessor + buffer" where
  "expand_directive_operand p content ln column b =
     map_sum id fst (expand_text p content
       \<lparr>position_source = Some (current_source_name p), position_line = ln, position_column = column\<rparr>
       (b, \<lparr>segments = [], segment_capacity = 0\<rparr>))"

section \<open>Source lines\<close>

text \<open>
  The beginning of a line that continues a literal or a Hollerith constant is copied. The result is
  the state, the output and the rest of the line, or no rest where the line is used up.
\<close>

definition fixed_prefix ::
  "preprocessor \<Rightarrow> cptr \<Rightarrow> source_position \<Rightarrow> pp_output \<Rightarrow> preprocessor + preprocessor \<times> pp_output \<times> cptr option" where
  "fixed_prefix p content line_origin out =
     (if continued_character_quote p = NUL \<and> continued_hollerith_characters p = 0 then Inr (p, out, Some content)
      else if \<not> fixed_continuation_line content then
        Inr (p\<lparr>continued_character_quote := NUL, continued_hollerith_characters := 0\<rparr>, out, Some content)
      else
        let statement = drop 6 content;
            payload_origin = moved_position line_origin (length content - length statement)
        in case append_text p (take 6 content) line_origin None out of
          Inl p \<Rightarrow> Inl p
        | Inr out \<Rightarrow>
            if continued_hollerith_characters p \<noteq> 0 then
              (let payload = take (continued_hollerith_characters p) statement;
                   remaining = continued_hollerith_characters p - length payload
               in case append_text p payload payload_origin None out of
                    Inl p \<Rightarrow> Inl p
                  | Inr out \<Rightarrow>
                      Inr (p\<lparr>continued_hollerith_characters := remaining\<rparr>, out,
                           if remaining \<noteq> 0 then None else Some (drop (length payload) statement)))
            else
              (let (rest, closed) = continued_literal_end statement (continued_character_quote p) False
               in case append_text p (take (length statement - length rest) statement) payload_origin None out of
                    Inl p \<Rightarrow> Inl p
                  | Inr out \<Rightarrow>
                      if \<not> closed then Inr (p, out, None)
                      else Inr (p\<lparr>continued_character_quote := NUL\<rparr>, out, Some rest)))"

definition free_prefix ::
  "preprocessor \<Rightarrow> cptr \<Rightarrow> source_position \<Rightarrow> pp_output \<Rightarrow> preprocessor + preprocessor \<times> pp_output \<times> cptr option" where
  "free_prefix p content line_origin out =
     (if continued_character_quote p = NUL then Inr (p, out, Some content)
      else
        let (rest, closed) = continued_literal_end content (continued_character_quote p) True
        in case append_text p (take (length content - length rest) content) line_origin None out of
             Inl p \<Rightarrow> Inl p
           | Inr out \<Rightarrow>
               if \<not> closed then
                 Inr (p\<lparr>continued_character_quote :=
                        (if trailing_ampersand content then continued_character_quote p else NUL)\<rparr>, out, None)
               else Inr (p\<lparr>continued_character_quote := NUL\<rparr>, out, Some rest))"

text \<open>What the rest of the line leaves open, after its expansion.\<close>

definition remember_open :: "preprocessor \<Rightarrow> source_form \<Rightarrow> cptr \<Rightarrow> cptr \<Rightarrow> preprocessor" where
  "remember_open p form content rest =
     (if form = SOURCE_FREE then p\<lparr>continued_character_quote := continued_quote_in_line content rest\<rparr>
      else if form = SOURCE_FIXED then
        let statement = (if length content - length rest > 6 then rest else drop 6 content);
            (quote, remaining) = fixed_continuation_state statement
        in p\<lparr>continued_character_quote := quote, continued_hollerith_characters := remaining\<rparr>
      else p)"

text \<open>\<open>f2c_preprocessor_expand_source_line\<close>\<close>

definition expand_source_line ::
  "preprocessor \<Rightarrow> cptr \<Rightarrow> nat \<Rightarrow> source_form \<Rightarrow> pp_output \<Rightarrow> preprocessor + preprocessor \<times> pp_output" where
  "expand_source_line p content ln form out =
     (let line_origin = \<lparr>position_source = Some (current_source_name p), position_line = ln, position_column = 1\<rparr> in
      if form = SOURCE_FIXED \<and> content \<noteq> [] \<and> hd content \<in> set ''cC*!'' then
        map_sum id (Pair p) (append_text p content line_origin None out)
      else case (if form = SOURCE_FIXED then fixed_prefix p content line_origin out
                 else if form = SOURCE_FREE then free_prefix p content line_origin out
                 else Inr (p, out, Some content)) of
        Inl p \<Rightarrow> Inl p
      | Inr (p, out, None) \<Rightarrow> Inr (p, out)
      | Inr (p, out, Some rest) \<Rightarrow>
          (case (if rest = [] then Inr out
                 else expand_text p rest (moved_position line_origin (length content - length rest)) out) of
             Inl p \<Rightarrow> Inl p
           | Inr out \<Rightarrow> Inr (remember_open p form content rest, out)))"

section \<open>What the expansion of a line can change\<close>

text \<open>A line changes nothing of the preprocessor but the literal that is left open.\<close>

definition same_but_open :: "preprocessor \<Rightarrow> preprocessor \<Rightarrow> bool" where
  "same_but_open p q \<longleftrightarrow>
     (\<exists>quote remaining. q = p\<lparr>continued_character_quote := quote, continued_hollerith_characters := remaining\<rparr>)"

lemma same_but_open_refl: "same_but_open p p"
  unfolding same_but_open_def
  by (rule exI [of _ "continued_character_quote p"], rule exI [of _ "continued_hollerith_characters p"]) simp

lemma same_but_open_step:
  "same_but_open p (p\<lparr>continued_character_quote := quote\<rparr>)"
  "same_but_open p (p\<lparr>continued_hollerith_characters := remaining\<rparr>)"
  "same_but_open p (p\<lparr>continued_character_quote := quote, continued_hollerith_characters := remaining\<rparr>)"
  unfolding same_but_open_def
  by (rule exI [of _ quote], rule exI [of _ "continued_hollerith_characters p"], simp)
    (rule exI [of _ "continued_character_quote p"], rule exI [of _ remaining], simp, blast)

lemma same_but_open_trans: "same_but_open p q \<Longrightarrow> same_but_open q r \<Longrightarrow> same_but_open p r"
  by (auto simp: same_but_open_def) (rule exI, rule exI, rule refl)

lemma map_sum_Inr [simp]: "map_sum f g x = Inr y \<longleftrightarrow> (\<exists>z. x = Inr z \<and> y = g z)"
  by (cases x) auto

lemma fixed_prefix_frame: "fixed_prefix p content line_origin out = Inr (q, out', rest) \<Longrightarrow> same_but_open p q"
  by (auto simp: fixed_prefix_def Let_def same_but_open_refl same_but_open_step
      split: if_splits sum.splits prod.splits)

lemma free_prefix_frame: "free_prefix p content line_origin out = Inr (q, out', rest) \<Longrightarrow> same_but_open p q"
  by (auto simp: free_prefix_def Let_def same_but_open_refl same_but_open_step
      split: if_splits sum.splits prod.splits)

lemma remember_open_frame: "same_but_open p (remember_open p form content rest)"
  by (auto simp: remember_open_def Let_def same_but_open_refl same_but_open_step split: prod.splits)

lemma expand_source_line_frame:
  assumes "expand_source_line p content ln form out = Inr (q, out')"
  shows "same_but_open p q"
  using assms
  by (auto simp: expand_source_line_def Let_def same_but_open_refl
      split: if_splits sum.splits prod.splits option.splits
      intro: same_but_open_trans [OF fixed_prefix_frame remember_open_frame] fixed_prefix_frame
        same_but_open_trans [OF free_prefix_frame remember_open_frame] free_prefix_frame remember_open_frame)

end
