(* ===== verification/Directives.thy ===== *)
theory Directives
  imports Source_Expansion
begin

text \<open>
  The directives of the preprocessor (\<open>frontend/preprocessor.c\<close>) and the names of sources that the
  context records (\<open>f2c_context_source_name\<close> of \<open>core/config.c\<close>).

  \<^item> The frames of the open conditional groups are in the order of the array: the innermost is the last.
  \<^item> The text of a directive is NUL-terminated and holds no NUL.
  \<^item> A directive yields \<open>Inl\<close> of the preprocessor with its report, or \<open>Inr\<close> of the new state.
  \<^item> \<open>include\<close> stands for \<open>f2c_preprocessor_process_include\<close>, which is defined over the processing
    of whole buffers (theory \<open>Preprocess_Buffer\<close>, where it is put in).
\<close>

section \<open>Names of sources\<close>

definition context_source_name :: "preprocessor \<Rightarrow> string \<Rightarrow> preprocessor option" where
  "context_source_name p name =
     (if name \<in> set (source_names p) then Some p
      else
        let full = (length (source_names p) = source_name_capacity p);
            capacity = (if source_name_capacity p = 0 then 8 else size_mul (source_name_capacity p) 2)
        in if full \<and> (capacity < source_name_capacity p \<or> SIZE_MAX div 8 < capacity \<or> \<not> memory p (capacity * 8))
           then None
           else
             let p = (if full then p\<lparr>source_name_capacity := capacity\<rparr> else p)
             in if \<not> memory p (length name + 1) then None
                else Some (p\<lparr>source_names := source_names p @ [name]\<rparr>))"

section \<open>Conditional groups\<close>

text \<open>\<open>sizeof(ConditionalFrame)\<close> is 32 bytes.\<close>

definition reserve_conditionals :: "preprocessor \<Rightarrow> preprocessor option" where
  "reserve_conditionals p =
     (if length (conditionals p) < conditional_capacity p then Some p
      else let capacity = (if conditional_capacity p = 0 then 8 else size_mul (conditional_capacity p) 2) in
        if capacity < conditional_capacity p \<or> SIZE_MAX div 32 < capacity then None
        else if memory p (capacity * 32) then Some (p\<lparr>conditional_capacity := capacity\<rparr>) else None)"

definition push_conditional :: "preprocessor \<Rightarrow> bool \<Rightarrow> nat \<Rightarrow> nat \<Rightarrow> preprocessor + preprocessor" where
  "push_conditional p condition ln column =
     (if max_parse_depth (limits p) \<le> length (conditionals p) then
        Inl (diagnose_at p DIAGNOSTIC_RESOURCE_LIMIT ln column ''conditional preprocessing nesting limit exceeded'')
      else case reserve_conditionals p of
        None \<Rightarrow> Inl (diagnose_at p DIAGNOSTIC_OUT_OF_MEMORY ln column
                  ''out of memory while nesting conditional preprocessing'')
      | Some p \<Rightarrow>
          Inr (p\<lparr>conditionals := conditionals p @
                   [\<lparr>opening_source_name = current_source_name p, opening_line = ln,
                     parent_active = is_active p, branch_taken = condition, else_seen = False\<rparr>],
                 is_active := is_active p \<and> condition\<rparr>))"

definition parse_name_operand :: "preprocessor \<Rightarrow> cptr \<Rightarrow> nat \<Rightarrow> nat \<Rightarrow> preprocessor + string" where
  "parse_name_operand p content ln column =
     (let name_at = skip_space content in
      if \<not> identifier_start (peek name_at) then
        Inl (diagnose_at p DIAGNOSTIC_SYNTAX ln (column_of column content name_at) ''expected a preprocessor name'')
      else if skip_space (word_end name_at) \<noteq> [] then
        Inl (diagnose_at p DIAGNOSTIC_SYNTAX ln (column_of column content (word_end name_at))
          ''unexpected text after preprocessor name'')
      else Inr (word_text name_at))"

text \<open>The condition of the directive that opens a group: the preprocessor and the value.\<close>

definition start_condition ::
  "preprocessor \<Rightarrow> string \<Rightarrow> cptr \<Rightarrow> nat \<Rightarrow> nat \<Rightarrow> preprocessor + preprocessor \<times> bool" where
  "start_condition p directive rest ln column =
     (if directive \<in> {''ifdef'', ''ifndef''} then
        (case parse_name_operand p rest ln column of
           Inl p \<Rightarrow> Inl p
         | Inr name \<Rightarrow>
             let condition = (find_macro p name \<noteq> None)
             in Inr (p, if directive = ''ifndef'' then \<not> condition else condition))
      else if skip_space rest = [] then
        Inl (diagnose_at p DIAGNOSTIC_SYNTAX ln column ''missing #if expression'')
      else case evaluate_condition p rest ln column (is_active p) of
        (p, None) \<Rightarrow> Inl p
      | (p, Some condition) \<Rightarrow> Inr (p, condition))"

definition process_conditional_start ::
  "preprocessor \<Rightarrow> string \<Rightarrow> cptr \<Rightarrow> nat \<Rightarrow> nat \<Rightarrow> preprocessor + preprocessor" where
  "process_conditional_start p directive rest ln column =
     (case start_condition p directive rest ln column of
        Inl p \<Rightarrow> Inl p
      | Inr (p, condition) \<Rightarrow> push_conditional p condition ln column)"

definition top_frame :: "preprocessor \<Rightarrow> conditional_frame" where
  "top_frame p = last (conditionals p)"

definition set_top_frame :: "preprocessor \<Rightarrow> conditional_frame \<Rightarrow> preprocessor" where
  "set_top_frame p frame = p\<lparr>conditionals := butlast (conditionals p) @ [frame]\<rparr>"

definition process_elif :: "preprocessor \<Rightarrow> cptr \<Rightarrow> nat \<Rightarrow> nat \<Rightarrow> preprocessor + preprocessor" where
  "process_elif p rest ln column =
     (if length (conditionals p) = conditional_base p then
        Inl (diagnose_at p DIAGNOSTIC_SYNTAX ln column ''#elif has no matching #if'')
      else
        let frame = top_frame p in
        if else_seen frame then
          Inl (diagnose_at p DIAGNOSTIC_SYNTAX ln column ''#elif cannot follow #else'')
        else if skip_space rest = [] then
          Inl (diagnose_at p DIAGNOSTIC_SYNTAX ln column ''missing #elif expression'')
        else case evaluate_condition p rest ln column (parent_active frame \<and> \<not> branch_taken frame) of
          (p, None) \<Rightarrow> Inl p
        | (p, Some condition) \<Rightarrow>
            let p = p\<lparr>is_active := parent_active frame \<and> \<not> branch_taken frame \<and> condition\<rparr>
            in Inr (if condition then set_top_frame p (frame\<lparr>branch_taken := True\<rparr>) else p))"

definition process_else :: "preprocessor \<Rightarrow> cptr \<Rightarrow> nat \<Rightarrow> nat \<Rightarrow> preprocessor + preprocessor" where
  "process_else p rest ln column =
     (if skip_space rest \<noteq> [] then
        Inl (diagnose_at p DIAGNOSTIC_SYNTAX ln column ''unexpected text after #else'')
      else if length (conditionals p) = conditional_base p then
        Inl (diagnose_at p DIAGNOSTIC_SYNTAX ln column ''#else has no matching #if'')
      else
        let frame = top_frame p in
        if else_seen frame then
          Inl (diagnose_at p DIAGNOSTIC_SYNTAX ln column ''conditional group contains more than one #else'')
        else Inr (set_top_frame (p\<lparr>is_active := parent_active frame \<and> \<not> branch_taken frame\<rparr>)
                    (frame\<lparr>else_seen := True, branch_taken := True\<rparr>)))"

definition process_endif :: "preprocessor \<Rightarrow> cptr \<Rightarrow> nat \<Rightarrow> nat \<Rightarrow> preprocessor + preprocessor" where
  "process_endif p rest ln column =
     (if skip_space rest \<noteq> [] then
        Inl (diagnose_at p DIAGNOSTIC_SYNTAX ln column ''unexpected text after #endif'')
      else if length (conditionals p) = conditional_base p then
        Inl (diagnose_at p DIAGNOSTIC_SYNTAX ln column ''#endif has no matching #if'')
      else Inr (p\<lparr>conditionals := butlast (conditionals p), is_active := parent_active (top_frame p)\<rparr>))"

section \<open>\<open>#line\<close>\<close>

text \<open>
  The library's \<open>strtoull\<close> in base ten on any text, where \<open>unsigned long long\<close> has 64 bits: leading
  white space and a sign are accepted, the value of a negated number is taken modulo \<open>2^64\<close>, and the
  end is the start where there are no digits.
\<close>

definition parse_unsigned :: "cptr \<Rightarrow> nat \<times> cptr \<times> bool" where
  "parse_unsigned s =
     (let sign_at = skip_space s;
          negative = (peek sign_at = CHR ''-'');
          digits_at = (if negative \<or> peek sign_at = CHR ''+'' then drop 1 sign_at else sign_at)
      in if \<not> isdigit (peek digits_at) then (0, s, False)
         else let (n, end_at, range_error) = strtoull digits_at
           in (if negative \<and> \<not> range_error then size_sub 0 n else n, end_at, range_error))"

lemma parse_unsigned_length:
  assumes "parse_unsigned s = (n, end_at, range_error)" "end_at \<noteq> s"
  shows "length end_at < length s"
proof -
  define d where "d = (if peek (skip_space s) = CHR ''-'' \<or> peek (skip_space s) = CHR ''+''
    then drop 1 (skip_space s) else skip_space s)"
  have "isdigit (peek d)" "end_at = dropWhile isdigit d"
    using assms unfolding d_def by (auto simp: parse_unsigned_def strtoull_def Let_def split: if_splits)
  then have "length end_at < length d"
    by (cases d) (auto simp: length_dropWhile_le le_imp_less_Suc)
  also have "length d \<le> length (skip_space s)" by (simp add: d_def)
  finally show ?thesis using skip_space_length [of s] by linarith
qed

text \<open>The quoted name after \<open>#line\<close>: the buffer, whether the closing quote was found, and the rest.\<close>

function line_name_from :: "(nat \<Rightarrow> bool) \<Rightarrow> cptr \<Rightarrow> buffer \<Rightarrow> buffer \<times> bool \<times> cptr" where
  "line_name_from mem [] b = (b, False, [])"
| "line_name_from mem (c # s) b =
     (if ascii c = 34 then (b, True, s)
      else if ascii c = 92 \<and> (ascii (peek s) = 92 \<or> ascii (peek s) = 34)
      then line_name_from mem (drop 1 s) (buffer_append mem b [peek s])
      else line_name_from mem s (buffer_append mem b [c]))"
  by pat_completeness auto
termination by (relation "measure (\<lambda>(mem, s, b). length s)") auto

text \<open>The first flag that is not a number from one to four.\<close>

function bad_flag :: "cptr \<Rightarrow> cptr option" where
  "bad_flag s =
     (if s = [] then None
      else let (flag, flag_end, range_error) = parse_unsigned s
        in if range_error \<or> flag_end = s \<or> flag < 1 \<or> 4 < flag then Some s
           else bad_flag (skip_space flag_end))"
  by auto
termination
proof (relation "measure length")
  fix s :: cptr and x flag y flag_end range_error
  assume "x = parse_unsigned s" "(flag, y) = x" "(flag_end, range_error) = y"
    "\<not> (range_error \<or> flag_end = s \<or> flag < 1 \<or> 4 < flag)"
  then have "length flag_end < length s" by (intro parse_unsigned_length [of s flag flag_end range_error]) auto
  then show "(skip_space flag_end, s) \<in> measure length"
    using skip_space_length [of flag_end] by (simp del: skip_space_length)
qed simp

declare bad_flag.simps [simp del]

text \<open>The name after the line number: the preprocessor, the name and the rest.\<close>

definition line_name ::
  "preprocessor \<Rightarrow> cptr \<Rightarrow> cptr \<Rightarrow> nat \<Rightarrow> nat \<Rightarrow> preprocessor + preprocessor \<times> string \<times> cptr" where
  "line_name p rest name_at ln column =
     (if ascii (peek name_at) \<noteq> 34 then Inr (p, current_source_name p, name_at)
      else
        let (b, closed, after) = line_name_from (memory p) (drop 1 name_at) empty_buffer in
        if \<not> closed \<or> buffer_failed b then
          Inl (diagnose_at p (if buffer_failed b then DIAGNOSTIC_OUT_OF_MEMORY else DIAGNOSTIC_SYNTAX) ln
            (column_of column rest after)
            (if buffer_failed b then ''out of memory parsing #line source name''
             else ''unterminated source name after #line''))
        else case context_source_name p (buffer_text b) of
          None \<Rightarrow> Inl (diagnose_at p DIAGNOSTIC_OUT_OF_MEMORY ln column ''out of memory recording #line source name'')
        | Some p \<Rightarrow> Inr (p, buffer_text b, after))"

definition process_line_directive :: "preprocessor \<Rightarrow> cptr \<Rightarrow> nat \<Rightarrow> nat \<Rightarrow> preprocessor + preprocessor" where
  "process_line_directive p rest ln column =
     (let number_at = skip_space rest; (parsed, number_end, range_error) = parse_unsigned number_at in
      if range_error \<or> number_end = number_at \<or> parsed = 0 \<or> SIZE_MAX < parsed then
        Inl (diagnose_at p DIAGNOSTIC_SYNTAX ln (column_of column rest number_at)
          ''invalid source line number after #line'')
      else case line_name p rest (skip_space number_end) ln column of
        Inl p \<Rightarrow> Inl p
      | Inr (p, name, flags_at) \<Rightarrow>
          (case bad_flag (skip_space flags_at) of
             Some flag_at \<Rightarrow> Inl (diagnose_at p DIAGNOSTIC_SYNTAX ln (column_of column rest flag_at)
               ''invalid flag after source line marker'')
           | None \<Rightarrow> Inr (p\<lparr>pending_source_name := name, pending_line := parsed, location_pending := True\<rparr>)))"

section \<open>Directives\<close>

datatype directive_class = Not_Directive | Group_Start | Group_Elif | Group_Else | Group_End | Plain_Directive

text \<open>
  \<open>process_directive\<close> reads the line up to the word of the directive in this way: the position after
  \<open>#\<close> and white space, and the kind of the word there.
\<close>

definition directive_at :: "cptr \<Rightarrow> cptr" where
  "directive_at content = skip_space (drop 1 (skip_space content))"

definition directive_kind :: "cptr \<Rightarrow> directive_class" where
  "directive_kind content =
     (let word = word_text (directive_at content) in
      if peek (skip_space content) \<noteq> CHR ''#'' then Not_Directive
      else if \<not> identifier_start (peek (directive_at content)) then Plain_Directive
      else if word \<in> {''if'', ''ifdef'', ''ifndef''} then Group_Start
      else if word = ''elif'' then Group_Elif
      else if word = ''else'' then Group_Else
      else if word = ''endif'' then Group_End
      else Plain_Directive)"

text \<open>The directives that are read only where the group is active.\<close>

definition process_active_directive ::
  "(preprocessor \<Rightarrow> cptr \<Rightarrow> nat \<Rightarrow> nat \<Rightarrow> pp_output \<Rightarrow> preprocessor + preprocessor \<times> pp_output) \<Rightarrow>
    preprocessor \<Rightarrow> string \<Rightarrow> cptr \<Rightarrow> nat \<Rightarrow> nat \<Rightarrow> nat \<Rightarrow> pp_output \<Rightarrow> preprocessor + preprocessor \<times> pp_output" where
  "process_active_directive include p word rest ln column rest_column out =
     (if word = ''define'' then
        (case process_define p rest ln rest_column of
           (True, p) \<Rightarrow> Inr (p, out)
         | (False, p) \<Rightarrow> Inl p)
      else if word = ''line'' then
        (case process_line_directive p rest ln rest_column of Inl p \<Rightarrow> Inl p | Inr p \<Rightarrow> Inr (p, out))
      else if word = ''include'' then include p rest ln column out
      else if word = ''undef'' then
        (case parse_name_operand p rest ln rest_column of
           Inl p \<Rightarrow> Inl p
         | Inr name \<Rightarrow> Inr (undefine p name, out))
      else if word = ''error'' then
        Inl (diagnose_at p DIAGNOSTIC_SYNTAX ln column
          (if skip_space rest \<noteq> [] then skip_space rest else ''active #error directive''))
      else Inl (diagnose_name p DIAGNOSTIC_UNSUPPORTED ln column ''unsupported preprocessor directive'' word))"

text \<open>\<open>process_directive\<close>: whether the line is one, and the new state and output.\<close>

definition process_directive ::
  "(preprocessor \<Rightarrow> cptr \<Rightarrow> nat \<Rightarrow> nat \<Rightarrow> pp_output \<Rightarrow> preprocessor + preprocessor \<times> pp_output) \<Rightarrow>
    preprocessor \<Rightarrow> cptr \<Rightarrow> nat \<Rightarrow> pp_output \<Rightarrow> preprocessor + bool \<times> preprocessor \<times> pp_output" where
  "process_directive include p content ln out =
     (let hash = skip_space content;
          column = length content - length hash + 1;
          directive = directive_at content;
          word = word_text directive;
          rest = word_end directive;
          rest_column = length content - length rest + 1
      in if peek hash \<noteq> CHR ''#'' then Inr (False, p, out)
         else if directive = [] then Inr (True, p, out)
         else if isdigit (peek directive) then
           (if \<not> is_active p then Inr (True, p, out)
            else case process_line_directive p directive ln (length content - length directive + 1) of
              Inl p \<Rightarrow> Inl p
            | Inr p \<Rightarrow> Inr (True, p, out))
         else if \<not> identifier_start (peek directive) then
           Inl (diagnose_at p DIAGNOSTIC_SYNTAX ln (length content - length directive + 1)
             ''malformed preprocessor directive'')
         else if word \<in> {''if'', ''ifdef'', ''ifndef''} then
           map_sum id (\<lambda>p. (True, p, out)) (process_conditional_start p word rest ln rest_column)
         else if word = ''elif'' then map_sum id (\<lambda>p. (True, p, out)) (process_elif p rest ln rest_column)
         else if word = ''else'' then map_sum id (\<lambda>p. (True, p, out)) (process_else p rest ln column)
         else if word = ''endif'' then map_sum id (\<lambda>p. (True, p, out)) (process_endif p rest ln column)
         else if \<not> is_active p then Inr (True, p, out)
         else map_sum id (Pair True) (process_active_directive include p word rest ln column rest_column out))"

end
