(* ===== verification/Preprocess_Buffer.thy ===== *)
theory Preprocess_Buffer
  imports Directives
begin

text \<open>
  Preprocessing of whole buffers: \<open>f2c_preprocessor_process_buffer\<close> and \<open>f2c_preprocess_source\<close> of
  \<open>frontend/preprocessor.c\<close>, and \<open>#include\<close> of \<open>frontend/preprocessor/include.c\<close>.

  \<^item> The text is the list of its characters and holds no NUL; an offset is the rest from there.
  \<^item> The include resolver is code of the client: it is the parameter \<open>resolver\<close>, \<^const>\<open>None\<close> where
    none is configured. It is taken to be a function of the request.
  \<^item> \<open>process_buffer\<close> and \<open>process_include\<close> call each other. The depth of the nesting is limited by
    \<open>max_include_depth\<close>, so \<open>process_buffer n\<close> may go \<open>n\<close> files deeper, and
    \<open>n = max_include_depth - include_depth\<close> is always enough.
\<close>

section \<open>Physical lines\<close>

definition is_line_break :: "char \<Rightarrow> bool" where
  "is_line_break c \<longleftrightarrow> ascii c = 10 \<or> ascii c = 13"

text \<open>\<open>physical_line_end\<close> splits at the first line break, \<open>physical_newline_end\<close> takes the break.\<close>

definition line_part :: "cptr \<Rightarrow> string" where
  "line_part s = takeWhile (\<lambda>c. \<not> is_line_break c) s"

definition line_rest :: "cptr \<Rightarrow> cptr" where
  "line_rest s = dropWhile (\<lambda>c. \<not> is_line_break c) s"

fun newline_part :: "cptr \<Rightarrow> string" where
  "newline_part [] = []"
| "newline_part (c # s) = (if ascii c = 13 \<and> s \<noteq> [] \<and> ascii (hd s) = 10 then [c, hd s] else [c])"

definition next_line :: "cptr \<Rightarrow> cptr" where
  "next_line s = drop (length (newline_part (line_rest s))) (line_rest s)"

lemma line_split: "line_part s @ line_rest s = s"
  by (simp add: line_part_def line_rest_def)

lemma newline_split: "newline_part s @ drop (length (newline_part s)) s = s"
proof (cases s)
  case (Cons c t)
  then show ?thesis by (cases t) auto
qed simp

lemma next_line_split: "line_part s @ newline_part (line_rest s) @ next_line s = s"
  by (simp add: next_line_def newline_split line_split)

lemma newline_part_empty [simp]: "newline_part s = [] \<longleftrightarrow> s = []"
  by (cases s) auto

lemma next_line_length:
  assumes "s \<noteq> []"
  shows "length (next_line s) < length s"
proof -
  have "length s = length (line_part s) + length (newline_part (line_rest s)) + length (next_line s)"
    using arg_cong [OF next_line_split, of length s] by simp
  moreover have "line_part s \<noteq> [] \<or> newline_part (line_rest s) \<noteq> []"
    using assms line_split [of s] by auto
  ultimately show ?thesis by (auto simp flip: length_greater_0_conv)
qed

text \<open>\<open>directive_continues\<close> for the line at \<open>s\<close>\<close>

definition directive_continues :: "cptr \<Rightarrow> bool" where
  "directive_continues s \<longleftrightarrow> line_rest s \<noteq> [] \<and> line_part s \<noteq> [] \<and> ascii (last (line_part s)) = 92"

text \<open>
  The loop that joins a continued directive: the buffer, the count of its physical lines and the text
  after it.
\<close>

function join_directive ::
  "preprocessor \<Rightarrow> nat \<Rightarrow> buffer \<Rightarrow> nat \<Rightarrow> cptr \<Rightarrow> preprocessor + buffer \<times> nat \<times> cptr" where
  "join_directive p ln b line_count s =
     (let b = buffer_append (memory p) b (if directive_continues s then butlast (line_part s) else line_part s) in
      if buffer_failed b \<or> limit_exceeded b then
        Inl (diagnose_at p (if limit_exceeded b then DIAGNOSTIC_RESOURCE_LIMIT else DIAGNOSTIC_OUT_OF_MEMORY) ln 1
          (if limit_exceeded b then ''continued preprocessor directive is too large''
           else ''out of memory while joining a preprocessor directive''))
      else if \<not> directive_continues s then Inr (b, line_count, next_line s)
      else if line_count = SIZE_MAX then
        Inl (diagnose_at p DIAGNOSTIC_RESOURCE_LIMIT ln 1
          ''continued preprocessor directive has too many physical lines'')
      else join_directive p ln b (line_count + 1) (next_line s))"
  by auto
termination
  by (relation "measure (\<lambda>(p, ln, b, line_count, s). length s)")
    (auto simp: directive_continues_def line_rest_def intro!: next_line_length)

declare join_directive.simps [simp del]

text \<open>The logical line at \<open>s\<close>, the count of its physical lines and the text after it.\<close>

definition logical_line :: "preprocessor \<Rightarrow> cptr \<Rightarrow> preprocessor + string \<times> nat \<times> cptr" where
  "logical_line p s =
     (let ln = current_line p in
      if \<not> memory p (length (line_part s) + 1) then
        Inl (diagnose_at p DIAGNOSTIC_OUT_OF_MEMORY ln 1 ''out of memory while preprocessing a source line'')
      else if peek (skip_space (line_part s)) = CHR ''#'' \<and> directive_continues s then
        (case join_directive p ln (empty_buffer\<lparr>buffer_limit := max_preprocessed_bytes (limits p)\<rparr>) 1 s of
           Inl p \<Rightarrow> Inl p
         | Inr (b, line_count, rest) \<Rightarrow>
             (case buffer_take (memory p) b of
                None \<Rightarrow> Inl (diagnose_at p DIAGNOSTIC_OUT_OF_MEMORY ln 1
                  ''out of memory while finalizing a continued preprocessor directive'')
              | Some content \<Rightarrow> Inr (content, line_count, rest)))
      else Inr (line_part s, 1, next_line s))"

section \<open>Line breaks of the consumed lines\<close>

text \<open>\<open>append_consumed_newlines\<close> over the consumed text.\<close>

function append_newlines ::
  "preprocessor \<Rightarrow> string \<Rightarrow> nat \<Rightarrow> cptr \<Rightarrow> pp_output \<Rightarrow> preprocessor + pp_output" where
  "append_newlines p name ln s out =
     (if s = [] then Inr out
      else
        let newline = newline_part (line_rest s); n = length newline;
            at = \<lparr>position_source = Some name, position_line = ln, position_column = length (line_part s) + 1\<rparr>
        in case (if newline = [] then Inr out else preprocessor_append p newline at n 1 at n 1 False out) of
          Inl p \<Rightarrow> Inl p
        | Inr out \<Rightarrow>
            if next_line s = [] then Inr out
            else if ln = SIZE_MAX then
              Inl (diagnose_at p DIAGNOSTIC_RESOURCE_LIMIT ln 1 ''source line number exceeds the representable range'')
            else append_newlines p name (ln + 1) (next_line s) out)"
  by auto
termination
  by (relation "measure (\<lambda>(p, name, ln, s, out). length s)") (auto intro: next_line_length)

declare append_newlines.simps [simp del]

section \<open>Fortran \<open>INCLUDE\<close> lines\<close>

text \<open>\<open>fortran_include_operand\<close>: the operand and its column.\<close>

definition fortran_include_operand :: "cptr \<Rightarrow> source_form \<Rightarrow> (cptr \<times> nat) option" where
  "fortran_include_operand content form =
     (if form = SOURCE_FIXED \<and> peek content \<in> set ''cC*!'' then None
      else
        let keyword_at = skip_space (if form = SOURCE_FIXED then drop 6 content else content);
            after = drop 7 keyword_at; operand_at = skip_space after
        in if map tolower (take 7 keyword_at) \<noteq> ''include'' \<or> \<not> isspace (peek after) \<or> \<not> is_quote (peek operand_at)
           then None
           else Some (operand_at, length content - length operand_at + 1))"

section \<open>\<open>#include\<close>\<close>

record include_request =
  including_source_name :: string
  requested_name :: string
  system_include :: bool

text \<open>
  \<open>F2cIncludeSource\<close>: the text is NULL (\<^const>\<open>None\<close>, then its length is a field of its own) or a
  string; \<^const>\<open>None\<close> as the form is a value outside the enumeration.
\<close>

record include_source =
  found_text :: "string option"
  found_null_length :: nat
  found_form :: "source_form option"
  found_name :: "string option"

datatype include_reply = Include_Found include_source | Include_Not_Found | Include_Failed

type_synonym include_resolver = "(include_request \<Rightarrow> include_reply) option"

definition extension_equal :: "string \<Rightarrow> string \<Rightarrow> bool" where
  "extension_equal extension expected \<longleftrightarrow> map tolower extension = map tolower expected"

text \<open>\<open>strrchr(source_name, '.')\<close>\<close>

definition last_extension :: "string \<Rightarrow> string option" where
  "last_extension name =
     (if CHR ''.'' \<in> set name then Some (CHR ''.'' # rev (takeWhile (\<lambda>c. c \<noteq> CHR ''.'') (rev name))) else None)"

definition detected_form :: "string \<Rightarrow> source_form \<Rightarrow> source_form" where
  "detected_form name parent_form =
     (case last_extension name of
        None \<Rightarrow> parent_form
      | Some extension \<Rightarrow>
          if list_ex (extension_equal extension) [''.f'', ''.for'', ''.ftn''] then SOURCE_FIXED
          else if list_ex (extension_equal extension) [''.f90'', ''.f95'', ''.f03'', ''.f08''] then SOURCE_FREE
          else parent_form)"

text \<open>The name that the operand gives, and whether it is a system include.\<close>

definition include_operand :: "preprocessor \<Rightarrow> cptr \<Rightarrow> nat \<Rightarrow> nat \<Rightarrow> preprocessor + string \<times> bool" where
  "include_operand p content ln column =
     (let opening_at = skip_space content;
          opening = peek opening_at;
          closing = (if is_quote opening then Some opening else if opening = CHR ''<'' then Some CHR ''>'' else None)
      in case closing of
        None \<Rightarrow> Inl (diagnose_at p DIAGNOSTIC_SYNTAX ln (column_of column content opening_at)
                  ''expected a quoted or system include name'')
      | Some closing \<Rightarrow>
          let name = takeWhile (\<lambda>c. c \<noteq> closing) (drop 1 opening_at);
              close_at = dropWhile (\<lambda>c. c \<noteq> closing) (drop 1 opening_at);
              after = skip_space (drop 1 close_at)
          in if close_at = [] \<or> name = [] \<or> (after \<noteq> [] \<and> peek after \<noteq> CHR ''!'') then
               Inl (diagnose_at p DIAGNOSTIC_SYNTAX ln (column_of column content close_at)
                 ''malformed #include operand'')
             else if \<not> memory p (length name + 1) then
               Inl (diagnose_at p DIAGNOSTIC_OUT_OF_MEMORY ln column
                 (''out of memory parsing include '' @ [CHR 0x27, CHR 0x27]))
             else Inr (name, opening = CHR ''<''))"

definition include_message :: "preprocessor \<Rightarrow> diagnostic_code \<Rightarrow> nat \<Rightarrow> nat \<Rightarrow> string \<Rightarrow> string \<Rightarrow> preprocessor" where
  "include_message p code ln column message name =
     diagnose_at p code ln column (message @ [CHR 0x27] @ name @ [CHR 0x27])"

text \<open>The limits that are checked before the resolver is asked, and its answer.\<close>

definition resolve_include ::
  "include_resolver \<Rightarrow> preprocessor \<Rightarrow> string \<Rightarrow> bool \<Rightarrow> nat \<Rightarrow> nat \<Rightarrow> preprocessor + include_source" where
  "resolve_include resolver p name system ln column =
     (case resolver of
        None \<Rightarrow> Inl (include_message p DIAGNOSTIC_UNSUPPORTED ln column ''#include requires a configured resolver: '' name)
      | Some resolve \<Rightarrow>
          if max_include_depth (limits p) \<le> include_depth p then
            Inl (include_message p DIAGNOSTIC_RESOURCE_LIMIT ln column ''include depth limit exceeded for '' name)
          else if max_include_files (limits p) \<le> include_file_count p then
            Inl (include_message p DIAGNOSTIC_RESOURCE_LIMIT ln column ''include file limit exceeded for '' name)
          else case resolve \<lparr>including_source_name = current_source_name p, requested_name = name, system_include = system\<rparr> of
            Include_Not_Found \<Rightarrow> Inl (include_message p DIAGNOSTIC_INCLUDE ln column ''include file not found: '' name)
          | Include_Failed \<Rightarrow> Inl (include_message p DIAGNOSTIC_INCLUDE ln column ''include resolver failed for '' name)
          | Include_Found source \<Rightarrow> Inr source)"

text \<open>
  The checks on the source that the resolver returned: the state that counts the file, its name, its
  text and its form.
\<close>

definition accept_include ::
  "preprocessor \<Rightarrow> include_source \<Rightarrow> string \<Rightarrow> nat \<Rightarrow> nat \<Rightarrow> preprocessor + preprocessor \<times> string \<times> string \<times> source_form" where
  "accept_include p source name ln column =
     (let content = (case found_text source of Some t \<Rightarrow> t | None \<Rightarrow> []);
          len = (case found_text source of Some t \<Rightarrow> length t | None \<Rightarrow> found_null_length source)
      in if found_text source = None \<and> len \<noteq> 0 then
           Inl (include_message p DIAGNOSTIC_INVALID_ARGUMENT ln column ''include resolver returned a null buffer for '' name)
         else if NUL \<in> set content then
           Inl (include_message p DIAGNOSTIC_INVALID_ARGUMENT ln column ''include resolver returned an embedded NUL for '' name)
         else case found_form source of
           None \<Rightarrow>
             Inl (include_message p DIAGNOSTIC_INVALID_ARGUMENT ln column
               ''include resolver returned an invalid source form for '' name)
         | Some form \<Rightarrow>
             if size_sub (max_input_bytes (limits p)) (input_bytes p) < len then
               Inl (include_message p DIAGNOSTIC_RESOURCE_LIMIT ln column ''project input limit exceeded by include '' name)
             else
               let source_name = (case found_name source of Some n \<Rightarrow> if n = [] then name else n | None \<Rightarrow> name)
               in case context_source_name p source_name of
                 None \<Rightarrow> Inl (include_message p DIAGNOSTIC_OUT_OF_MEMORY ln column ''out of memory recording include '' name)
               | Some p \<Rightarrow>
                   if source_name \<in> set (include_parent p) then
                     Inl (include_message p DIAGNOSTIC_INCLUDE ln column ''recursive include cycle for '' name)
                   else Inr (p\<lparr>include_file_count := include_file_count p + 1, input_bytes := size_add (input_bytes p) len\<rparr>,
                     source_name, content,
                     if form = SOURCE_AUTO then detected_form source_name (source_form p) else form))"

text \<open>\<open>f2c_preprocessor_process_include\<close> over the processing of the buffer that is included.\<close>

type_synonym buffer_processor =
  "preprocessor \<Rightarrow> cptr \<Rightarrow> source_form \<Rightarrow> string \<Rightarrow> nat \<Rightarrow> string list \<Rightarrow> pp_output \<Rightarrow> preprocessor + preprocessor \<times> pp_output"

definition process_include ::
  "include_resolver \<Rightarrow> buffer_processor \<Rightarrow> preprocessor \<Rightarrow> cptr \<Rightarrow> nat \<Rightarrow> nat \<Rightarrow> pp_output \<Rightarrow>
    preprocessor + preprocessor \<times> pp_output" where
  "process_include resolver process p rest ln column out =
     (case expand_directive_operand p rest ln column (empty_buffer\<lparr>buffer_limit := max_preprocessed_bytes (limits p)\<rparr>) of
        Inl p \<Rightarrow> Inl p
      | Inr expanded \<Rightarrow>
          (case include_operand p (buffer_text expanded) ln column of
             Inl p \<Rightarrow> Inl p
           | Inr (name, system) \<Rightarrow>
               (case resolve_include resolver p name system ln column of
                  Inl p \<Rightarrow> Inl p
                | Inr source \<Rightarrow>
                    (case accept_include p source name ln column of
                       Inl p \<Rightarrow> Inl p
                     | Inr (p, source_name, content, form) \<Rightarrow>
                         process p content form source_name (include_depth p + 1) (include_parent p) out))))"

section \<open>Buffers\<close>

type_synonym includer =
  "preprocessor \<Rightarrow> cptr \<Rightarrow> nat \<Rightarrow> nat \<Rightarrow> pp_output \<Rightarrow> preprocessor + preprocessor \<times> pp_output"

text \<open>What a line that is no directive does: an \<open>INCLUDE\<close> line or text, where the group is active.\<close>

definition process_text_line ::
  "includer \<Rightarrow> source_form \<Rightarrow> preprocessor \<Rightarrow> cptr \<Rightarrow> pp_output \<Rightarrow> preprocessor + preprocessor \<times> pp_output" where
  "process_text_line include form p content out =
     (if \<not> is_active p then Inr (p, out)
      else case fortran_include_operand content form of
        Some (operand_at, column) \<Rightarrow> include p operand_at (current_line p) column out
      | None \<Rightarrow> expand_source_line p content (current_line p) form out)"

text \<open>The location of the next line.\<close>

definition advance_line :: "preprocessor \<Rightarrow> nat \<Rightarrow> nat \<Rightarrow> cptr \<Rightarrow> preprocessor + preprocessor" where
  "advance_line p ln line_count rest =
     (if location_pending p then
        Inr (p\<lparr>current_source_name := pending_source_name p, current_line := pending_line p, location_pending := False\<rparr>)
      else if rest = [] then Inr p
      else if SIZE_MAX - current_line p < line_count then
        Inl (diagnose_at p DIAGNOSTIC_RESOURCE_LIMIT ln 1 ''source line number exceeds the representable range'')
      else Inr (p\<lparr>current_line := current_line p + line_count\<rparr>))"

text \<open>One round of the loop over the text.\<close>

definition process_line ::
  "includer \<Rightarrow> source_form \<Rightarrow> preprocessor \<times> pp_output \<times> cptr \<Rightarrow> preprocessor + preprocessor \<times> pp_output \<times> cptr" where
  "process_line include form = (\<lambda>(p, out, s).
     let ln = current_line p; name = current_source_name p in
     case logical_line p s of
       Inl p \<Rightarrow> Inl p
     | Inr (content, line_count, rest) \<Rightarrow>
         (case (case process_directive include p content ln out of
                  Inl p \<Rightarrow> Inl p
                | Inr (True, p, out) \<Rightarrow> Inr (p, out)
                | Inr (False, p, out) \<Rightarrow> process_text_line include form p content out) of
            Inl p \<Rightarrow> Inl p
          | Inr (p, out) \<Rightarrow>
              (case append_newlines p name ln (take (length s - length rest) s) out of
                 Inl p \<Rightarrow> Inl p
               | Inr out \<Rightarrow>
                   (case advance_line p ln line_count rest of
                      Inl p \<Rightarrow> Inl p
                    | Inr p \<Rightarrow> Inr (p, out, rest)))))"

lemma join_directive_Nil: "join_directive p ln b n [] = Inr (b', n', rest) \<Longrightarrow> rest = []"
  by (simp add: join_directive.simps [of p ln b n "[]"] Let_def directive_continues_def line_rest_def next_line_def
      split: if_splits)

lemma join_directive_length:
  "join_directive p ln b n s = Inr (b', n', rest) \<Longrightarrow> s \<noteq> [] \<Longrightarrow> length rest < length s"
proof (induction p ln b n s rule: join_directive.induct)
  case (1 p ln b n s)
  let ?b = "buffer_append (memory p) b (if directive_continues s then butlast (line_part s) else line_part s)"
  show ?case
  proof (cases "directive_continues s")
    case True
    with "1.prems"(1) have j: "join_directive p ln ?b (n + 1) (next_line s) = Inr (b', n', rest)"
        "\<not> (buffer_failed ?b \<or> limit_exceeded ?b)" "n \<noteq> SIZE_MAX"
      by (auto simp: join_directive.simps [of p ln b n s] Let_def split: if_splits)
    show ?thesis
    proof (cases "next_line s = []")
      case True
      with j(1) have "rest = []" using join_directive_Nil by metis
      with "1.prems"(2) show ?thesis by simp
    next
      case False
      then show ?thesis
        using "1.IH" [OF refl j(2) _ j(3) j(1)] \<open>directive_continues s\<close> next_line_length [OF "1.prems"(2)] by simp
    qed
  next
    case False
    with "1.prems" show ?thesis
      by (auto simp: join_directive.simps [of p ln b n s] Let_def next_line_length split: if_splits)
  qed
qed

lemma logical_line_length:
  "logical_line p s = Inr (content, n, rest) \<Longrightarrow> s \<noteq> [] \<Longrightarrow> length rest < length s"
  by (auto simp: logical_line_def Let_def next_line_length join_directive_length
      split: if_splits sum.splits option.splits)

lemma process_line_length:
  "process_line include form (p, out, s) = Inr (q, out', rest) \<Longrightarrow> s \<noteq> [] \<Longrightarrow> length rest < length s"
  by (auto simp: process_line_def Let_def logical_line_length split: sum.splits prod.splits bool.splits)

function process_lines ::
  "includer \<Rightarrow> source_form \<Rightarrow> preprocessor \<times> pp_output \<times> cptr \<Rightarrow> preprocessor + preprocessor \<times> pp_output" where
  "process_lines include form (p, out, s) =
     (if s = [] then Inr (p, out)
      else case process_line include form (p, out, s) of
        Inl p \<Rightarrow> Inl p
      | Inr state \<Rightarrow> process_lines include form state)"
  by pat_completeness auto
termination
  by (relation "measure (\<lambda>(include, form, p, out, s). length s)") (auto dest: process_line_length)

declare process_lines.simps [simp del]

definition skip_byte_order_mark :: "cptr \<Rightarrow> cptr" where
  "skip_byte_order_mark s = (if map ascii (take 3 s) = [0xEF, 0xBB, 0xBF] then drop 3 s else s)"

text \<open>The fields that \<open>process_buffer\<close> sets before the loop and restores after it.\<close>

definition enter_buffer :: "preprocessor \<Rightarrow> source_form \<Rightarrow> string \<Rightarrow> nat \<Rightarrow> string list \<Rightarrow> preprocessor" where
  "enter_buffer p form name depth parents =
     p\<lparr>current_source_name := name, current_line := 1, pending_source_name := [], pending_line := 0,
       location_pending := False, is_active := True, source_form := form, include_depth := depth,
       include_parent := name # parents, conditional_base := length (conditionals p),
       continued_character_quote := NUL, continued_hollerith_characters := 0\<rparr>"

definition leave_buffer :: "preprocessor \<Rightarrow> preprocessor \<Rightarrow> preprocessor" where
  "leave_buffer saved p =
     p\<lparr>conditionals := take (length (conditionals saved)) (conditionals p),
       current_source_name := current_source_name saved, current_line := current_line saved,
       pending_source_name := pending_source_name saved, pending_line := pending_line saved,
       location_pending := location_pending saved, is_active := is_active saved,
       source_form := source_form saved, include_depth := include_depth saved,
       include_parent := include_parent saved, conditional_base := conditional_base saved,
       continued_character_quote := continued_character_quote saved,
       continued_hollerith_characters := continued_hollerith_characters saved\<rparr>"

definition report_open_group :: "preprocessor \<Rightarrow> preprocessor" where
  "report_open_group p =
     p\<lparr>diagnostics := diagnostics p @
        [\<lparr>report_code = DIAGNOSTIC_SYNTAX, report_source = opening_source_name (top_frame p),
          report_line = opening_line (top_frame p), report_begin_column = 1, report_end_column = 2,
          report_message = ''unterminated conditional preprocessing group opened here''\<rparr>]\<rparr>"

text \<open>\<open>f2c_preprocessor_process_buffer\<close> with the includes left open.\<close>

definition process_buffer_with :: "includer \<Rightarrow> buffer_processor" where
  "process_buffer_with include p content form name depth parents out =
     (case process_lines include form (enter_buffer p form name depth parents, out, skip_byte_order_mark content) of
        Inl q \<Rightarrow> Inl (leave_buffer p q)
      | Inr (q, out) \<Rightarrow>
          if length (conditionals q) \<noteq> length (conditionals p) then Inl (leave_buffer p (report_open_group q))
          else Inr (leave_buffer p q, out))"

text \<open>
  The knot: a buffer at \<open>n\<close> levels below the limit includes buffers at \<open>n - 1\<close> levels. At no level
  left the resolver is never asked, because the depth is checked first.
\<close>

fun process_buffer :: "include_resolver \<Rightarrow> nat \<Rightarrow> buffer_processor" where
  "process_buffer resolver 0 =
     process_buffer_with (process_include resolver (\<lambda>p content form name depth parents out. Inl p))"
| "process_buffer resolver (Suc n) =
     process_buffer_with (process_include resolver (process_buffer resolver n))"

section \<open>Sources\<close>

text \<open>\<open>memset(preprocessor, 0, ...)\<close>: every field that is not one of the context's.\<close>

definition clear_preprocessor :: "preprocessor \<Rightarrow> preprocessor" where
  "clear_preprocessor p =
     p\<lparr>macros := [], macro_capacity := 0, conditionals := [], conditional_capacity := 0, conditional_base := 0,
       current_source_name := [], current_line := 0, pending_source_name := [], pending_line := 0,
       location_pending := False, source_form := SOURCE_AUTO, include_depth := 0, include_parent := [],
       continued_character_quote := NUL, continued_hollerith_characters := 0, is_active := False\<rparr>"

text \<open>\<open>F2cPreprocessorDefinition\<close>; a NULL pointer is \<^const>\<open>None\<close>.\<close>

record preprocessor_definition =
  defined_name :: "string option"
  defined_value :: "string option"

definition define_option :: "preprocessor \<Rightarrow> preprocessor_definition \<Rightarrow> preprocessor + preprocessor" where
  "define_option p d =
     (let val = (case defined_value d of Some v \<Rightarrow> v | None \<Rightarrow> ''1'') in
      case defined_name d of
        None \<Rightarrow> Inl (diagnose_at p DIAGNOSTIC_INVALID_ARGUMENT 1 1 ''preprocessor definition has a null name'')
      | Some name \<Rightarrow>
          if max_preprocessed_bytes (limits p) < length name then
            Inl (diagnose_at p DIAGNOSTIC_RESOURCE_LIMIT 1 1 ''preprocessor definition name is too large'')
          else if max_preprocessed_bytes (limits p) < length val then
            Inl (diagnose_at p DIAGNOSTIC_RESOURCE_LIMIT 1 1 ''preprocessor definition value is too large'')
          else if list_ex is_line_break val then
            Inl (diagnose_at p DIAGNOSTIC_INVALID_ARGUMENT 1 1
              ''preprocessor definition values cannot contain line breaks'')
          else case context_source_name p ''<command-line>'' of
            None \<Rightarrow> Inl (diagnose_at p DIAGNOSTIC_OUT_OF_MEMORY 1 1
              ''out of memory while recording a preprocessor definition location'')
          | Some p \<Rightarrow>
              (case define_object p name val 1 1 ''<command-line>'' 1 DIAGNOSTIC_INVALID_ARGUMENT of
                 (True, p) \<Rightarrow> Inr p
               | (False, p) \<Rightarrow> Inl p))"

fun define_options :: "preprocessor \<Rightarrow> preprocessor_definition list \<Rightarrow> preprocessor + preprocessor" where
  "define_options p [] = Inr p"
| "define_options p (d # ds) = (case define_option p d of Inl p \<Rightarrow> Inl p | Inr p \<Rightarrow> define_options p ds)"

text \<open>
  \<open>initialize_preprocessor\<close>: the options give the name of the source, and the context the count and
  the array of definitions.
\<close>

definition initialize_preprocessor ::
  "preprocessor \<Rightarrow> string option \<Rightarrow> nat \<Rightarrow> preprocessor_definition list option \<Rightarrow> preprocessor + preprocessor" where
  "initialize_preprocessor p name definition_count definitions =
     (let p = clear_preprocessor p\<lparr>is_active := True, current_line := 1\<rparr>;
          name = (case name of Some n \<Rightarrow> n | None \<Rightarrow> ''<input>'')
      in case context_source_name p name of
        None \<Rightarrow> Inl (diagnose_at p DIAGNOSTIC_OUT_OF_MEMORY 1 1
          ''out of memory while initializing a preprocessor source location'')
      | Some p \<Rightarrow>
          let p = p\<lparr>current_source_name := name\<rparr> in
          if definition_count \<noteq> 0 \<and> definitions = None then
            Inl (diagnose_at p DIAGNOSTIC_INVALID_ARGUMENT 1 1
              ''preprocessor definitions are null but their count is nonzero'')
          else if max_preprocessor_definitions (limits p) < definition_count then
            Inl (diagnose_at p DIAGNOSTIC_RESOURCE_LIMIT 1 1 ''preprocessor definition limit exceeded'')
          else define_options p (take definition_count (case definitions of Some ds \<Rightarrow> ds | None \<Rightarrow> [])))"

definition empty_map :: source_map where
  "empty_map = \<lparr>segments = [], segment_capacity = 0\<rparr>"

text \<open>\<open>f2c_preprocess_source\<close>: the context after it, and the text with its map.\<close>

definition preprocess_source ::
  "include_resolver \<Rightarrow> preprocessor \<Rightarrow> cptr \<Rightarrow> source_form \<Rightarrow> string option \<Rightarrow> nat \<Rightarrow>
    preprocessor_definition list option \<Rightarrow> preprocessor + preprocessor \<times> string \<times> source_map" where
  "preprocess_source resolver p content form name definition_count definitions =
     (case initialize_preprocessor p name definition_count definitions of
        Inl p \<Rightarrow> Inl (clear_preprocessor p)
      | Inr p \<Rightarrow>
          (case process_buffer resolver (max_include_depth (limits p)) p content form (current_source_name p) 0 []
             (empty_buffer, empty_map) of
             Inl p \<Rightarrow> Inl (clear_preprocessor p)
           | Inr (p, b, m) \<Rightarrow>
               (case (case buffer_take (memory p) b of
                        Some t \<Rightarrow> Some t
                      | None \<Rightarrow> if memory p 1 then Some [] else None) of
                  None \<Rightarrow> Inl (clear_preprocessor (diagnose_at p DIAGNOSTIC_OUT_OF_MEMORY 1 1
                    ''out of memory while finalizing preprocessed source''))
                | Some t \<Rightarrow>
                    Inr (clear_preprocessor (p\<lparr>preprocessed_bytes := size_add (preprocessed_bytes p) (length (buffer_text b))\<rparr>),
                      t, m))))"

end
