(* ===== verification/Cond_Groups.thy ===== *)
theory Cond_Groups
  imports Preprocess_Buffer
begin

text \<open>
  The conditional groups of a source. The code reads the lines once, with a stack of frames; the
  relation \<open>well_grouped\<close> describes the same source by its structure: lines and groups, where a
  group is an opening directive, its branches and \<open>#endif\<close>, and at most one branch is active. The
  main theorem says that the loop accepts exactly the sources that have this structure, with the
  result that the structure gives.

  The locale \<open>includer\<close> is the contract between the loop and the includes inside it: an include
  leaves the groups of the including source alone. The model's own \<open>process_include\<close> keeps it.
\<close>

section \<open>Evaluating a condition changes nothing\<close>

lemma run_condition_advances: "run_condition p st v = (w, q) \<Longrightarrow> advances p q"
proof (induction p st v rule: run_condition.induct)
  case (1 p st v)
  show ?case
  proof (cases "failed p \<or> stack_frames st = []")
    case True
    with "1.prems" show ?thesis by (auto simp: run_condition.simps [of p st v] split: list.splits)
  next
    case False
    then obtain c below where s: "\<not> failed p" "stack_frames st = c # below" by (cases "stack_frames st") auto
    obtain go r st' v' where step: "condition_step p st c below v = (go, r, st', v')" by (metis prod_cases4)
    have "advances p r" using condition_step_progress [OF step] by (simp add: progress_def)
    moreover have "advances r q"
    proof (cases go)
      case True
      with "1.prems" s step have "run_condition r st' v' = (w, q)" by (simp add: run_condition.simps [of p st v])
      with "1.IH" [OF s step [symmetric]] True show ?thesis by simp
    next
      case False
      with "1.prems" s step show ?thesis by (simp add: run_condition.simps [of p st v])
    qed
    ultimately show ?thesis by (rule advances_trans)
  qed
qed

lemma parse_condition_advances:
  assumes "parse_condition p ev = (w, q)"
  shows "advances p q"
proof -
  obtain ok r st where f: "push_frame p \<lparr>stack_frames = [], stack_capacity = 16\<rparr> 1 ev 0 = (ok, r, st)"
    by (metis prod_cases3)
  then have "advances p r" by (auto simp: push_frame_def Let_def split: if_splits)
  then show ?thesis
    using assms f run_condition_advances [of r st _ w q]
    by (auto simp: parse_condition_def Let_def split: bool.splits intro: advances_trans)
qed

lemma evaluate_expanded_unchanged:
  assumes "evaluate_expanded p s ln column ev = (q, Some v)"
  shows "q = p"
proof -
  let ?p = "\<lparr>parser_preprocessor = p, parser_text = s, cursor = s, parser_line = ln, parser_column = column, failed = False\<rparr>"
  obtain w r where r: "parse_condition ?p ev = (w, r)" by fastforce
  then have "advances ?p (expression_space r)" using parse_condition_advances advances_trans by blast
  with assms r show ?thesis
    by (auto simp: evaluate_expanded_def Let_def advances_def split: if_splits)
qed

lemma evaluate_condition_unchanged: "evaluate_condition p s ln column ev = (q, Some v) \<Longrightarrow> q = p"
  by (auto simp: evaluate_condition_def evaluate_expanded_unchanged split: sum.splits)

section \<open>What a line keeps\<close>

definition keeps_frame :: "preprocessor \<Rightarrow> preprocessor \<Rightarrow> bool" where
  "keeps_frame p q \<longleftrightarrow>
     conditionals q = conditionals p \<and> conditional_base q = conditional_base p \<and> is_active q = is_active p \<and>
     include_depth q = include_depth p \<and> limits q = limits p \<and> memory q = memory p"

named_theorems keeps \<open>operations that leave the open groups alone\<close>

lemma keeps_frame_refl [simp, intro]: "keeps_frame p p"
  by (simp add: keeps_frame_def)

lemma keeps_frame_trans [trans]: "keeps_frame p q \<Longrightarrow> keeps_frame q r \<Longrightarrow> keeps_frame p r"
  by (simp add: keeps_frame_def)

lemma keeps_same_but_open [keeps]: "same_but_open p q \<Longrightarrow> keeps_frame p q"
  by (auto simp: same_but_open_def keeps_frame_def)

lemma keeps_source_name [keeps]: "context_source_name p name = Some q \<Longrightarrow> keeps_frame p q"
  by (auto simp: context_source_name_def Let_def keeps_frame_def split: if_splits)

lemma keeps_undefine [keeps]: "keeps_frame p (undefine p name)"
  by (auto simp: undefine_def Let_def keeps_frame_def split: option.splits)

lemma keeps_reports [keeps]:
  assumes "reports_only p q"
  shows "keeps_frame p q"
proof -
  obtain d where "q = p\<lparr>diagnostics := d\<rparr>" using assms unfolding reports_only_def by (rule that)
  then show ?thesis by (simp add: keeps_frame_def)
qed

lemma keeps_install_macro [keeps]:
  "install_macro p name val ps f v ln c sn dc code = (ok, q) \<Longrightarrow> keeps_frame p q"
  by (auto simp: install_macro_def reserve_macros_def Let_def keeps_frame_def split: if_splits option.splits)

lemma keeps_define [keeps]:
  assumes "process_define p rest ln column = (ok, q)"
  shows "keeps_frame p q"
proof (cases "identifier_start (peek (skip_space rest)) \<and> peek (word_end (skip_space rest)) = CHR ''(''")
  case True
  let ?s = "skip_space (drop 1 (word_end (skip_space rest)))"
  obtain r result where d: "define_parameters p rest ln column ?s [] 0 = (r, result)" by fastforce
  then have r: "keeps_frame p r"
    using define_parameters_outcome [OF d] by (auto simp: parameters_ok_def intro: keeps_reports)
  show ?thesis
    using assms d True keeps_frame_trans [OF r keeps_install_macro] r
    by (auto simp: process_define_def Let_def split: option.splits prod.splits)
next
  case False
  with assms show ?thesis
    by (auto simp: process_define_def Let_def keeps split: if_splits intro: keeps_install_macro)
qed

lemma keeps_line_directive [keeps]:
  assumes "process_line_directive p rest ln column = Inr q"
  shows "keeps_frame p q"
proof -
  obtain r name s where n: "line_name p rest (skip_space (fst (snd (parse_unsigned (skip_space rest))))) ln column = Inr (r, name, s)"
      "keeps_frame r q"
    using assms
    by (auto simp: process_line_directive_def Let_def keeps_frame_def split: prod.splits if_splits sum.splits option.splits)
  have "keeps_frame p r"
    using n(1) by (auto simp: line_name_def Let_def split: if_splits prod.splits option.splits intro: keeps_source_name)
  then show ?thesis using n(2) by (rule keeps_frame_trans)
qed

lemma keeps_advance_line [keeps]: "advance_line p ln n rest = Inr q \<Longrightarrow> keeps_frame p q"
  by (auto simp: advance_line_def keeps_frame_def split: if_splits)

lemma keeps_accept_include [keeps]:
  assumes "accept_include p source name ln column = Inr (q, x)"
  shows "keeps_frame p q"
proof -
  obtain n r k b where r: "context_source_name p n = Some r"
      "q = r\<lparr>include_file_count := k, input_bytes := b\<rparr>"
    using assms by (auto simp: accept_include_def Let_def split: if_splits option.splits)
  have "keeps_frame p r" using r(1) by (rule keeps_source_name)
  moreover have "keeps_frame r q" by (simp add: r(2) keeps_frame_def)
  ultimately show ?thesis by (rule keeps_frame_trans)
qed

section \<open>Includes and the lines of a buffer\<close>

text \<open>The contract of an include: on success it leaves the groups of the including source alone.\<close>

locale includer =
  fixes inc :: includer
  assumes include_keeps: "inc p rest ln column out = Inr (q, out') \<Longrightarrow> keeps_frame p q"
begin

lemma active_directive_keeps:
  assumes "process_active_directive inc p word rest ln column rest_column out = Inr (q, out')"
  shows "keeps_frame p q"
  using assms
  by (auto simp: process_active_directive_def keeps split: if_splits sum.splits prod.splits bool.splits
      intro: include_keeps keeps_define keeps_line_directive)

lemma text_line_keeps:
  assumes "process_text_line inc form p content out = Inr (q, out')"
  shows "keeps_frame p q"
  using assms
  by (auto simp: process_text_line_def split: if_splits option.splits
      intro: include_keeps keeps_same_but_open expand_source_line_frame)

lemma plain_directive_keeps:
  assumes "process_directive inc p content ln out = Inr (d, q, out')"
    and "directive_kind content \<in> {Not_Directive, Plain_Directive}"
  shows "keeps_frame p q"
  using assms
  by (auto simp: process_directive_def directive_kind_def Let_def split: if_splits sum.splits
      intro: keeps_line_directive active_directive_keeps)

end

section \<open>The structure of a source\<close>

type_synonym line_state = "preprocessor \<times> pp_output \<times> cptr"

definition state_active :: "line_state \<Rightarrow> bool" where
  "state_active x = is_active (fst x)"

text \<open>The logical line that a state is about to read.\<close>

definition state_line :: "line_state \<Rightarrow> string" where
  "state_line x = (case logical_line (fst x) (snd (snd x)) of Inr (content, _) \<Rightarrow> content | Inl _ \<Rightarrow> [])"

definition state_kind :: "line_state \<Rightarrow> directive_class" where
  "state_kind x = directive_kind (state_line x)"

text \<open>
  The value of the condition of an \<open>#ifdef\<close>, \<open>#ifndef\<close>, \<open>#if\<close> or \<open>#elif\<close> line: whether the name is
  defined, or what the expression evaluates to; an expression that is not evaluated counts as false.
\<close>

definition line_condition :: "preprocessor \<Rightarrow> cptr \<Rightarrow> bool \<Rightarrow> bool option" where
  "line_condition p content evaluate =
     (let word = word_text (directive_at content); rest = word_end (directive_at content);
          column = length content - length rest + 1
      in if word = ''ifdef'' \<or> word = ''ifndef'' then
           (case parse_name_operand p rest (current_line p) column of
              Inr name \<Rightarrow> Some ((find_macro p name \<noteq> None) = (word = ''ifdef''))
            | Inl _ \<Rightarrow> None)
         else snd (evaluate_condition p rest (current_line p) column evaluate))"

text \<open>
  \<open>well_grouped x y\<close>: the text between the states \<open>x\<close> and \<open>y\<close> is a sequence of lines and groups.
  \<open>group_rest act taken x y\<close>: it is the rest of a group, from the directive that ends the current
  branch to \<open>#endif\<close>, where \<open>act\<close> says whether the group stands in active text and \<open>taken\<close> whether
  a branch before was selected. A line keeps the activity of the text around it; a branch is active
  when the group stands in active text, no branch before it was selected and its condition holds.
\<close>

inductive well_grouped :: "includer \<Rightarrow> source_form \<Rightarrow> line_state \<Rightarrow> line_state \<Rightarrow> bool"
  and group_rest :: "includer \<Rightarrow> source_form \<Rightarrow> bool \<Rightarrow> bool \<Rightarrow> line_state \<Rightarrow> line_state \<Rightarrow> bool"
  for inc form where
  No_Line: "well_grouped inc form x x"
| Plain_Line:
    "state_kind x \<in> {Not_Directive, Plain_Directive} \<Longrightarrow> snd (snd x) \<noteq> [] \<Longrightarrow>
     process_line inc form x = Inr y \<Longrightarrow> state_active y = state_active x \<Longrightarrow>
     well_grouped inc form y z \<Longrightarrow> well_grouped inc form x z"
| Group:
    "state_kind x = Group_Start \<Longrightarrow> snd (snd x) \<noteq> [] \<Longrightarrow> process_line inc form x = Inr y \<Longrightarrow>
     line_condition (fst x) (state_line x) (state_active x) = Some condition \<Longrightarrow>
     state_active y = (state_active x \<and> condition) \<Longrightarrow>
     well_grouped inc form y z \<Longrightarrow> group_rest inc form (state_active x) condition z w \<Longrightarrow>
     well_grouped inc form w u \<Longrightarrow> well_grouped inc form x u"
| Endif_Branch:
    "state_kind x = Group_End \<Longrightarrow> snd (snd x) \<noteq> [] \<Longrightarrow> process_line inc form x = Inr y \<Longrightarrow>
     state_active y = act \<Longrightarrow> group_rest inc form act taken x y"
| Elif_Branch:
    "state_kind x = Group_Elif \<Longrightarrow> snd (snd x) \<noteq> [] \<Longrightarrow> process_line inc form x = Inr y \<Longrightarrow>
     line_condition (fst x) (state_line x) (act \<and> \<not> taken) = Some condition \<Longrightarrow>
     state_active y = (act \<and> \<not> taken \<and> condition) \<Longrightarrow>
     well_grouped inc form y z \<Longrightarrow> group_rest inc form act (taken \<or> condition) z w \<Longrightarrow>
     group_rest inc form act taken x w"
| Else_Branch:
    "state_kind x = Group_Else \<Longrightarrow> snd (snd x) \<noteq> [] \<Longrightarrow> process_line inc form x = Inr y \<Longrightarrow>
     state_active y = (act \<and> \<not> taken) \<Longrightarrow> well_grouped inc form y z \<Longrightarrow>
     state_kind z = Group_End \<Longrightarrow> snd (snd z) \<noteq> [] \<Longrightarrow> process_line inc form z = Inr w \<Longrightarrow>
     state_active w = act \<Longrightarrow> group_rest inc form act taken x w"

section \<open>What a line does to the groups\<close>

text \<open>A line after its directive only appends line breaks and moves on.\<close>

lemma process_line_split:
  assumes "process_line inc form (p, out, s) = Inr (q, out', rest)"
  obtains r out1 n where "logical_line p s = Inr (state_line (p, out, s), n, rest)" "keeps_frame r q"
    "process_directive inc p (state_line (p, out, s)) (current_line p) out = Inr (True, r, out1) \<or>
     (\<exists>p' out2. process_directive inc p (state_line (p, out, s)) (current_line p) out = Inr (False, p', out2) \<and>
        process_text_line inc form p' (state_line (p, out, s)) out2 = Inr (r, out1))"
proof -
  obtain content n rest' where l: "logical_line p s = Inr (content, n, rest')"
    using assms by (auto simp: process_line_def Let_def split: sum.splits)
  then have content: "state_line (p, out, s) = content" by (simp add: state_line_def)
  obtain r out1 where r: "(case process_directive inc p content (current_line p) out of
        Inl p \<Rightarrow> Inl p
      | Inr (True, p, out) \<Rightarrow> Inr (p, out)
      | Inr (False, p, out) \<Rightarrow> process_text_line inc form p content out) = Inr (r, out1)"
    and q: "advance_line r (current_line p) n rest' = Inr q" "rest' = rest"
    using assms l by (auto simp: process_line_def Let_def split: sum.splits prod.splits)
  show thesis
    using that [of n r out1] l r q(2) keeps_advance_line [OF q(1)]
    by (auto simp: content split: sum.splits prod.splits bool.splits)
qed

lemma directive_result_False:
  "process_directive inc p content ln out = Inr (False, q, out') \<Longrightarrow> q = p \<and> out' = out \<and> directive_kind content = Not_Directive"
  by (auto simp: process_directive_def directive_kind_def Let_def split: if_splits sum.splits)

lemma process_line_directive_kind:
  assumes "process_line inc form (p, out, s) = Inr (q, out', rest)"
    and "state_kind (p, out, s) \<notin> {Not_Directive, Plain_Directive}"
  obtains r out1 where "process_directive inc p (state_line (p, out, s)) (current_line p) out = Inr (True, r, out1)"
    "keeps_frame r q"
  using assms by (elim process_line_split) (auto simp: state_kind_def dest: directive_result_False)

definition keeps_limits :: "preprocessor \<Rightarrow> preprocessor \<Rightarrow> bool" where
  "keeps_limits p q \<longleftrightarrow> conditional_base q = conditional_base p \<and> include_depth q = include_depth p \<and>
     limits q = limits p \<and> memory q = memory p"

lemma keeps_frame_limits: "keeps_frame p q \<Longrightarrow> keeps_limits p q"
  by (simp add: keeps_frame_def keeps_limits_def)

lemma keeps_limits_refl [simp, intro]: "keeps_limits p p"
  by (simp add: keeps_limits_def)

lemma keeps_limits_trans [trans]: "keeps_limits p q \<Longrightarrow> keeps_limits q r \<Longrightarrow> keeps_limits p r"
  by (simp add: keeps_limits_def)

lemma keeps_frame_groups:
  "keeps_frame p q \<Longrightarrow> conditionals q = conditionals p \<and> is_active q = is_active p"
  by (simp add: keeps_frame_def)

lemma start_condition_value:
  assumes "start_condition p word rest ln column = Inr (q, condition)"
  shows "q = p" and "word \<in> {''ifdef'', ''ifndef''} \<Longrightarrow>
      \<exists>name. parse_name_operand p rest ln column = Inr name \<and> condition = ((find_macro p name \<noteq> None) = (word = ''ifdef''))"
    and "word \<notin> {''ifdef'', ''ifndef''} \<Longrightarrow>
      snd (evaluate_condition p rest ln column (is_active p)) = Some condition"
  using assms
  by (auto simp: start_condition_def Let_def dest: evaluate_condition_unchanged
      split: if_splits sum.splits prod.splits option.splits)

lemma reserve_conditionals_keeps: "reserve_conditionals p = Some q \<Longrightarrow> keeps_frame p q"
  by (auto simp: reserve_conditionals_def Let_def keeps_frame_def split: if_splits)

lemma push_conditional_result:
  assumes "push_conditional p condition ln column = Inr q"
  shows "conditionals q = conditionals p @
      [\<lparr>opening_source_name = current_source_name p, opening_line = ln, parent_active = is_active p,
        branch_taken = condition, else_seen = False\<rparr>]"
    and "is_active q = (is_active p \<and> condition)" and "keeps_limits p q"
proof -
  obtain r where r: "reserve_conditionals p = Some r"
    and q: "q = r\<lparr>conditionals := conditionals r @ [\<lparr>opening_source_name = current_source_name r, opening_line = ln,
        parent_active = is_active r, branch_taken = condition, else_seen = False\<rparr>],
      is_active := is_active r \<and> condition\<rparr>"
    using assms by (auto simp: push_conditional_def split: if_splits option.splits)
  have s: "current_source_name r = current_source_name p"
    using r by (auto simp: reserve_conditionals_def Let_def split: if_splits)
  from reserve_conditionals_keeps [OF r] show "conditionals q = conditionals p @
      [\<lparr>opening_source_name = current_source_name p, opening_line = ln, parent_active = is_active p,
        branch_taken = condition, else_seen = False\<rparr>]"
    "is_active q = (is_active p \<and> condition)" "keeps_limits p q"
    by (simp_all add: q s keeps_frame_def keeps_limits_def)
qed

lemma identifier_start_not_digit [simp]: "identifier_start c \<Longrightarrow> \<not> isdigit c"
  by (auto simp: identifier_start_def char_class)

lemma identifier_start_nonempty [simp]: "identifier_start (peek s) \<Longrightarrow> s \<noteq> []"
  by auto

text \<open>The four kinds of conditional lines, as \<open>process_directive\<close> reads them.\<close>

lemma conditional_directive:
  assumes "process_directive inc p content ln out = Inr (d, q, out')"
  shows "directive_kind content = Group_Start \<Longrightarrow>
      process_conditional_start p (word_text (directive_at content)) (word_end (directive_at content)) ln
        (length content - length (word_end (directive_at content)) + 1) = Inr q \<and>
      word_text (directive_at content) \<in> {''if'', ''ifdef'', ''ifndef''}"
    and "directive_kind content = Group_Elif \<Longrightarrow>
      process_elif p (word_end (directive_at content)) ln
        (length content - length (word_end (directive_at content)) + 1) = Inr q \<and>
      word_text (directive_at content) = ''elif''"
    and "directive_kind content = Group_Else \<Longrightarrow> \<exists>column. process_else p (word_end (directive_at content)) ln column = Inr q"
    and "directive_kind content = Group_End \<Longrightarrow> \<exists>column. process_endif p (word_end (directive_at content)) ln column = Inr q"
  using assms
  by (auto simp: process_directive_def directive_kind_def Let_def identifier_not_NUL split: if_splits sum.splits)

text \<open>What a line of each kind does to the groups, read off a round of the loop.\<close>

lemma start_line:
  assumes "process_line inc form (p, out, s) = Inr (q, out', rest)" "state_kind (p, out, s) = Group_Start"
  obtains condition frame where
    "line_condition p (state_line (p, out, s)) (is_active p) = Some condition"
    "conditionals q = conditionals p @ [frame]" "parent_active frame = is_active p"
    "branch_taken frame = condition" "\<not> else_seen frame"
    "is_active q = (is_active p \<and> condition)" "keeps_limits p q"
proof -
  let ?c = "state_line (p, out, s)"
  let ?word = "word_text (directive_at ?c)" and ?rest = "word_end (directive_at ?c)"
  let ?column = "length ?c - length ?rest + 1"
  obtain r out1 where d: "process_directive inc p ?c (current_line p) out = Inr (True, r, out1)" "keeps_frame r q"
    using assms by (auto elim: process_line_directive_kind)
  from conditional_directive(1) [OF d(1)] assms(2)
  have start: "process_conditional_start p ?word ?rest (current_line p) ?column = Inr r"
    and word: "?word \<in> {''if'', ''ifdef'', ''ifndef''}" by (simp_all add: state_kind_def)
  obtain p' condition where c: "start_condition p ?word ?rest (current_line p) ?column = Inr (p', condition)"
      "push_conditional p' condition (current_line p) ?column = Inr r"
    using start by (auto simp: process_conditional_start_def split: sum.splits)
  note p' = start_condition_value [OF c(1)]
  have "line_condition p ?c (is_active p) = Some condition"
    using p'(2,3) word by (auto simp: line_condition_def Let_def)
  with push_conditional_result [OF c(2)] that d(2) show thesis
    by (simp add: p'(1) keeps_frame_def keeps_limits_def)
qed

lemma elif_line:
  assumes "process_line inc form (p, out, s) = Inr (q, out', rest)" "state_kind (p, out, s) = Group_Elif"
    and "conditionals p = below @ [frame]"
  obtains condition where
    "length (conditionals p) \<noteq> conditional_base p" "\<not> else_seen frame"
    "line_condition p (state_line (p, out, s)) (parent_active frame \<and> \<not> branch_taken frame) = Some condition"
    "conditionals q = below @ [frame\<lparr>branch_taken := branch_taken frame \<or> condition\<rparr>]"
    "is_active q = (parent_active frame \<and> \<not> branch_taken frame \<and> condition)" "keeps_limits p q"
proof -
  let ?c = "state_line (p, out, s)"
  let ?rest = "word_end (directive_at ?c)"
  let ?column = "length ?c - length ?rest + 1"
  let ?ev = "parent_active frame \<and> \<not> branch_taken frame"
  obtain r out1 where d: "process_directive inc p ?c (current_line p) out = Inr (True, r, out1)" "keeps_frame r q"
    using assms(1,2) by (auto elim: process_line_directive_kind)
  from conditional_directive(2) [OF d(1)] assms(2)
  have elif_ok: "process_elif p ?rest (current_line p) ?column = Inr r"
    and word: "word_text (directive_at ?c) = ''elif''" by (simp_all add: state_kind_def)
  have top: "top_frame p = frame" by (simp add: top_frame_def assms(3))
  obtain p' condition where c: "evaluate_condition p ?rest (current_line p) ?column ?ev = (p', Some condition)"
      "length (conditionals p) \<noteq> conditional_base p" "\<not> else_seen frame"
      "r = (let p = p'\<lparr>is_active := parent_active frame \<and> \<not> branch_taken frame \<and> condition\<rparr>
            in if condition then set_top_frame p (frame\<lparr>branch_taken := True\<rparr>) else p)"
    using elif_ok by (auto simp: process_elif_def top Let_def split: if_splits prod.splits option.splits)
  have p': "p' = p" using c(1) by (rule evaluate_condition_unchanged)
  have "line_condition p ?c ?ev = Some condition"
    using c(1) word by (simp add: line_condition_def Let_def)
  moreover have "conditionals r = below @ [frame\<lparr>branch_taken := branch_taken frame \<or> condition\<rparr>]"
    "is_active r = (parent_active frame \<and> \<not> branch_taken frame \<and> condition)" "keeps_limits p r"
    by (simp_all add: c(4) p' Let_def set_top_frame_def assms(3) keeps_limits_def)
  ultimately show thesis using that c(2,3) d(2) by (simp add: keeps_frame_def keeps_limits_def)
qed

lemma else_line:
  assumes "process_line inc form (p, out, s) = Inr (q, out', rest)" "state_kind (p, out, s) = Group_Else"
    and "conditionals p = below @ [frame]"
  shows "length (conditionals p) \<noteq> conditional_base p \<and> \<not> else_seen frame \<and>
    conditionals q = below @ [frame\<lparr>else_seen := True, branch_taken := True\<rparr>] \<and>
    is_active q = (parent_active frame \<and> \<not> branch_taken frame) \<and> keeps_limits p q"
proof -
  obtain r out1 where d: "process_directive inc p (state_line (p, out, s)) (current_line p) out = Inr (True, r, out1)"
      "keeps_frame r q"
    using assms(1,2) by (auto elim: process_line_directive_kind)
  obtain rest' column where e: "process_else p rest' (current_line p) column = Inr r"
    using conditional_directive(3) [OF d(1)] assms(2) by (auto simp: state_kind_def)
  have top: "top_frame p = frame" by (simp add: top_frame_def assms(3))
  from e d(2) show ?thesis
    by (auto simp: process_else_def top Let_def set_top_frame_def assms(3) keeps_frame_def keeps_limits_def
        split: if_splits)
qed

lemma endif_line:
  assumes "process_line inc form (p, out, s) = Inr (q, out', rest)" "state_kind (p, out, s) = Group_End"
  shows "length (conditionals p) \<noteq> conditional_base p \<and> conditionals q = butlast (conditionals p) \<and>
    is_active q = parent_active (top_frame p) \<and> keeps_limits p q"
proof -
  obtain r out1 where d: "process_directive inc p (state_line (p, out, s)) (current_line p) out = Inr (True, r, out1)"
      "keeps_frame r q"
    using assms by (auto elim: process_line_directive_kind)
  obtain rest' column where "process_endif p rest' (current_line p) column = Inr r"
    using conditional_directive(4) [OF d(1)] assms(2) by (auto simp: state_kind_def)
  with d(2) show ?thesis
    by (auto simp: process_endif_def keeps_frame_def keeps_limits_def split: if_splits)
qed

lemma butlast_line:
  assumes "process_line inc form (p, out, s) = Inr (q, out', rest)"
    and "state_kind (p, out, s) \<in> {Group_Elif, Group_Else}"
  shows "conditionals p \<noteq> [] \<Longrightarrow> butlast (conditionals q) = butlast (conditionals p)"
proof -
  assume "conditionals p \<noteq> []"
  then obtain below frame where "conditionals p = below @ [frame]" by (cases "conditionals p" rule: rev_cases) auto
  then show ?thesis
    using assms else_line [OF assms(1), of below frame] by (auto elim: elif_line)
qed

context includer begin

lemma plain_line:
  assumes "process_line inc form (p, out, s) = Inr (q, out', rest)"
    and "state_kind (p, out, s) \<in> {Not_Directive, Plain_Directive}"
  shows "keeps_frame p q"
proof -
  obtain r out1 n where r: "keeps_frame r q"
    "process_directive inc p (state_line (p, out, s)) (current_line p) out = Inr (True, r, out1) \<or>
     (\<exists>p' out2. process_directive inc p (state_line (p, out, s)) (current_line p) out = Inr (False, p', out2) \<and>
        process_text_line inc form p' (state_line (p, out, s)) out2 = Inr (r, out1))"
    using assms(1) by (rule process_line_split)
  have "keeps_frame p r"
    using r(2) assms(2)
    by (auto simp: state_kind_def dest: plain_directive_keeps text_line_keeps intro: keeps_frame_trans)
  with r(1) show ?thesis by (rule keeps_frame_trans [rotated])
qed

end

lemma branch_line_open:
  assumes "process_line inc form (p, out, s) = Inr (q, out', rest)"
    and "state_kind (p, out, s) \<in> {Group_Elif, Group_Else}"
  shows "length (conditionals p) \<noteq> conditional_base p"
proof -
  obtain r out1 where d: "process_directive inc p (state_line (p, out, s)) (current_line p) out = Inr (True, r, out1)"
    using assms by (auto elim: process_line_directive_kind)
  have "\<exists>content column. process_elif p content (current_line p) column = Inr r \<or>
      process_else p content (current_line p) column = Inr r"
    using conditional_directive(2,3) [OF d] assms(2) by (auto simp: state_kind_def)
  then show ?thesis by (auto simp: process_elif_def process_else_def split: if_splits)
qed

section \<open>A buffer leaves the groups below its base alone\<close>

definition keeps_outer :: "preprocessor \<Rightarrow> preprocessor \<Rightarrow> bool" where
  "keeps_outer p q \<longleftrightarrow> keeps_limits p q \<and> conditional_base p \<le> length (conditionals q) \<and>
     take (conditional_base p) (conditionals q) = take (conditional_base p) (conditionals p)"

lemma keeps_outer_trans: "keeps_outer p q \<Longrightarrow> keeps_outer q r \<Longrightarrow> keeps_outer p r"
  by (auto simp: keeps_outer_def keeps_limits_def)

context includer begin

lemma line_keeps_outer:
  assumes "process_line inc form (p, out, s) = Inr (q, out', rest)"
    and "conditional_base p \<le> length (conditionals p)"
  shows "keeps_outer p q"
proof (cases "state_kind (p, out, s)")
  case Group_Start
  obtain condition frame where "conditionals q = conditionals p @ [frame]" "keeps_limits p q"
    using start_line [OF assms(1) Group_Start] by metis
  with assms(2) show ?thesis by (simp add: keeps_outer_def)
next
  case Group_End
  from endif_line [OF assms(1) Group_End] assms(2) show ?thesis
    by (auto simp: keeps_outer_def take_butlast le_less_Suc_eq)
next
  case Group_Elif
  have "conditionals p \<noteq> []" using branch_line_open [OF assms(1)] assms(2) Group_Elif by auto
  then obtain below frame where p: "conditionals p = below @ [frame]" by (cases "conditionals p" rule: rev_cases) auto
  obtain condition where q: "length (conditionals p) \<noteq> conditional_base p" "keeps_limits p q"
      "conditionals q = below @ [frame\<lparr>branch_taken := branch_taken frame \<or> condition\<rparr>]"
    by (rule elif_line [OF assms(1) Group_Elif p])
  with assms(2) have "conditional_base p \<le> length below" by (simp add: p)
  with q(2,3) show ?thesis by (simp add: keeps_outer_def p)
next
  case Group_Else
  have "conditionals p \<noteq> []" using branch_line_open [OF assms(1)] assms(2) Group_Else by auto
  then obtain below frame where p: "conditionals p = below @ [frame]" by (cases "conditionals p" rule: rev_cases) auto
  show ?thesis
    using else_line [OF assms(1) Group_Else p] assms(2) p by (auto simp: keeps_outer_def le_Suc_eq)
qed (use plain_line [OF assms(1)] assms(2) in \<open>auto simp: keeps_outer_def keeps_frame_def keeps_limits_def\<close>)

lemma lines_keep_outer:
  "process_lines inc form (p, out, s) = Inr (q, out') \<Longrightarrow> conditional_base p \<le> length (conditionals p) \<Longrightarrow>
    keeps_outer p q"
proof (induction "length s" arbitrary: p out s rule: less_induct)
  case less
  show ?case
  proof (cases "s = []")
    case True
    with less.prems show ?thesis by (simp add: process_lines.simps keeps_outer_def)
  next
    case False
    with less.prems(1) obtain p1 out1 s1 where step: "process_line inc form (p, out, s) = Inr (p1, out1, s1)"
        "process_lines inc form (p1, out1, s1) = Inr (q, out')"
      by (auto simp: process_lines.simps [of inc form p] split: sum.splits)
    have k: "keeps_outer p p1" using line_keeps_outer [OF step(1) less.prems(2)] .
    then have "conditional_base p1 \<le> length (conditionals p1)" by (simp add: keeps_outer_def keeps_limits_def)
    from less.hyps [OF process_line_length [OF step(1) False] step(2) this]
    show ?thesis using k keeps_outer_trans by blast
  qed
qed

lemma buffer_keeps:
  assumes "process_buffer_with inc p content form name depth parents out = Inr (q, out')"
  shows "keeps_frame p q"
proof -
  let ?e = "enter_buffer p form name depth parents"
  obtain r where r: "process_lines inc form (?e, out, skip_byte_order_mark content) = Inr (r, out')"
      "length (conditionals r) = length (conditionals p)" "q = leave_buffer p r"
    using assms by (auto simp: process_buffer_with_def split: sum.splits if_splits)
  have "keeps_outer ?e r" using lines_keep_outer [OF r(1)] by (simp add: enter_buffer_def)
  then show ?thesis
    by (auto simp: r(2,3) keeps_outer_def keeps_limits_def keeps_frame_def enter_buffer_def leave_buffer_def)
qed

end

text \<open>The includes of the model keep the contract, at every level.\<close>

lemma process_include_keeps:
  assumes "\<And>p content form name depth parents out q out'.
      process p content form name depth parents out = Inr (q, out') \<Longrightarrow> keeps_frame p q"
    and "process_include resolver process p rest ln column out = Inr (q, out')"
  shows "keeps_frame p q"
  using assms(2)
  by (auto simp: process_include_def split: sum.splits prod.splits
      dest!: assms(1) keeps_accept_include intro: keeps_frame_trans)

definition deeper_buffers :: "include_resolver \<Rightarrow> nat \<Rightarrow> buffer_processor" where
  "deeper_buffers resolver n =
     (case n of 0 \<Rightarrow> (\<lambda>p content form name depth parents out. Inl p) | Suc k \<Rightarrow> process_buffer resolver k)"

lemma process_buffer_unfold:
  "process_buffer resolver n = process_buffer_with (process_include resolver (deeper_buffers resolver n))"
  by (cases n) (simp_all add: deeper_buffers_def)

lemma deeper_buffers_keep:
  "deeper_buffers resolver n p content form name depth parents out = Inr (q, out') \<Longrightarrow> keeps_frame p q"
proof (induction n arbitrary: p content form name depth parents out q out')
  case (Suc n)
  have "includer (process_include resolver (deeper_buffers resolver n))"
    by (unfold_locales, rule process_include_keeps [OF Suc.IH])
  from includer.buffer_keeps [OF this] Suc.prems show ?case
    by (simp add: deeper_buffers_def process_buffer_unfold)
qed (simp add: deeper_buffers_def)

interpretation included: includer "process_include resolver (deeper_buffers resolver n)" for resolver n
  by (unfold_locales, rule process_include_keeps [OF deeper_buffers_keep])

section \<open>The loop and the structure agree\<close>

lemma process_lines_step:
  "process_line inc form x = Inr y \<Longrightarrow> snd (snd x) \<noteq> [] \<Longrightarrow> process_lines inc form x = process_lines inc form y"
  by (cases x; cases y; hypsubst; subst process_lines.simps) simp

lemma process_lines_stop: "snd (snd x) = [] \<Longrightarrow> process_lines inc form x = Inr (fst x, fst (snd x))"
  by (cases x) (simp add: process_lines.simps)

text \<open>What is open when the loop stands inside groups, the innermost first.\<close>

definition frame_rest :: "includer \<Rightarrow> source_form \<Rightarrow> conditional_frame \<Rightarrow> line_state \<Rightarrow> line_state \<Rightarrow> bool" where
  "frame_rest inc form frame x y \<longleftrightarrow>
     (if else_seen frame
      then state_kind x = Group_End \<and> snd (snd x) \<noteq> [] \<and> process_line inc form x = Inr y \<and>
        state_active y = parent_active frame
      else group_rest inc form (parent_active frame) (branch_taken frame) x y)"

fun open_rest :: "includer \<Rightarrow> source_form \<Rightarrow> conditional_frame list \<Rightarrow> line_state \<Rightarrow> line_state \<Rightarrow> bool" where
  "open_rest inc form [] x y = well_grouped inc form x y"
| "open_rest inc form (frame # frames) x y =
     (\<exists>z w. well_grouped inc form x z \<and> frame_rest inc form frame z w \<and> open_rest inc form frames w y)"

lemma open_rest_prepend:
  assumes "\<And>z. well_grouped inc form y z \<Longrightarrow> well_grouped inc form x z" "open_rest inc form frames y u"
  shows "open_rest inc form frames x u"
proof (cases frames)
  case Nil
  with assms show ?thesis by simp
next
  case (Cons frame below)
  with assms(2) obtain z w where "well_grouped inc form y z" "frame_rest inc form frame z w"
      "open_rest inc form below w u"
    unfolding Cons open_rest.simps by (elim exE conjE) (rule that)
  with assms(1) show ?thesis unfolding Cons open_rest.simps by (intro exI conjI)
qed

lemma open_rest_group:
  assumes "open_rest inc form (frame # frames) y u" "\<not> else_seen frame"
    and "state_kind x = Group_Start" "snd (snd x) \<noteq> []" "process_line inc form x = Inr y"
    and "line_condition (fst x) (state_line x) (state_active x) = Some (branch_taken frame)"
    and "state_active y = (state_active x \<and> branch_taken frame)" "parent_active frame = state_active x"
  shows "open_rest inc form frames x u"
proof -
  obtain z w where z: "well_grouped inc form y z" "group_rest inc form (state_active x) (branch_taken frame) z w"
      "open_rest inc form frames w u"
    using assms(1,2,8) by (auto simp: frame_rest_def)
  show ?thesis
    using open_rest_prepend [OF Group [OF assms(3-7) z(1,2)] z(3)] .
qed

lemma open_rest_branch:
  assumes "open_rest inc form (frame' # frames) y u"
    and "\<And>z w. well_grouped inc form y z \<Longrightarrow> frame_rest inc form frame' z w \<Longrightarrow> frame_rest inc form frame x w"
  shows "open_rest inc form (frame # frames) x u"
proof -
  obtain z w where z: "well_grouped inc form y z" "frame_rest inc form frame' z w" "open_rest inc form frames w u"
    using assms(1) unfolding open_rest.simps by (elim exE conjE) (rule that)
  show ?thesis
    unfolding open_rest.simps
    by (intro exI [of _ x] exI [of _ w] conjI No_Line assms(2) [OF z(1,2)] z(3))
qed

text \<open>The same facts about whole states.\<close>

lemma start_state:
  "process_line inc form x = Inr y \<Longrightarrow> state_kind x = Group_Start \<Longrightarrow>
    \<exists>frame. conditionals (fst y) = conditionals (fst x) @ [frame] \<and> parent_active frame = state_active x \<and>
      line_condition (fst x) (state_line x) (state_active x) = Some (branch_taken frame) \<and> \<not> else_seen frame \<and>
      state_active y = (state_active x \<and> branch_taken frame) \<and> conditional_base (fst y) = conditional_base (fst x)"
  by (cases x; cases y) (auto simp: state_active_def keeps_limits_def elim!: start_line)

lemma elif_state:
  "process_line inc form x = Inr y \<Longrightarrow> state_kind x = Group_Elif \<Longrightarrow> conditionals (fst x) = below @ [frame] \<Longrightarrow>
    length (conditionals (fst x)) \<noteq> conditional_base (fst x) \<and> \<not> else_seen frame \<and>
    (\<exists>condition. line_condition (fst x) (state_line x) (parent_active frame \<and> \<not> branch_taken frame) = Some condition \<and>
      conditionals (fst y) = below @ [frame\<lparr>branch_taken := branch_taken frame \<or> condition\<rparr>] \<and>
      state_active y = (parent_active frame \<and> \<not> branch_taken frame \<and> condition)) \<and>
    conditional_base (fst y) = conditional_base (fst x)"
  by (cases x; cases y) (auto simp: state_active_def keeps_limits_def elim!: elif_line)

lemma else_state:
  "process_line inc form x = Inr y \<Longrightarrow> state_kind x = Group_Else \<Longrightarrow> conditionals (fst x) = below @ [frame] \<Longrightarrow>
    length (conditionals (fst x)) \<noteq> conditional_base (fst x) \<and> \<not> else_seen frame \<and>
    conditionals (fst y) = below @ [frame\<lparr>else_seen := True, branch_taken := True\<rparr>] \<and>
    state_active y = (parent_active frame \<and> \<not> branch_taken frame) \<and>
    conditional_base (fst y) = conditional_base (fst x)"
  by (cases x; cases y) (auto simp: state_active_def keeps_limits_def dest: else_line)

lemma endif_state:
  "process_line inc form x = Inr y \<Longrightarrow> state_kind x = Group_End \<Longrightarrow>
    length (conditionals (fst x)) \<noteq> conditional_base (fst x) \<and>
    conditionals (fst y) = butlast (conditionals (fst x)) \<and>
    state_active y = parent_active (last (conditionals (fst x))) \<and> conditional_base (fst y) = conditional_base (fst x)"
  by (cases x; cases y) (auto simp: state_active_def keeps_limits_def top_frame_def dest: endif_line)

context includer begin

lemma plain_state:
  "process_line inc form x = Inr y \<Longrightarrow> state_kind x \<in> {Not_Directive, Plain_Directive} \<Longrightarrow>
    conditionals (fst y) = conditionals (fst x) \<and> state_active y = state_active x \<and>
    conditional_base (fst y) = conditional_base (fst x)"
  by (cases x; cases y) (auto simp: state_active_def keeps_frame_def dest: plain_line)

lemma structure_stack:
  "well_grouped inc form x y \<Longrightarrow> conditionals (fst y) = conditionals (fst x)" and
  "group_rest inc form act taken x' y' \<Longrightarrow>
     conditionals (fst x') \<noteq> [] \<longrightarrow> conditionals (fst y') = butlast (conditionals (fst x'))"
proof (induction x y and act taken x' y' rule: well_grouped_group_rest.inducts)
  case (Plain_Line x y z)
  then show ?case using plain_state by metis
next
  case (Group x y condition z w u)
  have "process_line inc form x = Inr y" "state_kind x = Group_Start" by fact+
  then obtain frame where "conditionals (fst y) = conditionals (fst x) @ [frame]" by (blast dest: start_state)
  with Group show ?case by simp
next
  case (Endif_Branch x y act taken)
  have "process_line inc form x = Inr y" "state_kind x = Group_End" by fact+
  from endif_state [OF this] show ?case by simp
next
  case (Elif_Branch x y act taken condition z w)
  show ?case
  proof
    assume "conditionals (fst x) \<noteq> []"
    then obtain below frame where x: "conditionals (fst x) = below @ [frame]" by (metis rev_exhaust)
    have "process_line inc form x = Inr y" "state_kind x = Group_Elif" by fact+
    from elif_state [OF this x] Elif_Branch x
    show "conditionals (fst w) = butlast (conditionals (fst x))" by (elim exE conjE) simp
  qed
next
  case (Else_Branch x y act taken z w)
  show ?case
  proof
    assume "conditionals (fst x) \<noteq> []"
    then obtain below frame where x: "conditionals (fst x) = below @ [frame]" by (metis rev_exhaust)
    have "process_line inc form x = Inr y" "state_kind x = Group_Else"
      and "process_line inc form z = Inr w" "state_kind z = Group_End" by fact+
    from else_state [OF this(1,2) x] endif_state [OF this(3,4)] Else_Branch x
    show "conditionals (fst w) = butlast (conditionals (fst x))" by simp
  qed
qed simp

lemma structure_lines:
  "well_grouped inc form x y \<Longrightarrow> process_lines inc form x = process_lines inc form y" and
  "group_rest inc form act taken x' y' \<Longrightarrow> process_lines inc form x' = process_lines inc form y'"
  by (induction x y and act taken x' y' rule: well_grouped_group_rest.inducts)
    (simp_all add: process_lines_step)

end

context includer begin

lemma lines_open:
  "process_lines inc form x = Inr (q, out') \<Longrightarrow> conditionals (fst x) = below @ rev frames \<Longrightarrow>
   length below = conditional_base (fst x) \<Longrightarrow> length (conditionals q) = length below \<Longrightarrow>
   open_rest inc form frames x (q, out', [])"
proof (induction "length (snd (snd x))" arbitrary: x frames rule: less_induct)
  case less
  show ?case
  proof (cases "snd (snd x) = []")
    case True
    from less.prems(1) have x: "x = (q, out', [])"
      unfolding process_lines_stop [OF True] using True by (cases x) simp
    with less.prems(2,4) have "frames = []" by simp
    then show ?thesis by (simp add: x No_Line)
  next
    case nonempty: False
    then obtain y where y: "process_line inc form x = Inr y"
      using less.prems(1) by (cases x) (auto simp: process_lines.simps split: sum.splits)
    have shorter: "length (snd (snd y)) < length (snd (snd x))"
      using process_line_length [of inc form "fst x" "fst (snd x)" "snd (snd x)" "fst y" "fst (snd y)" "snd (snd y)"] y nonempty
      by simp
    have run: "process_lines inc form y = Inr (q, out')" using less.prems(1) process_lines_step [OF y nonempty] by simp
    note IH = less.hyps [OF shorter run _ _ less.prems(4)]
    note base = less.prems(3)
    show ?thesis
    proof (cases "state_kind x \<in> {Not_Directive, Plain_Directive}")
      case True
      note p = plain_state [OF y True]
      then have "open_rest inc form frames y (q, out', [])" using less.prems(2) base by (intro IH) simp_all
      then show ?thesis
        by (rule open_rest_prepend [rotated]) (rule Plain_Line [OF True nonempty y], use p in blast)
    next
      case False
      then consider (start) "state_kind x = Group_Start" | (branch) "state_kind x \<in> {Group_Elif, Group_Else, Group_End}"
        by (cases "state_kind x") auto
      then show ?thesis
      proof cases
        case start
        obtain frame where f: "conditionals (fst y) = conditionals (fst x) @ [frame]" "parent_active frame = state_active x"
            "line_condition (fst x) (state_line x) (state_active x) = Some (branch_taken frame)" "\<not> else_seen frame"
            "state_active y = (state_active x \<and> branch_taken frame)"
            "conditional_base (fst y) = conditional_base (fst x)"
          using start_state [OF y start] by blast
        have "open_rest inc form (frame # frames) y (q, out', [])"
          using less.prems(2) base f(1,6) by (intro IH) simp_all
        then show ?thesis by (rule open_rest_group [OF _ f(4) start nonempty y f(3,5,2)])
      next
        case branch
        have "length (conditionals (fst x)) \<noteq> conditional_base (fst x)"
          using branch_line_open [of inc form "fst x" "fst (snd x)" "snd (snd x)" "fst y" "fst (snd y)" "snd (snd y)"]
            endif_state [OF y] y branch by auto
        then obtain frame above where frames: "frames = frame # above"
          using less.prems(2) base by (cases frames) auto
        then have x: "conditionals (fst x) = (below @ rev above) @ [frame]" using less.prems(2) by simp
        show ?thesis
        proof (cases "state_kind x")
          case Group_Elif
          obtain condition where c: "\<not> else_seen frame"
              "line_condition (fst x) (state_line x) (parent_active frame \<and> \<not> branch_taken frame) = Some condition"
              "conditionals (fst y) = (below @ rev above) @ [frame\<lparr>branch_taken := branch_taken frame \<or> condition\<rparr>]"
              "state_active y = (parent_active frame \<and> \<not> branch_taken frame \<and> condition)"
              "conditional_base (fst y) = conditional_base (fst x)"
            using elif_state [OF y Group_Elif x] by blast
          have "open_rest inc form (frame\<lparr>branch_taken := branch_taken frame \<or> condition\<rparr> # above) y (q, out', [])"
            using base c(3,5) by (intro IH) simp_all
          then show ?thesis
            unfolding frames
            by (rule open_rest_branch)
              (use c(1) in \<open>auto simp: frame_rest_def intro: Elif_Branch [OF Group_Elif nonempty y c(2,4)]\<close>)
        next
          case Group_Else
          note e = else_state [OF y Group_Else x]
          then have active: "state_active y = (parent_active frame \<and> \<not> branch_taken frame)" by blast
          have "open_rest inc form (frame\<lparr>else_seen := True, branch_taken := True\<rparr> # above) y (q, out', [])"
            using base e by (intro IH) simp_all
          then show ?thesis
            unfolding frames
            by (rule open_rest_branch)
              (use e in \<open>auto simp: frame_rest_def intro: Else_Branch [OF Group_Else nonempty y active]\<close>)
        next
          case Group_End
          note e = endif_state [OF y Group_End]
          have active: "state_active y = parent_active frame" using e x by simp
          have "open_rest inc form above y (q, out', [])"
            using base e x by (intro IH) (simp_all add: butlast_append)
          moreover have "frame_rest inc form frame x y"
            using active Endif_Branch [OF Group_End nonempty y active] Group_End nonempty y by (simp add: frame_rest_def)
          ultimately show ?thesis
            unfolding frames open_rest.simps by (intro exI [of _ x] exI [of _ y] conjI No_Line)
        qed (use branch in auto)
      qed
    qed
  qed
qed

text \<open>The loop over a whole text accepts exactly the texts that are well grouped.\<close>

lemma lines_well_grouped:
  assumes "length (conditionals p) = conditional_base p"
  shows "process_lines inc form (p, out, s) = Inr (q, out') \<and> length (conditionals q) = length (conditionals p) \<longleftrightarrow>
    well_grouped inc form (p, out, s) (q, out', [])"
proof
  assume l: "process_lines inc form (p, out, s) = Inr (q, out') \<and> length (conditionals q) = length (conditionals p)"
  have "open_rest inc form [] (p, out, s) (q, out', [])"
    by (rule lines_open [where below = "conditionals p"]) (use l assms in simp_all)
  then show "well_grouped inc form (p, out, s) (q, out', [])" by simp
next
  assume w: "well_grouped inc form (p, out, s) (q, out', [])"
  show "process_lines inc form (p, out, s) = Inr (q, out') \<and> length (conditionals q) = length (conditionals p)"
    using structure_lines(1) [OF w] structure_stack(1) [OF w] by (simp add: process_lines_stop)
qed

end

text \<open>
  C3: Preprocessing a buffer succeeds exactly when its text is a sequence of lines and complete
  conditional groups, each branch of which may hold lines and groups again; then the outcome is the
  one that this structure gives. A line never changes which text is active. A group opens with the
  value of its condition and closes with the activity it found; inside it a branch is active exactly
  when the group stands in active text, no branch before it was selected, and its own condition
  holds, where \<open>#else\<close> needs no condition; after \<open>#else\<close> only \<open>#endif\<close> may follow.
\<close>
theorem buffer_well_grouped:
  "process_buffer resolver n p content form name depth parents out = Inr (q, out') \<longleftrightarrow>
    (\<exists>r. well_grouped (process_include resolver (deeper_buffers resolver n)) form
           (enter_buffer p form name depth parents, out, skip_byte_order_mark content) (r, out', []) \<and>
         q = leave_buffer p r)"
proof -
  let ?e = "enter_buffer p form name depth parents"
  have e: "length (conditionals ?e) = conditional_base ?e" "conditionals ?e = conditionals p"
    by (simp_all add: enter_buffer_def)
  show ?thesis
    unfolding process_buffer_unfold included.lines_well_grouped [OF e(1), symmetric] e(2) process_buffer_with_def
    by (auto split: sum.splits)
qed

end
