(* ===== verification/Preprocess_Map.thy ===== *)
theory Preprocess_Map
  imports Cond_Groups
begin

text \<open>
  The source map of preprocessed text. However the text is put together (lines, macros inside macros,
  line breaks, included files), the segments of its map lie side by side and cover it from the first
  character to the last. The locale \<open>mapping_includer\<close> extends the contract of includes by this
  invariant of the output.

  The last section shows that the level given to \<open>process_buffer\<close> is enough.
\<close>

section \<open>Segments that lie side by side\<close>

fun tiles_from :: "nat \<Rightarrow> segment list \<Rightarrow> nat \<Rightarrow> bool" where
  "tiles_from a [] n \<longleftrightarrow> a = n"
| "tiles_from a (s # ss) n \<longleftrightarrow>
     logical_begin s = a \<and> 0 < segment_length s \<and> tiles_from (a + segment_length s) ss n"

lemma tiles_from_append: "tiles_from a (ss @ ts) n \<longleftrightarrow> (\<exists>k. tiles_from a ss k \<and> tiles_from k ts n)"
  by (induction ss arbitrary: a) auto

lemma source_map_append_tiles:
  assumes "source_map_append mem m n len e ew es sp sw ss h = (True, m')"
    and "tiles_from 0 (segments m) n" "n + len \<le> SIZE_MAX"
  shows "tiles_from 0 (segments m') (n + len)"
proof (cases "len = 0")
  case True
  with assms show ?thesis by (simp add: source_map_append_def)
next
  case False
  let ?s = "\<lparr>logical_begin = n, segment_length = len, expansion = e, spelling = sp, expansion_width = ew,
    spelling_width = sw, expansion_column_step = es, spelling_column_step = ss, has_spelling = h\<rparr>"
  have fits: "\<not> SIZE_MAX - len < n" using assms(3) by linarith
  show ?thesis
  proof (cases "segments m \<noteq> [] \<and> continues (last (segments m)) ?s")
    case True
    then have split: "segments m = butlast (segments m) @ [last (segments m)]" by simp
    have m': "segments m' = butlast (segments m) @ [extend_segment (last (segments m)) ?s]"
      using assms(1) False True fits by (simp add: source_map_append_def Let_def) auto
    have "tiles_from 0 (butlast (segments m) @ [last (segments m)]) n" using assms(2) split by simp
    then have "tiles_from 0 (butlast (segments m)) (logical_begin (last (segments m)))"
      "logical_begin (last (segments m)) + segment_length (last (segments m)) = n"
      "0 < segment_length (last (segments m))"
      by (auto simp: tiles_from_append)
    with assms(3) show ?thesis by (simp add: m' tiles_from_append extend_segment_def)
  next
    case new: False
    have "segments m' = segments m @ [?s]"
      using assms(1) False new fits
      by (auto simp: source_map_append_def reserve_segments_def Let_def split: if_splits option.splits)
    with assms(2) False show ?thesis by (simp add: tiles_from_append)
  qed
qed

section \<open>The output of each part\<close>

definition output_ok :: "pp_output \<Rightarrow> bool" where
  "output_ok out \<longleftrightarrow> tiles_from 0 (segments (snd out)) (length (buffer_text (fst out))) \<and>
     \<not> buffer_failed (fst out) \<and> (buffer_capacity (fst out) = 0 \<longrightarrow> buffer_text (fst out) = [])"

lemma grow_buffer_positive: "0 < c \<Longrightarrow> 0 < grow_buffer c n"
  by (induction c n rule: grow_buffer.induct) (subst grow_buffer.simps, auto)

lemma buffer_append_capacity: "\<not> buffer_failed (buffer_append mem b s) \<Longrightarrow> buffer_capacity (buffer_append mem b s) \<noteq> 0"
  using grow_buffer_positive [of "if buffer_capacity b = 0 then 256 else buffer_capacity b"
      "length (buffer_text b) + length s + 1"]
  by (auto simp: buffer_append_def buffer_reserve_def Let_def split: if_splits)

definition small_limit :: "preprocessor \<Rightarrow> bool" where
  "small_limit p \<longleftrightarrow> max_preprocessed_bytes (limits p) \<le> SIZE_MAX"

lemma small_limit_keeps: "keeps_frame p q \<Longrightarrow> small_limit q = small_limit p"
  by (simp add: small_limit_def keeps_frame_def)

lemma small_limit_limits: "keeps_limits p q \<Longrightarrow> small_limit q = small_limit p"
  by (simp add: small_limit_def keeps_limits_def)

named_theorems output_rules \<open>operations that keep the output mapped\<close>

lemma preprocessor_append_output [output_rules]:
  assumes "preprocessor_append p s e ew es sp sw ss h out = Inr out'" "output_ok out" "small_limit p"
  shows "output_ok out'"
proof -
  obtain b m where b: "b = buffer_append (memory p) (fst out) s" "\<not> buffer_failed b" "out' = (b, m)"
      "source_map_append (memory p) (snd out) (length (buffer_text (fst out))) (length s) e ew es sp sw ss h = (True, m)"
      "length (buffer_text (fst out)) + length s \<le> max_preprocessed_bytes (limits p)"
    using assms(1) by (auto simp: preprocessor_append_def Let_def split: if_splits prod.splits bool.splits)
  have "buffer_text b = buffer_text (fst out) @ s" using b(1,2) buffer_append_text by blast
  moreover have "buffer_capacity b \<noteq> 0" using b(1,2) buffer_append_capacity by blast
  ultimately show ?thesis
    using source_map_append_tiles [OF b(4)] assms(2,3) b(2,5) by (simp add: output_ok_def small_limit_def b(3))
qed

lemma append_text_output [output_rules]:
  "append_text p s e ex out = Inr out' \<Longrightarrow> output_ok out \<Longrightarrow> small_limit p \<Longrightarrow> output_ok out'"
  by (auto simp: append_text_def split: option.splits intro: output_rules)

lemma expand_text_from_output:
  "expand_text_from p e ex parents depth content s out = Inr out' \<Longrightarrow> output_ok out \<Longrightarrow> small_limit p \<Longrightarrow>
    output_ok out'"
proof (induction p e ex parents depth content s out arbitrary: out' rule: expand_text_from.induct)
  case (2 p e ex parents depth content c s out)
  show ?case
  proof (cases "c = CHR ''!''")
    case True
    with "2.prems" show ?thesis by (auto simp: Let_def intro: append_text_output)
  next
    case False
    let ?origin = "moved_position e (length content - length (c # s))"
    let ?at = "case ex of Some (position, _) \<Rightarrow> position | None \<Rightarrow> ?origin"
    let ?invocation = "if identifier_start c then source_invocation p ?at parents depth (c # s) else Inr None"
    show ?thesis
    proof (cases ?invocation)
      case (Inl q)
      show ?thesis
        using "2.prems"(1) unfolding expand_text_from.simps Let_def if_not_P [OF False] Inl by simp
    next
      case (Inr found)
      show ?thesis
      proof (cases found)
        case None
        obtain out1 where o: "append_text p (take (length (c # s) - length (unit_end c s)) (c # s)) ?origin ex out = Inr out1"
            "expand_text_from p e ex parents depth content (unit_end c s) out1 = Inr out'"
          using "2.prems"(1) unfolding expand_text_from.simps Let_def if_not_P [OF False] Inr None
          by (auto split: sum.splits)
        show ?thesis
          by (rule "2.IH"(1) [OF refl refl False Inr None o(1) o(2) append_text_output [OF o(1) "2.prems"(2,3)] "2.prems"(3)])
      next
        case (Some x)
        obtain m replacement after where x: "x = (m, replacement, after)" by (cases x)
        let ?def = "\<lparr>position_source = Some (definition_source_name m), position_line = definition_line m,
          position_column = definition_column m\<rparr>"
        let ?ex = "case ex of Some e \<Rightarrow> Some e | None \<Rightarrow> Some (?origin, length (word_text (c # s)))"
        obtain out1 where o: "expand_text_from p ?def ?ex (macro_name m # parents) (depth + 1) replacement replacement out = Inr out1"
            "expand_text_from p e ex parents depth content after out1 = Inr out'"
          using "2.prems"(1) unfolding expand_text_from.simps Let_def if_not_P [OF False] Inr Some x
          by (auto split: sum.splits)
        have "output_ok out1"
          by (rule "2.IH"(2) [OF refl refl False Inr Some x [symmetric] refl o(1) "2.prems"(2,3)])
        then show ?thesis
          by (intro "2.IH"(3) [OF refl refl False Inr Some x [symmetric] refl o(1) o(2) _ "2.prems"(3)])
      qed
    qed
  qed
qed simp

lemma expand_text_output [output_rules]:
  "expand_text p content e out = Inr out' \<Longrightarrow> output_ok out \<Longrightarrow> small_limit p \<Longrightarrow> output_ok out'"
  unfolding expand_text_def by (rule expand_text_from_output)

lemma fixed_prefix_output:
  "fixed_prefix p content e out = Inr (q, out', rest) \<Longrightarrow> output_ok out \<Longrightarrow> small_limit p \<Longrightarrow> output_ok out'"
  by (auto simp: fixed_prefix_def Let_def split: if_splits sum.splits prod.splits dest: append_text_output)

lemma free_prefix_output:
  "free_prefix p content e out = Inr (q, out', rest) \<Longrightarrow> output_ok out \<Longrightarrow> small_limit p \<Longrightarrow> output_ok out'"
  by (auto simp: free_prefix_def Let_def split: if_splits sum.splits prod.splits dest: append_text_output)

lemma expand_source_line_output [output_rules]:
  assumes "expand_source_line p content ln form out = Inr (q, out')" "output_ok out" "small_limit p"
  shows "output_ok out'"
proof -
  let ?at = "\<lparr>position_source = Some (current_source_name p), position_line = ln, position_column = 1\<rparr>"
  show ?thesis
  proof (cases "form = SOURCE_FIXED \<and> content \<noteq> [] \<and> hd content \<in> set ''cC*!''")
    case True
    then have "append_text p content ?at None out = Inr out'"
      using assms(1) unfolding expand_source_line_def Let_def if_P [OF True] by auto
    then show ?thesis using assms(2,3) by (rule append_text_output)
  next
    case False
    then obtain r out1 rest where r: "(if form = SOURCE_FIXED then fixed_prefix p content ?at out
                 else if form = SOURCE_FREE then free_prefix p content ?at out
                 else Inr (p, out, Some content)) = Inr (r, out1, rest)"
        "rest = None \<and> out' = out1 \<or> (\<exists>s. (if s = [] then Inr out1
           else expand_text r s (moved_position ?at (length content - length s)) out1) = Inr out')"
      using assms(1) unfolding expand_source_line_def Let_def if_not_P [OF False]
      by (auto split: sum.splits option.splits prod.splits)
    have "output_ok out1" "same_but_open p r"
      using r(1) assms(2,3) fixed_prefix_output free_prefix_output fixed_prefix_frame free_prefix_frame
        same_but_open_refl by (auto split: if_splits)
    moreover from this(2) have "small_limit r"
      using assms(3) small_limit_keeps keeps_same_but_open by blast
    ultimately show ?thesis using r(2) by (auto split: if_splits intro: expand_text_output)
  qed
qed

lemma append_newlines_output [output_rules]:
  "append_newlines p name ln s out = Inr out' \<Longrightarrow> output_ok out \<Longrightarrow> small_limit p \<Longrightarrow> output_ok out'"
proof (induction p name ln s out rule: append_newlines.induct)
  case (1 p name ln s out)
  let ?newline = "newline_part (line_rest s)"
  let ?at = "\<lparr>position_source = Some name, position_line = ln, position_column = length (line_part s) + 1\<rparr>"
  let ?appended = "if ?newline = [] then Inr out
    else preprocessor_append p ?newline ?at (length ?newline) 1 ?at (length ?newline) 1 False out"
  show ?case
  proof (cases "s = []")
    case True
    with "1.prems" show ?thesis by (simp add: append_newlines.simps)
  next
    case False
    then obtain out1 where o: "?appended = Inr out1"
      using "1.prems"(1) unfolding append_newlines.simps [of p name ln s] if_not_P [OF False] Let_def
      by (auto split: sum.splits)
    have ok: "output_ok out1" using o "1.prems"(2,3) by (auto split: if_splits intro: preprocessor_append_output)
    show ?thesis
      using "1.prems"(1,3) ok "1.IH" [OF False refl refl refl o]
      unfolding append_newlines.simps [of p name ln s] if_not_P [OF False] Let_def o
      by (auto split: if_splits)
  qed
qed

section \<open>Whole buffers\<close>

context includer begin

lemma directive_keeps_limits:
  assumes "process_directive inc p content ln out = Inr (d, q, out')"
  shows "keeps_limits p q"
proof (cases "directive_kind content")
  case Group_Start
  then obtain column where "process_conditional_start p (word_text (directive_at content))
      (word_end (directive_at content)) ln column = Inr q"
    using conditional_directive(1) [OF assms] by blast
  then show ?thesis
    by (auto simp: process_conditional_start_def split: sum.splits
        dest!: start_condition_value(1) push_conditional_result(3))
next
  case Group_Elif
  then obtain column where "process_elif p (word_end (directive_at content)) ln column = Inr q"
    using conditional_directive(2) [OF assms] by blast
  then show ?thesis
    by (auto simp: process_elif_def Let_def keeps_limits_def set_top_frame_def dest!: evaluate_condition_unchanged
        split: if_splits prod.splits option.splits)
next
  case Group_Else
  then obtain column where "process_else p (word_end (directive_at content)) ln column = Inr q"
    using conditional_directive(3) [OF assms] by blast
  then show ?thesis by (auto simp: process_else_def Let_def keeps_limits_def set_top_frame_def split: if_splits)
next
  case Group_End
  then obtain column where "process_endif p (word_end (directive_at content)) ln column = Inr q"
    using conditional_directive(4) [OF assms] by blast
  then show ?thesis by (auto simp: process_endif_def Let_def keeps_limits_def split: if_splits)
qed (use plain_directive_keeps [OF assms] keeps_frame_limits in auto)

lemma line_keeps_limits:
  assumes "process_line inc form (p, out, s) = Inr (q, out', rest)"
  shows "keeps_limits p q"
  using assms
  by (elim process_line_split)
    (auto dest!: keeps_frame_limits text_line_keeps directive_keeps_limits directive_result_False
      intro: keeps_limits_trans)

end

text \<open>The contract of an include, with its effect on the output.\<close>

locale mapping_includer = includer +
  assumes include_output:
    "inc p rest ln column out = Inr (q, out') \<Longrightarrow> output_ok out \<Longrightarrow> small_limit p \<Longrightarrow> output_ok out'"
begin

lemma directive_output:
  assumes "process_directive inc p content ln out = Inr (d, q, out')" "output_ok out" "small_limit p"
  shows "output_ok out'"
proof -
  have "process_active_directive inc p word rest ln column rc out = Inr (q, out') \<Longrightarrow> output_ok out'" for word rest column rc
    using assms(2,3)
    by (auto simp: process_active_directive_def split: if_splits prod.splits bool.splits sum.splits dest: include_output)
  with assms show ?thesis
    by (auto simp: process_directive_def Let_def split: if_splits sum.splits)
qed

lemma text_line_output:
  "process_text_line inc form p content out = Inr (q, out') \<Longrightarrow> output_ok out \<Longrightarrow> small_limit p \<Longrightarrow> output_ok out'"
  by (auto simp: process_text_line_def split: if_splits option.splits dest: include_output expand_source_line_output)

lemma line_output:
  assumes "process_line inc form (p, out, s) = Inr (q, out', rest)" "output_ok out" "small_limit p"
  shows "output_ok out'"
proof -
  obtain content n rest' where l: "logical_line p s = Inr (content, n, rest')"
    using assms(1) by (auto simp: process_line_def Let_def split: sum.splits)
  obtain r out1 where r: "(case process_directive inc p content (current_line p) out of
        Inl p \<Rightarrow> Inl p
      | Inr (True, p, out) \<Rightarrow> Inr (p, out)
      | Inr (False, p, out) \<Rightarrow> process_text_line inc form p content out) = Inr (r, out1)"
    and n: "append_newlines r (current_source_name p) (current_line p) (take (length s - length rest') s) out1 = Inr out'"
    using assms(1) l by (auto simp: process_line_def Let_def split: sum.splits prod.splits)
  obtain d p1 out2 where d: "process_directive inc p content (current_line p) out = Inr (d, p1, out2)"
    using r by (auto split: sum.splits)
  have out2: "output_ok out2" using directive_output [OF d assms(2,3)] .
  have p1: "small_limit p1" using small_limit_limits [OF directive_keeps_limits [OF d]] assms(3) by simp
  have "output_ok out1 \<and> small_limit r"
  proof (cases d)
    case True
    with r d out2 p1 show ?thesis by simp
  next
    case False
    with r d have "process_text_line inc form p1 content out2 = Inr (r, out1)" by simp
    then show ?thesis
      using text_line_output out2 p1 text_line_keeps small_limit_keeps by blast
  qed
  then show ?thesis using n append_newlines_output by blast
qed

lemma lines_output:
  "process_lines inc form (p, out, s) = Inr (q, out') \<Longrightarrow> output_ok out \<Longrightarrow> small_limit p \<Longrightarrow> output_ok out'"
proof (induction "length s" arbitrary: p out s rule: less_induct)
  case less
  show ?case
  proof (cases "s = []")
    case True
    with less.prems show ?thesis by (simp add: process_lines.simps)
  next
    case False
    with less.prems(1) obtain p1 out1 s1 where step: "process_line inc form (p, out, s) = Inr (p1, out1, s1)"
        "process_lines inc form (p1, out1, s1) = Inr (q, out')"
      by (auto simp: process_lines.simps [of inc form p] split: sum.splits)
    from less.hyps [OF process_line_length [OF step(1) False] step(2) line_output [OF step(1) less.prems(2,3)]]
    show ?thesis using small_limit_limits [OF line_keeps_limits [OF step(1)]] less.prems(3) by simp
  qed
qed

lemma buffer_output:
  assumes "process_buffer_with inc p content form name depth parents out = Inr (q, out')"
    and "output_ok out" "small_limit p"
  shows "output_ok out'"
proof -
  let ?e = "enter_buffer p form name depth parents"
  have "small_limit ?e" using assms(3) by (simp add: small_limit_def enter_buffer_def)
  then show ?thesis
    using assms(1,2) by (auto simp: process_buffer_with_def split: sum.splits if_splits dest: lines_output)
qed

end

lemma process_include_output:
  assumes "\<And>p content form name depth parents out q out'.
      process p content form name depth parents out = Inr (q, out') \<Longrightarrow> output_ok out \<Longrightarrow> small_limit p \<Longrightarrow> output_ok out'"
    and "process_include resolver process p rest ln column out = Inr (q, out')" "output_ok out" "small_limit p"
  shows "output_ok out'"
  using assms(2-4)
  by (auto simp: process_include_def split: sum.splits prod.splits
      dest!: assms(1) keeps_accept_include [THEN small_limit_keeps])

lemma deeper_buffers_output:
  "deeper_buffers resolver n p content form name depth parents out = Inr (q, out') \<Longrightarrow>
    output_ok out \<Longrightarrow> small_limit p \<Longrightarrow> output_ok out'"
proof (induction n arbitrary: p content form name depth parents out q out')
  case (Suc n)
  have "mapping_includer (process_include resolver (deeper_buffers resolver n))"
    by unfold_locales (rule process_include_output [OF Suc.IH])
  from mapping_includer.buffer_output [OF this] Suc.prems show ?case
    by (simp add: deeper_buffers_def process_buffer_unfold)
qed (simp add: deeper_buffers_def)

interpretation mapped: mapping_includer "process_include resolver (deeper_buffers resolver n)" for resolver n
  by unfold_locales (rule process_include_output [OF deeper_buffers_output])

section \<open>Whole sources\<close>

lemma define_option_limits: "define_option p d = Inr q \<Longrightarrow> limits q = limits p"
  by (auto simp: define_option_def define_object_def Let_def keeps_frame_def
      dest!: keeps_source_name keeps_install_macro split: option.splits if_splits prod.splits bool.splits)

lemma define_options_limits: "define_options p ds = Inr q \<Longrightarrow> limits q = limits p"
  by (induction p ds rule: define_options.induct) (auto split: sum.splits dest: define_option_limits)

lemma initialize_limits:
  "initialize_preprocessor p name definition_count definitions = Inr q \<Longrightarrow> limits q = limits p"
  by (auto simp: initialize_preprocessor_def clear_preprocessor_def Let_def keeps_frame_def
      split: option.splits if_splits dest!: define_options_limits keeps_source_name)

text \<open>
  C4: The source map of preprocessed text accounts for every character. Whatever the source, the
  options and the included files, the segments of the map of a text that is returned are not empty,
  follow each other without gap or overlap, begin with the first character and end with the last.
\<close>
theorem preprocessed_map_tiles:
  assumes "preprocess_source resolver p content form name definition_count definitions = Inr (q, t, m)"
    and "max_preprocessed_bytes (limits p) \<le> SIZE_MAX"
  shows "tiles_from 0 (segments m) (length t)"
proof -
  obtain r r' b where r: "initialize_preprocessor p name definition_count definitions = Inr r"
      "process_buffer resolver (max_include_depth (limits r)) r content form (current_source_name r) 0 []
         (empty_buffer, empty_map) = Inr (r', b, m)"
      "(case buffer_take (memory r') b of Some t \<Rightarrow> Some t | None \<Rightarrow> if memory r' 1 then Some [] else None) = Some t"
    using assms(1) by (auto simp: preprocess_source_def split: sum.splits option.splits)
  have "small_limit r"
    using initialize_limits [OF r(1)] assms(2) by (simp add: small_limit_def)
  moreover have "output_ok (empty_buffer, empty_map)"
    by (simp add: output_ok_def empty_buffer_def empty_map_def)
  ultimately have ok: "output_ok (b, m)"
    using mapped.buffer_output r(2) unfolding process_buffer_unfold by blast
  then have "t = buffer_text b"
    using r(3) by (auto simp: output_ok_def buffer_take_def split: if_splits)
  with ok show ?thesis by (simp add: output_ok_def)
qed

text \<open>A macro, a group that selects its first branch, and the line breaks of the other lines.\<close>

definition sample_lines :: string where
  "sample_lines = ''#define N 2'' @ [CHR 0x0A] @ ''#ifdef N'' @ [CHR 0x0A] @ ''x=N'' @ [CHR 0x0A] @
     ''#else'' @ [CHR 0x0A] @ ''y'' @ [CHR 0x0A] @ ''#endif'' @ [CHR 0x0A]"

definition sample_result :: "preprocessor + preprocessor \<times> string \<times> source_map" where
  "sample_result = preprocess_source None sample_preprocessor sample_lines SOURCE_FREE None 0 None"

lemmas run_simps =
  preprocess_source_def initialize_preprocessor_def clear_preprocessor_def context_source_name_def Let_def
  process_buffer_unfold process_buffer_with_def enter_buffer_def leave_buffer_def skip_byte_order_mark_def
  process_lines.simps process_line_def logical_line_def line_part_def line_rest_def next_line_def is_line_break_def
  directive_continues_def process_directive_def process_text_line_def fortran_include_operand_def
  expand_source_line_def free_prefix_def expand_text_def moved_position_def size_add_def
  source_invocation_def word_text_def word_end_def find_macro_def append_text_def preprocessor_append_def
  buffer_append_def buffer_reserve_def empty_buffer_def empty_map_def grow_buffer.simps
  source_map_append_def reserve_segments_def grow_capacity.simps unit_end_def is_quote_def remember_open_def
  append_newlines.simps advance_line_def buffer_take_def identifier_start_def identifier_continue_def char_class
  process_active_directive_def process_define_def install_macro_def valid_macro_name_def reserve_macros_def
  replacement_has_operator_def digit_end_def hollerith_end_def
  process_conditional_start_def start_condition_def parse_name_operand_def push_conditional_def
  reserve_conditionals_def process_else_def process_endif_def top_frame_def set_top_frame_def
  directive_at_def continues_def extend_segment_def same_name_def advanced_column_def

lemma sample_run: "case sample_result of Inl _ \<Rightarrow> False | Inr (q, t, m) \<Rightarrow> t = [CHR 0x0A, CHR 0x0A] @ ''x=2'' @ [CHR 0x0A, CHR 0x0A, CHR 0x0A, CHR 0x0A]"
  unfolding sample_result_def sample_lines_def sample_preprocessor_def
  by (simp add: run_simps)

lemma sample_result_cases:
  "\<exists>q t m. sample_result = Inr (q, t, m) \<and> t = [CHR 0x0A, CHR 0x0A] @ ''x=2'' @ [CHR 0x0A, CHR 0x0A, CHR 0x0A, CHR 0x0A]"
  using sample_run by (auto split: sum.splits)

theorem preprocessed_map_tiles_witness:
  "\<exists>q m. preprocess_source None sample_preprocessor sample_lines SOURCE_FREE None 0 None =
      Inr (q, [CHR 0x0A, CHR 0x0A] @ ''x=2'' @ [CHR 0x0A, CHR 0x0A, CHR 0x0A, CHR 0x0A], m) \<and>
    tiles_from 0 (segments m) 9"
proof -
  have small: "max_preprocessed_bytes (limits sample_preprocessor) \<le> SIZE_MAX" by (simp add: sample_preprocessor_def)
  obtain q m where r: "preprocess_source None sample_preprocessor sample_lines SOURCE_FREE None 0 None =
      Inr (q, [CHR 0x0A, CHR 0x0A] @ ''x=2'' @ [CHR 0x0A, CHR 0x0A, CHR 0x0A, CHR 0x0A], m)"
    using sample_result_cases unfolding sample_result_def by blast
  with preprocessed_map_tiles [OF r small] show ?thesis by (intro exI [of _ q] exI [of _ m]) (simp add: eval_nat_numeral)
qed

section \<open>The depth of includes\<close>

text \<open>Two includers that agree at one depth of nesting make the loop do the same.\<close>

lemma directive_cong:
  "inc p = inc' p \<Longrightarrow> process_directive inc p content ln out = process_directive inc' p content ln out"
proof -
  assume "inc p = inc' p"
  then have "process_active_directive inc p = process_active_directive inc' p"
    by (intro ext) (simp add: process_active_directive_def)
  then show ?thesis by (simp only: process_directive_def)
qed

lemma line_cong:
  assumes "inc p = inc' p"
  shows "process_line inc form (p, out, s) = process_line inc' form (p, out, s)"
proof (cases "logical_line p s")
  case (Inr x)
  obtain content n rest where x: "x = (content, n, rest)" by (cases x)
  have "(case process_directive inc p content (current_line p) out of
        Inl p \<Rightarrow> Inl p
      | Inr (True, p, out) \<Rightarrow> Inr (p, out)
      | Inr (False, p, out) \<Rightarrow> process_text_line inc form p content out) =
    (case process_directive inc' p content (current_line p) out of
        Inl p \<Rightarrow> Inl p
      | Inr (True, p, out) \<Rightarrow> Inr (p, out)
      | Inr (False, p, out) \<Rightarrow> process_text_line inc' form p content out)"
    using assms directive_cong [of inc p inc', OF assms]
    by (auto simp: process_text_line_def split: sum.splits bool.splits prod.splits option.splits
        dest!: directive_result_False)
  then show ?thesis by (simp only: process_line_def prod.case Let_def Inr x sum.case)
qed (simp add: process_line_def)

context includer begin

lemma lines_cong:
  "(\<And>q. keeps_limits p q \<Longrightarrow> inc q = inc' q) \<Longrightarrow> process_lines inc form (p, out, s) = process_lines inc' form (p, out, s)"
proof (induction "length s" arbitrary: p out s rule: less_induct)
  case less
  note step = line_cong [of inc p inc' form out s, OF less.prems [OF keeps_limits_refl]]
  show ?case
  proof (cases "process_line inc form (p, out, s)")
    case (Inr x)
    obtain q out' rest where x: "x = (q, out', rest)" by (cases x)
    note k = line_keeps_limits [OF Inr [unfolded x]]
    have "process_lines inc form (q, out', rest) = process_lines inc' form (q, out', rest)" if "s \<noteq> []"
      by (rule less.hyps [OF process_line_length [OF Inr [unfolded x] that]])
        (rule less.prems, rule keeps_limits_trans [OF k])
    moreover have "process_line inc form (p, out, s) = Inr (q, out', rest)" "process_line inc' form (p, out, s) = Inr (q, out', rest)"
      using step Inr x by simp_all
    ultimately show ?thesis
      by (simp add: process_lines.simps [of inc form p out s] process_lines.simps [of inc' form p out s])
  qed (use step in \<open>simp add: process_lines.simps [of inc form p] process_lines.simps [of inc' form p]\<close>)
qed

end

lemma resolve_include_deep:
  "max_include_depth (limits p) \<le> include_depth p \<Longrightarrow> \<exists>q. resolve_include resolver p name system ln column = Inl q"
  by (auto simp: resolve_include_def split: option.splits)

lemma process_include_cong:
  assumes "\<And>q content form name parents out. include_depth p < max_include_depth (limits p) \<Longrightarrow> limits q = limits p \<Longrightarrow>
      process q content form name (include_depth p + 1) parents out = process' q content form name (include_depth p + 1) parents out"
  shows "process_include resolver process p = process_include resolver process' p"
proof (intro ext)
  fix rest ln column out
  show "process_include resolver process p rest ln column out = process_include resolver process' p rest ln column out"
  proof (cases "include_depth p < max_include_depth (limits p)")
    case True
    have "process q content form name (include_depth q + 1) parents out' = process' q content form name (include_depth q + 1) parents out'"
      if "accept_include p source n ln column = Inr (q, x)" for q source n x content form name parents out'
      using assms [OF True, of q] keeps_accept_include [OF that] by (simp add: keeps_frame_def)
    then show ?thesis by (auto simp: process_include_def split: sum.splits)
  next
    case False
    then have "resolve_include resolver p name system ln column \<noteq> Inr source" for name system source
      using resolve_include_deep [of p resolver name system ln column] by auto
    then show ?thesis by (auto simp: process_include_def split: sum.splits)
  qed
qed

text \<open>
  C10: The level that \<open>preprocess_source\<close> gives to the processing of a buffer is enough: at every level
  from which the limit of the include depth can be reached, the processing of a buffer is the same,
  so the level never cuts an include short.
\<close>
theorem include_level_enough:
  assumes "max_include_depth (limits p) \<le> depth + n" "max_include_depth (limits p) \<le> depth + k"
  shows "process_buffer resolver n p content form name depth parents out =
    process_buffer resolver k p content form name depth parents out"
  using assms
proof (induction n arbitrary: k p content form name depth parents out rule: less_induct)
  case (less n)
  let ?e = "enter_buffer p form name depth parents"
  have "process_include resolver (deeper_buffers resolver n) q = process_include resolver (deeper_buffers resolver k) q"
    if q: "keeps_limits ?e q" for q
  proof (rule process_include_cong)
    fix r :: preprocessor and content form name parents out
    assume deep: "include_depth q < max_include_depth (limits q)" and r: "limits r = limits q"
    have l: "include_depth q = depth" "limits q = limits p" using q by (simp_all add: keeps_limits_def enter_buffer_def)
    then obtain n' k' where nk: "n = Suc n'" "k = Suc k'"
      using deep less.prems by (cases n; cases k) auto
    show "deeper_buffers resolver n r content form name (include_depth q + 1) parents out =
      deeper_buffers resolver k r content form name (include_depth q + 1) parents out"
      using less.IH [of n' r "depth + 1" k' content form name parents out] less.prems l r nk
      by (simp add: deeper_buffers_def)
  qed
  then show ?case
    unfolding process_buffer_unfold process_buffer_with_def
    by (subst included.lines_cong [where p = ?e and inc' = "process_include resolver (deeper_buffers resolver k)"]) simp_all
qed

theorem include_level_enough_witness:
  "process_buffer None 64 sample_preprocessor sample_lines SOURCE_FREE ''a.F90'' 0 [] (empty_buffer, empty_map) =
    process_buffer None 100 sample_preprocessor sample_lines SOURCE_FREE ''a.F90'' 0 [] (empty_buffer, empty_map)"
  by (rule include_level_enough) (simp_all add: sample_preprocessor_def)

end
