(* ===== verification/Lexer_Grammar.thy ===== *)
theory Lexer_Grammar
  imports Token_Lexer
begin

text \<open>
  What the scanner accepts, stated without it: \<open>spelled k w\<close> is the grammar of the lexemes of
  each kind. The scanner is proved sound for it (a token that is not reported as invalid is
  spelled like its kind) and complete (a spelling followed by white space or the end of the line
  is scanned back as it is).
\<close>

section \<open>The lexical grammar\<close>

definition digits :: "string \<Rightarrow> bool" where
  "digits w \<longleftrightarrow> w \<noteq> [] \<and> list_all isdigit w"

abbreviation quotes :: "char set" where "quotes \<equiv> {CHR 0x27, CHR 0x22}"

text \<open>The text after an opening quote: a doubled quote stands for the character.\<close>

inductive quoted :: "char \<Rightarrow> string \<Rightarrow> bool" for q :: char where
  close: "quoted q [q]"
| char: "c \<noteq> q \<Longrightarrow> quoted q w \<Longrightarrow> quoted q (c # w)"
| doubled: "quoted q w \<Longrightarrow> quoted q (q # q # w)"

definition literal_prefix :: "string \<Rightarrow> bool" where
  "literal_prefix p \<longleftrightarrow> p = [] \<or> (\<exists>ds. digits ds \<and> p = ds @ ''_'')
     \<or> (is_name p \<and> 1 < length p \<and> last p = CHR ''_'')"

definition whole_part :: "string \<Rightarrow> bool" where
  "whole_part w \<longleftrightarrow> digits w \<or> (\<exists>ds. digits ds \<and> w = CHR ''.'' # ds)"

definition exponent_part :: "string \<Rightarrow> bool" where
  "exponent_part w \<longleftrightarrow> w = [] \<or>
     (\<exists>e sign ds. w = e # sign @ ds \<and> e \<in> set ''eEdDqQ'' \<and>
        (sign = [] \<or> sign = ''+'' \<or> sign = ''-'') \<and> digits ds)"

text \<open>The kind of a number, or the suffix \<open>f\<close> of a generated constant.\<close>

definition number_suffix :: "string \<Rightarrow> bool" where
  "number_suffix w \<longleftrightarrow> w = [] \<or> w = ''f'' \<or> w = ''F'' \<or>
     (\<exists>k. w = CHR ''_'' # k \<and> k \<noteq> [] \<and> list_all identifier_continue k)"

text \<open>A point with no digit after it does not take the exponent letter \<open>q\<close>.\<close>

definition fraction_part :: "string \<Rightarrow> string \<Rightarrow> bool" where
  "fraction_part w after \<longleftrightarrow> w = [] \<or>
     (\<exists>ds. w = CHR ''.'' # ds \<and> list_all isdigit ds \<and> (ds = [] \<longrightarrow> peek after \<notin> set ''qQ''))"

definition spaces :: "string \<Rightarrow> bool" where
  "spaces w \<longleftrightarrow> list_all isspace w"

definition dotted_word :: "string \<Rightarrow> bool" where
  "dotted_word w \<longleftrightarrow> (\<exists>u letters v. w = ''.'' @ u @ letters @ v @ ''.'' \<and>
     spaces u \<and> list_all isalpha letters \<and> spaces v)"

text \<open>Blanks and the case of letters do not matter.\<close>

definition reads_as :: "string \<Rightarrow> string \<Rightarrow> bool" where
  "reads_as w text \<longleftrightarrow> map tolower (List.filter (\<lambda>c. \<not> isspace c) w) = map tolower text"

inductive spelled :: "token_kind \<Rightarrow> string \<Rightarrow> bool" where
  name: "is_name w \<Longrightarrow> spelled TOKEN_IDENTIFIER w"
| string: "literal_prefix p \<Longrightarrow> q \<in> quotes \<Longrightarrow> quoted q w \<Longrightarrow> spelled TOKEN_STRING (p @ q # w)"
| boz: "tolower c \<in> set ''bozx'' \<Longrightarrow> q \<in> quotes \<Longrightarrow> w \<noteq> [] \<Longrightarrow>
    list_all (valid_boz_digit (tolower c)) w \<Longrightarrow> spelled TOKEN_BOZ (c # q # w @ [q])"
| hollerith: "digits ds \<Longrightarrow> h \<in> set ''hH'' \<Longrightarrow> decimal_value ds = length payload \<Longrightarrow>
    length payload \<le> SIZE_MAX \<Longrightarrow> spelled TOKEN_HOLLERITH (ds @ h # payload)"
| number: "whole_part a \<Longrightarrow> exponent_part e \<Longrightarrow> number_suffix s \<Longrightarrow> fraction_part f (e @ s) \<Longrightarrow>
    spelled TOKEN_NUMBER (a @ f @ e @ s)"
| array_begin: "spelled TOKEN_ARRAY_BEGIN ''(/''"
| array_end: "spelled TOKEN_ARRAY_END ''/)''"
| left_paren: "spelled TOKEN_LEFT_PAREN ''(''"
| right_paren: "spelled TOKEN_RIGHT_PAREN '')''"
| left_bracket: "spelled TOKEN_LEFT_BRACKET ''[''"
| right_bracket: "spelled TOKEN_RIGHT_BRACKET '']''"
| comma: "spelled TOKEN_COMMA '',''"
| double_colon: "spelled TOKEN_DOUBLE_COLON ''::''"
| colon: "spelled TOKEN_COLON '':''"
| semicolon: "spelled TOKEN_SEMICOLON '';''"
| percent: "spelled TOKEN_PERCENT ''%''"
| operator_1: "c \<in> set ''+-*/=<>~'' \<Longrightarrow> spelled TOKEN_OPERATOR [c]"
| operator_2: "w \<in> set two_character_operators \<Longrightarrow> spelled TOKEN_OPERATOR w"
| dotted: "dotted_word w \<Longrightarrow> spelled TOKEN_OPERATOR w"
| logical: "dotted_word w \<Longrightarrow> reads_as w ''.true.'' \<or> reads_as w ''.false.'' \<Longrightarrow>
    k \<noteq> [] \<Longrightarrow> list_all identifier_continue k \<Longrightarrow> spelled TOKEN_OPERATOR (w @ CHR ''_'' # k)"

lemmas symbol_spellings =
  array_begin array_end left_paren right_paren left_bracket right_bracket comma double_colon colon
  semicolon percent

inductive_cases spelled_invalid: "spelled TOKEN_INVALID w"
inductive_cases spelled_end: "spelled TOKEN_END w"
inductive_cases quoted_cons: "quoted q (c # w)"
inductive_simps quoted_nil [simp]: "quoted q []"

section \<open>The primitives\<close>

definition same_line :: "token_stream \<Rightarrow> token_stream \<Rightarrow> bool" where
  "same_line s r \<longleftrightarrow> stream_source r = stream_source s \<and> stream_line r = stream_line s
     \<and> base_column r = base_column s
     \<and> token_begin (stream_token r) = token_begin (stream_token s)
     \<and> token_line (stream_token r) = token_line (stream_token s)
     \<and> token_column (stream_token r) = token_column (stream_token s)
     \<and> token_span (stream_token r) = token_span (stream_token s)"

named_theorems scanning \<open>what the scanner's primitives change\<close>

text \<open>The stream keeps the first error position.\<close>

fun first_error :: "cptr option \<Rightarrow> cptr \<Rightarrow> cptr option" where
  "first_error None at = Some at"
| "first_error (Some e) at = Some e"

lemma same_line_refl [simp, scanning]: "same_line s s"
  by (simp add: same_line_def)

lemma set_kind_frame [simp]:
  "stream_cursor (set_kind s k) = stream_cursor s" "error_at (set_kind s k) = error_at s"
  "kind (stream_token (set_kind s k)) = k" "same_line s (set_kind s' k) = same_line s s'"
  "same_line (set_kind s k) s' = same_line s s'"
  by (simp_all add: set_kind_def same_line_def)

lemma move_to_frame [simp]:
  "stream_cursor (move_to s c) = c" "error_at (move_to s c) = error_at s"
  "kind (stream_token (move_to s c)) = kind (stream_token s)"
  "same_line s (move_to s' c) = same_line s s'" "same_line (move_to s c) s' = same_line s s'"
  by (simp_all add: move_to_def same_line_def)

lemma set_error_frame [simp]:
  "stream_cursor (set_error s at) = stream_cursor s"
  "error_at (set_error s at) = first_error (error_at s) at"
  "kind (stream_token (set_error s at)) = kind (stream_token s)"
  "same_line s (set_error s' at) = same_line s s'"
  "same_line (set_error s at) s' = same_line s s'"
  by (cases "error_at s"; simp add: set_error_def same_line_def)+

lemma length_frame [simp]:
  "same_line s (s'\<lparr>stream_token := (stream_token s')\<lparr>token_length := n\<rparr>\<rparr>) = same_line s s'"
  by (simp add: same_line_def)

text \<open>What a scan from \<open>b\<close> leaves: a lexeme of its kind, or an invalid one with an error
  position inside it, the first one being kept.\<close>

definition scans :: "token_stream \<Rightarrow> cptr \<Rightarrow> token_stream \<Rightarrow> bool" where
  "scans s b r \<longleftrightarrow> same_line s r \<and> (\<exists>w. w \<noteq> [] \<and> b = w @ stream_cursor r \<and>
     (if kind (stream_token r) = TOKEN_INVALID
      then \<exists>u v. w = u @ v \<and> v \<noteq> [] \<and>
             error_at r = first_error (error_at s) (v @ stream_cursor r)
      else spelled (kind (stream_token r)) w \<and> error_at r = error_at s))"

lemma scans_valid:
  "same_line s r \<Longrightarrow> b = w @ stream_cursor r \<Longrightarrow> w \<noteq> [] \<Longrightarrow> spelled (kind (stream_token r)) w \<Longrightarrow>
   error_at r = error_at s \<Longrightarrow> scans s b r"
  unfolding scans_def using spelled_invalid by auto

lemma scans_invalid:
  "same_line s r \<Longrightarrow> b = u @ v @ stream_cursor r \<Longrightarrow> v \<noteq> [] \<Longrightarrow>
   kind (stream_token r) = TOKEN_INVALID \<Longrightarrow>
   error_at r = first_error (error_at s) (v @ stream_cursor r) \<Longrightarrow>
   scans s b r"
  unfolding scans_def by (intro conjI, assumption, rule exI [of _ "u @ v"]) auto

lemma scans_from [simp]:
  "scans (move_to s c) b r = scans s b r" "scans (set_kind s k) b r = scans s b r"
  by (simp_all only: scans_def move_to_frame set_kind_frame)

section \<open>Words, strings and BOZ constants\<close>

lemma string_rest_suffix:
  "string_rest q c = (r, closed) \<Longrightarrow> \<exists>w. c = w @ r \<and> (if closed then quoted q w else r = [])"
proof (induction q c arbitrary: r closed rule: string_rest.induct)
  case (1 q)
  then show ?case by simp
next
  case (2 q c cursor)
  show ?case
  proof (cases "c = q \<and> peek cursor = q \<and> cursor \<noteq> []")
    case True
    then obtain rest where rest: "cursor = q # rest" by (cases cursor) auto
    with True 2 obtain w where "rest = w @ r" "if closed then quoted q w else r = []" by fastforce
    with True rest show ?thesis
      by (intro exI [of _ "q # q # w"]) (auto intro: quoted.doubled split: if_splits)
  next
    case other: False
    show ?thesis
    proof (cases "c = q")
      case True
      with other 2(3) have "r = cursor \<and> closed \<or> cursor = [] \<and> r = [] \<and> \<not> closed"
        by (cases cursor) (auto split: if_splits)
      with True show ?thesis
        by (auto intro!: exI [of _ "[q]"] quoted.close)
    next
      case False
      with 2 obtain w where "cursor = w @ r" "if closed then quoted q w else r = []" by fastforce
      with False show ?thesis
        by (intro exI [of _ "c # w"]) (auto intro: quoted.char split: if_splits)
    qed
  qed
qed

lemma scan_string_scans:
  assumes "stream_cursor s = q # rest" "b = p @ q # rest" "literal_prefix p" "q \<in> quotes"
  shows "scans s b (scan_string s b)"
proof -
  obtain r closed where read: "string_rest q rest = (r, closed)" by fastforce
  from string_rest_suffix [OF this] obtain w
    where w: "rest = w @ r" "if closed then quoted q w else r = []" by blast
  show ?thesis
  proof (cases closed)
    case True
    with assms w read show ?thesis
      by (intro scans_valid [of _ _ _ "p @ q # w"])
        (auto simp: scan_string_def Let_def intro: spelled.string)
  next
    case False
    with assms w read have "scan_string s b = set_error (set_kind (move_to s []) TOKEN_INVALID) b"
      by (simp add: scan_string_def)
    with assms show ?thesis
      by (intro scans_invalid [of _ _ _ "[]" b]) simp_all
  qed
qed

lemma peek_cons: "peek c = x \<Longrightarrow> x \<noteq> NUL \<Longrightarrow> \<exists>r. c = x # r"
  by (cases c) auto

lemma quotes_not_NUL: "q \<in> quotes \<Longrightarrow> q \<noteq> NUL"
  by (auto simp: NUL_code)

lemma is_one_of_quotes: "is_one_of c [CHR 0x27, CHR 0x22] \<longleftrightarrow> c \<in> quotes"
  by (simp add: is_one_of_def)

lemma takeWhile_digits: "isdigit (peek c) \<Longrightarrow> digits (takeWhile isdigit c)"
  by (cases c) (auto simp: digits_def list_all_iff dest: set_takeWhileD)

lemma character_literal_quote_prefix:
  assumes "character_literal_quote (Some b) = Some c"
  obtains p q rest where "b = p @ c" "c = q # rest" "literal_prefix p" "q \<in> quotes"
proof -
  have "\<exists>p q rest. b = p @ c \<and> c = q # rest \<and> literal_prefix p \<and> q \<in> quotes"
  proof (cases "peek b \<in> quotes")
    case True
    with assms have "c = b" by (simp add: character_literal_quote_def is_one_of_quotes)
    with True show ?thesis
      by (cases b) (auto simp: literal_prefix_def NUL_code intro: exI [of _ "[]"])
  next
    case no_quote: False
    show ?thesis
    proof (cases "isdigit (peek b)")
      case True
      define r where "r = dropWhile isdigit b"
      from True no_quote assms have "peek r = CHR ''_''" "peek (drop 1 r) \<in> quotes" "c = drop 1 r"
        by (auto simp: character_literal_quote_def is_one_of_quotes Let_def r_def split: if_splits)
      then obtain q rest where "r = CHR ''_'' # q # rest" "q \<in> quotes" "c = q # rest"
        by (cases r; cases "drop 1 r") (auto simp: NUL_code)
      moreover have "b = takeWhile isdigit b @ r" by (simp add: r_def)
      ultimately show ?thesis
        using takeWhile_digits [OF True]
        by (intro exI [of _ "takeWhile isdigit b @ ''_''"]) (auto simp: literal_prefix_def)
    next
      case False
      from no_quote False assms have name: "identifier_start (peek b)"
        by (auto simp: character_literal_quote_def is_one_of_quotes split: if_splits)
      then obtain x t where b: "b = x # t" by (cases b) auto
      define k where "k = takeWhile identifier_continue t"
      have t: "t = k @ dropWhile identifier_continue t" by (simp add: k_def)
      have distance: "length b - length (dropWhile identifier_continue t) = Suc (length k)"
        using arg_cong [OF t, of length] b by simp
      then have distance': "length t - length (dropWhile identifier_continue t) = length k"
        using b by (simp add: Suc_diff_le length_dropWhile_le)
      have last: "k \<noteq> [] \<Longrightarrow> t ! (length k - Suc 0) = last k"
        by (subst t) (simp add: nth_append last_conv_nth)
      from no_quote False name assms distance distance' b
      have c: "c = dropWhile identifier_continue t" "k \<noteq> []" "t ! (length k - Suc 0) = CHR ''_''"
        "peek c \<in> quotes"
        by (auto simp: character_literal_quote_def is_one_of_quotes Let_def nth_Cons' split: if_splits)
      have "is_name (x # k)"
        using name b by (auto simp: is_name_def k_def list_all_iff identifier_start_continue dest: set_takeWhileD)
      moreover obtain q rest where "c = q # rest" using c(4) by (cases c) (auto simp: NUL_code)
      ultimately show ?thesis
        using c b t last by (intro exI [of _ "x # k"]) (auto simp: literal_prefix_def)
    qed
  qed
  with that show ?thesis by blast
qed

lemma scan_kind_string_scans:
  assumes "scan_kind_string s b = Some r"
  shows "scans s b r"
proof -
  from assms obtain c where c: "character_literal_quote (Some b) = Some c"
    and r: "r = scan_string (move_to s c) b"
    by (auto simp: scan_kind_string_def split: option.splits if_splits)
  from c obtain p q rest where "b = p @ c" "c = q # rest" "literal_prefix p" "q \<in> quotes"
    by (rule character_literal_quote_prefix)
  then have "scans (move_to s c) b r"
    using scan_string_scans [of "move_to s c" q rest b p] r by simp
  then show ?thesis by simp
qed

lemma boz_digits_split:
  "boz_digits p q c fi n = (r, fi', n') \<Longrightarrow>
   \<exists>w. c = w @ r \<and> q \<notin> set w \<and> (r = [] \<or> hd r = q) \<and> n' = n + length w \<and>
       (if fi \<noteq> None \<or> list_all (valid_boz_digit p) w then fi' = fi
        else \<exists>u v. w = u @ v \<and> v \<noteq> [] \<and> fi' = Some (v @ r))"
proof (induction p q c fi n arbitrary: r fi' n' rule: boz_digits.induct)
  case (1 p q fi n)
  then show ?case by simp
next
  case (2 p q x c fi n)
  show ?case
  proof (cases "x = q")
    case True
    with 2(2) show ?thesis by auto
  next
    case False
    define fi1 where "fi1 = (if \<not> valid_boz_digit p x \<and> fi = None then Some (x # c) else fi)"
    from 2(2) False have "boz_digits p q c fi1 (n + 1) = (r, fi', n')" by (simp add: fi1_def)
    with 2(1) [OF False] obtain w where w: "c = w @ r" "q \<notin> set w" "r = [] \<or> hd r = q"
      "n' = n + 1 + length w"
      "if fi1 \<noteq> None \<or> list_all (valid_boz_digit p) w then fi' = fi1
       else \<exists>u v. w = u @ v \<and> v \<noteq> [] \<and> fi' = Some (v @ r)"
      unfolding fi1_def by blast
    have "if fi \<noteq> None \<or> list_all (valid_boz_digit p) (x # w) then fi' = fi
       else \<exists>u v. x # w = u @ v \<and> v \<noteq> [] \<and> fi' = Some (v @ r)"
    proof (cases "fi1 = fi")
      case True
      with w(5) show ?thesis
        by (auto simp: fi1_def split: if_splits)
    next
      case changed: False
      then have "fi = None" "\<not> valid_boz_digit p x" "fi1 = Some (x # c)"
        by (auto simp: fi1_def split: if_splits)
      with w(1,5) show ?thesis by (auto intro!: exI [of _ "[]"])
    qed
    with w False show ?thesis by (intro exI [of _ "x # w"]) auto
  qed
qed

lemma two_characters: "peek (drop 1 b) = q \<Longrightarrow> q \<noteq> NUL \<Longrightarrow> \<exists>c r. b = c # q # r"
  by (cases b; cases "drop 1 b") auto

lemma scan_boz_scans:
  assumes "scan_boz s b = Some r"
  shows "scans s b r"
proof -
  define prefix where "prefix = tolower (peek b)"
  define q where "q = peek (drop 1 b)"
  from assms have pre: "prefix \<in> set ''bozx''" and q: "q \<in> quotes"
    by (auto simp: scan_boz_def Let_def prefix_def q_def is_one_of_def split: if_splits)
  from q obtain c t where b: "b = c # q # t"
    using two_characters [of b q] quotes_not_NUL by (auto simp: q_def)
  obtain e fi n where run: "boz_digits prefix q t None 0 = (e, fi, n)"
    using prod_cases3 [of "boz_digits prefix q t None 0"] by blast
  have accepted: "is_one_of prefix ''bozx'' \<and> is_one_of q [CHR 0x27, CHR 0x22]"
    using pre q by (simp add: is_one_of_def)
  have t: "drop 2 b = t" using b by simp
  have from_run: "Some r = (if peek e \<noteq> q
      then Some (set_error (set_kind (move_to s e) TOKEN_INVALID) b)
      else if n = 0 \<or> fi \<noteq> None
      then Some (set_error (set_kind (move_to s (drop 1 e)) TOKEN_INVALID)
                   (case fi of Some at \<Rightarrow> at | None \<Rightarrow> t))
      else Some (set_kind (move_to s (drop 1 e)) TOKEN_BOZ))"
    unfolding assms [symmetric] scan_boz_def Let_def prefix_def [symmetric] q_def [symmetric] t run
    using accepted by simp
  from boz_digits_split [OF run] obtain w where w: "t = w @ e" "e = [] \<or> hd e = q" "n = length w"
    "if list_all (valid_boz_digit prefix) w then fi = None
     else \<exists>u v. w = u @ v \<and> v \<noteq> [] \<and> fi = Some (v @ e)"
    by auto
  show ?thesis
  proof (cases "peek e = q")
    case False
    with w(2) have "e = []" by (cases e) auto
    with from_run False have r: "r = set_error (set_kind (move_to s []) TOKEN_INVALID) b" by simp
    with b show ?thesis by (intro scans_invalid [of _ _ _ "[]" b]) simp_all
  next
    case True
    with q quotes_not_NUL obtain e' where e: "e = q # e'" using peek_cons by metis
    show ?thesis
    proof (cases "n = 0 \<or> fi \<noteq> None")
      case False
      with from_run e have "r = set_kind (move_to s e') TOKEN_BOZ" by simp
      moreover have "list_all (valid_boz_digit prefix) w" "w \<noteq> []"
        using w(3,4) False by (auto split: if_splits)
      ultimately show ?thesis
        using pre q b w(1) e
        by (intro scans_valid [of _ _ _ "c # q # w @ [q]"])
          (auto simp: prefix_def intro!: spelled.boz)
    next
      case True
      with from_run e have r: "r = set_error (set_kind (move_to s e') TOKEN_INVALID)
          (case fi of Some at \<Rightarrow> at | None \<Rightarrow> t)" by simp
      have "\<exists>u v. b = u @ v @ e' \<and> v \<noteq> [] \<and> (case fi of Some at \<Rightarrow> at | None \<Rightarrow> t) = v @ e'"
      proof (cases fi)
        case None
        with b w(1) e show ?thesis by (auto intro!: exI [of _ "[c, q]"] exI [of _ "w @ [q]"])
      next
        case (Some at)
        with w(4) obtain u v where "w = u @ v" "v \<noteq> []" "at = v @ e" by (auto split: if_splits)
        with Some b w(1) e show ?thesis
          by (auto intro!: exI [of _ "c # q # u"] exI [of _ "v @ [q]"])
      qed
      then obtain u v where "b = u @ v @ e'" "v \<noteq> []" "(case fi of Some at \<Rightarrow> at | None \<Rightarrow> t) = v @ e'"
        by blast
      with r show ?thesis by (intro scans_invalid [of _ _ _ u v]) simp_all
    qed
  qed
qed

lemma name_split: "identifier_start (peek b) \<Longrightarrow>
  \<exists>w. is_name w \<and> b = w @ dropWhile identifier_continue (drop 1 b)"
  by (cases b)
    (auto simp: is_name_def list_all_iff identifier_start_continue dest: set_takeWhileD
      intro!: exI [of _ "hd b # takeWhile identifier_continue (tl b)"])

lemma scan_word_scans:
  assumes "identifier_start (peek b)"
  shows "scans s b (scan_word s b)"
proof (cases "scan_kind_string s b")
  case (Some r)
  then show ?thesis using scan_kind_string_scans by (simp add: scan_word_def)
next
  case no_string: None
  show ?thesis
  proof (cases "scan_boz s b")
    case (Some r)
    then show ?thesis using scan_boz_scans no_string by (simp add: scan_word_def)
  next
    case None
    from name_split [OF assms] obtain w
      where "is_name w" "b = w @ dropWhile identifier_continue (drop 1 b)" by blast
    with no_string None show ?thesis
      by (intro scans_valid [of _ _ _ w]) (auto simp: scan_word_def is_name_def intro: spelled.name)
  qed
qed

section \<open>Numbers\<close>

lemma scan_hollerith_scans:
  assumes "scan_hollerith s b d = Some r" "b = ds @ d" "digits ds" "\<not> isdigit (peek d)"
  shows "scans s b r"
proof -
  from assms(2-4) have read: "takeWhile isdigit b = ds" "dropWhile isdigit b = d"
    by (cases d; auto simp: digits_def list_all_iff takeWhile_append dropWhile_append)+
  define payload where "payload = drop 1 d"
  from assms(1) obtain h where h: "h \<in> set ''hH''" "d = h # payload"
    unfolding scan_hollerith_def payload_def is_one_of_def
    by (cases d) (auto simp: NUL_code split: if_splits)
  define n where "n = min (decimal_value ds) SIZE_MAX"
  have chosen: "Some r = (if SIZE_MAX < decimal_value ds
      then Some (set_kind (move_to (set_error s b) payload) TOKEN_INVALID)
      else if length payload < n then Some (set_kind (move_to (set_error s b) []) TOKEN_INVALID)
      else Some (set_kind (move_to s (drop n payload)) TOKEN_HOLLERITH))"
    unfolding assms(1) [symmetric] scan_hollerith_def strtoull_def Let_def read
    using assms(2,3) h by (auto simp: is_one_of_def digits_def n_def)
  show ?thesis
  proof (cases "decimal_value ds \<le> SIZE_MAX \<and> n \<le> length payload")
    case True
    with chosen have r: "r = set_kind (move_to s (drop n payload)) TOKEN_HOLLERITH"
      by (simp split: if_splits)
    from True have "decimal_value ds = length (take n payload)" "length (take n payload) \<le> SIZE_MAX"
      by (auto simp: n_def min_def)
    with assms(3) h(1) have "spelled TOKEN_HOLLERITH (ds @ h # take n payload)"
      by (rule spelled.hollerith)
    with r assms(2) h(2) show ?thesis
      by (intro scans_valid [of _ _ _ "ds @ h # take n payload"]) simp_all
  next
    case False
    with chosen have "r = set_kind (move_to (set_error s b) payload) TOKEN_INVALID \<or>
      r = set_kind (move_to (set_error s b) []) TOKEN_INVALID"
      by (auto split: if_splits)
    then obtain v where "r = set_kind (move_to (set_error s b) (drop (length v) b)) TOKEN_INVALID"
      "b = v @ drop (length v) b" "v \<noteq> []"
    proof
      assume "r = set_kind (move_to (set_error s b) payload) TOKEN_INVALID"
      with that [of "ds @ [h]"] assms(2) h(2) show thesis by simp
    next
      assume "r = set_kind (move_to (set_error s b) []) TOKEN_INVALID"
      with that [of b] assms(2) h(2) show thesis by simp
    qed
    then show ?thesis
      by (intro scans_invalid [of _ _ _ "[]" v]) simp_all
  qed
qed

text \<open>A part of a number: what it consumed, and where it put the error when it is not valid.\<close>

definition consumes :: "token_stream \<Rightarrow> string \<Rightarrow> token_stream \<Rightarrow> bool \<Rightarrow> bool" where
  "consumes s w r valid \<longleftrightarrow> same_line s r \<and> stream_cursor s = w @ stream_cursor r \<and>
     (if valid then error_at r = error_at s
      else \<exists>u v. w = u @ v \<and> v \<noteq> [] \<and>
        error_at r = first_error (error_at s) (v @ stream_cursor r))"

lemma same_line_trans: "same_line s t \<Longrightarrow> same_line t r \<Longrightarrow> same_line s r"
  by (simp add: same_line_def)

lemma consumes_invalid:
  assumes "same_line s r" "stream_cursor s = w @ stream_cursor r" "w \<noteq> []"
    "error_at r = first_error (error_at s) (stream_cursor s)"
  shows "consumes s w r False"
proof -
  have "w = [] @ w \<and> w \<noteq> [] \<and>
      error_at r = first_error (error_at s) (w @ stream_cursor r)"
    using assms(2-4) by simp
  with assms(1,2) show ?thesis unfolding consumes_def by (intro conjI) (simp_all, blast)
qed

lemma consumes_append:
  assumes "consumes s w t valid" "consumes t w' r valid'"
  shows "consumes s (w @ w') r (valid \<and> valid')"
proof (cases "valid \<and> valid'")
  case True
  with assms show ?thesis by (auto simp: consumes_def intro: same_line_trans)
next
  case False
  from assms have base: "same_line s r" "stream_cursor s = (w @ w') @ stream_cursor r"
    by (auto simp: consumes_def intro: same_line_trans)
  have "\<exists>u v. w @ w' = u @ v \<and> v \<noteq> [] \<and>
      error_at r = first_error (error_at s) (v @ stream_cursor r)"
  proof (cases valid)
    case True
    with False assms obtain u v where "w' = u @ v" "v \<noteq> []" "error_at t = error_at s"
      "error_at r = first_error (error_at t) (v @ stream_cursor r)"
      by (auto simp: consumes_def)
    then show ?thesis by (intro exI [of _ "w @ u"] exI [of _ v]) simp
  next
    case invalid: False
    with assms(1) obtain u v where first: "w = u @ v" "v \<noteq> []"
      "error_at t = first_error (error_at s) (v @ stream_cursor t)"
      by (auto simp: consumes_def)
    from assms(2) have "stream_cursor t = w' @ stream_cursor r" by (simp add: consumes_def)
    moreover from first(3) obtain e where e: "error_at t = Some e" by (cases "error_at s") auto
    moreover from assms(2) e have "error_at r = Some e"
      by (auto simp: consumes_def split: if_splits)
    ultimately show ?thesis
      using first by (intro exI [of _ u] exI [of _ "v @ w'"]) (cases "error_at s"; simp)
  qed
  with base False show ?thesis by (auto simp: consumes_def)
qed

lemma scan_exponent_consumes:
  "\<exists>w. consumes s w (fst (scan_exponent s)) (snd (scan_exponent s)) \<and>
       (snd (scan_exponent s) \<longrightarrow> exponent_part w)"
proof (cases "is_one_of (peek (stream_cursor s)) ''eEdDqQ''")
  case False
  then show ?thesis
    by (intro exI [of _ "[]"]) (simp add: scan_exponent_def consumes_def exponent_part_def)
next
  case True
  then obtain e c where e: "stream_cursor s = e # c" "e \<in> set ''eEdDqQ''"
    by (cases "stream_cursor s") (auto simp: is_one_of_def NUL_code)
  define sign where "sign = (if is_one_of (peek c) ''+-'' then [peek c] else [])"
  define d where "d = (if is_one_of (peek c) ''+-'' then drop 1 c else c)"
  have c: "c = sign @ d" and sign: "sign = [] \<or> sign = ''+'' \<or> sign = ''-''"
    by (cases c; auto simp: sign_def d_def is_one_of_def NUL_code)+
  define ds where "ds = takeWhile isdigit d"
  have d: "d = ds @ dropWhile isdigit d" by (simp add: ds_def)
  have scanned: "scan_exponent s =
      (move_to (if isdigit (peek d) then s else set_error s (e # c)) (dropWhile isdigit d), isdigit (peek d))"
    using True e by (simp add: scan_exponent_def Let_def d_def)
  show ?thesis
  proof (cases "isdigit (peek d)")
    case valid: True
    have "exponent_part (e # sign @ ds)"
      using e(2) sign takeWhile_digits [OF valid]
      unfolding exponent_part_def ds_def by blast
    with scanned valid e c d show ?thesis
      by (intro exI [of _ "e # sign @ ds"]) (simp add: consumes_def)
  next
    case False
    with scanned e c d show ?thesis
      by (intro exI [of _ "e # sign @ ds"]) (simp add: consumes_invalid)
  qed
qed

lemma scan_kind_suffix_consumes:
  "\<exists>w. consumes s w (fst (scan_kind_suffix s)) (snd (scan_kind_suffix s)) \<and>
       (snd (scan_kind_suffix s) \<longrightarrow> w = [] \<or>
          (number_suffix w \<and> \<not> identifier_continue (peek (stream_cursor (fst (scan_kind_suffix s))))))"
proof (cases "peek (stream_cursor s) = CHR ''_''")
  case False
  then show ?thesis by (intro exI [of _ "[]"]) (simp add: scan_kind_suffix_def consumes_def)
next
  case True
  then obtain c where c: "stream_cursor s = CHR ''_'' # c"
    by (cases "stream_cursor s") (auto simp: NUL_code)
  define k where "k = takeWhile identifier_continue c"
  have split: "c = k @ dropWhile identifier_continue c" by (simp add: k_def)
  have stop: "\<not> identifier_continue (peek (dropWhile identifier_continue c))"
    by (induction c) auto
  have scanned: "scan_kind_suffix s = (move_to (if identifier_continue (peek c) then s
      else set_error s (stream_cursor s)) (dropWhile identifier_continue c), identifier_continue (peek c))"
    using True c by (simp add: scan_kind_suffix_def Let_def)
  show ?thesis
  proof (cases "identifier_continue (peek c)")
    case valid: True
    then have "k \<noteq> []" by (cases c) (auto simp: k_def)
    moreover have "list_all identifier_continue k"
      by (auto simp: k_def list_all_iff dest: set_takeWhileD)
    ultimately have "number_suffix (CHR ''_'' # k)" by (simp add: number_suffix_def)
    with scanned valid c split stop show ?thesis
      by (intro exI [of _ "CHR ''_'' # k"]) (simp add: consumes_def)
  next
    case False
    with scanned c split show ?thesis
      by (intro exI [of _ "CHR ''_'' # k"]) (simp add: consumes_invalid)
  qed
qed

lemma consumes_move: "stream_cursor s = w @ c \<Longrightarrow> consumes s w (move_to s c) True"
  by (simp add: consumes_def)

lemma fraction_consumes:
  assumes "s' = (if peek (stream_cursor s) = CHR ''.'' \<and> valid_real_fraction (stream_cursor s)
     then move_to s (dropWhile isdigit (drop 1 (stream_cursor s))) else s)"
    and "stream_cursor s' = after @ rest"
  shows "\<exists>w. consumes s w s' True \<and> fraction_part w after"
proof (cases "peek (stream_cursor s) = CHR ''.'' \<and> valid_real_fraction (stream_cursor s)")
  case False
  with assms(1) show ?thesis
    by (intro exI [of _ "[]"]) (simp add: consumes_def fraction_part_def del: de_Morgan_conj)
next
  case True
  then obtain c where c: "stream_cursor s = CHR ''.'' # c"
    by (cases "stream_cursor s") (auto simp: NUL_code)
  have s': "s' = move_to s (dropWhile isdigit c)" using True assms(1) c by simp
  define ds where "ds = takeWhile isdigit c"
  have split: "c = ds @ dropWhile isdigit c" by (simp add: ds_def)
  have "peek after \<notin> set ''qQ''" if "ds = []"
  proof (cases after)
    case Nil
    then show ?thesis by (simp add: NUL_code)
  next
    case (Cons x t)
    then have "peek c = x" using that split s' assms(2) by simp
    with True c show ?thesis
      using Cons by (auto simp: valid_real_fraction_def is_one_of_def isalpha_def ascii_def)
  qed
  moreover have "list_all isdigit ds" by (auto simp: ds_def list_all_iff dest: set_takeWhileD)
  ultimately have "fraction_part (CHR ''.'' # ds) after" by (simp add: fraction_part_def)
  moreover have "consumes s (CHR ''.'' # ds) s' True"
    using split c s' by (simp add: consumes_move)
  ultimately show ?thesis by blast
qed

text \<open>The part of \<open>scan_number\<close> after the digits, when they do not count a Hollerith constant.\<close>

lemma number_tail_consumes:
  assumes s2: "s2 = (if peek (stream_cursor s) = CHR ''.'' \<and> valid_real_fraction (stream_cursor s)
     then move_to s (dropWhile isdigit (drop 1 (stream_cursor s))) else s)"
    and s3: "scan_exponent s2 = (s3, v3)" and s4: "scan_kind_suffix s3 = (s4, v4)"
    and s5: "s5 = (if is_one_of (peek (stream_cursor s4)) ''fF''
       then move_to s4 (drop 1 (stream_cursor s4)) else s4)"
  obtains f e k where "consumes s (f @ e @ k) s5 (v3 \<and> v4)"
    "v3 \<and> v4 \<longrightarrow> exponent_part e \<and> number_suffix k \<and> fraction_part f (e @ k)"
proof -
  from scan_exponent_consumes [of s2] s3 obtain e
    where e: "consumes s2 e s3 v3" "v3 \<Longrightarrow> exponent_part e" by auto
  from scan_kind_suffix_consumes [of s3] s4 obtain u
    where u: "consumes s3 u s4 v4"
      "v4 \<Longrightarrow> u = [] \<or> number_suffix u \<and> \<not> identifier_continue (peek (stream_cursor s4))" by auto
  define l where "l = (if is_one_of (peek (stream_cursor s4)) ''fF'' then [peek (stream_cursor s4)] else [])"
  have "stream_cursor s4 = l @ stream_cursor s5"
    unfolding l_def s5 by (cases "stream_cursor s4") (auto simp: is_one_of_def NUL_code)
  then have l: "consumes s4 l s5 True" by (auto simp: consumes_def s5)
  have suffix: "number_suffix (u @ l)" if v4
  proof (cases "l = []")
    case True
    with u(2) [OF that] show ?thesis by (auto simp: number_suffix_def)
  next
    case False
    then have "l = ''f'' \<or> l = ''F''" "identifier_continue (peek (stream_cursor s4))"
      by (auto simp: l_def is_one_of_def identifier_continue_def char_class split: if_splits)
    with u(2) [OF that] show ?thesis by (auto simp: number_suffix_def)
  qed
  have tail: "consumes s2 (e @ u @ l) s5 (v3 \<and> v4)"
    using consumes_append [OF e(1) consumes_append [OF u(1) l]] by simp
  then have "stream_cursor s2 = (e @ u @ l) @ stream_cursor s5" by (simp add: consumes_def)
  from fraction_consumes [OF s2 this] obtain f
    where f: "consumes s f s2 True" "fraction_part f (e @ u @ l)" by blast
  from consumes_append [OF f(1) tail] have "consumes s (f @ e @ u @ l) s5 (v3 \<and> v4)" by simp
  then show ?thesis using that [of f e "u @ l"] e(2) suffix f(2) by simp
qed

lemma consumes_number:
  assumes "consumes s (w @ tail) r valid" "stream_cursor s = b" "w @ tail \<noteq> []"
    and "valid \<Longrightarrow> spelled TOKEN_NUMBER (w @ tail)"
  shows "scans s b (set_kind r (if valid then TOKEN_NUMBER else TOKEN_INVALID))"
proof (cases valid)
  case True
  with assms show ?thesis
    by (intro scans_valid [of _ _ _ "w @ tail"]) (simp_all add: consumes_def)
next
  case False
  with assms(1) obtain u v where "w @ tail = u @ v" "v \<noteq> []"
    "error_at r = first_error (error_at s) (v @ stream_cursor r)" by (auto simp: consumes_def)
  with False assms(1,2) show ?thesis
    by (intro scans_invalid [of _ _ _ u v]) (simp_all add: consumes_def)
qed

lemma scan_number_scans:
  assumes cursor: "stream_cursor s = b"
    and first: "isdigit (peek b) \<or> (peek b = CHR ''.'' \<and> isdigit (peek (drop 1 b)))"
  shows "scans s b (scan_number s b)"
proof -
  define c where "c = (if peek b = CHR ''.'' then drop 1 b else b)"
  define d where "d = dropWhile isdigit c"
  define ds where "ds = takeWhile isdigit c"
  define a where "a = (if peek b = CHR ''.'' then CHR ''.'' # ds else ds)"
  have c_digit: "isdigit (peek c)"
    using first by (auto simp: c_def char_class)
  then have ds: "digits ds" unfolding ds_def by (rule takeWhile_digits)
  have b: "b = a @ d"
    by (cases b) (auto simp: a_def c_def d_def ds_def NUL_code)
  have whole: "whole_part a" using ds by (auto simp: whole_part_def a_def)
  have stop: "\<not> isdigit (peek d)" unfolding d_def by (induction c) auto
  show ?thesis
  proof (cases "if peek b \<noteq> CHR ''.'' then scan_hollerith (move_to s d) b d else None")
    case (Some r)
    then have "scan_hollerith (move_to s d) b d = Some r" "a = ds" by (auto simp: a_def split: if_splits)
    with b ds stop have "scans s b r" using scan_hollerith_scans [of "move_to s d" b d r ds] by simp
    moreover have "scan_number s b = r"
      using Some unfolding scan_number_def Let_def cursor c_def [symmetric] d_def [symmetric] by simp
    ultimately show ?thesis by simp
  next
    case None
    define s2 where "s2 = (if peek d = CHR ''.'' \<and> valid_real_fraction d
        then move_to (move_to s d) (dropWhile isdigit (drop 1 d)) else move_to s d)"
    obtain s3 v3 where s3: "scan_exponent s2 = (s3, v3)" by fastforce
    obtain s4 v4 where s4: "scan_kind_suffix s3 = (s4, v4)" by fastforce
    define s5 where "s5 = (if is_one_of (peek (stream_cursor s4)) ''fF''
        then move_to s4 (drop 1 (stream_cursor s4)) else s4)"
    have scanned: "scan_number s b = set_kind s5 (if v3 \<and> v4 then TOKEN_NUMBER else TOKEN_INVALID)"
      using None unfolding scan_number_def Let_def cursor c_def [symmetric] d_def [symmetric]
        s2_def [symmetric] by (simp add: s3 s4 s5_def)
    have "s2 = (if peek (stream_cursor (move_to s d)) = CHR ''.'' \<and>
        valid_real_fraction (stream_cursor (move_to s d))
        then move_to (move_to s d) (dropWhile isdigit (drop 1 (stream_cursor (move_to s d))))
        else move_to s d)" by (simp add: s2_def)
    from this s3 s4 s5_def obtain f e k where tail: "consumes (move_to s d) (f @ e @ k) s5 (v3 \<and> v4)"
      "v3 \<and> v4 \<longrightarrow> exponent_part e \<and> number_suffix k \<and> fraction_part f (e @ k)"
      by (rule number_tail_consumes)
    from cursor b consumes_append [OF consumes_move tail(1)]
    have "consumes s (a @ f @ e @ k) s5 (v3 \<and> v4)" by simp
    moreover have "a \<noteq> []" using whole by (auto simp: whole_part_def digits_def)
    ultimately show ?thesis
      unfolding scanned using cursor tail(2) whole by (intro consumes_number) (auto intro: spelled.number)
  qed
qed

section \<open>Dotted operators and symbols\<close>

lemma skip_space_split: "\<exists>u. s = u @ skip_space s \<and> spaces u"
proof (induction s)
  case Nil
  then show ?case by (simp add: spaces_def)
next
  case (Cons c s)
  then obtain u where "s = u @ skip_space s" "spaces u" by blast
  then show ?case
    by (cases "isspace c")
      (auto simp: spaces_def intro: exI [of _ "c # u"] exI [of _ "[]"])
qed

lemma filter_skip_space:
  "List.filter (\<lambda>c. \<not> isspace c) (skip_space s) = List.filter (\<lambda>c. \<not> isspace c) s"
  by (induction s) auto

lemma token_equals_from_reads_as:
  "list_all (\<lambda>c. \<not> isspace c) word \<Longrightarrow> token_equals_from w word \<longleftrightarrow> reads_as w word"
proof (induction w word rule: token_equals_from.induct)
  case (1 w word)
  show ?case
  proof (cases "skip_space w")
    case Nil
    then have "List.filter (\<lambda>c. \<not> isspace c) w = []" using filter_skip_space [of w] by simp
    moreover have "token_equals_from w word \<longleftrightarrow> word = []"
      using Nil by (subst token_equals_from.simps) auto
    ultimately show ?thesis by (auto simp: reads_as_def)
  next
    case (Cons c v)
    have c: "\<not> isspace c" using skip_space_not_space [of w] Cons by simp
    have w: "w \<noteq> []" using Cons by auto
    have reads: "List.filter (\<lambda>c. \<not> isspace c) w = c # List.filter (\<lambda>c. \<not> isspace c) v"
      using filter_skip_space [of w] Cons c by simp
    show ?thesis
    proof (cases word)
      case Nil
      with w reads show ?thesis by (subst token_equals_from.simps) (simp add: Cons reads_as_def)
    next
      case word: (Cons t rest)
      have "token_equals_from w word = (token_character_equal c t \<and> token_equals_from v rest)"
        using w word by (subst token_equals_from.simps) (simp add: Cons)
      also have "\<dots> = (tolower c = tolower t \<and> reads_as v rest)"
        using 1(1) [OF _ refl] 1(2) w word Cons by (auto simp: token_character_equal_def)
      also have "\<dots> = reads_as w word" using reads word by (simp add: reads_as_def)
      finally show ?thesis .
    qed
  qed
qed

lemma logical_literals_have_no_blank:
  "list_all (\<lambda>c. \<not> isspace c) ''.true.''" "list_all (\<lambda>c. \<not> isspace c) ''.false.''"
  by (simp_all add: isspace_def ascii_def)

lemma takeWhile_member: "x \<in> set w \<Longrightarrow> takeWhile (\<lambda>c. c \<noteq> x) (w @ v) = takeWhile (\<lambda>c. c \<noteq> x) w"
  by simp

text \<open>A token that has no underscore is a logical literal when it reads as one.\<close>

lemma logical_literal_reads_as:
  assumes "kind t = TOKEN_OPERATOR" "CHR ''_'' \<notin> set (token_text t)"
  shows "token_logical_literal t \<noteq> 0 \<longleftrightarrow>
    reads_as (token_text t) ''.true.'' \<or> reads_as (token_text t) ''.false.''"
  using assms token_equals_from_reads_as [OF logical_literals_have_no_blank(1), of "token_text t"]
    token_equals_from_reads_as [OF logical_literals_have_no_blank(2), of "token_text t"]
  by (simp add: token_logical_literal_def token_equals_def)

lemma dotted_word_no_underscore: "dotted_word w \<Longrightarrow> CHR ''_'' \<notin> set w"
  by (fastforce simp: dotted_word_def spaces_def list_all_iff char_class)

lemma scan_dotted_scans:
  assumes "peek b = CHR ''.''" "token_begin (stream_token s) = b"
  shows "scans s b (scan_dotted s b)"
proof -
  from assms(1) obtain b1 where b1: "b = CHR ''.'' # b1" by (cases b) (auto simp: NUL_code)
  obtain u where u: "b1 = u @ skip_space b1" "spaces u" using skip_space_split by blast
  define letters where "letters = takeWhile isalpha (skip_space b1)"
  define b2 where "b2 = dropWhile isalpha (skip_space b1)"
  have l: "skip_space b1 = letters @ b2" "list_all isalpha letters"
    by (auto simp: letters_def b2_def list_all_iff dest: set_takeWhileD)
  obtain v where v: "b2 = v @ skip_space b2" "spaces v" using skip_space_split by blast
  define c where "c = skip_space b2"
  have b: "b = (CHR ''.'' # u @ letters @ v) @ c" using b1 u l v by (simp add: c_def)
  show ?thesis
  proof (cases "peek c = CHR ''.''")
    case False
    then have "scan_dotted s b = set_error (set_kind (move_to s c) TOKEN_INVALID) b"
      using b1 by (simp add: scan_dotted_def Let_def c_def b2_def)
    with b show ?thesis
      by (intro scans_invalid [of _ _ _ "[]" "CHR ''.'' # u @ letters @ v"]) simp_all
  next
    case True
    then obtain c1 where c1: "c = CHR ''.'' # c1" by (cases c) (auto simp: NUL_code)
    define w where "w = ''.'' @ u @ letters @ v @ ''.''"
    have w: "dotted_word w" "b = w @ c1" "w \<noteq> []"
      using u l v b c1 by (auto simp: dotted_word_def w_def)
    define t where "t = (stream_token s)\<lparr>kind := TOKEN_OPERATOR, token_length := length w\<rparr>"
    define s1 where "s1 = s\<lparr>stream_cursor := c1, stream_token := t\<rparr>"
    have s1: "same_line s s1" "error_at s1 = error_at s" "stream_cursor s1 = c1"
      "kind (stream_token s1) = TOKEN_OPERATOR"
      by (simp_all add: s1_def t_def same_line_def)
    have made: "(set_kind (move_to s c1) TOKEN_OPERATOR)\<lparr>stream_token :=
        (stream_token (set_kind (move_to s c1) TOKEN_OPERATOR))\<lparr>token_length := length b - length c1\<rparr>\<rparr> = s1"
      using w(2) by (simp add: s1_def t_def set_kind_def move_to_def)
    have ends: "skip_space (dropWhile isalpha (skip_space (drop 1 b))) = c"
      using b1 by (simp add: c_def b2_def)
    have dropped: "drop 1 c = c1" using c1 by simp
    have token: "stream_token s1 = t" by (simp add: s1_def)
    have scanned: "scan_dotted s b =
        (if token_logical_literal t \<noteq> 0 \<and> peek c1 = CHR ''_''
         then move_to (if identifier_continue (peek (drop 1 c1)) then s1
                       else set_error (set_kind s1 TOKEN_INVALID) c1)
                (dropWhile identifier_continue (drop 1 c1))
         else s1)"
      unfolding scan_dotted_def Let_def ends if_P [OF True] dropped made token by (rule refl)
    have letters: "token_text t = w" using assms(2) w(2) by (simp add: token_text_def t_def)
    then have logical: "token_logical_literal t \<noteq> 0 \<longleftrightarrow> reads_as w ''.true.'' \<or> reads_as w ''.false.''"
      using logical_literal_reads_as [of t] dotted_word_no_underscore [OF w(1)] by (simp add: t_def)
    show ?thesis
    proof (cases "token_logical_literal t \<noteq> 0 \<and> peek c1 = CHR ''_''")
      case False
      with scanned s1 w show ?thesis
        by (intro scans_valid [of _ _ _ w]) (auto intro: spelled.dotted)
    next
      case suffix: True
      then obtain c2 where c2: "c1 = CHR ''_'' # c2" by (cases c1) (auto simp: NUL_code)
      define k where "k = takeWhile identifier_continue c2"
      define c3 where "c3 = dropWhile identifier_continue c2"
      have k: "c2 = k @ c3" "list_all identifier_continue k"
        by (auto simp: k_def c3_def list_all_iff dest: set_takeWhileD)
      show ?thesis
      proof (cases "identifier_continue (peek c2)")
        case True
        then have "k \<noteq> []" by (cases c2) (auto simp: k_def)
        with k suffix logical w have "spelled TOKEN_OPERATOR (w @ CHR ''_'' # k)"
          by (auto intro: spelled.logical)
        moreover have "scan_dotted s b = move_to s1 c3"
          using suffix scanned c2 True by (simp add: c3_def)
        ultimately show ?thesis
          using s1 w c2 k by (intro scans_valid [of _ _ _ "w @ CHR ''_'' # k"]) simp_all
      next
        case False
        then have "scan_dotted s b = move_to (set_error (set_kind s1 TOKEN_INVALID) c1) c3"
          using suffix scanned c2 by (simp add: c3_def)
        then show ?thesis
          using s1 w c2 k by (intro scans_invalid [of _ _ _ w "CHR ''_'' # k"]) simp_all
      qed
    qed
  qed
qed

lemma one_character:
  assumes "r = set_kind (move_to s (drop 1 b)) k" "b \<noteq> []" "spelled k [peek b]"
  shows "scans s b r"
  using assms by (cases b) (auto intro!: scans_valid [of _ _ _ "[peek b]"])

lemma two_character:
  assumes "r = set_kind (move_to s (drop 2 b)) k" "b \<noteq> []" "peek (drop 1 b) \<noteq> NUL"
    "spelled k [peek b, peek (drop 1 b)]"
  shows "scans s b r"
proof -
  from assms(2,3) obtain x y c where "b = x # y # c"
    using two_characters [of b "peek (drop 1 b)"] by metis
  with assms show ?thesis by (auto intro!: scans_valid [of _ _ _ "[x, y]"])
qed

lemma if_scans:
  "(P \<Longrightarrow> scans s b x) \<Longrightarrow> (\<not> P \<Longrightarrow> scans s b y) \<Longrightarrow> scans s b (if P then x else y)"
  by simp

lemma scan_symbol_scans:
  assumes "b \<noteq> []" "token_begin (stream_token s) = b"
  shows "scans s b (scan_symbol s b)"
proof -
  define c where "c = peek b"
  define x where "x = peek (drop 1 b)"
  note folded = scan_symbol_def Let_def c_def [symmetric] x_def [symmetric]
  note one = one_character [OF _ assms(1), folded c_def]
  note two = two_character [OF _ assms(1), folded c_def x_def]
  have dotted: "scans s b (scan_dotted s b)" if "c = CHR ''.''"
    using scan_dotted_scans that assms(2) by (simp add: c_def)
  have invalid: "scans s b (set_error (set_kind (move_to s (drop 1 b)) TOKEN_INVALID) b)"
    using assms(1) by (cases b) (auto intro!: scans_invalid [of _ _ _ "[]" "[hd b]"])
  have operator_2: "scans s b (set_kind (move_to s (drop 2 b)) TOKEN_OPERATOR)"
    if "[c, x] \<in> set two_character_operators"
  proof -
    from that have "x \<noteq> NUL" by (auto simp: two_character_operators_def NUL_code)
    with that show ?thesis by (intro two [OF refl] spelled.operator_2)
  qed
  have operator_1: "scans s b (set_kind (move_to s (drop 1 b)) TOKEN_OPERATOR)"
    if "is_one_of c ''+-*/=<>~''"
    using that by (intro one [OF refl] spelled.operator_1) (simp add: is_one_of_def)
  show ?thesis
    unfolding folded
    by (intro if_scans; (elim conjE)?)
      ((rule two [OF refl]; simp add: symbol_spellings NUL_code; fail)
       | (rule one [OF refl]; simp add: symbol_spellings; fail)
       | (rule dotted operator_2 operator_1 invalid, assumption?))+
qed

lemma scan_token_scans:
  assumes "stream_cursor s = b" "b \<noteq> []" "token_begin (stream_token s) = b"
  shows "scans s b (scan_token s b)"
proof -
  have quoted: "scans s b (scan_string s b)" if "is_one_of (peek b) [CHR 0x27, CHR 0x22]"
    using assms(1,2) that scan_string_scans [of s "hd b" "tl b" b "[]"]
    by (cases b) (simp_all add: is_one_of_quotes literal_prefix_def)
  show ?thesis
    using assms quoted scan_word_scans scan_kind_string_scans scan_number_scans scan_symbol_scans
    by (auto simp: scan_token_def Let_def split: option.split)
qed

section \<open>The next token\<close>

definition line_end :: "cptr \<Rightarrow> bool" where
  "line_end b \<longleftrightarrow> peek b = NUL \<or> peek b = CHR ''!''"

lemma start_token_frame [simp]:
  "stream_cursor (start_token s) = skip_space (stream_cursor s)"
  "error_at (start_token s) = error_at s"
  "stream_source (start_token s) = stream_source s" "stream_line (start_token s) = stream_line s"
  "base_column (start_token s) = base_column s"
  "token_begin (stream_token (start_token s)) = skip_space (stream_cursor s)"
  by (simp_all add: start_token_def Let_def)

lemma finish_token_frame [simp]:
  "stream_cursor (finish_token s b) = stream_cursor s" "error_at (finish_token s b) = error_at s"
  "stream_source (finish_token s b) = stream_source s"
  "stream_line (finish_token s b) = stream_line s" "base_column (finish_token s b) = base_column s"
  "kind (stream_token (finish_token s b)) = kind (stream_token s)"
  "token_begin (stream_token (finish_token s b)) = token_begin (stream_token s)"
  "token_length (stream_token (finish_token s b)) = length b - length (stream_cursor s)"
  by (simp_all add: finish_token_def Let_def)

lemma next_at_end:
  assumes "line_end (skip_space (stream_cursor s))"
  shows "kind (stream_token (token_stream_next s)) = TOKEN_END"
  using assms by (simp add: token_stream_next_def line_end_def Let_def)

lemma next_in_line:
  assumes b: "b = skip_space (stream_cursor s)" "\<not> line_end b"
  obtains w where "b = w @ stream_cursor (token_stream_next s)" "w \<noteq> []"
    "token_begin (stream_token (token_stream_next s)) = b"
    "token_length (stream_token (token_stream_next s)) = length w"
    "stream_source (token_stream_next s) = stream_source s"
    "kind (stream_token (token_stream_next s)) = TOKEN_INVALID \<and>
       (\<exists>u v. w = u @ v \<and> v \<noteq> [] \<and> error_at (token_stream_next s) =
          first_error (error_at s) (v @ stream_cursor (token_stream_next s)))
     \<or> spelled (kind (stream_token (token_stream_next s))) w \<and> error_at (token_stream_next s) = error_at s"
proof -
  define r where "r = scan_token (start_token s) b"
  from b have "b \<noteq> []" by (auto simp: line_end_def)
  then have "scans (start_token s) b r"
    unfolding r_def by (intro scan_token_scans) (simp_all add: b(1))
  then obtain w where w: "w \<noteq> []" "b = w @ stream_cursor r" "same_line (start_token s) r"
    "if kind (stream_token r) = TOKEN_INVALID
     then \<exists>u v. w = u @ v \<and> v \<noteq> [] \<and> error_at r = first_error (error_at s) (v @ stream_cursor r)
     else spelled (kind (stream_token r)) w \<and> error_at r = error_at s"
    unfolding scans_def start_token_frame by blast
  have next_is: "token_stream_next s = finish_token r b"
    using b by (simp add: token_stream_next_def Let_def line_end_def r_def)
  have "token_begin (stream_token r) = b" "stream_source r = stream_source s"
    using w(3) b(1) by (simp_all add: same_line_def)
  with w show ?thesis
    by (intro that [of w]) (auto simp: next_is split: if_splits)
qed

lemma next_end_iff:
  "kind (stream_token (token_stream_next s)) = TOKEN_END \<longleftrightarrow> line_end (skip_space (stream_cursor s))"
proof (cases "line_end (skip_space (stream_cursor s))")
  case True
  then show ?thesis using next_at_end by simp
next
  case False
  from next_in_line [OF refl False] obtain w where
    "kind (stream_token (token_stream_next s)) = TOKEN_INVALID \<or>
     spelled (kind (stream_token (token_stream_next s))) w" by blast
  with False show ?thesis by (auto dest: spelled_end)
qed

text \<open>The loop over a line advances.\<close>

lemma next_advances:
  assumes "kind (stream_token (token_stream_next s)) \<noteq> TOKEN_END"
  shows "length (stream_cursor (token_stream_next s)) < length (stream_cursor s)"
proof -
  from assms have "\<not> line_end (skip_space (stream_cursor s))" by (simp add: next_end_iff)
  from next_in_line [OF refl this] obtain w
    where "skip_space (stream_cursor s) = w @ stream_cursor (token_stream_next s)" "w \<noteq> []" .
  then have "length (stream_cursor (token_stream_next s)) < length (skip_space (stream_cursor s))"
    by simp
  also have "\<dots> \<le> length (stream_cursor s)" by simp
  finally show ?thesis .
qed

end
