(* ===== verification/Token_Ranges.thy ===== *)
theory Token_Ranges
  imports Token_Lexer
begin

text \<open>
  Delimiters, cursors and ranges of tokens (the second part of \<open>frontend/token_cursor.c\<close>).

  \<^item> A \<open>const F2cToken *\<close> that may be NULL is \<^typ>\<open>token list option\<close>: the tokens from that one to
    the end of their array, of which the count that goes with it says how many belong to the range.
  \<^item> An index that is \<open>SIZE_MAX\<close> when nothing is found is \<^typ>\<open>nat option\<close>: no index of a range is
    \<open>SIZE_MAX\<close>.
  \<^item> \<open>mem n\<close> says whether \<open>malloc\<close> or \<open>realloc\<close> of \<open>n\<close> bytes succeeds; \<open>sizeof(F2cTokenKind)\<close> is 4
    and \<open>sizeof(F2cTokenRange)\<close> is 32. A separator text that may be NULL is \<^typ>\<open>string option\<close>.
\<close>

section \<open>Delimiters\<close>

definition left_delimiter :: "token_kind \<Rightarrow> bool" where
  "left_delimiter k \<longleftrightarrow> k = TOKEN_LEFT_PAREN \<or> k = TOKEN_LEFT_BRACKET \<or> k = TOKEN_ARRAY_BEGIN"

definition right_delimiter :: "token_kind \<Rightarrow> bool" where
  "right_delimiter k \<longleftrightarrow> k = TOKEN_RIGHT_PAREN \<or> k = TOKEN_RIGHT_BRACKET \<or> k = TOKEN_ARRAY_END"

definition matching_kinds :: "token_kind \<Rightarrow> token_kind \<Rightarrow> bool" where
  "matching_kinds l r \<longleftrightarrow> (l = TOKEN_LEFT_PAREN \<and> r = TOKEN_RIGHT_PAREN)
     \<or> (l = TOKEN_LEFT_BRACKET \<and> r = TOKEN_RIGHT_BRACKET)
     \<or> (l = TOKEN_ARRAY_BEGIN \<and> r = TOKEN_ARRAY_END)"

text \<open>The loop over the tokens from \<open>index\<close>; the top of the stack comes first.\<close>

fun delimiter_scan :: "token_kind list \<Rightarrow> nat \<Rightarrow> token list \<Rightarrow> nat option" where
  "delimiter_scan stack index [] = None"
| "delimiter_scan stack index (t # ts) =
     (if left_delimiter (kind t) then delimiter_scan (kind t # stack) (index + 1) ts
      else if right_delimiter (kind t)
      then if stack = [] \<or> \<not> matching_kinds (hd stack) (kind t) then None
           else if tl stack = [] then Some index
           else delimiter_scan (tl stack) (index + 1) ts
      else delimiter_scan stack (index + 1) ts)"

definition matching_delimiter ::
  "(nat \<Rightarrow> bool) \<Rightarrow> token list option \<Rightarrow> nat \<Rightarrow> nat \<Rightarrow> nat option" where
  "matching_delimiter mem tokens n open_index =
     (case tokens of None \<Rightarrow> None | Some ts \<Rightarrow>
        if n \<le> open_index \<or> \<not> left_delimiter (kind (ts ! open_index)) then None
        else let capacity = n - open_index in
          if SIZE_MAX div 4 < capacity then None
          else if \<not> mem (capacity * 4) then None
          else delimiter_scan [] open_index (take capacity (drop open_index ts)))"

lemma delimiter_scan_advances: "delimiter_scan stack i ts = Some j \<Longrightarrow> i \<le> j"
  by (induction stack i ts rule: delimiter_scan.induct) (fastforce split: if_splits)+

lemma matching_delimiter_advances:
  "matching_delimiter mem ts n i = Some j \<Longrightarrow> i \<le> j \<and> i < n"
  by (auto simp: matching_delimiter_def Let_def dest: delimiter_scan_advances
      split: option.splits if_splits)

function balanced_from :: "(nat \<Rightarrow> bool) \<Rightarrow> token list \<Rightarrow> nat \<Rightarrow> nat \<Rightarrow> bool" where
  "balanced_from mem ts n index =
     (if n \<le> index then True
      else if right_delimiter (kind (ts ! index)) then False
      else if left_delimiter (kind (ts ! index))
      then case matching_delimiter mem (Some ts) n index of
             None \<Rightarrow> False
           | Some close_index \<Rightarrow> balanced_from mem ts n (close_index + 1)
      else balanced_from mem ts n (index + 1))"
  by auto
termination
  by (relation "measure (\<lambda>(mem, ts, n, index). n - index)")
    (auto dest!: matching_delimiter_advances)

declare balanced_from.simps [simp del]

definition token_range_balanced :: "(nat \<Rightarrow> bool) \<Rightarrow> token list option \<Rightarrow> nat \<Rightarrow> bool" where
  "token_range_balanced mem tokens n =
     (case tokens of None \<Rightarrow> n = 0 | Some ts \<Rightarrow> balanced_from mem ts n 0)"

section \<open>Cursors\<close>

record token_cursor =
  cursor_tokens :: "token list option"
  cursor_count :: nat
  cursor_position :: nat

definition token_cursor_init :: "token list option \<Rightarrow> nat \<Rightarrow> token_cursor" where
  "token_cursor_init tokens n = \<lparr>cursor_tokens = tokens, cursor_count = n, cursor_position = 0\<rparr>"

definition token_cursor_peek :: "token_cursor \<Rightarrow> nat \<Rightarrow> token option" where
  "token_cursor_peek c lookahead =
     (case cursor_tokens c of None \<Rightarrow> None | Some ts \<Rightarrow>
        if SIZE_MAX - cursor_position c < lookahead \<or> cursor_count c \<le> cursor_position c + lookahead
        then None else Some (ts ! (cursor_position c + lookahead)))"

definition token_cursor_take :: "token_cursor \<Rightarrow> token option \<times> token_cursor" where
  "token_cursor_take c =
     (case token_cursor_peek c 0 of
        Some t \<Rightarrow> (Some t, c\<lparr>cursor_position := cursor_position c + 1\<rparr>)
      | None \<Rightarrow> (None, c))"

definition token_cursor_consume ::
  "token_cursor \<Rightarrow> token_kind \<Rightarrow> string option \<Rightarrow> bool \<times> token_cursor" where
  "token_cursor_consume c k word =
     (case token_cursor_peek c 0 of None \<Rightarrow> (False, c) | Some t \<Rightarrow>
        if kind t \<noteq> k \<or> (case word of None \<Rightarrow> False | Some w \<Rightarrow> \<not> token_equals t w) then (False, c)
        else (True, c\<lparr>cursor_position := cursor_position c + 1\<rparr>))"

section \<open>Ranges\<close>

record token_range =
  range_source :: "cptr option"
  range_source_length :: nat
  range_tokens :: "token list option"
  range_count :: nat

definition null_range :: token_range where
  "null_range = \<lparr>range_source = None, range_source_length = 0, range_tokens = None, range_count = 0\<rparr>"

definition token_range_slice :: "token_range \<Rightarrow> nat \<Rightarrow> nat \<Rightarrow> token_range" where
  "token_range_slice r begin_at end_at =
     (if end_at < begin_at \<or> range_count r < end_at \<or> (range_count r \<noteq> 0 \<and> range_tokens r = None)
      then null_range
      else \<lparr>range_source = range_source r, range_source_length = range_source_length r,
            range_tokens = (if begin_at < end_at then map_option (drop begin_at) (range_tokens r) else None),
            range_count = end_at - begin_at\<rparr>)"

definition matches :: "token_kind \<Rightarrow> string option \<Rightarrow> token \<Rightarrow> bool" where
  "matches k word t \<longleftrightarrow> kind t = k \<and> (case word of None \<Rightarrow> True | Some w \<Rightarrow> token_equals t w)"

function find_from ::
  "(nat \<Rightarrow> bool) \<Rightarrow> token list \<Rightarrow> nat \<Rightarrow> token_kind \<Rightarrow> string option \<Rightarrow> nat \<Rightarrow> nat option" where
  "find_from mem ts n k word index =
     (if n \<le> index then None
      else if left_delimiter (kind (ts ! index))
      then case matching_delimiter mem (Some ts) n index of
             None \<Rightarrow> None
           | Some close_index \<Rightarrow> find_from mem ts n k word (close_index + 1)
      else if right_delimiter (kind (ts ! index)) then None
      else if matches k word (ts ! index) then Some index
      else find_from mem ts n k word (index + 1))"
  by auto
termination
  by (relation "measure (\<lambda>(mem, ts, n, k, word, index). n - index)")
    (auto dest!: matching_delimiter_advances)

declare find_from.simps [simp del]

definition find_top_level ::
  "(nat \<Rightarrow> bool) \<Rightarrow> token_range \<Rightarrow> nat \<Rightarrow> token_kind \<Rightarrow> string option \<Rightarrow> nat option" where
  "find_top_level mem r start k word =
     (if range_count r < start then None
      else case range_tokens r of
          None \<Rightarrow> None
        | Some ts \<Rightarrow> find_from mem ts (range_count r) k word start)"

text \<open>The room for one more range.\<close>

definition grow_ranges :: "(nat \<Rightarrow> bool) \<Rightarrow> nat \<Rightarrow> nat \<Rightarrow> nat option" where
  "grow_ranges mem n capacity =
     (if n = capacity
      then let larger = (if capacity = 0 then 4 else capacity * 2 mod (SIZE_MAX + 1))
        in if larger < capacity \<or> SIZE_MAX div 32 < larger then None
           else if \<not> mem (larger * 32) then None else Some larger
      else Some capacity)"

function split_from ::
  "(nat \<Rightarrow> bool) \<Rightarrow> token_range \<Rightarrow> token_kind \<Rightarrow> string option \<Rightarrow> nat \<Rightarrow> nat \<Rightarrow> token_range list \<Rightarrow>
    token_range list option" where
  "split_from mem r k word begin_at capacity items =
     (if range_count r \<le> begin_at then Some items
      else let relative = find_top_level mem (token_range_slice r begin_at (range_count r)) 0 k word;
               end_at = (case relative of None \<Rightarrow> range_count r | Some i \<Rightarrow> begin_at + i)
        in if end_at = begin_at then None
           else case grow_ranges mem (length items) capacity of
               None \<Rightarrow> None
             | Some capacity \<Rightarrow>
                 let items = items @ [token_range_slice r begin_at end_at]
                 in if relative = None then Some items
                    else if end_at + 1 = range_count r then None
                    else split_from mem r k word (end_at + 1) capacity items)"
  by auto
termination
  by (relation "measure (\<lambda>(mem, r, k, word, begin_at, capacity, items). range_count r - begin_at)")
    (auto split: option.splits)

declare split_from.simps [simp del]

definition split_top_level ::
  "(nat \<Rightarrow> bool) \<Rightarrow> token_range \<Rightarrow> token_kind \<Rightarrow> string option \<Rightarrow> token_range list option" where
  "split_top_level mem r k word =
     (if range_count r = 0 \<or> range_tokens r = None \<or>
         \<not> token_range_balanced mem (range_tokens r) (range_count r)
      then None else split_from mem r k word 0 0 [])"

section \<open>Balanced token lists\<close>

text \<open>The grammar: a token that is no delimiter, or a pair of matching delimiters around a balanced
  list, any number of times.\<close>

definition plain :: "token \<Rightarrow> bool" where
  "plain t \<longleftrightarrow> \<not> left_delimiter (kind t) \<and> \<not> right_delimiter (kind t)"

inductive balanced :: "token list \<Rightarrow> bool" where
  empty: "balanced []"
| plain: "plain t \<Longrightarrow> balanced ts \<Longrightarrow> balanced (t # ts)"
| group: "matching_kinds (kind t) (kind u) \<Longrightarrow> balanced inner \<Longrightarrow> balanced ts \<Longrightarrow>
    balanced (t # inner @ u # ts)"

lemma matching_delimiters:
  "matching_kinds l r \<Longrightarrow> left_delimiter l" "matching_kinds l r \<Longrightarrow> right_delimiter r"
  "left_delimiter l \<Longrightarrow> \<not> right_delimiter l"
  by (auto simp: matching_kinds_def left_delimiter_def right_delimiter_def)

lemma balanced_append: "balanced xs \<Longrightarrow> balanced ys \<Longrightarrow> balanced (xs @ ys)"
  by (induction xs rule: balanced.induct) (auto intro: balanced.intros)

text \<open>Scanning a balanced list comes back to the same stack.\<close>

lemma scan_balanced:
  "balanced xs \<Longrightarrow> stack \<noteq> [] \<Longrightarrow>
   delimiter_scan stack i (xs @ ys) = delimiter_scan stack (i + length xs) ys"
proof (induction xs arbitrary: stack i ys rule: balanced.induct)
  case empty
  then show ?case by simp
next
  case (plain t ts)
  then show ?case by (simp add: plain_def)
next
  case (group t u inner ts)
  have "delimiter_scan stack i ((t # inner @ u # ts) @ ys) =
      delimiter_scan (kind t # stack) (i + 1) (inner @ (u # ts @ ys))"
    using matching_delimiters(1) [OF group.hyps(1)] by simp
  also have "\<dots> = delimiter_scan (kind t # stack) (i + 1 + length inner) (u # ts @ ys)"
    by (intro group.IH(1)) simp
  also have "\<dots> = delimiter_scan stack (i + 1 + length inner + 1) (ts @ ys)"
    using group.hyps(1) group.prems matching_delimiters by (auto dest: matching_delimiters(3))
  also have "\<dots> = delimiter_scan stack (i + 1 + length inner + 1 + length ts) ys"
    using group.prems by (intro group.IH(2))
  finally show ?case by (simp add: add.commute add.left_commute)
qed

lemma scan_group:
  assumes "balanced inner" "matching_kinds k (kind u)"
  shows "delimiter_scan [k] i (inner @ u # rest) = Some (i + length inner)"
  using scan_balanced [OF assms(1), of "[k]"] assms(2) matching_delimiters
  by (auto dest: matching_delimiters(3))

text \<open>Conversely, a scan that succeeds has read a balanced list for every entry of the stack.\<close>

lemma scan_splits:
  "delimiter_scan (k # stack) i ts = Some j \<Longrightarrow>
   \<exists>inner u rest. ts = inner @ u # rest \<and> balanced inner \<and> matching_kinds k (kind u) \<and>
     (if stack = [] then j = i + length inner
      else delimiter_scan stack (i + length inner + 1) rest = Some j)"
proof (induction "length ts" arbitrary: k stack i ts rule: less_induct)
  case less
  then obtain t ys where ts: "ts = t # ys" by (cases ts) auto
  show ?case
  proof (cases "left_delimiter (kind t)")
    case True
    with less.prems ts have "delimiter_scan (kind t # k # stack) (i + 1) ys = Some j" by simp
    from less.hyps [OF _ this] ts obtain inner1 u1 rest1 where first: "ys = inner1 @ u1 # rest1"
      "balanced inner1" "matching_kinds (kind t) (kind u1)"
      "delimiter_scan (k # stack) (i + 1 + length inner1 + 1) rest1 = Some j" by auto
    from less.hyps [OF _ first(4)] ts first(1) obtain inner2 u2 rest2 where
      second: "rest1 = inner2 @ u2 # rest2" "balanced inner2" "matching_kinds k (kind u2)"
      "if stack = [] then j = i + 1 + length inner1 + 1 + length inner2
       else delimiter_scan stack (i + 1 + length inner1 + 1 + length inner2 + 1) rest2 = Some j" by auto
    have "balanced (t # inner1 @ u1 # inner2)" using first second by (intro balanced.group)
    with ts first(1) second show ?thesis
      by (intro exI [of _ "t # inner1 @ u1 # inner2"] exI [of _ u2] exI [of _ rest2])
        (auto simp: algebra_simps)
  next
    case not_left: False
    show ?thesis
    proof (cases "right_delimiter (kind t)")
      case True
      with less.prems ts not_left show ?thesis
        by (intro exI [of _ "[]"] exI [of _ t] exI [of _ ys])
          (auto intro: balanced.empty split: if_splits)
    next
      case False
      with less.prems ts not_left have "delimiter_scan (k # stack) (i + 1) ys = Some j" by simp
      from less.hyps [OF _ this] ts obtain inner u rest where rest: "ys = inner @ u # rest"
        "balanced inner" "matching_kinds k (kind u)"
        "if stack = [] then j = i + 1 + length inner
         else delimiter_scan stack (i + 1 + length inner + 1) rest = Some j" by auto
      have "balanced (t # inner)" using not_left False rest(2) by (intro balanced.plain) (simp_all add: plain_def)
      with ts rest show ?thesis
        by (intro exI [of _ "t # inner"] exI [of _ u] exI [of _ rest]) auto
    qed
  qed
qed

lemma scan_outer:
  assumes "left_delimiter (kind t)"
  shows "delimiter_scan [] i (t # ts) = Some j \<longleftrightarrow>
    (\<exists>inner u rest. ts = inner @ u # rest \<and> balanced inner \<and> matching_kinds (kind t) (kind u) \<and>
       j = i + 1 + length inner)"
proof
  assume "delimiter_scan [] i (t # ts) = Some j"
  with assms have "delimiter_scan [kind t] (i + 1) ts = Some j" by simp
  from scan_splits [OF this] show "\<exists>inner u rest. ts = inner @ u # rest \<and> balanced inner \<and>
      matching_kinds (kind t) (kind u) \<and> j = i + 1 + length inner" by auto
next
  assume "\<exists>inner u rest. ts = inner @ u # rest \<and> balanced inner \<and> matching_kinds (kind t) (kind u) \<and>
    j = i + 1 + length inner"
  with assms scan_group show "delimiter_scan [] i (t # ts) = Some j" by auto
qed

text \<open>Memory for the stack of delimiters of \<open>n\<close> tokens.\<close>

definition enough_memory :: "(nat \<Rightarrow> bool) \<Rightarrow> nat \<Rightarrow> bool" where
  "enough_memory mem n \<longleftrightarrow> (\<forall>m. mem m) \<and> n \<le> SIZE_MAX div 64"

lemma matching_delimiter_is_group:
  assumes "enough_memory mem n" "n \<le> length ts" "i < n" "left_delimiter (kind (ts ! i))"
  shows "matching_delimiter mem (Some ts) n i = Some j \<longleftrightarrow>
    (\<exists>inner u rest. take (n - i) (drop i ts) = ts ! i # inner @ u # rest \<and> balanced inner \<and>
       matching_kinds (kind (ts ! i)) (kind u) \<and> j = i + 1 + length inner)"
proof -
  from assms(2,3) obtain k where k: "n - i = Suc k" by (metis Suc_diff_Suc)
  have "drop i ts = ts ! i # drop (Suc i) ts" using assms(2,3) by (simp add: Cons_nth_drop_Suc)
  with k have "take (n - i) (drop i ts) = ts ! i # take k (drop (Suc i) ts)" by simp
  moreover have "n - i \<le> SIZE_MAX div 64"
    using assms(1) by (intro le_trans [OF diff_le_self]) (simp add: enough_memory_def)
  then have room: "\<not> SIZE_MAX div 4 < n - i" by simp
  ultimately have "matching_delimiter mem (Some ts) n i =
      delimiter_scan [] i (ts ! i # take k (drop (Suc i) ts))"
    using assms k room by (simp add: matching_delimiter_def enough_memory_def Let_def)
  with scan_outer [OF assms(4), of i "take k (drop (Suc i) ts)" j]
  show ?thesis using \<open>take (n - i) (drop i ts) = ts ! i # take k (drop (Suc i) ts)\<close> by simp
qed

section \<open>Inverting balance\<close>

inductive_cases balanced_cons: "balanced (t # ts)"

lemma balanced_plain_iff: "plain t \<Longrightarrow> balanced (t # ts) \<longleftrightarrow> balanced ts"
  by (auto elim: balanced_cons intro: balanced.plain dest: matching_delimiters(1) simp: plain_def)

lemma balanced_right: "right_delimiter (kind t) \<Longrightarrow> \<not> balanced (t # ts)"
  by (auto elim!: balanced_cons dest: matching_delimiters(1) matching_delimiters(3) simp: plain_def)

lemma balanced_left_iff:
  "left_delimiter (kind t) \<Longrightarrow> balanced (t # ts) \<longleftrightarrow>
   (\<exists>inner u rest. ts = inner @ u # rest \<and> balanced inner \<and> matching_kinds (kind t) (kind u) \<and> balanced rest)"
  by (auto elim!: balanced_cons intro: balanced.group simp: plain_def)

text \<open>The group that an opening delimiter starts is unique.\<close>

lemma group_unique:
  assumes "inner @ u # rest = inner' @ u' # rest'" "balanced inner" "balanced inner'"
    and "matching_kinds k (kind u)" "matching_kinds k (kind u')"
  shows "inner = inner' \<and> u = u' \<and> rest = rest'"
proof -
  have "Some (0 + length inner) = Some (0 + length inner')"
    using scan_group [OF assms(2,4), of 0 rest] scan_group [OF assms(3,5), of 0 rest'] assms(1) by simp
  with assms(1) show ?thesis by simp
qed

section \<open>Windows of an array\<close>

definition window :: "token list \<Rightarrow> nat \<Rightarrow> nat \<Rightarrow> token list" where
  "window ts n i = take (n - i) (drop i ts)"

lemma window_empty [simp]: "n \<le> i \<Longrightarrow> window ts n i = []"
  by (simp add: window_def)

lemma window_step: "i < n \<Longrightarrow> n \<le> length ts \<Longrightarrow> window ts n i = ts ! i # window ts n (i + 1)"
proof -
  assume i: "i < n" "n \<le> length ts"
  then have "n - i = Suc (n - (i + 1))" "drop i ts = ts ! i # drop (i + 1) ts"
    by (simp_all add: Cons_nth_drop_Suc)
  then show ?thesis by (simp add: window_def)
qed

lemma window_skip:
  assumes "window ts n i = xs @ ys" "n \<le> length ts" "i \<le> n"
  shows "window ts n (i + length xs) = ys" "i + length xs + length ys = n"
proof -
  have "drop (length xs) (window ts n i) = window ts n (i + length xs)"
    by (simp add: window_def drop_take add.commute)
  with assms(1) show "window ts n (i + length xs) = ys" by simp
  have "length (window ts n i) = n - i" using assms(2) by (simp add: window_def)
  with assms show "i + length xs + length ys = n" by simp
qed

lemma window_group:
  assumes "enough_memory mem n" "n \<le> length ts" "i < n" "left_delimiter (kind (ts ! i))"
  shows "matching_delimiter mem (Some ts) n i = Some j \<longleftrightarrow>
    (\<exists>inner u. window ts n i = ts ! i # inner @ u # window ts n (j + 1) \<and> balanced inner \<and>
       matching_kinds (kind (ts ! i)) (kind u) \<and> j = i + 1 + length inner \<and> j < n)"
proof -
  have rest: "rest = window ts n (j + 1) \<and> j < n"
    if "window ts n i = ts ! i # inner @ u # rest" "j = i + 1 + length inner" for inner u rest
    using window_skip [of ts n i "ts ! i # inner @ [u]" rest] that assms(2,3) by auto
  show ?thesis
    unfolding matching_delimiter_is_group [OF assms] window_def [symmetric]
    using rest by blast
qed

lemma balanced_from_iff:
  assumes "enough_memory mem n" "n \<le> length ts"
  shows "balanced_from mem ts n i \<longleftrightarrow> balanced (window ts n i)"
proof (induction "n - i" arbitrary: i rule: less_induct)
  case less
  show ?case
  proof (cases "n \<le> i")
    case True
    then show ?thesis by (subst balanced_from.simps) (simp add: balanced.empty)
  next
    case False
    then have i: "i < n" by simp
    note step = window_step [OF i assms(2)]
    consider (right) "right_delimiter (kind (ts ! i))" | (left) "left_delimiter (kind (ts ! i))"
      | (plain) "plain (ts ! i)" by (auto simp: plain_def)
    then show ?thesis
    proof cases
      case right
      with i step show ?thesis by (subst balanced_from.simps) (simp add: balanced_right)
    next
      case plain
      with i step less [of "i + 1"] show ?thesis
        by (subst balanced_from.simps) (auto simp: balanced_plain_iff plain_def)
    next
      case left
      note group = window_group [OF assms i left]
      have inside: "\<not> right_delimiter (kind (ts ! i))" using left by (rule matching_delimiters(3))
      show ?thesis
      proof (cases "matching_delimiter mem (Some ts) n i")
        case (Some j)
        then obtain inner u where w: "window ts n i = ts ! i # inner @ u # window ts n (j + 1)"
          "balanced inner" "matching_kinds (kind (ts ! i)) (kind u)" "j = i + 1 + length inner" "j < n"
          using group by blast
        have "balanced (window ts n i) \<longleftrightarrow> balanced (window ts n (j + 1))"
          unfolding w(1) balanced_left_iff [OF left] using w(2,3) group_unique by blast
        also have "\<dots> \<longleftrightarrow> balanced_from mem ts n (j + 1)" using less [of "j + 1"] w(4,5) by simp
        finally show ?thesis using i left inside Some by (subst balanced_from.simps) simp
      next
        case None
        have "\<not> balanced (window ts n i)"
        proof
          assume "balanced (window ts n i)"
          then obtain inner u rest where w: "window ts n (i + 1) = inner @ u # rest" "balanced inner"
            "matching_kinds (kind (ts ! i)) (kind u)"
            unfolding step balanced_left_iff [OF left] by blast
          then have "rest = window ts n (i + 1 + length inner + 1) \<and> i + 1 + length inner < n"
            using window_skip [of ts n "i + 1" "inner @ [u]" rest] assms(2) i by simp
          then have "matching_delimiter mem (Some ts) n i = Some (i + 1 + length inner)"
            using w step group [of "i + 1 + length inner"] by simp
          with None show False by simp
        qed
        with i left inside None show ?thesis by (subst balanced_from.simps) simp
      qed
    qed
  qed
qed

text \<open>
  C7: delimiters are matched as the grammar of balanced lists says. With memory for its stack,
  \<open>f2c_token_range_balanced\<close> accepts exactly the balanced lists, and
  \<open>f2c_token_matching_delimiter\<close> at an opening delimiter finds exactly the delimiter that closes
  its group: what stands between the two is balanced, and the kinds match.
\<close>

theorem delimiters_match:
  assumes "enough_memory mem n" "n \<le> length ts"
  shows "(token_range_balanced mem (Some ts) n \<longleftrightarrow> balanced (take n ts)) \<and>
    (\<forall>i < n. left_delimiter (kind (ts ! i)) \<longrightarrow>
       (\<forall>j. matching_delimiter mem (Some ts) n i = Some j \<longleftrightarrow>
          i < j \<and> j < n \<and> balanced (window ts j (i + 1)) \<and>
          matching_kinds (kind (ts ! i)) (kind (ts ! j))))"
proof (intro conjI allI impI)
  show "token_range_balanced mem (Some ts) n \<longleftrightarrow> balanced (take n ts)"
    using balanced_from_iff [OF assms, of 0] by (simp add: token_range_balanced_def window_def)
next
  fix i j
  assume i: "i < n" "left_delimiter (kind (ts ! i))"
  have cut: "window ts n (i + 1) = window ts j (i + 1) @ ts ! j # window ts n (j + 1)"
    if "i < j" "j < n" for j
  proof -
    have "window ts n (i + 1) = window ts j (i + 1) @ window ts n j"
      using that assms(2) take_add [of "j - (i + 1)" "n - j" "drop (i + 1) ts"]
      by (simp add: window_def)
    then show ?thesis using window_step [OF that(2) assms(2)] by simp
  qed
  show "matching_delimiter mem (Some ts) n i = Some j \<longleftrightarrow>
      i < j \<and> j < n \<and> balanced (window ts j (i + 1)) \<and> matching_kinds (kind (ts ! i)) (kind (ts ! j))"
  proof
    assume "matching_delimiter mem (Some ts) n i = Some j"
    then obtain inner u where w: "window ts n (i + 1) = inner @ u # window ts n (j + 1)" "balanced inner"
      "matching_kinds (kind (ts ! i)) (kind u)" "j = i + 1 + length inner" "j < n"
      using window_group [OF assms i] window_step [OF i(1) assms(2)] by auto
    have "length (window ts j (i + 1)) = length inner" using w(4,5) assms(2) by (simp add: window_def)
    with w cut [of j] have "window ts j (i + 1) = inner" "ts ! j = u" by auto
    with w show "i < j \<and> j < n \<and> balanced (window ts j (i + 1)) \<and>
      matching_kinds (kind (ts ! i)) (kind (ts ! j))" by simp
  next
    assume j: "i < j \<and> j < n \<and> balanced (window ts j (i + 1)) \<and>
      matching_kinds (kind (ts ! i)) (kind (ts ! j))"
    then have "j = i + 1 + length (window ts j (i + 1))"
      using assms(2) by (auto simp: window_def min_def)
    with j cut [of j] window_step [OF i(1) assms(2)]
    show "matching_delimiter mem (Some ts) n i = Some j"
      unfolding window_group [OF assms i]
      by (intro exI [of _ "window ts j (i + 1)"] exI [of _ "ts ! j"]) simp
  qed
qed

section \<open>Splitting at the top level\<close>

text \<open>A balanced list with no separator outside its groups.\<close>

inductive unseparated :: "(token \<Rightarrow> bool) \<Rightarrow> token list \<Rightarrow> bool" for sep where
  empty: "unseparated sep []"
| plain: "plain t \<Longrightarrow> \<not> sep t \<Longrightarrow> unseparated sep ts \<Longrightarrow> unseparated sep (t # ts)"
| group: "matching_kinds (kind t) (kind u) \<Longrightarrow> balanced inner \<Longrightarrow> unseparated sep ts \<Longrightarrow>
    unseparated sep (t # inner @ u # ts)"

inductive_cases unseparated_cons: "unseparated sep (t # ts)"

text \<open>The pieces of a list and the separators between them.\<close>

inductive separated :: "(token \<Rightarrow> bool) \<Rightarrow> token list list \<Rightarrow> token list \<Rightarrow> bool" for sep where
  single: "p \<noteq> [] \<Longrightarrow> unseparated sep p \<Longrightarrow> separated sep [p] p"
| more: "p \<noteq> [] \<Longrightarrow> unseparated sep p \<Longrightarrow> plain s \<Longrightarrow> sep s \<Longrightarrow> separated sep ps ts \<Longrightarrow>
    separated sep (p # ps) (p @ s # ts)"

inductive_cases separated_nil: "separated sep ps []"

lemma separated_nonempty: "separated sep ps ts \<Longrightarrow> ts \<noteq> [] \<and> ps \<noteq> []"
  by (induction rule: separated.induct) auto

lemma unseparated_balanced: "unseparated sep ts \<Longrightarrow> balanced ts"
  by (induction rule: unseparated.induct) (auto intro: balanced.intros)

lemma unseparated_nothing: "unseparated (\<lambda>_. False) ts \<longleftrightarrow> balanced ts"
proof
  show "balanced ts \<Longrightarrow> unseparated (\<lambda>_. False) ts"
    by (induction rule: balanced.induct) (auto intro: unseparated.intros)
qed (rule unseparated_balanced)

lemma unseparated_append:
  "unseparated sep xs \<Longrightarrow> unseparated sep (xs @ ys) \<longleftrightarrow> unseparated sep ys"
proof (induction xs rule: unseparated.induct)
  case empty
  then show ?case by simp
next
  case (plain t ts)
  then show ?case
    by (auto elim: unseparated_cons intro: unseparated.plain dest: matching_delimiters(1) simp: plain_def)
next
  case (group t u inner ts)
  have "unseparated sep (ts @ ys)" if "unseparated sep (t # inner @ u # ts @ ys)"
    using that
  proof (rule unseparated_cons)
    assume "plain t"
    with group.hyps(1) show ?thesis by (auto simp: plain_def dest: matching_delimiters(1))
  next
    fix u' inner' ts'
    assume "inner @ u # ts @ ys = inner' @ u' # ts'" "matching_kinds (kind t) (kind u')"
      "balanced inner'" "unseparated sep ts'"
    then show ?thesis using group_unique group.hyps(1,2) by metis
  qed
  with group show ?case by (auto intro: unseparated.group)
qed

lemma balanced_append_iff: "balanced xs \<Longrightarrow> balanced (xs @ ys) \<longleftrightarrow> balanced ys"
  using unseparated_append [of "\<lambda>_. False"] by (simp add: unseparated_nothing)

lemma separator_not_unseparated: "plain s \<Longrightarrow> sep s \<Longrightarrow> \<not> unseparated sep (s # ts)"
  by (auto elim: unseparated_cons simp: plain_def dest: matching_delimiters(1))

text \<open>The first piece is unique.\<close>

lemma first_piece_longer:
  assumes "xs @ us = ys" "us @ s' # r' = s # r" "unseparated sep xs" "unseparated sep ys" "plain s" "sep s"
  shows "us = []"
proof (rule ccontr)
  assume "us \<noteq> []"
  with assms(2) obtain vs where "us = s # vs" by (cases us) auto
  moreover from assms(1,3,4) have "unseparated sep us" using unseparated_append by metis
  ultimately show False using separator_not_unseparated [of s sep] assms(5,6) by blast
qed

lemma first_piece_unique:
  assumes "xs @ s # r = ys @ s' # r'" "unseparated sep xs" "unseparated sep ys"
    and "plain s" "sep s" "plain s'" "sep s'"
  shows "xs = ys \<and> s = s' \<and> r = r'"
proof -
  from assms(1) obtain us where
    "xs @ us = ys \<and> us @ s' # r' = s # r \<or> ys @ us = xs \<and> us @ s # r = s' # r'"
    unfolding append_eq_append_conv2 by metis
  then have "xs = ys" using first_piece_longer assms(2-7) by (metis append.right_neutral)
  with assms(1) show ?thesis by simp
qed

lemma separated_split:
  assumes "unseparated sep p" "plain s" "sep s" "separated sep ps (p @ s # ts)"
  shows "p \<noteq> [] \<and> (\<exists>qs. ps = p # qs \<and> separated sep qs ts)"
  using assms(4)
proof cases
  case single
  then have "unseparated sep (s # ts)" using unseparated_append [OF assms(1)] by blast
  with assms(2,3) separator_not_unseparated show ?thesis by blast
next
  case (more q s' qs rest)
  then have "p = q \<and> s = s' \<and> ts = rest"
    using first_piece_unique [of p s ts q s' rest sep] assms(1-3) by blast
  with more show ?thesis by blast
qed

lemma separated_unseparated:
  assumes "unseparated sep p" "separated sep ps p"
  shows "ps = [p]"
  using assms(2)
proof cases
  case single
  then show ?thesis by simp
next
  case (more q s qs rest)
  then have "unseparated sep (s # rest)" using assms(1) unseparated_append by blast
  with more separator_not_unseparated show ?thesis by blast
qed

text \<open>The search for a separator in a balanced window.\<close>

definition first_separator :: "(token \<Rightarrow> bool) \<Rightarrow> token list \<Rightarrow> nat \<Rightarrow> nat \<Rightarrow> nat option \<Rightarrow> bool" where
  "first_separator sep ts n i result \<longleftrightarrow>
     (case result of
        None \<Rightarrow> unseparated sep (window ts n i)
      | Some j \<Rightarrow> \<exists>xs. window ts n i = xs @ window ts n j \<and> j = i + length xs \<and> j < n \<and>
          unseparated sep xs \<and> plain (ts ! j) \<and> sep (ts ! j))"

lemma first_separator_skip:
  assumes "first_separator sep ts n i' result" "window ts n i = ys @ window ts n i'"
    "i' = i + length ys" "unseparated sep ys"
  shows "first_separator sep ts n i result"
proof (cases result)
  case None
  with assms show ?thesis by (simp add: first_separator_def unseparated_append)
next
  case (Some j)
  with assms(1) obtain xs where "window ts n i' = xs @ window ts n j" "j = i' + length xs" "j < n"
    "unseparated sep xs" "plain (ts ! j)" "sep (ts ! j)" by (auto simp: first_separator_def)
  with assms Some show ?thesis
    by (auto simp: first_separator_def unseparated_append intro!: exI [of _ "ys @ xs"])
qed

lemma find_from_correct:
  assumes "enough_memory mem n" "n \<le> length ts"
  shows "balanced (window ts n i) \<Longrightarrow> i \<le> n \<Longrightarrow>
    first_separator (matches k word) ts n i (find_from mem ts n k word i)"
proof (induction "n - i" arbitrary: i rule: less_induct)
  case less
  show ?case
  proof (cases "i = n")
    case True
    then show ?thesis by (subst find_from.simps) (simp add: first_separator_def unseparated.empty)
  next
    case False
    with less.prems have i: "i < n" by simp
    note step = window_step [OF i assms(2)]
    show ?thesis
    proof (cases "left_delimiter (kind (ts ! i))")
      case left: True
      then obtain inner u rest where w: "window ts n (i + 1) = inner @ u # rest" "balanced inner"
        "matching_kinds (kind (ts ! i)) (kind u)" "balanced rest"
        using less.prems(1) unfolding step balanced_left_iff [OF left] by blast
      define j where "j = i + 1 + length inner"
      have j: "rest = window ts n (j + 1)" "j < n"
        using window_skip [of ts n "i + 1" "inner @ [u]" rest] w(1) assms(2) i by (simp_all add: j_def)
      have "matching_delimiter mem (Some ts) n i = Some j"
        unfolding window_group [OF assms i left] using step w j by (auto simp: j_def)
      then have find: "find_from mem ts n k word i = find_from mem ts n k word (j + 1)"
        using i left by (subst find_from.simps) simp
      have tail: "first_separator (matches k word) ts n (j + 1) (find_from mem ts n k word (j + 1))"
        using w(4) j by (intro less.hyps) (simp_all add: j_def)
      have whole: "window ts n i = (ts ! i # inner @ [u]) @ window ts n (j + 1)"
        unfolding step w(1) j(1) by simp
      have "unseparated (matches k word) (ts ! i # inner @ [u])"
        using w(2,3) by (intro unseparated.group unseparated.empty)
      then show ?thesis
        unfolding find by (intro first_separator_skip [OF tail whole]) (simp_all add: j_def)
    next
      case not_left: False
      then have p: "plain (ts ! i)"
        using less.prems(1) step balanced_right by (auto simp: plain_def)
      then have b: "balanced (window ts n (i + 1))"
        using less.prems(1) step balanced_plain_iff by simp
      show ?thesis
      proof (cases "matches k word (ts ! i)")
        case True
        with p i have "find_from mem ts n k word i = Some i"
          by (subst find_from.simps) (simp add: plain_def)
        with p i True show ?thesis by (simp add: first_separator_def unseparated.empty)
      next
        case False
        with p i have find: "find_from mem ts n k word i = find_from mem ts n k word (i + 1)"
          by (subst find_from.simps) (simp add: plain_def)
        have tail: "first_separator (matches k word) ts n (i + 1) (find_from mem ts n k word (i + 1))"
          using b i by (intro less.hyps) simp_all
        have whole: "window ts n i = [ts ! i] @ window ts n (i + 1)" unfolding step by simp
        have "unseparated (matches k word) [ts ! i]"
          using p False by (intro unseparated.plain unseparated.empty)
        then show ?thesis
          unfolding find by (intro first_separator_skip [OF tail whole]) simp_all
      qed
    qed
  qed
qed

section \<open>The pieces of a range\<close>

definition range_list :: "token_range \<Rightarrow> token list" where
  "range_list r = (case range_tokens r of None \<Rightarrow> [] | Some ts \<Rightarrow> take (range_count r) ts)"

text \<open>A range over the text of \<open>r\<close> that holds the tokens from \<open>b\<close> to \<open>e\<close>.\<close>

lemma slice_window:
  assumes "range_tokens r = Some ts" "b < e" "e \<le> range_count r"
  shows "range_list (token_range_slice r b e) = window ts e b"
    "range_tokens (token_range_slice r b e) = Some (drop b ts)"
    "range_count (token_range_slice r b e) = e - b"
    "range_source (token_range_slice r b e) = range_source r"
    "range_source_length (token_range_slice r b e) = range_source_length r"
  using assms by (auto simp: token_range_slice_def range_list_def window_def)

lemma window_drop: "b + i \<le> n \<Longrightarrow> window (drop b ts) (n - b) i = window ts n (b + i)"
  by (simp add: window_def add.commute)

lemma window_prefix:
  assumes "window ts n b = xs @ ys" "n \<le> length ts" "b \<le> n"
  shows "window ts (b + length xs) b = xs"
proof -
  have "take (length xs) (window ts n b) = window ts (b + length xs) b"
    using window_skip(2) [OF assms] by (simp add: window_def)
  with assms(1) show ?thesis by simp
qed

lemma enough_memory_less: "enough_memory mem n \<Longrightarrow> m \<le> n \<Longrightarrow> enough_memory mem m"
  by (auto simp: enough_memory_def)

lemma grow_ranges_succeeds:
  assumes "enough_memory mem n" "m \<le> n"
  shows "\<exists>c. grow_ranges mem m capacity = Some c"
proof -
  have "m \<le> SIZE_MAX div 64" "\<And>k. mem k" using assms by (auto simp: enough_memory_def)
  then show ?thesis by (auto simp: grow_ranges_def Let_def)
qed

text \<open>The first separator from \<open>b\<close>, as \<open>split_from\<close> looks for it.\<close>

lemma find_in_tail:
  assumes "enough_memory mem n" "n \<le> length ts" "range_tokens r = Some ts" "range_count r = n"
    and "b < n" "balanced (window ts n b)"
    and "find_top_level mem (token_range_slice r b n) 0 k word = result"
  shows "case result of
      None \<Rightarrow> unseparated (matches k word) (window ts n b)
    | Some i \<Rightarrow> b + i < n \<and> unseparated (matches k word) (window ts (b + i) b) \<and>
        window ts n b = window ts (b + i) b @ ts ! (b + i) # window ts n (b + i + 1) \<and>
        plain (ts ! (b + i)) \<and> matches k word (ts ! (b + i)) \<and> length (window ts (b + i) b) = i"
proof -
  have "find_from mem (drop b ts) (n - b) k word 0 = result"
    using assms by (simp add: find_top_level_def slice_window)
  moreover have "first_separator (matches k word) (drop b ts) (n - b) 0
      (find_from mem (drop b ts) (n - b) k word 0)"
    using assms by (intro find_from_correct)
      (auto simp: window_drop intro: enough_memory_less)
  ultimately have first: "first_separator (matches k word) (drop b ts) (n - b) 0 result" by simp
  show ?thesis
  proof (cases result)
    case None
    with first assms(5) show ?thesis by (simp add: first_separator_def window_drop)
  next
    case (Some i)
    with first assms(2,5) obtain xs where xs: "window ts n b = xs @ window ts n (b + i)" "i = length xs"
      "b + i < n" "unseparated (matches k word) xs" "plain (ts ! (b + i))" "matches k word (ts ! (b + i))"
      by (auto simp: first_separator_def window_drop)
    have "window ts (b + i) b = xs" using window_prefix [OF xs(1) assms(2)] assms(5) xs(2) by simp
    moreover have "window ts n (b + i) = ts ! (b + i) # window ts n (b + i + 1)"
      using xs(3) assms(2) by (rule window_step)
    ultimately show ?thesis using Some xs by simp
  qed
qed

lemma split_from_correct:
  assumes mem: "enough_memory mem n" and ts: "n \<le> length ts" and r: "range_tokens r = Some ts" "range_count r = n"
  shows "b < n \<Longrightarrow> balanced (window ts n b) \<Longrightarrow> length items \<le> b \<Longrightarrow>
    (case split_from mem r k word b capacity items of
       None \<Rightarrow> \<not> (\<exists>ps. separated (matches k word) ps (window ts n b))
     | Some out \<Rightarrow> \<exists>rs. out = items @ rs \<and>
         separated (matches k word) (map range_list rs) (window ts n b) \<and>
         (\<forall>q \<in> set rs. range_source q = range_source r \<and> range_source_length q = range_source_length r))"
proof (induction "n - b" arbitrary: b capacity items rule: less_induct)
  case less
  define result where "result = find_top_level mem (token_range_slice r b n) 0 k word"
  note found = find_in_tail [OF mem ts r less.prems(1,2) result_def [symmetric]]
  obtain c where c: "grow_ranges mem (length items) capacity = Some c"
    using grow_ranges_succeeds [OF mem, of "length items" capacity] less.prems by auto
  show ?case
  proof (cases result)
    case None
    then have un: "unseparated (matches k word) (window ts n b)" using found by simp
    have "split_from mem r k word b capacity items = Some (items @ [token_range_slice r b n])"
      using None c less.prems(1) r by (subst split_from.simps) (simp add: Let_def result_def [symmetric])
    moreover have "window ts n b \<noteq> []" using less.prems(1) ts by (simp add: window_step)
    ultimately show ?thesis
      using un r less.prems(1) slice_window [OF r(1), of b n] by (auto intro: separated.single)
  next
    case (Some i)
    then have i: "b + i < n" "unseparated (matches k word) (window ts (b + i) b)"
      "window ts n b = window ts (b + i) b @ ts ! (b + i) # window ts n (b + i + 1)"
      "plain (ts ! (b + i))" "matches k word (ts ! (b + i))" "length (window ts (b + i) b) = i"
      using found by simp_all
    note only = separated_split [OF i(2,4,5), of _ "window ts n (b + i + 1)", folded i(3)]
    show ?thesis
    proof (cases "i = 0 \<or> b + i + 1 = n")
      case True
      then have "split_from mem r k word b capacity items = None"
        using Some c less.prems(1) r by (subst split_from.simps) (auto simp: Let_def result_def [symmetric])
      moreover have "\<not> separated (matches k word) ps (window ts n b)" for ps
      proof
        assume "separated (matches k word) ps (window ts n b)"
        from only [OF this] have "window ts (b + i) b \<noteq> []"
          "\<exists>qs. separated (matches k word) qs (window ts n (b + i + 1))" by blast+
        with True i(6) show False using separated_nonempty by fastforce
      qed
      ultimately show ?thesis by simp
    next
      case False
      define items' where "items' = items @ [token_range_slice r b (b + i)]"
      have run: "split_from mem r k word b capacity items = split_from mem r k word (b + i + 1) c items'"
        using Some False c less.prems(1) i(1) r
        by (subst split_from.simps) (simp add: Let_def result_def [symmetric] items'_def)
      have piece: "range_list (token_range_slice r b (b + i)) = window ts (b + i) b"
        "window ts (b + i) b \<noteq> []"
        using False i(1,6) r slice_window(1) [OF r(1), of b "b + i"] by auto
      have "balanced (window ts n (b + i + 1))"
        using less.prems(2) unseparated_balanced [OF i(2)] i(3,4)
        by (simp add: balanced_append_iff balanced_plain_iff)
      then have "case split_from mem r k word (b + i + 1) c items' of
          None \<Rightarrow> \<not> (\<exists>ps. separated (matches k word) ps (window ts n (b + i + 1)))
        | Some out \<Rightarrow> \<exists>rs. out = items' @ rs \<and>
            separated (matches k word) (map range_list rs) (window ts n (b + i + 1)) \<and>
            (\<forall>q \<in> set rs. range_source q = range_source r \<and> range_source_length q = range_source_length r)"
        using i(1) False less.prems(3) by (intro less.hyps) (simp_all add: items'_def)
      note rest = this
      show ?thesis
      proof (cases "split_from mem r k word (b + i + 1) c items'")
        case None
        with rest have "\<not> (\<exists>ps. separated (matches k word) ps (window ts n (b + i + 1)))" by simp
        with only have "\<not> separated (matches k word) ps (window ts n b)" for ps by blast
        then show ?thesis using run None by simp
      next
        case (Some out)
        with rest obtain rs where rs: "out = items' @ rs"
          "separated (matches k word) (map range_list rs) (window ts n (b + i + 1))"
          "\<forall>q \<in> set rs. range_source q = range_source r \<and> range_source_length q = range_source_length r"
          by auto
        have "separated (matches k word) (map range_list (token_range_slice r b (b + i) # rs)) (window ts n b)"
          unfolding i(3) list.map piece(1) using piece(2) i(2,4,5) rs(2) by (intro separated.more)
        then show ?thesis
          using run Some rs slice_window(4,5) [OF r(1), of b "b + i"] False i(1) r(2)
          by (auto simp: items'_def intro!: exI [of _ "token_range_slice r b (b + i) # rs"])
      qed
    qed
  qed
qed

lemma separated_balanced: "separated sep ps ts \<Longrightarrow> balanced ts"
  by (induction rule: separated.induct)
    (simp_all add: unseparated_balanced balanced_append_iff balanced_plain_iff)

lemma separated_unique: "separated sep ps ts \<Longrightarrow> separated sep qs ts \<Longrightarrow> ps = qs"
proof (induction arbitrary: qs rule: separated.induct)
  case (single p)
  then show ?case using separated_unseparated by metis
next
  case (more p s ps ts)
  then show ?case using separated_split [OF more.hyps(2-4) more.prems] by blast
qed

lemma split_top_level_cases:
  assumes "range_tokens r = Some ts" "range_count r = length ts" "ts \<noteq> []"
    and "enough_memory mem (length ts)"
  shows "case split_top_level mem r k word of
      Some rs \<Rightarrow> separated (matches k word) (map range_list rs) ts \<and>
        (\<forall>q \<in> set rs. range_source q = range_source r \<and> range_source_length q = range_source_length r)
    | None \<Rightarrow> \<not> (\<exists>ps. separated (matches k word) ps ts)"
proof -
  have all: "window ts (length ts) 0 = ts" by (simp add: window_def)
  have count: "range_count r \<noteq> 0" using assms(2,3) by simp
  have balance: "token_range_balanced mem (range_tokens r) (range_count r) \<longleftrightarrow> balanced ts"
    using balanced_from_iff [OF assms(4) order_refl, of 0] assms(1,2) all
    by (simp add: token_range_balanced_def)
  show ?thesis
  proof (cases "balanced ts")
    case True
    then have "split_top_level mem r k word = split_from mem r k word 0 0 []"
      using balance count assms(1) by (simp add: split_top_level_def)
    then show ?thesis
      using split_from_correct [OF assms(4) order_refl assms(1,2), of 0 "[]" k word 0] True assms(3)
      by (auto simp: all split: option.splits)
  next
    case False
    with balance have "split_top_level mem r k word = None" by (simp add: split_top_level_def)
    with False separated_balanced show ?thesis by auto
  qed
qed

text \<open>
  C6: splitting at the top level takes a range apart exactly as its grammar allows. With memory,
  \<open>f2c_token_range_split_top_level\<close> on a range that is not empty yields the pieces \<open>ps\<close> if and only
  if the range is \<open>ps\<close> with one separator between neighbours, where every piece is non-empty and
  balanced and has no separator outside its groups; it fails on an unbalanced range and when there
  is an empty piece at either end or between two separators. The pieces are ranges over the text of
  the range it was given.
\<close>

theorem split_top_level_exact:
  assumes "range_tokens r = Some ts" "range_count r = length ts" "ts \<noteq> []"
    and "enough_memory mem (length ts)"
  shows "(map_option (map range_list) (split_top_level mem r k word) = Some ps \<longleftrightarrow>
      separated (matches k word) ps ts) \<and>
    (\<forall>rs. split_top_level mem r k word = Some rs \<longrightarrow>
      (\<forall>q \<in> set rs. range_source q = range_source r \<and> range_source_length q = range_source_length r))"
proof (cases "split_top_level mem r k word")
  case None
  with split_top_level_cases [OF assms, of k word] show ?thesis by auto
next
  case (Some rs)
  with split_top_level_cases [OF assms, of k word]
  have "separated (matches k word) (map range_list rs) ts"
    "\<forall>q \<in> set rs. range_source q = range_source r \<and> range_source_length q = range_source_length r"
    by simp_all
  with Some separated_unique [of "matches k word" "map range_list rs" ts ps] show ?thesis by auto
qed

section \<open>An argument list\<close>

definition example_token :: "token_kind \<times> string \<Rightarrow> token" where
  "example_token spec = \<lparr>kind = fst spec, token_begin = snd spec, token_length = length (snd spec),
     token_line = 1, token_column = 1, token_span = null_span\<rparr>"

text \<open>\<open>a,f(b,c)\<close>\<close>

definition example_arguments :: "token list" where
  "example_arguments = map example_token
     [(TOKEN_IDENTIFIER, ''a''), (TOKEN_COMMA, '',''), (TOKEN_IDENTIFIER, ''f''),
      (TOKEN_LEFT_PAREN, ''(''), (TOKEN_IDENTIFIER, ''b''), (TOKEN_COMMA, '',''),
      (TOKEN_IDENTIFIER, ''c''), (TOKEN_RIGHT_PAREN, '')'')]"

definition example_range :: token_range where
  "example_range = \<lparr>range_source = Some ''a,f(b,c)'', range_source_length = 8,
     range_tokens = Some example_arguments, range_count = 8\<rparr>"

lemma example_plain:
  "plain (example_token (TOKEN_IDENTIFIER, w))" "plain (example_token (TOKEN_COMMA, w))"
  by (simp_all add: plain_def left_delimiter_def right_delimiter_def example_token_def)

lemma example_group:
  "matching_kinds (kind (example_token (TOKEN_LEFT_PAREN, v))) (kind (example_token (TOKEN_RIGHT_PAREN, w)))"
  by (simp add: matching_kinds_def example_token_def)

lemma example_inner:
  "balanced (map example_token [(TOKEN_IDENTIFIER, ''b''), (TOKEN_COMMA, '',''), (TOKEN_IDENTIFIER, ''c'')])"
  by (auto intro!: balanced.empty balanced.plain example_plain)

lemma delimiters_match_witness:
  "token_range_balanced (\<lambda>_. True) (Some example_arguments) 8 \<and>
   matching_delimiter (\<lambda>_. True) (Some example_arguments) 8 3 = Some 7"
proof -
  from balanced.group [OF example_group example_inner balanced.empty, of "''(''" "'')''"]
  have "balanced example_arguments"
    by (simp add: example_arguments_def balanced_plain_iff example_plain)
  moreover have "left_delimiter (kind (example_arguments ! 3))"
    "matching_kinds (kind (example_arguments ! 3)) (kind (example_arguments ! 7))"
    "window example_arguments 7 4 = map example_token [(TOKEN_IDENTIFIER, ''b''), (TOKEN_COMMA, '',''),
      (TOKEN_IDENTIFIER, ''c'')]"
    by (simp_all add: example_arguments_def left_delimiter_def matching_kinds_def example_token_def
        window_def)
  ultimately show ?thesis
    using delimiters_match [of "\<lambda>_. True" 8 example_arguments] example_inner
    by (auto simp: enough_memory_def example_arguments_def)
qed

lemma split_top_level_exact_witness:
  "map_option (map range_list) (split_top_level (\<lambda>_. True) example_range TOKEN_COMMA None) =
     Some [take 1 example_arguments, drop 2 example_arguments]"
proof -
  have word: "\<not> matches TOKEN_COMMA None (example_token (TOKEN_IDENTIFIER, w))"
    "matches TOKEN_COMMA None (example_token (TOKEN_COMMA, w))" for w
    by (simp_all add: matches_def example_token_def)
  have first: "unseparated (matches TOKEN_COMMA None) [example_token (TOKEN_IDENTIFIER, ''a'')]"
    by (intro unseparated.plain unseparated.empty example_plain word)
  have second: "unseparated (matches TOKEN_COMMA None) (example_token (TOKEN_IDENTIFIER, ''f'') #
      example_token (TOKEN_LEFT_PAREN, ''('') # map example_token [(TOKEN_IDENTIFIER, ''b''),
        (TOKEN_COMMA, '',''), (TOKEN_IDENTIFIER, ''c'')] @ example_token (TOKEN_RIGHT_PAREN, '')'') # [])"
    by (intro unseparated.plain unseparated.group unseparated.empty example_plain word example_group
        example_inner)
  have "separated (matches TOKEN_COMMA None) [take 1 example_arguments, drop 2 example_arguments]
      example_arguments"
    using separated.more [OF _ first example_plain(2) word(2) separated.single [OF _ second], of "'',''"]
    by (simp add: example_arguments_def)
  then show ?thesis
    using split_top_level_exact [of example_range example_arguments "\<lambda>_. True" TOKEN_COMMA None
        "[take 1 example_arguments, drop 2 example_arguments]"]
    by (simp add: example_range_def enough_memory_def example_arguments_def)
qed

end
