(* ===== verification/Line_Tokens.thy ===== *)
theory Line_Tokens
  imports Lexer_Grammar Source_Map Token_Ranges
begin

text \<open>
  Positions of a line's characters (the first part of \<open>frontend/token_cursor.c\<close>) and the
  tokenization of the lines of a source (\<open>push_token\<close> and \<open>f2c_tokenize_lines\<close> of
  \<open>frontend/lexer.c\<close>).

  \<^item> A line holds the members these functions read: its text, name, number, tokens and source map.
  \<^item> A \<open>Line *\<close> that may be NULL is \<^typ>\<open>'a option\<close>. The text of a line is not NULL.
  \<^item> \<open>sizeof(F2cToken)\<close> is 144 bytes; \<open>token_memory n\<close> says whether \<open>realloc\<close> of \<open>n\<close> bytes succeeds.
  \<^item> \<open>token_reports\<close> collects what is handed to \<open>f2c_diagnostic_span_code\<close> and
    \<open>f2c_diagnostic_code\<close>; the context's error count is zero exactly when there were no earlier
    errors and nothing is reported here, since each of these reports is an error.
\<close>

record line =
  line_text :: string
  line_source_name :: "string option"
  line_number :: nat
  line_tokens :: "token list"
  line_source_map :: "segment list"

section \<open>Positions\<close>

definition source_segment :: "line option \<Rightarrow> nat \<Rightarrow> segment option" where
  "source_segment l offset =
     (case l of None \<Rightarrow> None | Some l \<Rightarrow>
        case List.find (\<lambda>s. logical_begin s \<le> offset \<and> offset - logical_begin s < segment_length s)
               (line_source_map l) of
          Some s \<Rightarrow> Some s
        | None \<Rightarrow> if line_source_map l \<noteq> [] then Some (last (line_source_map l)) else None)"

definition mapped_position :: "segment option \<Rightarrow> nat \<Rightarrow> bool \<Rightarrow> source_position" where
  "mapped_position s offset spelled_at =
     (case s of None \<Rightarrow> null_position | Some s \<Rightarrow>
        let position = (if spelled_at \<and> has_spelling s then spelling s else expansion s);
            step = (if spelled_at \<and> has_spelling s then spelling_column_step s
                    else expansion_column_step s);
            relative = (if logical_begin s < offset then offset - logical_begin s else 0);
            relative = (if segment_length s < relative then segment_length s else relative)
        in move_column position relative step)"

definition line_source_position :: "line option \<Rightarrow> nat \<Rightarrow> source_position" where
  "line_source_position l offset =
     (case source_segment l offset of
        Some s \<Rightarrow> mapped_position (Some s) offset False
      | None \<Rightarrow> \<lparr>position_source = (case l of Some l \<Rightarrow> line_source_name l | None \<Rightarrow> None),
                position_line = (case l of Some l \<Rightarrow> line_number l | None \<Rightarrow> 1),
                position_column = size_add offset 1\<rparr>)"

text \<open>The column after the last character: the end of a generated run, or one to the right.\<close>

definition column_after ::
  "source_position \<Rightarrow> segment option \<Rightarrow> (segment \<Rightarrow> bool) \<Rightarrow> (segment \<Rightarrow> source_position) \<Rightarrow>
    (segment \<Rightarrow> nat) \<Rightarrow> source_position" where
  "column_after position s generated at width =
     position\<lparr>position_column :=
       (case s of Some s \<Rightarrow>
          if generated s then size_add (position_column (at s)) (width s)
          else size_add (position_column position) 1
        | None \<Rightarrow> size_add (position_column position) 1)\<rparr>"

definition line_source_span :: "line option \<Rightarrow> nat \<Rightarrow> nat \<Rightarrow> source_span" where
  "line_source_span l begin_at len =
     (let begin_segment = source_segment l begin_at;
          last_at = (if len \<noteq> 0 \<and> len - 1 \<le> SIZE_MAX - begin_at then begin_at + len - 1 else begin_at);
          end_segment = source_segment l last_at;
          from_position = line_source_position l begin_at;
          to_position = (if len = 0 then from_position
            else column_after (mapped_position end_segment last_at False) end_segment
                   (\<lambda>s. expansion_column_step s = 0) expansion expansion_width);
          spelled_span = (case begin_segment of Some s \<Rightarrow> has_spelling s | None \<Rightarrow> False) \<or>
            (case end_segment of Some s \<Rightarrow> has_spelling s | None \<Rightarrow> False);
          from_spelling = mapped_position begin_segment begin_at True;
          to_spelling = (if len = 0 then from_spelling
            else column_after (mapped_position end_segment last_at True) end_segment
                   (\<lambda>s. has_spelling s \<and> spelling_column_step s = 0) spelling spelling_width)
      in \<lparr>span_begin = from_position, span_end = to_position,
          spelling_begin = (if spelled_span then from_spelling else null_position),
          spelling_end = (if spelled_span then to_spelling else null_position),
          span_has_spelling = spelled_span\<rparr>)"

section \<open>The tokens of a line\<close>

definition line_token_equals :: "line option \<Rightarrow> nat \<Rightarrow> string \<Rightarrow> bool" where
  "line_token_equals l index word =
     (case l of None \<Rightarrow> False | Some l \<Rightarrow>
        index < length (line_tokens l) \<and> kind (line_tokens l ! index) = TOKEN_IDENTIFIER \<and>
        token_equals (line_tokens l ! index) word)"

definition line_find_token ::
  "line option \<Rightarrow> nat \<Rightarrow> token_kind \<Rightarrow> string option \<Rightarrow> nat option" where
  "line_find_token l start k word =
     (case l of None \<Rightarrow> None | Some l \<Rightarrow>
        List.find (\<lambda>index. matches k word (line_tokens l ! index)) [start..<length (line_tokens l)])"

definition line_token_range :: "line option \<Rightarrow> nat \<Rightarrow> nat \<Rightarrow> token_range" where
  "line_token_range l begin_at end_at =
     (case l of None \<Rightarrow> null_range | Some l \<Rightarrow>
        if end_at < begin_at \<or> length (line_tokens l) < end_at then null_range
        else \<lparr>range_source = Some (line_text l), range_source_length = length (line_text l),
              range_tokens = (if begin_at < end_at then Some (drop begin_at (line_tokens l)) else None),
              range_count = end_at - begin_at\<rparr>)"

section \<open>Tokenization\<close>

datatype token_report =
  Span_Report diagnostic_code source_span string
| Line_Report diagnostic_code nat string

record token_context =
  max_tokens :: nat
  token_count :: nat
  earlier_errors :: nat
  token_memory :: "nat \<Rightarrow> bool"
  token_reports :: "token_report list"

fun decimal_text :: "nat \<Rightarrow> string" where
  "decimal_text n = (if n < 10 then [char_of (48 + n)] else decimal_text (n div 10) @ [char_of (48 + n mod 10)])"

declare decimal_text.simps [simp del]

definition report_token :: "token_context \<Rightarrow> token_report \<Rightarrow> token_context" where
  "report_token c r = c\<lparr>token_reports := token_reports c @ [r]\<rparr>"

definition no_errors :: "token_context \<Rightarrow> bool" where
  "no_errors c \<longleftrightarrow> earlier_errors c = 0 \<and> token_reports c = []"

definition push_token ::
  "token_context \<Rightarrow> line \<Rightarrow> nat \<Rightarrow> token \<Rightarrow> bool \<times> token_context \<times> line \<times> nat" where
  "push_token c l capacity t =
     (if max_tokens c \<noteq> 0 \<and> max_tokens c \<le> token_count c
      then (False, report_token c (Span_Report DIAGNOSTIC_RESOURCE_LIMIT (token_span t)
              (''token limit of '' @ decimal_text (max_tokens c) @ '' exceeded'')), l, capacity)
      else let pushed = (c\<lparr>token_count := size_add (token_count c) 1\<rparr>,
                         l\<lparr>line_tokens := line_tokens l @ [t]\<rparr>)
        in if length (line_tokens l) = capacity
           then let larger = (if capacity = 0 then 16 else size_mul capacity 2)
             in if larger < capacity \<or> SIZE_MAX div 144 < larger then (False, c, l, capacity)
                else if \<not> token_memory c (larger * 144) then (False, c, l, capacity)
                else (True, fst pushed, snd pushed, larger)
           else (True, fst pushed, snd pushed, capacity))"

text \<open>The scanned token with the positions that the source map gives.\<close>

definition locate_token :: "line \<Rightarrow> token \<Rightarrow> token" where
  "locate_token l t =
     (let span = line_source_span (Some l) (length (line_text l) - length (token_begin t)) (token_length t)
      in t\<lparr>token_span := span, token_line := position_line (span_begin span),
           token_column := position_column (span_begin span)\<rparr>)"

definition error_span :: "line \<Rightarrow> cptr option \<Rightarrow> token \<Rightarrow> source_span" where
  "error_span l at t =
     (case at of Some at \<Rightarrow>
        if length at \<le> length (line_text l) \<and> at \<noteq> []
        then line_source_span (Some l) (length (line_text l) - length at) 1 else token_span t
      | None \<Rightarrow> token_span t)"

function tokenize_from ::
  "token_context \<Rightarrow> line \<Rightarrow> nat \<Rightarrow> token_stream \<Rightarrow> bool \<times> token_context \<times> line" where
  "tokenize_from c l capacity s =
     (let s = token_stream_next s; t = locate_token l (stream_token s) in
      if kind (stream_token s) = TOKEN_END then (True, c, l)
      else case push_token c l capacity t of
          (False, c, l, capacity) \<Rightarrow>
            (False, if no_errors c
               then report_token c (Line_Report DIAGNOSTIC_OUT_OF_MEMORY (line_number l)
                      ''out of memory tokenizing source'') else c, l)
        | (True, c, l, capacity) \<Rightarrow>
            if kind t = TOKEN_INVALID
            then (True, report_token c (Span_Report DIAGNOSTIC_INVALID_TOKEN
                    (error_span l (error_at s) t) ''invalid token in Fortran source''), l)
            else tokenize_from c l capacity (s\<lparr>stream_token := t\<rparr>))"
  by auto
termination
  by (relation "measure (\<lambda>(c, l, capacity, s). length (stream_cursor s))")
    (auto dest: next_advances)

declare tokenize_from.simps [simp del]

definition tokenize_line :: "token_context \<Rightarrow> line \<Rightarrow> bool \<times> token_context \<times> line" where
  "tokenize_line c l =
     (let l = l\<lparr>line_tokens := []\<rparr>
      in tokenize_from c l 0 (token_stream_init (Some (line_text l)) (line_number l) 1))"

primrec tokenize_lines :: "token_context \<Rightarrow> line list \<Rightarrow> bool \<times> token_context \<times> line list" where
  "tokenize_lines c [] = (True, c, [])"
| "tokenize_lines c (l # ls) =
     (case tokenize_line c l of
        (False, c, l) \<Rightarrow> (False, c, l # ls)
      | (True, c, l) \<Rightarrow>
          case tokenize_lines c ls of (ok, c, ls) \<Rightarrow> (ok, c, l # ls))"

section \<open>What a tokenized line looks like\<close>

primrec lays_out :: "string \<Rightarrow> token list \<Rightarrow> string \<Rightarrow> bool" where
  "lays_out s [] tail \<longleftrightarrow> s = tail"
| "lays_out s (t # ts) tail \<longleftrightarrow>
     (\<exists>gap rest. spaces gap \<and> s = gap @ token_text t @ rest \<and> token_text t \<noteq> [] \<and>
        token_begin t = token_text t @ rest \<and> lays_out rest ts tail)"

definition well_spelled :: "token \<Rightarrow> bool" where
  "well_spelled t \<longleftrightarrow> spelled (kind t) (token_text t)"

definition token_offset :: "line \<Rightarrow> token \<Rightarrow> nat" where
  "token_offset l t = length (line_text l) - length (token_begin t)"

definition located :: "line \<Rightarrow> token \<Rightarrow> bool" where
  "located l t \<longleftrightarrow> token_span t = line_source_span (Some l) (token_offset l t) (token_length t)"

text \<open>The last token of a line that is not valid, and its report: one character inside it.\<close>

definition reports_bad_token :: "line \<Rightarrow> token \<Rightarrow> token_report list \<Rightarrow> bool" where
  "reports_bad_token l bad rs \<longleftrightarrow> kind bad = TOKEN_INVALID \<and>
     (\<exists>i < token_length bad. rs = [Span_Report DIAGNOSTIC_INVALID_TOKEN
        (line_source_span (Some l) (token_offset l bad + i) 1) ''invalid token in Fortran source''])"

lemma locate_token_frame [simp]:
  "kind (locate_token l t) = kind t" "token_begin (locate_token l t) = token_begin t"
  "token_length (locate_token l t) = token_length t" "token_text (locate_token l t) = token_text t"
  "located l (locate_token l t)"
  by (simp_all add: locate_token_def Let_def token_text_def located_def token_offset_def)

lemma positions_ignore_tokens [simp]:
  "line_source_span (Some (l\<lparr>line_tokens := ts\<rparr>)) = line_source_span (Some l)"
  "token_offset (l\<lparr>line_tokens := ts\<rparr>) t = token_offset l t"
  "located (l\<lparr>line_tokens := ts\<rparr>) = located l"
  "reports_bad_token (l\<lparr>line_tokens := ts\<rparr>) t rs = reports_bad_token l t rs"
proof -
  have segment: "source_segment (Some (l\<lparr>line_tokens := ts\<rparr>)) = source_segment (Some l)"
    by (auto simp: source_segment_def fun_eq_iff split: option.split)
  then have "line_source_position (Some (l\<lparr>line_tokens := ts\<rparr>)) = line_source_position (Some l)"
    by (auto simp: line_source_position_def fun_eq_iff split: option.split)
  with segment show span: "line_source_span (Some (l\<lparr>line_tokens := ts\<rparr>)) = line_source_span (Some l)"
    by (intro ext) (simp only: line_source_span_def)
  show "token_offset (l\<lparr>line_tokens := ts\<rparr>) t = token_offset l t" by (simp add: token_offset_def)
  then show "reports_bad_token (l\<lparr>line_tokens := ts\<rparr>) t rs = reports_bad_token l t rs"
    by (simp add: reports_bad_token_def span)
  show "located (l\<lparr>line_tokens := ts\<rparr>) = located l"
    by (simp add: fun_eq_iff located_def span token_offset_def)
qed

lemma push_token_True:
  assumes "push_token c l n t = (True, c', l', n')"
  shows "l' = l\<lparr>line_tokens := line_tokens l @ [t]\<rparr>" "token_reports c' = token_reports c"
  using assms by (auto simp: push_token_def Let_def split: if_splits)

lemma skip_space_dropWhile: "skip_space s = dropWhile isspace s"
  by (induction s) auto

text \<open>One round of the loop that does not end the line.\<close>

lemma token_scanned:
  assumes "kind (stream_token (token_stream_next s)) \<noteq> TOKEN_END" "error_at s = None"
  obtains gap w where "spaces gap" "stream_cursor s = gap @ w @ stream_cursor (token_stream_next s)"
    "w \<noteq> []" "token_text (stream_token (token_stream_next s)) = w"
    "token_begin (stream_token (token_stream_next s)) = w @ stream_cursor (token_stream_next s)"
    "token_length (stream_token (token_stream_next s)) = length w"
    "if kind (stream_token (token_stream_next s)) = TOKEN_INVALID
     then \<exists>u v. w = u @ v \<and> v \<noteq> [] \<and>
       error_at (token_stream_next s) = Some (v @ stream_cursor (token_stream_next s))
     else well_spelled (stream_token (token_stream_next s)) \<and> error_at (token_stream_next s) = None"
proof -
  define r where "r = token_stream_next s"
  from assms(1) have "\<not> line_end (skip_space (stream_cursor s))" by (simp add: next_end_iff)
  from next_in_line [OF refl this, folded r_def] obtain w where w:
    "skip_space (stream_cursor s) = w @ stream_cursor r" "w \<noteq> []"
    "token_begin (stream_token r) = skip_space (stream_cursor s)" "token_length (stream_token r) = length w"
    and "stream_source r = stream_source s" and kinds:
    "kind (stream_token r) = TOKEN_INVALID \<and>
       (\<exists>u v. w = u @ v \<and> v \<noteq> [] \<and> error_at r = first_error (error_at s) (v @ stream_cursor r))
     \<or> spelled (kind (stream_token r)) w \<and> error_at r = error_at s" .
  define gap where "gap = takeWhile isspace (stream_cursor s)"
  have gap: "stream_cursor s = gap @ skip_space (stream_cursor s)" "spaces gap"
    by (auto simp: gap_def skip_space_dropWhile spaces_def list_all_iff dest: set_takeWhileD)
  have letters: "token_text (stream_token r) = w" using w(1,3,4) by (simp add: token_text_def)
  have outcome: "if kind (stream_token r) = TOKEN_INVALID
     then \<exists>u v. w = u @ v \<and> v \<noteq> [] \<and> error_at r = Some (v @ stream_cursor r)
     else well_spelled (stream_token r) \<and> error_at r = None"
  proof (cases "kind (stream_token r) = TOKEN_INVALID")
    case True
    with kinds have "\<exists>u v. w = u @ v \<and> v \<noteq> [] \<and> error_at r = first_error (error_at s) (v @ stream_cursor r)"
      using spelled_invalid by metis
    with True assms(2) show ?thesis by simp
  next
    case False
    with kinds assms(2) letters show ?thesis by (simp add: well_spelled_def)
  qed
  show ?thesis
  proof (rule that [folded r_def, OF gap(2)])
    show "stream_cursor s = gap @ w @ stream_cursor r" using gap(1) w(1) by simp
    show "token_begin (stream_token r) = w @ stream_cursor r" using w(1,3) by simp
  qed (rule w(2) letters w(4) outcome)+
qed

lemma tokenize_from_lays_out:
  assumes "tokenize_from c l n s = (True, c', l')" "error_at s = None"
    and "length (stream_cursor s) \<le> length (line_text l)"
  shows "\<exists>ts tail. l' = l\<lparr>line_tokens := line_tokens l @ ts\<rparr> \<and> lays_out (stream_cursor s) ts tail \<and>
    list_all (located l) ts \<and>
    (list_all well_spelled ts \<and> token_reports c' = token_reports c \<and> line_end (skip_space tail) \<or>
     (\<exists>us bad rs. ts = us @ [bad] \<and> list_all well_spelled us \<and> reports_bad_token l bad rs \<and>
        token_reports c' = token_reports c @ rs))"
  using assms
proof (induction "length (stream_cursor s)" arbitrary: c l n s rule: less_induct)
  case less
  define r where "r = token_stream_next s"
  define t where "t = locate_token l (stream_token r)"
  show ?case
  proof (cases "kind (stream_token r) = TOKEN_END")
    case True
    with less.prems(1) have "c' = c" "l' = l" by (subst (asm) tokenize_from.simps, simp add: r_def)+
    moreover have "line_end (skip_space (stream_cursor s))"
      using True by (simp add: r_def next_end_iff)
    ultimately show ?thesis by (intro exI [of _ "[]"] exI [of _ "stream_cursor s"]) simp
  next
    case False
    obtain gap w where w: "spaces gap" "stream_cursor s = gap @ w @ stream_cursor r"
      "w \<noteq> []" "token_text (stream_token r) = w"
      "token_begin (stream_token r) = w @ stream_cursor r"
      "token_length (stream_token r) = length w"
      "if kind (stream_token r) = TOKEN_INVALID
       then \<exists>u v. w = u @ v \<and> v \<noteq> [] \<and> error_at r = Some (v @ stream_cursor r)
       else well_spelled (stream_token r) \<and> error_at r = None"
      by (rule token_scanned [OF False [unfolded r_def] less.prems(2), folded r_def])
    have t: "kind t = kind (stream_token r)" "token_text t = w" "token_begin t = w @ stream_cursor r"
      "token_length t = length w" "located l t"
      using w by (simp_all add: t_def)
    obtain ok c1 l1 n1 where push: "push_token c l n t = (ok, c1, l1, n1)" by (metis prod_cases4)
    from less.prems(1) False push have ok by (subst (asm) tokenize_from.simps) (auto simp: r_def t_def Let_def split: bool.splits)
    with push have push: "push_token c l n t = (True, c1, l1, n1)" by simp
    note pushed = push_token_True [OF push]
    show ?thesis
    proof (cases "kind t = TOKEN_INVALID")
      case True
      with less.prems(1) False push have
        result: "l' = l1" "c' = report_token c1 (Span_Report DIAGNOSTIC_INVALID_TOKEN
            (error_span l1 (error_at r) t) ''invalid token in Fortran source'')"
        by (subst (asm) tokenize_from.simps, simp add: r_def t_def Let_def)+
      from True t(1) w(7) obtain u v where v: "w = u @ v" "v \<noteq> []" "error_at r = Some (v @ stream_cursor r)"
        by auto
      have inside: "length (v @ stream_cursor r) \<le> length (line_text l)"
        using less.prems(3) w(2) v(1) by simp
      have "error_span l1 (error_at r) t = line_source_span (Some l) (token_offset l t + length u) 1"
        using inside v w(2) t(3) less.prems(3) pushed(1) by (simp add: error_span_def token_offset_def)
      moreover have "length u < token_length t" using t(4) v by simp
      ultimately have "reports_bad_token l t [Span_Report DIAGNOSTIC_INVALID_TOKEN
            (error_span l1 (error_at r) t) ''invalid token in Fortran source'']"
        using True by (auto simp: reports_bad_token_def)
      with pushed result w t show ?thesis
        by (intro exI [of _ "[t]"] exI [of _ "stream_cursor r"])
          (auto simp: report_token_def intro!: exI [of _ gap])
    next
      case valid: False
      with w(4,7) t have spelled: "well_spelled t" "error_at r = None" by (auto simp: well_spelled_def)
      from less.prems(1) False push valid have
        next_run: "tokenize_from c1 l1 n1 (r\<lparr>stream_token := t\<rparr>) = (True, c', l')"
        by (subst (asm) tokenize_from.simps) (simp add: r_def t_def Let_def)
      have "\<exists>ts tail. l' = l1\<lparr>line_tokens := line_tokens l1 @ ts\<rparr> \<and>
        lays_out (stream_cursor (r\<lparr>stream_token := t\<rparr>)) ts tail \<and> list_all (located l1) ts \<and>
        (list_all well_spelled ts \<and> token_reports c' = token_reports c1 \<and> line_end (skip_space tail) \<or>
         (\<exists>us bad rs. ts = us @ [bad] \<and> list_all well_spelled us \<and> reports_bad_token l1 bad rs \<and>
            token_reports c' = token_reports c1 @ rs))"
        using next_run spelled(2) less.prems(3) w(2,3) pushed(1)
        by (intro less.hyps) simp_all
      then obtain ts tail where rest: "l' = l1\<lparr>line_tokens := line_tokens l1 @ ts\<rparr>"
        "lays_out (stream_cursor r) ts tail" "list_all (located l) ts"
        "list_all well_spelled ts \<and> token_reports c' = token_reports c \<and> line_end (skip_space tail) \<or>
         (\<exists>us bad rs. ts = us @ [bad] \<and> list_all well_spelled us \<and> reports_bad_token l bad rs \<and>
            token_reports c' = token_reports c @ rs)"
        using pushed by auto
      have "lays_out (stream_cursor s) (t # ts) tail" using w t rest(2) by auto
      moreover have "l' = l\<lparr>line_tokens := line_tokens l @ (t # ts)\<rparr>" using rest(1) pushed(1) by simp
      moreover have "list_all well_spelled (t # ts) \<and> token_reports c' = token_reports c \<and>
          line_end (skip_space tail) \<or>
         (\<exists>us bad rs. t # ts = us @ [bad] \<and> list_all well_spelled us \<and> reports_bad_token l bad rs \<and>
            token_reports c' = token_reports c @ rs)"
        using rest(4)
      proof (elim disjE exE conjE)
        fix us bad rs
        assume "ts = us @ [bad]" "list_all well_spelled us" "reports_bad_token l bad rs"
          "token_reports c' = token_reports c @ rs"
        then show ?thesis using spelled(1) by (intro disjI2 exI [of _ "t # us"]) auto
      qed (use spelled(1) in simp)
      ultimately show ?thesis using rest(3) t(5) by (intro exI [of _ "t # ts"] exI [of _ tail]) simp
    qed
  qed
qed

section \<open>Tokenizing succeeds and covers the line\<close>

definition unlimited :: "token_context \<Rightarrow> bool" where
  "unlimited c \<longleftrightarrow> (\<forall>n. token_memory c n) \<and> max_tokens c = 0"

lemma push_token_succeeds:
  assumes "unlimited c" "length (line_tokens l) \<le> SIZE_MAX div 288"
  shows "\<exists>c' n'. push_token c l n t = (True, c', l\<lparr>line_tokens := line_tokens l @ [t]\<rparr>, n') \<and> unlimited c'"
proof -
  have "\<not> (larger < n \<or> SIZE_MAX div 144 < larger)"
    if "length (line_tokens l) = n" "larger = (if n = 0 then 16 else size_mul n 2)" for larger
    using that assms(2) by (auto simp: size_mul_def)
  with assms(1) show ?thesis by (auto simp: push_token_def Let_def unlimited_def)
qed

lemma tokenize_from_succeeds:
  assumes "unlimited c" "length (line_tokens l) + length (stream_cursor s) \<le> SIZE_MAX div 288"
  shows "fst (tokenize_from c l n s)"
  using assms
proof (induction "length (stream_cursor s)" arbitrary: c l n s rule: less_induct)
  case less
  define r where "r = token_stream_next s"
  define t where "t = locate_token l (stream_token r)"
  show ?case
  proof (cases "kind (stream_token r) = TOKEN_END")
    case True
    then show ?thesis by (subst tokenize_from.simps) (simp add: r_def)
  next
    case False
    then have shorter: "length (stream_cursor r) < length (stream_cursor s)"
      unfolding r_def by (rule next_advances)
    have "length (line_tokens l) \<le> SIZE_MAX div 288" using less.prems(2) by simp
    from push_token_succeeds [OF less.prems(1) this]
    obtain c1 n1 where push: "push_token c l n t = (True, c1, l\<lparr>line_tokens := line_tokens l @ [t]\<rparr>, n1)"
      "unlimited c1" by blast
    have "fst (tokenize_from c1 (l\<lparr>line_tokens := line_tokens l @ [t]\<rparr>) n1 (r\<lparr>stream_token := t\<rparr>))"
      using shorter less.prems(2) push(2) by (intro less.hyps) simp_all
    with False push show ?thesis
      by (subst tokenize_from.simps) (simp add: r_def [symmetric] t_def [symmetric])
  qed
qed

lemma token_stream_init_frame [simp]:
  "stream_cursor (token_stream_init (Some s) ln column) = s"
  "error_at (token_stream_init src ln column) = None"
  by (simp_all add: token_stream_init_def Let_def)

lemma tokenize_line_succeeds:
  assumes "unlimited c" "length (line_text l) \<le> SIZE_MAX div 288"
  shows "fst (tokenize_line c l)"
  using assms unfolding tokenize_line_def Let_def
  by (intro tokenize_from_succeeds) simp_all

lemma tokenize_line_lays_out:
  assumes "tokenize_line c l = (True, c', l')"
  shows "\<exists>ts tail. l' = l\<lparr>line_tokens := ts\<rparr> \<and> lays_out (line_text l) ts tail \<and> list_all (located l) ts \<and>
    (list_all well_spelled ts \<and> token_reports c' = token_reports c \<and> line_end (skip_space tail) \<or>
     (\<exists>us bad rs. ts = us @ [bad] \<and> list_all well_spelled us \<and> reports_bad_token l bad rs \<and>
        token_reports c' = token_reports c @ rs))"
proof -
  define l0 where "l0 = l\<lparr>line_tokens := []\<rparr>"
  from assms have "tokenize_from c l0 0 (token_stream_init (Some (line_text l)) (line_number l) 1) = (True, c', l')"
    by (simp add: tokenize_line_def l0_def)
  from tokenize_from_lays_out [OF this] have "\<exists>ts tail. l' = l0\<lparr>line_tokens := ts\<rparr> \<and>
    lays_out (line_text l) ts tail \<and> list_all (located l0) ts \<and>
    (list_all well_spelled ts \<and> token_reports c' = token_reports c \<and> line_end (skip_space tail) \<or>
     (\<exists>us bad rs. ts = us @ [bad] \<and> list_all well_spelled us \<and> reports_bad_token l0 bad rs \<and>
        token_reports c' = token_reports c @ rs))"
    by (simp add: l0_def)
  then show ?thesis by (simp add: l0_def)
qed

text \<open>
  C1: the tokens of a line account for the whole line. With memory and no token limit the
  tokenization succeeds; every token is located at its own characters through the source map; the
  tokens follow each other in the text, each of them non-empty, with nothing but white space in
  between; and either every token is spelled according to the lexical grammar of its kind, nothing
  is reported, and at most white space and a comment remain, or only the last token is invalid and
  exactly one error is reported, at a character inside that token.
\<close>

theorem line_tokens_account_for_line:
  assumes "unlimited c" "length (line_text l) \<le> SIZE_MAX div 288" "tokenize_line c l = (ok, c', l')"
  shows "ok \<and> (\<exists>ts tail. l' = l\<lparr>line_tokens := ts\<rparr> \<and> lays_out (line_text l) ts tail \<and>
    list_all (located l) ts \<and>
    (list_all well_spelled ts \<and> token_reports c' = token_reports c \<and> line_end (skip_space tail) \<or>
     (\<exists>us bad rs. ts = us @ [bad] \<and> list_all well_spelled us \<and> reports_bad_token l bad rs \<and>
        token_reports c' = token_reports c @ rs)))"
proof
  show ok using tokenize_line_succeeds [OF assms(1,2)] assms(3) by simp
  then show "\<exists>ts tail. l' = l\<lparr>line_tokens := ts\<rparr> \<and> lays_out (line_text l) ts tail \<and>
    list_all (located l) ts \<and>
    (list_all well_spelled ts \<and> token_reports c' = token_reports c \<and> line_end (skip_space tail) \<or>
     (\<exists>us bad rs. ts = us @ [bad] \<and> list_all well_spelled us \<and> reports_bad_token l bad rs \<and>
        token_reports c' = token_reports c @ rs))"
    using assms(3) by (intro tokenize_line_lays_out) simp
qed

definition example_line :: "string \<Rightarrow> line" where
  "example_line s = \<lparr>line_text = s, line_source_name = Some ''a.f90'', line_number = 3,
     line_tokens = [], line_source_map = []\<rparr>"

definition example_context :: token_context where
  "example_context = \<lparr>max_tokens = 0, token_count = 0, earlier_errors = 0,
     token_memory = (\<lambda>_. True), token_reports = []\<rparr>"

lemma line_tokens_account_for_line_witness:
  "fst (tokenize_line example_context (example_line ''x=1e+'')) \<and>
   (\<exists>ts. list_all (located (example_line ''x=1e+'')) ts \<and>
      line_tokens (snd (snd (tokenize_line example_context (example_line ''x=1e+'')))) = ts)"
proof -
  obtain ok c' l' where run: "tokenize_line example_context (example_line ''x=1e+'') = (ok, c', l')"
    by (metis prod_cases3)
  have "ok \<and> (\<exists>ts. l' = (example_line ''x=1e+'')\<lparr>line_tokens := ts\<rparr> \<and>
      list_all (located (example_line ''x=1e+'')) ts)"
    using line_tokens_account_for_line [OF _ _ run]
    by (auto simp: unlimited_def example_context_def example_line_def)
  with run show ?thesis by auto
qed

end
