(* ===== verification/Lexer_Complete.thy ===== *)
theory Lexer_Complete
  imports Line_Tokens
begin

text \<open>
  The scanner reads back what the grammar writes: a lexeme followed by white space or by the end of
  the line is scanned as a whole and with its kind, so a line that is written as lexemes with
  blanks between them is tokenized into exactly these lexemes.
\<close>

section \<open>What follows a lexeme\<close>

definition boundary :: "cptr \<Rightarrow> bool" where
  "boundary r \<longleftrightarrow> r = [] \<or> isspace (hd r)"

text \<open>What a scan yields, apart from the fields that it does not read.\<close>

definition reads :: "token_stream \<Rightarrow> token_stream \<Rightarrow> token_kind \<Rightarrow> cptr \<Rightarrow> bool" where
  "reads s r k rest \<longleftrightarrow> kind (stream_token r) = k \<and> stream_cursor r = rest \<and> error_at r = error_at s"

lemma boundary_peek:
  assumes "boundary r"
  shows "\<not> isdigit (peek r)" "\<not> isalpha (peek r)" "\<not> identifier_continue (peek r)"
    "peek r \<notin> quotes" "\<not> is_one_of (peek r) w \<or> (\<exists>c \<in> set w. isspace c \<or> c = NUL)"
    "peek r \<noteq> CHR ''_''" "peek r \<noteq> CHR ''.''"
  using assms
  by (cases r; auto simp: boundary_def char_class identifier_continue_def is_one_of_def)+

lemma boundary_character:
  "boundary r \<Longrightarrow> \<not> isspace c \<Longrightarrow> c \<noteq> NUL \<Longrightarrow> peek r \<noteq> c"
  by (cases r) (auto simp: boundary_def)

lemma dropWhile_boundary:
  "list_all P w \<Longrightarrow> \<not> P (peek r) \<Longrightarrow> dropWhile P (w @ r) = r"
  by (cases r) (auto simp: list_all_iff dropWhile_append)

section \<open>Words and strings\<close>

lemma reads_kind [simp]:
  "reads s (set_kind r k) k' rest \<longleftrightarrow> k = k' \<and> stream_cursor r = rest \<and> error_at r = error_at s"
  by (auto simp: reads_def)

lemma reads_from_move [simp]: "reads (move_to s c) r k rest = reads s r k rest"
  by (simp add: reads_def)

lemma identifier_no_quote: "identifier_continue c \<Longrightarrow> c \<notin> quotes"
  by (auto simp: identifier_continue_def char_class)

lemma identifier_no_digit: "identifier_start c \<Longrightarrow> \<not> isdigit c"
  by (auto simp: identifier_start_def char_class)

lemma string_rest_complete:
  "quoted q w \<Longrightarrow> peek r \<noteq> q \<Longrightarrow> q \<noteq> NUL \<Longrightarrow> string_rest q (w @ r) = (r, True)"
  by (induction w rule: quoted.induct) auto

text \<open>A name, up to its end, is no literal prefix unless a quote follows.\<close>

lemma name_no_quote:
  assumes "identifier_start x" "list_all identifier_continue k"
    "\<not> identifier_continue (peek r)" "peek r \<notin> quotes \<or> k = []"
  shows "scan_kind_string s (x # k @ r) = None"
proof -
  have "\<not> is_one_of x [CHR 0x27, CHR 0x22]" "\<not> isdigit x"
    using identifier_start_continue [OF assms(1)] identifier_no_quote identifier_no_digit [OF assms(1)]
    by (auto simp: is_one_of_quotes)
  moreover have "dropWhile identifier_continue (k @ r) = r"
    using assms(2,3) by (rule dropWhile_boundary)
  ultimately show ?thesis
    using assms(1,4)
    by (auto simp: scan_kind_string_def character_literal_quote_def is_one_of_quotes)
qed

lemma scan_name:
  assumes "is_name w" "boundary r"
  shows "reads s (scan_word s (w @ r)) TOKEN_IDENTIFIER r"
proof -
  from assms(1) obtain x k where w: "w = x # k" "identifier_start x" "list_all identifier_continue k"
    by (cases w) (auto simp: is_name_def)
  note b = boundary_peek [OF assms(2)]
  have string: "scan_kind_string s (w @ r) = None"
    unfolding w(1) append_Cons using w(2,3) b(3,4) by (intro name_no_quote) simp_all
  have "peek (k @ r) \<notin> quotes"
    using b(4) w(3) identifier_no_quote by (cases k) auto
  then have boz: "scan_boz s (w @ r) = None"
    by (auto simp: scan_boz_def w(1) is_one_of_def)
  have "dropWhile identifier_continue (k @ r) = r"
    using w(3) b(3) by (rule dropWhile_boundary)
  then show ?thesis by (simp add: scan_word_def string boz) (simp add: w(1))
qed

lemma scan_string_reads:
  assumes "stream_cursor s = q # w @ r" "quoted q w" "q \<in> quotes" "boundary r"
  shows "reads s (scan_string s b) TOKEN_STRING r"
proof -
  have "peek r \<noteq> q" using boundary_peek(4) [OF assms(4)] assms(3) by auto
  then have "string_rest q (w @ r) = (r, True)"
    using assms(2) quotes_not_NUL [OF assms(3)] by (intro string_rest_complete)
  with assms(1) show ?thesis by (simp add: scan_string_def)
qed

lemma literal_prefix_quote:
  assumes "literal_prefix p" "q \<in> quotes"
  shows "character_literal_quote (Some (p @ q # c)) = Some (q # c)"
proof -
  have q: "is_one_of q [CHR 0x27, CHR 0x22]" "\<not> isdigit q" "\<not> identifier_continue q"
    using assms(2) by (auto simp: is_one_of_def char_class identifier_continue_def)
  consider "p = []" | ds where "digits ds" "p = ds @ ''_''"
    | x k where "p = x # k" "identifier_start x" "list_all identifier_continue k" "k \<noteq> []"
        "last p = CHR ''_''"
    using assms(1) unfolding literal_prefix_def is_name_def
    by (cases p) auto
  then show ?thesis
  proof cases
    case 1
    with q show ?thesis by (simp add: character_literal_quote_def)
  next
    case 2
    then obtain d ds' where d: "ds = d # ds'" "isdigit d" by (cases ds) (auto simp: digits_def)
    have "dropWhile isdigit (ds @ CHR ''_'' # q # c) = CHR ''_'' # q # c"
      using 2(1) by (intro dropWhile_boundary) (simp_all add: digits_def char_class)
    moreover have "\<not> is_one_of d [CHR 0x27, CHR 0x22]" using d(2) by (auto simp: is_one_of_def char_class)
    ultimately show ?thesis using d q by (simp add: character_literal_quote_def 2(2))
  next
    case 3
    have "\<not> is_one_of x [CHR 0x27, CHR 0x22]" "\<not> isdigit x"
      using identifier_start_continue [OF 3(2)] identifier_no_quote identifier_no_digit [OF 3(2)]
      by (auto simp: is_one_of_quotes)
    moreover have "dropWhile identifier_continue (k @ q # c) = q # c"
      using 3(3) q(3) by (intro dropWhile_boundary) simp_all
    moreover have "(x # k @ q # c) ! length k = CHR ''_''"
      using 3(1,4,5) by (simp add: nth_append last_conv_nth nth_Cons')
    ultimately show ?thesis using 3(1,2,4) q(1) by (simp add: character_literal_quote_def Let_def)
  qed
qed

lemma scan_kind_string_reads:
  assumes "literal_prefix p" "p \<noteq> []" "quoted q w" "q \<in> quotes" "boundary r"
  shows "\<exists>t. scan_kind_string s (p @ q # w @ r) = Some t \<and> reads s t TOKEN_STRING r"
proof -
  have "reads (move_to s (q # w @ r)) (scan_string (move_to s (q # w @ r)) (p @ q # w @ r)) TOKEN_STRING r"
    using assms(3-5) by (intro scan_string_reads) simp_all
  with assms(2) show ?thesis
    by (simp add: scan_kind_string_def literal_prefix_quote [OF assms(1,4)])
qed

section \<open>BOZ and Hollerith constants\<close>

lemma boz_digits_complete:
  "list_all (valid_boz_digit p) w \<Longrightarrow> q \<notin> set w \<Longrightarrow>
   boz_digits p q (w @ q # r) None n = (q # r, None, n + length w)"
  by (induction w arbitrary: n) auto

lemma boz_digit_no_quote: "valid_boz_digit p c \<Longrightarrow> c \<notin> quotes"
  by (auto simp: valid_boz_digit_def isxdigit_def char_class split: if_splits)

lemma boz_prefix_starts: "tolower c \<in> set ''bozx'' \<Longrightarrow> identifier_start c"
  by (auto simp: tolower_def identifier_start_def isalpha_def ascii_def split: if_splits)

lemma scan_boz_reads:
  assumes "tolower c \<in> set ''bozx''" "q \<in> quotes" "w \<noteq> []" "list_all (valid_boz_digit (tolower c)) w"
  shows "reads s (scan_word s (c # q # w @ q # r)) TOKEN_BOZ r"
proof -
  have "q \<notin> set w" using assms(2,4) boz_digit_no_quote by (fastforce simp: list_all_iff)
  with assms(4) have digits: "boz_digits (tolower c) q (w @ q # r) None 0 = (q # r, None, length w)"
    using boz_digits_complete [of "tolower c" w q r 0] by simp
  have "\<not> identifier_continue q" using assms(2) by (auto simp: char_class identifier_continue_def)
  then have string: "scan_kind_string s (c # q # w @ q # r) = None"
    using name_no_quote [OF boz_prefix_starts [OF assms(1)], of "[]" "q # w @ q # r" s] by simp
  have "is_one_of (tolower c) ''bozx''" "is_one_of q [CHR 0x27, CHR 0x22]"
    using assms(1,2) by (auto simp: is_one_of_def)
  then have "scan_boz s (c # q # w @ q # r) = Some (set_kind (move_to s r) TOKEN_BOZ)"
    using assms(3) digits by (simp add: scan_boz_def)
  then show ?thesis by (simp add: scan_word_def string)
qed

lemma scan_hollerith_reads:
  assumes "digits ds" "h \<in> set ''hH''" "decimal_value ds = length payload" "length payload \<le> SIZE_MAX"
  shows "scan_hollerith s (ds @ h # payload @ r) (h # payload @ r) = Some (set_kind (move_to s r) TOKEN_HOLLERITH)"
proof -
  have h: "is_one_of h ''hH''" "\<not> isdigit h" using assms(2) by (auto simp: is_one_of_def char_class)
  have read: "takeWhile isdigit (ds @ h # payload @ r) = ds" "dropWhile isdigit (ds @ h # payload @ r) = h # payload @ r"
    using assms(1) h(2) by (auto simp: digits_def list_all_iff takeWhile_append dropWhile_append)
  have "ds \<noteq> []" using assms(1) by (simp add: digits_def)
  with h read assms(3,4) show ?thesis
    by (auto simp: scan_hollerith_def strtoull_def Let_def min_def)
qed

lemma digits_first: "digits ds \<Longrightarrow> \<exists>d ds'. ds = d # ds' \<and> isdigit d \<and> list_all isdigit ds'"
  by (cases ds) (auto simp: digits_def)

lemma digit_not_point: "isdigit d \<Longrightarrow> d \<noteq> CHR ''.'' \<and> d \<notin> quotes \<and> \<not> identifier_start d"
  by (auto simp: char_class identifier_start_def)

lemma digits_no_string:
  assumes "digits ds" "\<not> isdigit (peek r)" "peek r \<noteq> CHR ''_'' \<or> peek (drop 1 r) \<notin> quotes"
  shows "scan_kind_string s (ds @ r) = None"
proof -
  obtain d ds' where d: "ds = d # ds'" "isdigit d" using digits_first [OF assms(1)] by blast
  have "dropWhile isdigit (ds @ r) = r"
    using assms(1,2) by (intro dropWhile_boundary) (simp_all add: digits_def)
  with d digit_not_point [OF d(2)] assms(3) show ?thesis
    by (auto simp: scan_kind_string_def character_literal_quote_def is_one_of_quotes)
qed

lemma scan_number_hollerith:
  assumes "digits ds" "h \<in> set ''hH''" "decimal_value ds = length payload" "length payload \<le> SIZE_MAX"
    and "stream_cursor s = ds @ h # payload @ r"
  shows "reads s (scan_number s (ds @ h # payload @ r)) TOKEN_HOLLERITH r"
proof -
  obtain d ds' where d: "ds = d # ds'" "isdigit d" using digits_first [OF assms(1)] by blast
  have "\<not> isdigit h" using assms(2) by (auto simp: char_class)
  then have "dropWhile isdigit (ds @ h # payload @ r) = h # payload @ r"
    using assms(1) by (intro dropWhile_boundary) (simp_all add: digits_def)
  with d digit_not_point [OF d(2)] assms(5) show ?thesis
    by (simp add: scan_number_def Let_def scan_hollerith_reads [OF assms(1-4), unfolded d(1) append_Cons])
qed

section \<open>Numbers\<close>

lemma exponent_reads:
  assumes "exponent_part e" "stream_cursor s = e @ t" "\<not> isdigit (peek t)" "e = [] \<Longrightarrow> peek t \<notin> set ''eEdDqQ''"
  shows "scan_exponent s = (move_to s t, True)"
proof (cases "e = []")
  case e: True
  with assms(2,4) have "\<not> is_one_of (peek (stream_cursor s)) ''eEdDqQ''" by (simp add: is_one_of_def)
  then have "scan_exponent s = (s, True)" by (simp add: scan_exponent_def)
  moreover have "move_to s t = s" using assms(2) e by (cases s) (simp add: move_to_def)
  ultimately show ?thesis by simp
next
  case False
  with assms(1) obtain x sign ds where e: "e = x # sign @ ds" "x \<in> set ''eEdDqQ''" "digits ds"
    and sign: "sign = [] \<or> sign = ''+'' \<or> sign = ''-''" by (auto simp: exponent_part_def)
  obtain d ds' where d: "ds = d # ds'" "isdigit d" using digits_first [OF e(3)] by blast
  have run: "dropWhile isdigit (ds @ t) = t"
    using e(3) assms(3) by (intro dropWhile_boundary) (simp_all add: digits_def)
  have no_sign: "\<not> is_one_of (peek (ds @ t)) ''+-''"
    using d by (auto simp: is_one_of_def char_class)
  have valid: "isdigit (peek (ds @ t))" using d by simp
  have x: "is_one_of x ''eEdDqQ''" using e(2) by (simp add: is_one_of_def)
  have cursor: "stream_cursor s = x # sign @ ds @ t" using assms(2) e(1) by simp
  have "(if is_one_of (peek (sign @ ds @ t)) ''+-'' then drop 1 (sign @ ds @ t) else sign @ ds @ t) = ds @ t"
    using sign no_sign by (auto simp: is_one_of_def)
  moreover have "scan_exponent s =
      (let cursor = (if is_one_of (peek (sign @ ds @ t)) ''+-'' then drop 1 (sign @ ds @ t) else sign @ ds @ t)
       in (move_to (if isdigit (peek cursor) then s else set_error s (x # sign @ ds @ t))
             (dropWhile isdigit cursor), isdigit (peek cursor)))"
    unfolding scan_exponent_def cursor using x by (simp add: Let_def)
  ultimately show ?thesis using run valid by (simp add: Let_def)
qed

lemma move_to_same [simp]: "stream_cursor s = t \<Longrightarrow> move_to s t = s"
  by (cases s) (simp add: move_to_def)

lemma move_to_move [simp]: "move_to (move_to s a) b = move_to s b"
  by (simp add: move_to_def)

lemma number_suffix_cases:
  assumes "number_suffix k"
  obtains "k = []" | "k = ''f''" | "k = ''F''" | n where "k = CHR ''_'' # n" "n \<noteq> []" "list_all identifier_continue n"
  using assms by (auto simp: number_suffix_def)

text \<open>The kind of the number, then the optional \<open>f\<close>.\<close>

lemma suffix_reads:
  assumes "number_suffix k" "stream_cursor s = k @ r" "boundary r"
  shows "\<exists>c. scan_kind_suffix s = (move_to s c, True) \<and>
    (if is_one_of (peek c) ''fF'' then drop 1 c else c) = r"
proof -
  have no_f: "\<not> is_one_of (peek r) ''fF''"
    using boundary_peek(2) [OF assms(3)] by (auto simp: is_one_of_def isalpha_def ascii_def)
  have r: "peek r \<noteq> CHR ''_''" "\<not> identifier_continue (peek r)" using boundary_peek [OF assms(3)] by simp_all
  from assms(1) show ?thesis
  proof (cases rule: number_suffix_cases)
    case 1
    with assms(2) r(1) no_f show ?thesis
      by (intro exI [of _ r]) (simp add: scan_kind_suffix_def)
  next
    case 2
    with assms(2) show ?thesis
      by (intro exI [of _ "k @ r"]) (simp add: scan_kind_suffix_def is_one_of_def)
  next
    case 3
    with assms(2) show ?thesis
      by (intro exI [of _ "k @ r"]) (simp add: scan_kind_suffix_def is_one_of_def)
  next
    case (4 n)
    have "dropWhile identifier_continue (n @ r) = r" "identifier_continue (peek (n @ r))"
      using 4 r(2) by (rule_tac dropWhile_boundary, simp_all, cases n, simp_all)
    with 4 assms(2) no_f show ?thesis
      by (intro exI [of _ r]) (simp add: scan_kind_suffix_def Let_def)
  qed
qed

lemma boundary_other:
  assumes "boundary r" "list_all (\<lambda>c. \<not> isspace c \<and> c \<noteq> NUL) w"
  shows "peek r \<notin> set w"
  using assms boundary_character by (fastforce simp: list_all_iff)

lemma suffix_peek:
  assumes "number_suffix k" "boundary r"
  shows "\<not> isdigit (peek (k @ r)) \<and> peek (k @ r) \<notin> set ''eEdDqQhH.'' \<and>
    (isalpha (peek (k @ r)) \<longrightarrow> k = ''f'' \<or> k = ''F'')"
  using assms(1)
proof (cases rule: number_suffix_cases)
  case 1
  have "peek r \<notin> set ''eEdDqQhH.''"
    using assms(2) by (rule boundary_other) (simp add: char_class)
  with 1 boundary_peek(1,2) [OF assms(2)] show ?thesis by simp
qed (simp_all add: char_class)

lemma exponent_peek:
  assumes "exponent_part e" "e \<noteq> []"
  shows "\<not> isdigit (peek (e @ t))" "peek (e @ t) \<in> set ''eEdDqQ''"
  using assms unfolding exponent_part_def by (auto simp: char_class)

text \<open>A fraction is scanned when its point is not that of an operator.\<close>

lemma fraction_valid:
  assumes "fraction_part (CHR ''.'' # ds) (e @ k)" "exponent_part e" "number_suffix k" "boundary r"
  shows "valid_real_fraction (CHR ''.'' # ds @ e @ k @ r)"
proof (cases ds)
  case (Cons d ds')
  with assms(1) have "isdigit d" by (auto simp: fraction_part_def)
  with Cons show ?thesis by (auto simp: valid_real_fraction_def char_class)
next
  case Nil
  then have no_q: "peek (e @ k) \<notin> set ''qQ''" using assms(1) by (simp add: fraction_part_def)
  show ?thesis
  proof (cases "e = []")
    case True
    show ?thesis
    proof (cases "isalpha (peek (k @ r))")
      case False
      with Nil True show ?thesis by (simp add: valid_real_fraction_def)
    next
      case letter: True
      then have "k = ''f'' \<or> k = ''F''" using suffix_peek [OF assms(3,4)] by blast
      with Nil True boundary_peek(3) [OF assms(4)] show ?thesis
        by (auto simp: valid_real_fraction_def is_one_of_def)
    qed
  next
    case False
    with assms(2) obtain x sign n where e: "e = x # sign @ n" "x \<in> set ''eEdDqQ''" "digits n"
      "sign = [] \<or> sign = ''+'' \<or> sign = ''-''" by (auto simp: exponent_part_def)
    obtain d n' where d: "n = d # n'" "isdigit d" using digits_first [OF e(3)] by blast
    have "x \<in> set ''eEdD''" using e(1,2) no_q by auto
    with Nil e(1,4) d show ?thesis
      by (auto simp: valid_real_fraction_def is_one_of_def)
  qed
qed

lemma tail_peek:
  assumes "exponent_part e" "number_suffix k" "boundary r"
  shows "\<not> isdigit (peek (e @ k @ r)) \<and> peek (e @ k @ r) \<notin> set ''hH.''"
proof (cases "e = []")
  case True
  with suffix_peek [OF assms(2,3)] show ?thesis by simp
next
  case False
  have "\<not> isdigit (peek (e @ k @ r))" "peek (e @ k @ r) \<in> set ''eEdDqQ''"
    using exponent_peek [OF assms(1) False] by blast+
  then show ?thesis by auto
qed

lemma scan_number_reads:
  assumes "whole_part a" "exponent_part e" "number_suffix k" "fraction_part f (e @ k)" "boundary r"
    and cursor: "stream_cursor s = a @ f @ e @ k @ r"
  shows "reads s (scan_number s (a @ f @ e @ k @ r)) TOKEN_NUMBER r"
proof -
  define b where "b = a @ f @ e @ k @ r"
  define d where "d = f @ e @ k @ r"
  obtain ds where ds: "digits ds" "a = ds \<or> a = CHR ''.'' # ds"
    using assms(1) by (auto simp: whole_part_def)
  obtain x ds' where x: "ds = x # ds'" "isdigit x" using digits_first [OF ds(1)] by blast
  note tail = tail_peek [OF assms(2,3,5)]
  have after: "\<not> isdigit (peek d)" "peek d \<notin> set ''hH''"
    using tail assms(4) by (auto simp: d_def fraction_part_def char_class)
  have run: "dropWhile isdigit (ds @ d) = d"
    using ds(1) after(1) by (intro dropWhile_boundary) (simp_all add: digits_def)
  have past_point: "(if peek b = CHR ''.'' then drop 1 b else b) = ds @ d"
    using ds(2) x digit_not_point [OF x(2)] by (auto simp: b_def d_def)
  have no_hollerith: "(if peek b \<noteq> CHR ''.'' then scan_hollerith (move_to s d) b d else None) = None"
    using after(2) by (simp add: scan_hollerith_def is_one_of_def)
  define s2 where "s2 = (if peek d = CHR ''.'' \<and> valid_real_fraction d
      then move_to (move_to s d) (dropWhile isdigit (drop 1 d)) else move_to s d)"
  have s2: "s2 = move_to s (e @ k @ r)"
  proof (cases "f = []")
    case True
    with tail show ?thesis by (simp add: s2_def d_def)
  next
    case False
    then obtain n where n: "f = CHR ''.'' # n" "list_all isdigit n"
      using assms(4) by (auto simp: fraction_part_def)
    have "valid_real_fraction d"
      unfolding d_def n(1) append_Cons using assms(2-5) n(1) by (intro fraction_valid) simp_all
    moreover have "dropWhile isdigit (n @ e @ k @ r) = e @ k @ r"
      using n(2) tail by (intro dropWhile_boundary) simp_all
    ultimately show ?thesis by (simp add: s2_def) (simp add: d_def n(1))
  qed
  have exponent: "scan_exponent s2 = (move_to s (k @ r), True)"
    using exponent_reads [OF assms(2), of s2 "k @ r"] suffix_peek [OF assms(3,5)] by (simp add: s2)
  obtain c where c: "scan_kind_suffix (move_to s (k @ r)) = (move_to s c, True)"
    "(if is_one_of (peek c) ''fF'' then drop 1 c else c) = r"
    using suffix_reads [OF assms(3) _ assms(5), of "move_to s (k @ r)"] by auto
  have "scan_number s b = set_kind (if is_one_of (peek c) ''fF''
      then move_to (move_to s c) (drop 1 c) else move_to s c) TOKEN_NUMBER"
    unfolding scan_number_def cursor [folded b_def] Let_def past_point run no_hollerith
    using exponent c(1) by (simp add: s2_def [symmetric])
  with c(2) show ?thesis by (auto simp: b_def split: if_splits)
qed

section \<open>Symbols and dotted operators\<close>

lemma boundary_not_symbol:
  assumes "boundary r"
  shows "peek r \<notin> set ''/):*=><''"
  using assms by (rule boundary_other) (simp add: char_class)

abbreviation symbol_kinds :: "token_kind set" where
  "symbol_kinds \<equiv> {TOKEN_ARRAY_BEGIN, TOKEN_ARRAY_END,
    TOKEN_LEFT_PAREN, TOKEN_RIGHT_PAREN, TOKEN_LEFT_BRACKET, TOKEN_RIGHT_BRACKET, TOKEN_COMMA,
    TOKEN_DOUBLE_COLON, TOKEN_COLON, TOKEN_SEMICOLON, TOKEN_PERCENT}"

lemma scan_symbol_reads:
  assumes "spelled k w" "boundary r" "k \<in> symbol_kinds"
  shows "reads s (scan_symbol s (w @ r)) k r"
  using assms(1,3) boundary_not_symbol [OF assms(2)]
  by (cases rule: spelled.cases) (auto simp: scan_symbol_def)

lemma scan_operator_reads:
  assumes "w \<in> set two_character_operators \<or> (\<exists>c \<in> set ''+-*/=<>~''. w = [c])" "boundary r"
  shows "reads s (scan_symbol s (w @ r)) TOKEN_OPERATOR r"
  using assms(1) boundary_not_symbol [OF assms(2)]
  by (auto simp: scan_symbol_def two_character_operators_def is_one_of_def)

lemma skip_space_spaces: "spaces u \<Longrightarrow> \<not> isspace (peek c) \<Longrightarrow> skip_space (u @ c) = c"
  by (induction u) (auto simp: spaces_def skip_space_identity)

text \<open>A dotted word up to its last point, however the blanks around its letters are shared out.\<close>

lemma dotted_cursor:
  assumes "spaces u" "list_all isalpha letters" "spaces v"
  shows "skip_space (dropWhile isalpha (skip_space (u @ letters @ v @ CHR ''.'' # c))) = CHR ''.'' # c"
proof -
  have point: "\<not> isspace CHR ''.''" "\<not> isalpha CHR ''.''" by (simp_all add: char_class)
  have no_letters: "\<not> isalpha (peek (v @ CHR ''.'' # c))"
    using assms(3) point(2) by (cases v) (auto simp: spaces_def char_class)
  have last_part: "skip_space (v @ CHR ''.'' # c) = CHR ''.'' # c"
    using assms(3) point(1) by (intro skip_space_spaces) simp_all
  show ?thesis
  proof (cases letters)
    case Nil
    have "spaces (u @ v)" using assms(1,3) by (simp add: spaces_def)
    then have "skip_space ((u @ v) @ CHR ''.'' # c) = CHR ''.'' # c"
      using point(1) by (intro skip_space_spaces) simp_all
    then have "skip_space (u @ letters @ v @ CHR ''.'' # c) = CHR ''.'' # c" using Nil by simp
    then show ?thesis using point by simp
  next
    case (Cons x ls)
    then have "\<not> isspace (peek (letters @ v @ CHR ''.'' # c))"
      using assms(2) by (auto simp: char_class)
    then have "skip_space (u @ letters @ v @ CHR ''.'' # c) = letters @ v @ CHR ''.'' # c"
      using assms(1) by (intro skip_space_spaces)
    moreover have "dropWhile isalpha (letters @ v @ CHR ''.'' # c) = v @ CHR ''.'' # c"
      using assms(2) no_letters by (rule dropWhile_boundary)
    ultimately show ?thesis using last_part by simp
  qed
qed

lemma scan_dotted_reads:
  assumes "dotted_word w" "token_begin (stream_token s) = w @ c"
    and "c = k @ r" "boundary r" "k = [] \<or> (\<exists>n. k = CHR ''_'' # n \<and> n \<noteq> [] \<and> list_all identifier_continue n \<and>
      (reads_as w ''.true.'' \<or> reads_as w ''.false.''))"
  shows "reads s (scan_dotted s (w @ c)) TOKEN_OPERATOR r"
proof -
  obtain u letters v where w: "w = ''.'' @ u @ letters @ v @ ''.''" "spaces u" "list_all isalpha letters" "spaces v"
    using assms(1) by (auto simp: dotted_word_def)
  have cursor: "skip_space (dropWhile isalpha (skip_space (drop 1 (w @ c)))) = CHR ''.'' # c"
    using dotted_cursor [OF w(2-4), of c] by (simp add: w(1))
  define t where "t = (stream_token s)\<lparr>kind := TOKEN_OPERATOR, token_length := length w\<rparr>"
  have spelling: "token_text t = w" using assms(2) by (simp add: token_text_def t_def)
  have logical: "token_logical_literal t \<noteq> 0 \<longleftrightarrow> reads_as w ''.true.'' \<or> reads_as w ''.false.''"
    using logical_literal_reads_as [of t] dotted_word_no_underscore [OF assms(1)] spelling by (simp add: t_def)
  define s1 where "s1 = (move_to s c)\<lparr>stream_token := t\<rparr>"
  have s1: "stream_token s1 = t" "stream_cursor s1 = c" "error_at s1 = error_at s" "kind t = TOKEN_OPERATOR"
    by (simp_all add: s1_def t_def move_to_def)
  have made: "(set_kind (move_to s c) TOKEN_OPERATOR)\<lparr>stream_token :=
      (stream_token (set_kind (move_to s c) TOKEN_OPERATOR))\<lparr>token_length := length (w @ c) - length c\<rparr>\<rparr> = s1"
    by (simp add: s1_def t_def set_kind_def move_to_def)
  have point: "peek (CHR ''.'' # c) = CHR ''.''" "drop 1 (CHR ''.'' # c) = c" by simp_all
  have scanned: "scan_dotted s (w @ c) =
      (if token_logical_literal t \<noteq> 0 \<and> peek c = CHR ''_''
       then move_to (if identifier_continue (peek (drop 1 c)) then s1
                     else set_error (set_kind s1 TOKEN_INVALID) c)
              (dropWhile identifier_continue (drop 1 c))
       else s1)"
    unfolding scan_dotted_def Let_def cursor if_P [OF point(1)] point(2) made s1(1) by (rule refl)
  show ?thesis
  proof (cases "k = []")
    case True
    then have "c = r" using assms(3) by simp
    then have "scan_dotted s (w @ c) = s1" using scanned boundary_peek(6) [OF assms(4)] by simp
    with \<open>c = r\<close> show ?thesis by (simp add: reads_def s1)
  next
    case False
    with assms(5) obtain n where n: "k = CHR ''_'' # n" "n \<noteq> []" "list_all identifier_continue n"
      "reads_as w ''.true.'' \<or> reads_as w ''.false.''" by blast
    have "dropWhile identifier_continue (n @ r) = r"
      using n(3) boundary_peek(3) [OF assms(4)] by (rule dropWhile_boundary)
    moreover have "identifier_continue (peek (n @ r))" using n(2,3) by (cases n) auto
    moreover have c: "c = CHR ''_'' # n @ r" using n(1) assms(3) by simp
    ultimately have "scan_dotted s (w @ c) = move_to s1 r"
      using logical n(4) by (subst scanned) simp
    then show ?thesis by (simp add: reads_def s1)
  qed
qed

section \<open>Every lexeme is scanned back\<close>

lemma scan_symbol_path:
  "w \<noteq> [] \<Longrightarrow> \<not> identifier_start (hd w) \<Longrightarrow> \<not> isdigit (hd w) \<Longrightarrow> hd w \<notin> quotes \<Longrightarrow>
   hd w \<noteq> CHR ''.'' \<or> \<not> isdigit (peek (tl w @ r)) \<Longrightarrow> scan_token s (w @ r) = scan_symbol s (w @ r)"
  by (cases w) (auto simp: scan_token_def Let_def is_one_of_quotes)

lemma symbol_characters:
  "\<not> identifier_start c \<and> \<not> isdigit c \<and> c \<notin> quotes \<and> c \<noteq> CHR ''.''"
  if "c \<in> set ''()[],:;%+-*/=<>~''"
  using that by (auto simp: char_class identifier_start_def)

lemma dotted_second:
  assumes "dotted_word w"
  shows "w \<noteq> [] \<and> hd w = CHR ''.'' \<and> \<not> isdigit (peek (tl w @ r))"
proof -
  obtain u letters v where w: "w = ''.'' @ u @ letters @ v @ ''.''" "spaces u" "list_all isalpha letters" "spaces v"
    using assms by (auto simp: dotted_word_def)
  then have "list_all (\<lambda>c. \<not> isdigit c) (u @ letters @ v @ ''.'')"
    by (auto simp: spaces_def list_all_iff char_class)
  then have "\<not> isdigit (peek ((u @ letters @ v @ ''.'') @ r))"
    by (cases "u @ letters @ v @ ''.''") auto
  with w(1) show ?thesis by simp
qed

lemma scan_dotted_path:
  assumes "w \<noteq> []" "hd w = CHR ''.''" "\<not> isdigit (peek (tl w @ r))"
  shows "scan_token s (w @ r) = scan_dotted s (w @ r)"
proof -
  have "scan_token s (w @ r) = scan_symbol s (w @ r)"
    using assms by (intro scan_symbol_path) (auto simp: char_class identifier_start_def)
  also have "\<dots> = scan_dotted s (w @ r)" using assms(1,2) by (cases w) (simp_all add: scan_symbol_def)
  finally show ?thesis .
qed

lemma number_path:
  assumes "isdigit (peek b) \<or> (peek b = CHR ''.'' \<and> isdigit (peek (drop 1 b)))"
  shows "scan_token s b = (case scan_kind_string s b of Some t \<Rightarrow> t | None \<Rightarrow> scan_number s b)"
  using assms by (auto simp: scan_token_def Let_def char_class identifier_start_def)

lemma scan_token_number:
  assumes "whole_part a" "exponent_part e" "number_suffix k" "fraction_part f (e @ k)" "boundary r"
    and "stream_cursor s = a @ f @ e @ k @ r"
  shows "reads s (scan_token s (a @ f @ e @ k @ r)) TOKEN_NUMBER r"
proof -
  define d where "d = f @ e @ k @ r"
  obtain ds where ds: "digits ds" "a = ds \<or> a = CHR ''.'' # ds"
    using assms(1) by (auto simp: whole_part_def)
  obtain x ds' where x: "ds = x # ds'" "isdigit x" using digits_first [OF ds(1)] by blast
  note tail = tail_peek [OF assms(2,3,5)]
  have d: "\<not> isdigit (peek d)"
    using tail assms(4) by (auto simp: d_def fraction_part_def char_class)
  have quote: "peek d \<noteq> CHR ''_'' \<or> peek (drop 1 d) \<notin> quotes"
  proof (rule ccontr)
    assume "\<not> ?thesis"
    then have "peek d = CHR ''_''" "peek (drop 1 d) \<in> quotes" by simp_all
    then have "f = []" "e = []"
      using assms(2,4) by (auto simp: d_def fraction_part_def exponent_part_def)
    with \<open>peek d = CHR ''_''\<close> assms(3) boundary_peek(6) [OF assms(5)] obtain n where
      "k = CHR ''_'' # n" "n \<noteq> []" "list_all identifier_continue n"
      by (auto simp: d_def number_suffix_def)
    with \<open>f = []\<close> \<open>e = []\<close> \<open>peek (drop 1 d) \<in> quotes\<close> identifier_no_quote show False
      by (cases n) (auto simp: d_def)
  qed
  have string: "scan_kind_string s (a @ d) = None"
    using ds(2)
  proof
    assume "a = ds"
    with digits_no_string [OF ds(1) d quote] show ?thesis by simp
  next
    assume "a = CHR ''.'' # ds"
    then show ?thesis
      by (simp add: scan_kind_string_def character_literal_quote_def is_one_of_def char_class
          identifier_start_def)
  qed
  have "scan_token s (a @ d) = scan_number s (a @ d)"
    using ds(2) x by (subst number_path) (auto simp: string)
  then show ?thesis using scan_number_reads [OF assms] by (simp add: d_def)
qed

lemma scan_token_string:
  assumes "literal_prefix p" "q \<in> quotes" "quoted q w" "boundary r" "stream_cursor s = p @ q # w @ r"
  shows "reads s (scan_token s (p @ q # w @ r)) TOKEN_STRING r"
proof (cases "p = []")
  case True
  have "\<not> identifier_start q" "\<not> isdigit q" "q \<noteq> CHR ''.''"
    using assms(2) by (auto simp: char_class identifier_start_def)
  then have "scan_token s (q # w @ r) = scan_string s (q # w @ r)"
    using assms(2) by (simp add: scan_token_def is_one_of_quotes)
  with True assms show ?thesis using scan_string_reads by simp
next
  case False
  from scan_kind_string_reads [OF assms(1) False assms(3,2,4), of s]
  obtain t where t: "scan_kind_string s (p @ q # w @ r) = Some t" "reads s t TOKEN_STRING r" by blast
  from assms(1) False have "identifier_start (hd p) \<or> isdigit (hd p)"
    by (auto simp: literal_prefix_def is_name_def dest!: digits_first)
  then have "scan_token s (p @ q # w @ r) = t"
    using t(1) False number_path [of "p @ q # w @ r" s]
    by (cases p) (auto simp: scan_token_def scan_word_def)
  with t(2) show ?thesis by simp
qed

lemma scan_token_hollerith:
  assumes "digits ds" "h \<in> set ''hH''" "decimal_value ds = length payload" "length payload \<le> SIZE_MAX"
    and "stream_cursor s = ds @ h # payload @ r"
  shows "reads s (scan_token s (ds @ h # payload @ r)) TOKEN_HOLLERITH r"
proof -
  obtain d ds' where d: "ds = d # ds'" "isdigit d" using digits_first [OF assms(1)] by blast
  have "scan_kind_string s (ds @ h # payload @ r) = None"
    using assms(1,2) by (intro digits_no_string) (auto simp: char_class)
  then show ?thesis
    using scan_number_hollerith [OF assms] d by (subst number_path) simp_all
qed

lemma scan_token_symbol:
  assumes "spelled k w" "boundary r" "k \<in> symbol_kinds"
  shows "reads s (scan_token s (w @ r)) k r"
proof -
  have "w \<noteq> [] \<and> hd w \<in> set ''()[],:;%/''" using assms(1,3) by cases auto
  then have "scan_token s (w @ r) = scan_symbol s (w @ r)"
    using symbol_characters [of "hd w"] by (intro scan_symbol_path) auto
  then show ?thesis using scan_symbol_reads [OF assms] by simp
qed

lemma scan_token_reads:
  assumes "spelled k w" "boundary r" "stream_cursor s = w @ r" "token_begin (stream_token s) = w @ r"
  shows "reads s (scan_token s (w @ r)) k r"
proof (cases "k \<in> symbol_kinds")
  case True
  with assms(1,2) show ?thesis by (rule scan_token_symbol)
next
  case False
  with assms(1) show ?thesis
proof cases
  case name
  then have "identifier_start (peek (w @ r))" by (rule_tac is_name_peek) simp
  then show ?thesis
    using scan_name [of w r s] name assms(2) by (simp add: scan_token_def)
next
  case (string p q v)
  with scan_token_string assms(2,3) show ?thesis by simp
next
  case (boz c q v)
  have "identifier_start c" using boz(3) by (rule boz_prefix_starts)
  with boz scan_boz_reads [of c q v s r] show ?thesis by (simp add: scan_token_def)
next
  case (hollerith ds h payload)
  with scan_token_hollerith [of ds h payload s r] assms(3) show ?thesis by simp
next
  case (number a e n f)
  with scan_token_number [of a e n f r s] assms(2,3) show ?thesis by simp
next
  case (operator_1 c)
  have "scan_token s (w @ r) = scan_symbol s (w @ r)"
    using operator_1 symbol_characters [of c] by (intro scan_symbol_path) auto
  with operator_1 scan_operator_reads [of w r s] assms(2) show ?thesis by auto
next
  case operator_2
  have "scan_token s (w @ r) = scan_symbol s (w @ r)"
    using operator_2 symbol_characters [of "hd w"]
    by (intro scan_symbol_path) (auto simp: two_character_operators_def)
  with operator_2 scan_operator_reads [of w r s] assms(2) show ?thesis by auto
next
  case dotted
  have "scan_token s (w @ r) = scan_dotted s (w @ r)"
    using dotted_second [of w r] dotted by (intro scan_dotted_path) simp_all
  with dotted scan_dotted_reads [of w s r "[]" r] assms(2,4) show ?thesis by simp
next
  case (logical v n)
  have w: "w @ r = v @ CHR ''_'' # n @ r" using logical(2) by simp
  have "scan_token s (v @ CHR ''_'' # n @ r) = scan_dotted s (v @ CHR ''_'' # n @ r)"
    using dotted_second [OF logical(3), of "CHR ''_'' # n @ r"] by (intro scan_dotted_path) blast+
  moreover have "reads s (scan_dotted s (v @ CHR ''_'' # n @ r)) TOKEN_OPERATOR r"
    using logical(3) assms(4) [unfolded w] _ assms(2)
  proof (rule scan_dotted_reads)
    show "CHR ''_'' # n @ r = (CHR ''_'' # n) @ r" by simp
  qed (use logical(4-6) in blast)
  ultimately show ?thesis using logical(1) by (simp only: w)
qed simp_all
qed

section \<open>A written line is read back\<close>

text \<open>The lexemes \<open>ls\<close> in order, each after any white space and before white space or the end; at
  most white space and a comment after the last one.\<close>

primrec written :: "(token_kind \<times> string) list \<Rightarrow> string \<Rightarrow> bool" where
  "written [] s \<longleftrightarrow> line_end (skip_space s)"
| "written (l # ls) s \<longleftrightarrow>
     (\<exists>gap rest. spaces gap \<and> s = gap @ snd l @ rest \<and> boundary rest \<and> written ls rest)"

lemma writtenI:
  "spaces gap \<Longrightarrow> s = gap @ w @ rest \<Longrightarrow> boundary rest \<Longrightarrow> written ls rest \<Longrightarrow> written ((k, w) # ls) s"
  by auto

lemma spelled_first:
  assumes "spelled k w"
  shows "w \<noteq> [] \<and> \<not> isspace (hd w) \<and> hd w \<noteq> CHR ''!'' \<and> hd w \<noteq> NUL"
proof -
  have graphic: "\<not> isspace c \<and> c \<noteq> CHR ''!'' \<and> c \<noteq> NUL" if "identifier_start c \<or> isdigit c \<or> c \<in> quotes \<or>
      c \<in> set ''()[],:;%+-*/=<>~.''" for c
    using that by (auto simp: char_class identifier_start_def)
  have "w \<noteq> [] \<and> (identifier_start (hd w) \<or> isdigit (hd w) \<or> hd w \<in> quotes \<or>
      hd w \<in> set ''()[],:;%+-*/=<>~.'')"
    using assms
  proof cases
    case name
    then show ?thesis by (simp add: is_name_def)
  next
    case (string p q v)
    then show ?thesis
      by (cases p) (auto simp: literal_prefix_def is_name_def dest!: digits_first)
  next
    case (boz c q v)
    then show ?thesis using boz_prefix_starts by simp
  next
    case (number a e s f)
    then show ?thesis by (auto simp: whole_part_def dest!: digits_first)
  next
    case operator_2
    then show ?thesis by (auto simp: two_character_operators_def)
  next
    case dotted
    then show ?thesis by (auto simp: dotted_word_def)
  next
    case (logical v n)
    then show ?thesis by (auto simp: dotted_word_def)
  qed (auto dest!: digits_first)
  with graphic [of "hd w"] show ?thesis by blast
qed

lemma next_reads:
  assumes "spelled k w" "boundary rest" "stream_cursor s = gap @ w @ rest" "spaces gap"
  shows "kind (stream_token (token_stream_next s)) = k" "stream_cursor (token_stream_next s) = rest"
    "error_at (token_stream_next s) = error_at s" "token_text (stream_token (token_stream_next s)) = w"
proof -
  note first = spelled_first [OF assms(1)]
  have "\<not> isspace (peek (w @ rest))" using first by (cases w) simp_all
  with assms(4) have b: "skip_space (stream_cursor s) = w @ rest"
    unfolding assms(3) by (rule skip_space_spaces)
  have more: "\<not> line_end (w @ rest)" using first by (cases w) (auto simp: line_end_def)
  have "reads (start_token s) (scan_token (start_token s) (w @ rest)) k rest"
    using assms(1,2) by (rule scan_token_reads) (simp_all add: b)
  moreover have "token_stream_next s = finish_token (scan_token (start_token s) (w @ rest)) (w @ rest)"
    using more by (simp add: token_stream_next_def Let_def b line_end_def)
  ultimately show "kind (stream_token (token_stream_next s)) = k"
    "stream_cursor (token_stream_next s) = rest" "error_at (token_stream_next s) = error_at s"
    by (simp_all add: reads_def)
  from more obtain v where v: "w @ rest = v @ stream_cursor (token_stream_next s)"
    "token_begin (stream_token (token_stream_next s)) = w @ rest"
    "token_length (stream_token (token_stream_next s)) = length v"
    using next_in_line [OF b [symmetric] more] by metis
  then show "token_text (stream_token (token_stream_next s)) = w"
    using \<open>stream_cursor (token_stream_next s) = rest\<close> by (simp add: token_text_def)
qed

lemma tokenize_from_written:
  assumes "written ls (stream_cursor s)" "list_all (\<lambda>(k, w). spelled k w) ls" "unlimited c"
    and "length (line_tokens l) + length (stream_cursor s) \<le> SIZE_MAX div 288"
  shows "\<exists>c' ts. tokenize_from c l n s = (True, c', l\<lparr>line_tokens := line_tokens l @ ts\<rparr>) \<and>
    map (\<lambda>t. (kind t, token_text t)) ts = ls \<and> token_reports c' = token_reports c"
  using assms
proof (induction ls arbitrary: c l n s)
  case Nil
  then have "kind (stream_token (token_stream_next s)) = TOKEN_END" by (simp add: next_end_iff)
  then have "tokenize_from c l n s = (True, c, l)" by (subst tokenize_from.simps) simp
  then show ?case by (intro exI [of _ c] exI [of _ "[]"]) simp
next
  case (Cons x ls)
  obtain k w where x: "x = (k, w)" by fastforce
  with Cons.prems(1,2) obtain gap rest where s: "spaces gap" "stream_cursor s = gap @ w @ rest"
    "boundary rest" "written ls rest" "spelled k w" by auto
  define r where "r = token_stream_next s"
  define t where "t = locate_token l (stream_token r)"
  note read = next_reads [OF s(5,3,2,1), folded r_def]
  have k: "k \<noteq> TOKEN_END" "k \<noteq> TOKEN_INVALID" using s(5) spelled_end spelled_invalid by auto
  have "w \<noteq> []" using spelled_first [OF s(5)] by simp
  have room: "length (line_tokens l) + (length gap + (length w + length rest)) \<le> SIZE_MAX div 288"
    using Cons.prems(4) s(2) by simp
  then have "length (line_tokens l) \<le> SIZE_MAX div 288" by simp
  from push_token_succeeds [OF Cons.prems(3) this, of n t]
  obtain c1 n1 where push: "push_token c l n t = (True, c1, l\<lparr>line_tokens := line_tokens l @ [t]\<rparr>, n1)"
    "unlimited c1" by blast
  have same: "kind t = k" using read(1) by (simp add: t_def)
  have "\<exists>c' ts. tokenize_from c1 (l\<lparr>line_tokens := line_tokens l @ [t]\<rparr>) n1 (r\<lparr>stream_token := t\<rparr>) =
      (True, c', (l\<lparr>line_tokens := line_tokens l @ [t]\<rparr>)\<lparr>line_tokens :=
        line_tokens (l\<lparr>line_tokens := line_tokens l @ [t]\<rparr>) @ ts\<rparr>) \<and>
      map (\<lambda>t. (kind t, token_text t)) ts = ls \<and> token_reports c' = token_reports c1"
    using Cons.prems(2) s(4) push(2) room \<open>w \<noteq> []\<close> read(2)
    by (intro Cons.IH) (auto simp: Suc_le_eq neq_Nil_conv)
  then obtain c' ts where rest: "tokenize_from c1 (l\<lparr>line_tokens := line_tokens l @ [t]\<rparr>) n1
      (r\<lparr>stream_token := t\<rparr>) = (True, c', l\<lparr>line_tokens := line_tokens l @ t # ts\<rparr>)"
      "map (\<lambda>t. (kind t, token_text t)) ts = ls" "token_reports c' = token_reports c1"
    by auto
  have "tokenize_from c l n s = (True, c', l\<lparr>line_tokens := line_tokens l @ t # ts\<rparr>)"
    using k read(1) push(1) rest(1) same
    by (subst tokenize_from.simps) (simp add: r_def [symmetric] t_def [symmetric])
  moreover have "map (\<lambda>t. (kind t, token_text t)) (t # ts) = x # ls"
    using read rest(2) by (simp add: x t_def)
  ultimately show ?case
    using rest(3) push_token_True(2) [OF push(1)] by (intro exI [of _ c'] exI [of _ "t # ts"]) simp
qed

text \<open>
  C2: tokenization reads back what is written. With memory and no token limit, a line that consists
  of lexemes of the grammar, each followed by white space or by the end of the line, and that ends
  in at most white space and a comment, is tokenized into tokens with exactly the kinds and the
  texts of these lexemes, in their order, and nothing is reported.
\<close>

theorem written_line_tokenizes:
  assumes "unlimited c" "length (line_text l) \<le> SIZE_MAX div 288"
    and "list_all (\<lambda>(k, w). spelled k w) ls" "written ls (line_text l)"
  shows "\<exists>c' ts. tokenize_line c l = (True, c', l\<lparr>line_tokens := ts\<rparr>) \<and>
    map (\<lambda>t. (kind t, token_text t)) ts = ls \<and> token_reports c' = token_reports c"
  unfolding tokenize_line_def Let_def
  using tokenize_from_written [of ls "token_stream_init (Some (line_text l)) (line_number l) 1" c
      "l\<lparr>line_tokens := []\<rparr>" 0] assms
  by simp

text \<open>The line \<open>x .eq. 4ha'b! ! c\<close>, with a comment after the last lexeme.\<close>

lemma written_line_tokenizes_witness:
  "\<exists>c' ts. tokenize_line example_context (example_line ''x .eq. 4ha'b! ! c'') =
      (True, c', (example_line ''x .eq. 4ha'b! ! c'')\<lparr>line_tokens := ts\<rparr>) \<and>
    map (\<lambda>t. (kind t, token_text t)) ts =
      [(TOKEN_IDENTIFIER, ''x''), (TOKEN_OPERATOR, ''.eq.''), (TOKEN_HOLLERITH, ''4ha'b!'')] \<and>
    token_reports c' = token_reports example_context"
proof (rule written_line_tokenizes)
  show "unlimited example_context" by (simp add: unlimited_def example_context_def)
  show "length (line_text (example_line ''x .eq. 4ha'b! ! c'')) \<le> SIZE_MAX div 288"
    by (simp add: example_line_def)
  have "spelled TOKEN_IDENTIFIER ''x''"
    by (rule spelled.name) (simp add: is_name_def identifier_start_def identifier_continue_def char_class)
  moreover have "dotted_word ''.eq.''"
    unfolding dotted_word_def
    by (rule exI [of _ "[]"], rule exI [of _ "''eq''"], rule exI [of _ "[]"])
      (simp add: spaces_def char_class)
  then have "spelled TOKEN_OPERATOR ''.eq.''" by (rule spelled.dotted)
  moreover have "spelled TOKEN_HOLLERITH (''4'' @ CHR ''h'' # ''a'b!'')"
    by (rule spelled.hollerith) (simp_all add: digits_def decimal_value_def char_class)
  ultimately show "list_all (\<lambda>(k, w). spelled k w)
      [(TOKEN_IDENTIFIER, ''x''), (TOKEN_OPERATOR, ''.eq.''), (TOKEN_HOLLERITH, ''4ha'b!'')]"
    by simp
  have blank: "isspace CHR '' ''" by (simp add: char_class)
  have "written [] '' ! c''" by (simp add: line_end_def blank) (simp add: char_class)
  then have "written [(TOKEN_HOLLERITH, ''4ha'b!'')] '' 4ha'b! ! c''"
    by (rule_tac writtenI [of "'' ''" _ _ "'' ! c''"]) (simp_all add: spaces_def boundary_def blank)
  then have "written [(TOKEN_OPERATOR, ''.eq.''), (TOKEN_HOLLERITH, ''4ha'b!'')] '' .eq. 4ha'b! ! c''"
    by (rule_tac writtenI [of "'' ''" _ _ "'' 4ha'b! ! c''"]) (simp_all add: spaces_def boundary_def blank)
  then have "written [(TOKEN_IDENTIFIER, ''x''), (TOKEN_OPERATOR, ''.eq.''), (TOKEN_HOLLERITH, ''4ha'b!'')]
      ''x .eq. 4ha'b! ! c''"
    by (rule_tac writtenI [of "[]" _ _ "'' .eq. 4ha'b! ! c''"]) (simp_all add: spaces_def boundary_def blank)
  then show "written [(TOKEN_IDENTIFIER, ''x''), (TOKEN_OPERATOR, ''.eq.''), (TOKEN_HOLLERITH, ''4ha'b!'')]
      (line_text (example_line ''x .eq. 4ha'b! ! c''))"
    by (simp add: example_line_def)
qed

section \<open>A point before the exponent letter \<open>q\<close>\<close>

text \<open>The scanner takes \<open>1.0q0\<close> as one number, and \<open>1q0\<close> too, but not \<open>1.q0\<close>:
  \<open>valid_real_fraction\<close> does not know the exponent letter, so the number ends before the point and
  what follows is an invalid token.\<close>

lemma quad_exponent_after_digit:
  "kind (stream_token (token_stream_next (token_stream_init (Some ''1.0q0'') 1 1))) = TOKEN_NUMBER \<and>
   stream_cursor (token_stream_next (token_stream_init (Some ''1.0q0'') 1 1)) = []"
  by code_simp

lemma quad_exponent_after_point:
  "kind (stream_token (token_stream_next (token_stream_init (Some ''1.q0'') 1 1))) = TOKEN_NUMBER \<and>
   stream_cursor (token_stream_next (token_stream_init (Some ''1.q0'') 1 1)) = ''.q0'' \<and>
   kind (stream_token (token_stream_next (token_stream_next (token_stream_init (Some ''1.q0'') 1 1))))
     = TOKEN_INVALID"
  by code_simp

end
