(* ===== verification/Token_Operator.thy ===== *)
theory Token_Operator
  imports Lexer_Complete
begin

text \<open>
  The operators that operator tokens denote (\<open>frontend/operator.c\<close>) and the payload of Hollerith
  tokens (the end of \<open>frontend/lexer.c\<close>): these read the tokens the scanner made.
\<close>

section \<open>Operators\<close>

datatype operator_kind =
  OPERATOR_NONE | OPERATOR_DEFINED | OPERATOR_ADD | OPERATOR_SUBTRACT | OPERATOR_MULTIPLY
| OPERATOR_DIVIDE | OPERATOR_POWER | OPERATOR_CONCATENATE | OPERATOR_EQUAL | OPERATOR_NOT_EQUAL
| OPERATOR_LESS | OPERATOR_LESS_EQUAL | OPERATOR_GREATER | OPERATOR_GREATER_EQUAL | OPERATOR_NOT
| OPERATOR_AND | OPERATOR_OR | OPERATOR_EQUIVALENT | OPERATOR_NOT_EQUIVALENT

definition spellings :: "(string \<times> operator_kind) list" where
  "spellings =
     [(''+'', OPERATOR_ADD), (''-'', OPERATOR_SUBTRACT), (''*'', OPERATOR_MULTIPLY),
      (''/'', OPERATOR_DIVIDE), (''**'', OPERATOR_POWER), (''//'', OPERATOR_CONCATENATE),
      (''=='', OPERATOR_EQUAL), (''.eq.'', OPERATOR_EQUAL),
      (''/='', OPERATOR_NOT_EQUAL), (''.ne.'', OPERATOR_NOT_EQUAL),
      (''<'', OPERATOR_LESS), (''.lt.'', OPERATOR_LESS),
      (''<='', OPERATOR_LESS_EQUAL), (''.le.'', OPERATOR_LESS_EQUAL),
      (''>'', OPERATOR_GREATER), (''.gt.'', OPERATOR_GREATER),
      (''>='', OPERATOR_GREATER_EQUAL), (''.ge.'', OPERATOR_GREATER_EQUAL),
      (''.not.'', OPERATOR_NOT), (''.and.'', OPERATOR_AND), (''.or.'', OPERATOR_OR),
      (''.eqv.'', OPERATOR_EQUIVALENT), (''.neqv.'', OPERATOR_NOT_EQUIVALENT)]"

text \<open>The loop over the characters between the points: whether it gets to the end, and the letters
  it has counted.\<close>

fun count_letters :: "nat \<Rightarrow> string \<Rightarrow> nat option" where
  "count_letters letters [] = Some letters"
| "count_letters letters (c # cs) =
     (if isspace c then count_letters letters cs
      else if \<not> isalpha c \<or> 63 < letters + 1 then None
      else count_letters (letters + 1) cs)"

definition token_operator :: "token \<Rightarrow> operator_kind" where
  "token_operator t =
     (if kind t \<noteq> TOKEN_OPERATOR then OPERATOR_NONE
      else case List.find (\<lambda>s. token_equals t (fst s)) spellings of
          Some s \<Rightarrow> snd s
        | None \<Rightarrow>
            let w = token_text t; n = token_length t in
            if token_logical_literal t \<noteq> 0 \<or> n < 3 \<or> w ! 0 \<noteq> CHR ''.'' \<or> w ! (n - 1) \<noteq> CHR ''.''
            then OPERATOR_NONE
            else case count_letters 0 (take (n - 2) (drop 1 w)) of
                None \<Rightarrow> OPERATOR_NONE
              | Some letters \<Rightarrow> if letters \<noteq> 0 then OPERATOR_DEFINED else OPERATOR_NONE)"

fun operator_precedence :: "operator_kind \<Rightarrow> nat" where
  "operator_precedence OPERATOR_DEFINED = 1"
| "operator_precedence OPERATOR_EQUIVALENT = 2"
| "operator_precedence OPERATOR_NOT_EQUIVALENT = 2"
| "operator_precedence OPERATOR_OR = 3"
| "operator_precedence OPERATOR_AND = 4"
| "operator_precedence OPERATOR_EQUAL = 5"
| "operator_precedence OPERATOR_NOT_EQUAL = 5"
| "operator_precedence OPERATOR_LESS = 5"
| "operator_precedence OPERATOR_LESS_EQUAL = 5"
| "operator_precedence OPERATOR_GREATER = 5"
| "operator_precedence OPERATOR_GREATER_EQUAL = 5"
| "operator_precedence OPERATOR_CONCATENATE = 6"
| "operator_precedence OPERATOR_ADD = 7"
| "operator_precedence OPERATOR_SUBTRACT = 7"
| "operator_precedence OPERATOR_MULTIPLY = 8"
| "operator_precedence OPERATOR_DIVIDE = 8"
| "operator_precedence OPERATOR_POWER = 9"
| "operator_precedence k = 0"

text \<open>The comparisons of enumeration values are membership in the range of constructors.\<close>

definition operator_is_comparison :: "operator_kind \<Rightarrow> bool" where
  "operator_is_comparison k \<longleftrightarrow>
     k \<in> {OPERATOR_EQUAL, OPERATOR_NOT_EQUAL, OPERATOR_LESS, OPERATOR_LESS_EQUAL,
          OPERATOR_GREATER, OPERATOR_GREATER_EQUAL}"

definition operator_is_numeric :: "operator_kind \<Rightarrow> bool" where
  "operator_is_numeric k \<longleftrightarrow>
     k \<in> {OPERATOR_ADD, OPERATOR_SUBTRACT, OPERATOR_MULTIPLY, OPERATOR_DIVIDE, OPERATOR_POWER}"

fun operator_c_spelling :: "operator_kind \<Rightarrow> string option" where
  "operator_c_spelling OPERATOR_ADD = Some ''+''"
| "operator_c_spelling OPERATOR_SUBTRACT = Some ''-''"
| "operator_c_spelling OPERATOR_MULTIPLY = Some ''*''"
| "operator_c_spelling OPERATOR_DIVIDE = Some ''/''"
| "operator_c_spelling OPERATOR_EQUAL = Some ''==''"
| "operator_c_spelling OPERATOR_EQUIVALENT = Some ''==''"
| "operator_c_spelling OPERATOR_NOT_EQUAL = Some ''!=''"
| "operator_c_spelling OPERATOR_NOT_EQUIVALENT = Some ''!=''"
| "operator_c_spelling OPERATOR_LESS = Some ''<''"
| "operator_c_spelling OPERATOR_LESS_EQUAL = Some ''<=''"
| "operator_c_spelling OPERATOR_GREATER = Some ''>''"
| "operator_c_spelling OPERATOR_GREATER_EQUAL = Some ''>=''"
| "operator_c_spelling OPERATOR_NOT = Some ''!''"
| "operator_c_spelling OPERATOR_AND = Some ''&&''"
| "operator_c_spelling OPERATOR_OR = Some ''||''"
| "operator_c_spelling k = None"

section \<open>Hollerith payloads\<close>

text \<open>The digit loop of \<open>f2c_hollerith_payload\<close>; \<open>ULLONG_MAX\<close> is \<^term>\<open>SIZE_MAX\<close>.\<close>

fun payload_count :: "nat \<Rightarrow> cptr \<Rightarrow> (nat \<times> cptr) option" where
  "payload_count n [] = Some (n, [])"
| "payload_count n (c # cursor) =
     (if isdigit c
      then if (SIZE_MAX - (ascii c - 48)) div 10 < n then None
           else payload_count (n * 10 + (ascii c - 48)) cursor
      else Some (n, c # cursor))"

definition hollerith_payload :: "cptr option \<Rightarrow> (cptr \<times> nat) option" where
  "hollerith_payload ptr =
     (case ptr of None \<Rightarrow> None | Some cursor \<Rightarrow>
        if \<not> isdigit (peek cursor) then None
        else case payload_count 0 cursor of
            None \<Rightarrow> None
          | Some (n, cursor) \<Rightarrow>
              if \<not> is_one_of (peek cursor) ''hH'' \<or> SIZE_MAX < n \<or> length (drop 1 cursor) < n
              then None else Some (drop 1 cursor, n))"

section \<open>The operators of the grammar\<close>

text \<open>Operators are compared without regard to blanks and letter case, like the scanner's literals.\<close>

lemma spellings_have_no_blank: "s \<in> set spellings \<Longrightarrow> list_all (\<lambda>c. \<not> isspace c) (fst s)"
  by (auto simp: spellings_def char_class)

lemma find_spelling:
  "List.find (\<lambda>s. token_equals t (fst s)) spellings =
   List.find (\<lambda>s. reads_as (token_text t) (fst s)) spellings"
proof (rule find_cong)
  show "token_equals t (fst s) = reads_as (token_text t) (fst s)" if "s \<in> set spellings" for s
    using token_equals_from_reads_as [OF spellings_have_no_blank [OF that]] by (simp add: token_equals_def)
qed (rule refl)

lemma token_operator_predefined:
  assumes "kind t = TOKEN_OPERATOR" "List.find (\<lambda>s. reads_as (token_text t) (fst s)) spellings = Some (w, k)"
  shows "token_operator t = k"
  using assms by (simp add: token_operator_def find_spelling)

lemma count_letters_word:
  "list_all isalpha letters \<Longrightarrow> spaces v \<Longrightarrow> n + length letters \<le> 63 \<Longrightarrow>
   count_letters n (letters @ v) = Some (n + length letters)"
proof (induction letters arbitrary: n)
  case Nil
  then show ?case by (induction v) (auto simp: spaces_def)
next
  case (Cons c letters)
  then have "\<not> isspace c" by (auto simp: char_class)
  with Cons show ?case by simp
qed

lemma count_letters_spaces: "spaces u \<Longrightarrow> count_letters n (u @ w) = count_letters n w"
  by (induction u) (auto simp: spaces_def)

text \<open>Any other dotted word of one to sixty-three letters is a defined operator.\<close>

lemma token_operator_defined:
  assumes "kind t = TOKEN_OPERATOR" "token_text t = ''.'' @ u @ letters @ v @ ''.''"
    and "spaces u" "list_all isalpha letters" "spaces v" "letters \<noteq> []" "length letters \<le> 63"
    and "List.find (\<lambda>s. reads_as (token_text t) (fst s)) spellings = None"
    and "\<not> reads_as (token_text t) ''.true.''" "\<not> reads_as (token_text t) ''.false.''"
    and "token_length t = length (token_text t)"
  shows "token_operator t = OPERATOR_DEFINED"
proof -
  have "dotted_word (token_text t)" using assms(2-5) by (auto simp: dotted_word_def)
  then have "token_logical_literal t = 0"
    using logical_literal_reads_as [OF assms(1)] dotted_word_no_underscore assms(9,10) by simp
  moreover have "count_letters 0 (u @ letters @ v) = Some (length letters)"
    using count_letters_spaces [OF assms(3)] count_letters_word [OF assms(4,5), of 0] assms(7) by simp
  moreover have "take (length (token_text t) - 2) (drop 1 (token_text t)) = u @ letters @ v"
    by (simp add: assms(2))
  moreover have "token_text t ! (length (token_text t) - 1) = CHR ''.''" "token_text t ! 0 = CHR ''.''"
    by (simp_all add: assms(2) nth_append)
  moreover have "\<not> length (token_text t) < 3" using assms(6) by (simp add: assms(2))
  ultimately show ?thesis
    using assms(1,6,8,11) by (simp add: token_operator_def find_spelling)
qed

end
