(* ===== verification/Source_Lines.thy ===== *)
theory Source_Lines
  imports Preprocess_Buffer Token_Operator
begin

text \<open>
  From preprocessed text to the lines of statements (\<open>frontend/source.c\<close> and
  \<open>f2c_lines_push_mapped\<close> of \<open>core/support.c\<close>): physical lines of fixed or free form are stripped of
  comments, joined where they are continued, lowered outside literals, and split at semicolons; every
  line carries the part of the source map that its characters come from.

  \<^item> A text that the code modifies in place is a function's result. The column array of a fixed-form
    line stands beside its characters, in pairs.
  \<^item> \<open>normalizer\<close> holds what the code reads and writes of the context: the fields the preprocessor
    shares, the lines pushed so far with their capacity and limit, and the source name of the options.
    \<open>sizeof(Line)\<close> is 72 bytes. The flags of a line that later stages set are left out.
  \<^item> A failing function yields \<^const>\<open>Inl\<close> with the context it leaves.
\<close>

section \<open>State\<close>

record normalizer =
  shared :: preprocessor
  pushed_lines :: "line list"
  line_capacity :: nat
  max_logical_lines :: nat
  option_source_name :: "string option"

record source_buffer =
  logical_text :: buffer
  logical_map :: source_map
  logical_source_name :: "string option"

text \<open>\<open>F2cPreprocessedSource\<close>\<close>

type_synonym preprocessed_source = "string \<times> source_map"

definition source_buffer_discard :: source_buffer where
  "source_buffer_discard =
     \<lparr>logical_text = empty_buffer, logical_map = empty_map, logical_source_name = None\<rparr>"

text \<open>\<open>source_buffer_append_mapped\<close>; the callers pass a source.\<close>

definition append_mapped ::
  "(nat \<Rightarrow> bool) \<Rightarrow> source_buffer \<Rightarrow> string \<Rightarrow> preprocessed_source \<Rightarrow> nat \<Rightarrow> nat \<Rightarrow> nat \<Rightarrow> source_buffer option" where
  "append_mapped mem l s source source_begin ln column =
     (if s = [] then Some l
      else
        let begin_at = length (buffer_text (logical_text l));
            l = l\<lparr>logical_text := buffer_append mem (logical_text l) s\<rparr>
        in if buffer_failed (logical_text l) then None
           else case (if segments (snd source) \<noteq> []
                      then source_map_append_slice mem (logical_map l) begin_at (segments (snd source)) source_begin (length s)
                      else let at = \<lparr>position_source = logical_source_name l, position_line = ln, position_column = column\<rparr>
                        in source_map_append mem (logical_map l) begin_at (length s) at (length s) 1 at (length s) 1 False) of
                  (False, _) \<Rightarrow> None
                | (True, m) \<Rightarrow> Some (l\<lparr>logical_map := m\<rparr>))"

definition append_separator ::
  "(nat \<Rightarrow> bool) \<Rightarrow> source_buffer \<Rightarrow> preprocessed_source \<Rightarrow> nat \<Rightarrow> nat \<Rightarrow> nat \<Rightarrow> source_buffer option" where
  "append_separator mem l source source_offset ln column =
     (if buffer_text (logical_text l) = [] then Some l
      else append_mapped mem l '' '' source source_offset ln (if 1 < column then column - 1 else column))"

section \<open>Tokens of a line\<close>

definition lowercase :: "string \<Rightarrow> string" where
  "lowercase s = map tolower s"

text \<open>The text at the pointer \<open>start_at\<close> up to the pointer \<open>after\<close> in the same text.\<close>

definition span_text :: "cptr \<Rightarrow> cptr \<Rightarrow> string" where
  "span_text start_at after = take (length start_at - length after) start_at"

text \<open>What \<open>normalize_code_case\<close> leaves of a token: a literal keeps its characters.\<close>

definition normalize_token :: "token \<Rightarrow> string" where
  "normalize_token t =
     (let start_at = token_begin t; after = drop (token_length t) start_at;
          protected =
            (if kind t = TOKEN_STRING then character_literal_quote (Some start_at)
             else if kind t = TOKEN_HOLLERITH then map_option fst (hollerith_payload (Some start_at))
             else None)
      in case protected of
           Some payload \<Rightarrow>
             if length after < length payload
             then let payload = (if kind t = TOKEN_STRING then drop 1 payload else payload)
               in lowercase (span_text start_at payload) @ span_text payload after
             else lowercase (token_text t)
         | None \<Rightarrow> lowercase (token_text t))"

function normalize_case_from :: "token_stream \<Rightarrow> string" where
  "normalize_case_from s =
     (let start_at = stream_cursor s; s = token_stream_next s; t = stream_token s;
          gap = lowercase (span_text start_at (token_begin t))
      in if kind t = TOKEN_END then gap @ token_begin t
         else gap @ normalize_token t @ normalize_case_from s)"
  by auto
termination
  by (relation "measure (\<lambda>s. length (stream_cursor s))") (auto dest: next_advances)

declare normalize_case_from.simps [simp del]

definition normalize_code_case :: "string \<Rightarrow> string" where
  "normalize_code_case s = normalize_case_from (token_stream_init (Some s) 1 1)"

text \<open>The pointer at which the scanner stops.\<close>

function tokens_end :: "token_stream \<Rightarrow> cptr" where
  "tokens_end s =
     (let s = token_stream_next s
      in if kind (stream_token s) = TOKEN_END then token_begin (stream_token s) else tokens_end s)"
  by auto
termination
  by (relation "measure (\<lambda>s. length (stream_cursor s))") (auto dest: next_advances)

declare tokens_end.simps [simp del]

definition strip_comment :: "string \<Rightarrow> string" where
  "strip_comment s =
     (let at = tokens_end (token_stream_init (Some s) 1 1)
      in if peek at = CHR ''!'' then span_text s at else s)"

text \<open>
  The loop of \<open>trailing_free_continuation\<close>: whether the last character, an ampersand, continues the
  line, and whether it does so inside a character literal.
\<close>

function free_continuation_from :: "token_stream \<Rightarrow> bool \<times> bool" where
  "free_continuation_from s =
     (let s = token_stream_next s; t = stream_token s; after = drop (token_length t) (token_begin t)
      in if kind t = TOKEN_END then (True, False)
         else if token_begin t = [] \<or> after \<noteq> [] then free_continuation_from s
         else if kind t = TOKEN_STRING \<or> kind t = TOKEN_HOLLERITH then (False, False)
         else (True, kind t = TOKEN_INVALID \<and> character_literal_quote (Some (token_begin t)) \<noteq> None))"
  by auto
termination
  by (relation "measure (\<lambda>s. length (stream_cursor s))") (auto dest: next_advances)

declare free_continuation_from.simps [simp del]

definition trailing_free_continuation :: "string \<Rightarrow> bool \<times> bool" where
  "trailing_free_continuation s =
     (if s = [] \<or> last s \<noteq> CHR ''&'' then (False, False)
      else free_continuation_from (token_stream_init (Some s) 1 1))"

section \<open>Blanks in the numbers of fixed form\<close>

text \<open>The characters of a line with their columns; \<open>pair_peek\<close> reads the NUL at the end.\<close>

definition pair_peek :: "(char \<times> nat) list \<Rightarrow> char" where
  "pair_peek s = (if s = [] then NUL else fst (hd s))"

definition pair_skip :: "(char \<times> nat) list \<Rightarrow> (char \<times> nat) list" where
  "pair_skip s = dropWhile (isspace \<circ> fst) s"

text \<open>Whether an exponent begins at a place: the letter, a sign, and a digit, with blanks between.\<close>

definition exponent_at :: "(char \<times> nat) list \<Rightarrow> bool" where
  "exponent_at s \<longleftrightarrow>
     pair_peek s \<in> set ''eEdD'' \<and>
     (let digits = pair_skip (tl s);
          digits = (if pair_peek digits \<in> set ''+-'' then pair_skip (tl digits) else digits)
      in isdigit (pair_peek digits))"

lemma pair_skip_length: "length (pair_skip s) < Suc (length s)"
  using length_dropWhile_le [of "isspace \<circ> fst" s] by (simp add: pair_skip_def less_Suc_eq_le)

text \<open>
  \<open>normalize_fixed_numeric_blanks\<close>; \<open>quote\<close> is the open quote or NUL, and \<open>digit_before\<close> says whether
  the character before is a digit. The blanks between a point and its exponent are removed.
\<close>

function numeric_blanks :: "char \<Rightarrow> bool \<Rightarrow> (char \<times> nat) list \<Rightarrow> (char \<times> nat) list" where
  "numeric_blanks quote digit_before [] = []"
| "numeric_blanks quote digit_before ((c, k) # s) =
     (if is_quote c \<and> (quote = NUL \<or> quote = c) then
        (if quote \<noteq> NUL \<and> pair_peek s = c \<and> s \<noteq> [] then (c, k) # hd s # numeric_blanks quote False (tl s)
         else (c, k) # numeric_blanks (if quote = NUL then c else NUL) False s)
      else if quote = NUL \<and> c = CHR ''.'' \<and> digit_before then
        (c, k) # numeric_blanks quote False (if exponent_at (pair_skip s) then pair_skip s else s)
      else (c, k) # numeric_blanks quote (isdigit c) s)"
  by pat_completeness auto
termination
  by (relation "measure (\<lambda>(quote, digit_before, s). length s)") (auto simp: pair_skip_length)

section \<open>Statements\<close>

definition own_source_name :: "normalizer \<Rightarrow> string" where
  "own_source_name c = (case option_source_name c of Some name \<Rightarrow> name | None \<Rightarrow> ''<input>'')"

text \<open>\<open>f2c_lines_push_mapped\<close>\<close>

definition push_mapped_line :: "normalizer \<Rightarrow> string \<Rightarrow> nat \<Rightarrow> segment list \<Rightarrow> normalizer + normalizer" where
  "push_mapped_line c s number map_items =
     (if max_logical_lines c \<noteq> 0 \<and> max_logical_lines c \<le> length (pushed_lines c) then
        Inl (c\<lparr>shared := (shared c)\<lparr>diagnostics := diagnostics (shared c) @
          [\<lparr>report_code = DIAGNOSTIC_RESOURCE_LIMIT, report_source = own_source_name c, report_line = number,
            report_begin_column = 1, report_end_column = 1,
            report_message = ''logical-line limit of '' @ decimal_text (max_logical_lines c) @ '' exceeded''\<rparr>]\<rparr>\<rparr>)
      else
        let full = (length (pushed_lines c) = line_capacity c);
            capacity = (if \<not> full then line_capacity c
                        else if line_capacity c = 0 then 32 else size_mul (line_capacity c) 2)
        in if full \<and> \<not> memory (shared c) (size_mul capacity 72) then Inl c
           else
             let c = c\<lparr>line_capacity := capacity\<rparr>;
                 with_line = (\<lambda>name p. c\<lparr>shared := p, pushed_lines := pushed_lines c @
                   [\<lparr>line_text = s, line_source_name = Some name, line_number = number,
                     line_tokens = [], line_source_map = map_items\<rparr>]\<rparr>)
             in case (if map_items = [] then None else position_source (expansion (hd map_items))) of
                  Some name \<Rightarrow> Inr (with_line name (shared c))
                | None \<Rightarrow>
                    (case context_source_name (shared c) (own_source_name c) of
                       None \<Rightarrow> Inl c
                     | Some p \<Rightarrow> Inr (with_line (own_source_name c) p)))"

text \<open>
  The loop of \<open>push_logical_statements\<close>: a semicolon or the end of the text ends the statement that
  begins at \<open>start_at\<close>. The end that is moved back over white space is also where the next statement
  is counted from.
\<close>

function push_statements_from ::
  "normalizer \<Rightarrow> source_buffer \<Rightarrow> nat \<Rightarrow> cptr \<Rightarrow> token_stream \<Rightarrow> normalizer + normalizer" where
  "push_statements_from c l number start_at s =
     (let s = token_stream_next s; t = stream_token s; content = buffer_text (logical_text l);
          piece = span_text start_at (token_begin t); part = trim_space piece;
          begin_at = length content - length (skip_space piece) - length (token_begin t);
          map_items = (case source_map_slice (memory (shared c)) (segments (logical_map l)) begin_at (length part) of
                   None \<Rightarrow> [] | Some items \<Rightarrow> items);
          number' = (if part \<noteq> [] \<and> map_items \<noteq> [] then position_line (expansion (hd map_items)) else number);
          next_start = drop (begin_at + length part + token_length t) content
      in if kind t \<noteq> TOKEN_SEMICOLON \<and> kind t \<noteq> TOKEN_END then push_statements_from c l number start_at s
         else if \<not> memory (shared c) (length part + 1) then Inl c
         else if part \<noteq> [] \<and> segments (logical_map l) \<noteq> [] \<and> map_items = [] then Inl c
         else case (if part = [] then Inr c else push_mapped_line c part number' map_items) of
                Inl c \<Rightarrow> Inl c
              | Inr c \<Rightarrow>
                  if kind t = TOKEN_END then Inr c else push_statements_from c l number' next_start s)"
  by auto
termination
  by (relation "measure (\<lambda>(c, l, number, start_at, s). length (stream_cursor s))")
    (auto intro!: next_advances)

declare push_statements_from.simps [simp del]

text \<open>\<open>append_logical_line\<close> and \<open>push_logical_statements\<close>, which empties the buffer.\<close>

definition append_logical_line :: "normalizer \<Rightarrow> source_buffer \<Rightarrow> nat \<Rightarrow> normalizer + normalizer \<times> source_buffer" where
  "append_logical_line c l number =
     (if buffer_text (logical_text l) = [] then Inr (c, l)
      else
        let content = normalize_code_case (buffer_text (logical_text l));
            l = l\<lparr>logical_text := (logical_text l)\<lparr>buffer_text := content\<rparr>\<rparr>
        in map_sum id (\<lambda>c. (c, source_buffer_discard))
             (push_statements_from c l number content (token_stream_init (Some content) number 1)))"

section \<open>Physical lines\<close>

record line_progress =
  progress_context :: normalizer
  progress_logical :: source_buffer
  logical_number :: nat
  is_continued :: bool
  character_continued :: bool

text \<open>The statement so far is complete, and the one that begins at line \<open>ln\<close> is next.\<close>

definition start_statement :: "line_progress \<Rightarrow> nat \<Rightarrow> normalizer + line_progress" where
  "start_statement g ln =
     map_sum id (\<lambda>(c, l). g\<lparr>progress_context := c, progress_logical := l, logical_number := ln\<rparr>)
       (append_logical_line (progress_context g) (progress_logical g) (logical_number g))"

text \<open>\<open>strstr\<close>\<close>

fun find_text :: "string \<Rightarrow> cptr \<Rightarrow> cptr option" where
  "find_text word [] = (if word = [] then Some [] else None)"
| "find_text word (c # s) = (if take (length word) (c # s) = word then Some (c # s) else find_text word s)"

text \<open>A program statement beyond column 72 of a fixed-form comment line becomes the line.\<close>

definition comment_mark :: "string \<Rightarrow> bool" where
  "comment_mark raw \<longleftrightarrow> raw \<noteq> [] \<and> hd raw \<in> set ''cC*!''"

definition embedded_program :: "string \<Rightarrow> string" where
  "embedded_program raw =
     (if length raw > 72 \<and> comment_mark raw then
        (case find_text ''PROGRAM'' (drop 72 raw) of Some s \<Rightarrow> replicate 6 CHR '' '' @ s | None \<Rightarrow> raw)
      else raw)"

text \<open>The runs of characters whose columns follow each other.\<close>

fun run_length :: "(char \<times> nat) list \<Rightarrow> nat" where
  "run_length [] = 0"
| "run_length [x] = 1"
| "run_length (x # y # s) = (if snd y = snd x + 1 then 1 + run_length (y # s) else 1)"

lemma run_length_pos: "s \<noteq> [] \<Longrightarrow> 0 < run_length s"
  by (induction s rule: run_length.induct) auto

function append_runs ::
  "(nat \<Rightarrow> bool) \<Rightarrow> source_buffer \<Rightarrow> preprocessed_source \<Rightarrow> nat \<Rightarrow> nat \<Rightarrow> (char \<times> nat) list \<Rightarrow> source_buffer option" where
  "append_runs mem l source line_begin ln s =
     (if s = [] then Some l
      else case append_mapped mem l (map fst (take (run_length s) s)) source
                  (line_begin + snd (hd s) - 1) ln (snd (hd s)) of
             None \<Rightarrow> None
           | Some l \<Rightarrow> append_runs mem l source line_begin ln (drop (run_length s) s))"
  by auto
termination
  by (relation "measure (\<lambda>(mem, l, source, line_begin, ln, s). length s)") (auto simp: run_length_pos)

declare append_runs.simps [simp del]

text \<open>A line of fixed form: the body from column 7 on, with the label before it.\<close>

definition fixed_body :: "string \<Rightarrow> (char \<times> nat) list" where
  "fixed_body raw =
     (let body = strip_comment (take 126 (drop 6 raw))
      in numeric_blanks NUL False (zip body [7..<7 + length body]))"

definition append_label ::
  "(nat \<Rightarrow> bool) \<Rightarrow> source_buffer \<Rightarrow> preprocessed_source \<Rightarrow> nat \<Rightarrow> nat \<Rightarrow> string \<Rightarrow> nat \<Rightarrow> source_buffer option" where
  "append_label mem l source line_begin ln raw column =
     (let label = trim_space (take 5 raw); label_begin = length (takeWhile isspace (take 5 raw))
      in case append_separator mem l source (line_begin + column - 1) ln column of
           None \<Rightarrow> None
         | Some l \<Rightarrow>
             if label = [] then Some l
             else (case append_mapped mem l label source (line_begin + label_begin) ln (label_begin + 1) of
                     None \<Rightarrow> None
                   | Some l \<Rightarrow> append_separator mem l source (line_begin + column - 1) ln column))"

definition fixed_line ::
  "preprocessed_source \<Rightarrow> nat \<Rightarrow> nat \<Rightarrow> string \<Rightarrow> line_progress \<Rightarrow> normalizer + line_progress" where
  "fixed_line source line_begin ln raw g =
     (let raw = embedded_program raw; mem = memory (shared (progress_context g)) in
      if comment_mark raw then Inr g
      else
        let next_continued = fixed_continuation_line raw; body = fixed_body raw;
            body_length = length (strip_comment (take 126 (drop 6 raw)))
        in if body_length \<noteq> 0 \<and> \<not> mem (body_length * 8) then Inl (progress_context g)
           else case (if next_continued then Inr g else start_statement g ln) of
             Inl c \<Rightarrow> Inl c
           | Inr g \<Rightarrow>
               if body = [] then Inr g
               else (case (if next_continued then Some (progress_logical g)
                          else append_label mem (progress_logical g) source line_begin ln raw (snd (hd body))) of
                  None \<Rightarrow> Inl (progress_context g)
                | Some l \<Rightarrow>
                    (case append_runs mem l source line_begin ln body of
                       None \<Rightarrow> Inl (progress_context g)
                     | Some l \<Rightarrow> Inr (g\<lparr>progress_logical := l\<rparr>))))"

text \<open>\<open>f2c_trim\<close> of a part of a line, with the number of characters before it.\<close>

definition trim_part :: "nat \<times> string \<Rightarrow> nat \<times> string" where
  "trim_part x = (fst x + (length (snd x) - length (skip_space (snd x))), trim_space (snd x))"

text \<open>
  A line of free form: the body with its offset, and whether the next line continues it, inside a
  character literal or not.
\<close>

definition free_body :: "bool \<Rightarrow> string \<Rightarrow> (nat \<times> string) \<times> bool \<times> bool" where
  "free_body continued raw =
     (let x = trim_part (0, strip_comment raw);
          x = (if continued \<and> peek (snd x) = CHR ''&'' then trim_part (fst x + 1, tl (snd x)) else x);
          (marked, in_literal) = trailing_free_continuation (snd x)
      in (if marked then trim_part (fst x, butlast (snd x)) else x, marked, in_literal))"

definition free_line ::
  "preprocessed_source \<Rightarrow> nat \<Rightarrow> nat \<Rightarrow> string \<Rightarrow> line_progress \<Rightarrow> normalizer + line_progress" where
  "free_line source line_begin ln raw g =
     (let ((offset, body), next_continued, in_literal) = free_body (is_continued g) raw;
          mem = memory (shared (progress_context g))
      in case (if is_continued g then Inr g else start_statement g ln) of
           Inl c \<Rightarrow> Inl c
         | Inr h \<Rightarrow>
             (case (if body = [] then Some (progress_logical h)
                    else case (if character_continued g then Some (progress_logical h)
                               else append_separator mem (progress_logical h) source (line_begin + offset) ln (offset + 1)) of
                      None \<Rightarrow> None
                    | Some l \<Rightarrow> append_mapped mem l body source (line_begin + offset) ln (offset + 1)) of
                None \<Rightarrow> Inl (progress_context h)
              | Some l \<Rightarrow>
                  Inr (h\<lparr>progress_logical := l, is_continued := next_continued, character_continued := in_literal\<rparr>)))"

text \<open>The loop of \<open>normalize_preprocessed_source\<close>; \<open>ln\<close> lines have been read.\<close>

function normalize_lines ::
  "preprocessed_source \<Rightarrow> source_form \<Rightarrow> nat \<Rightarrow> cptr \<Rightarrow> line_progress \<Rightarrow> normalizer + line_progress" where
  "normalize_lines source form ln s g =
     (if s = [] then Inr g
      else if \<not> memory (shared (progress_context g)) (length (line_part s) + 1) then Inl (progress_context g)
      else case (if form = SOURCE_FIXED then fixed_line else free_line) source
                  (length (fst source) - length s) (ln + 1) (line_part s) g of
             Inl c \<Rightarrow> Inl c
           | Inr g \<Rightarrow> normalize_lines source form (ln + 1) (next_line s) g)"
  by auto
termination
  by (relation "measure (\<lambda>(source, form, ln, s, g). length s)") (auto simp: next_line_length)

declare normalize_lines.simps [simp del]

definition normalize_preprocessed ::
  "normalizer \<Rightarrow> preprocessed_source \<Rightarrow> source_form \<Rightarrow> normalizer + normalizer" where
  "normalize_preprocessed c source form =
     (case context_source_name (shared c) (own_source_name c) of
        None \<Rightarrow> Inl c
      | Some p \<Rightarrow>
          (case normalize_lines source form 0 (fst source)
             \<lparr>progress_context = c\<lparr>shared := p\<rparr>,
              progress_logical = source_buffer_discard\<lparr>logical_source_name := Some (own_source_name c)\<rparr>,
              logical_number = 1, is_continued = False, character_continued = False\<rparr> of
             Inl c \<Rightarrow> Inl c
           | Inr g \<Rightarrow>
               map_sum id fst (append_logical_line (progress_context g) (progress_logical g) (logical_number g))))"

text \<open>\<open>f2c_normalize_source\<close>\<close>

definition normalize_source ::
  "include_resolver \<Rightarrow> normalizer \<Rightarrow> cptr \<Rightarrow> source_form \<Rightarrow> nat \<Rightarrow> preprocessor_definition list option \<Rightarrow>
    normalizer + normalizer" where
  "normalize_source resolver c content form definition_count definitions =
     (case preprocess_source resolver (shared c) content form (option_source_name c) definition_count definitions of
        Inl p \<Rightarrow> Inl (c\<lparr>shared := p\<rparr>)
      | Inr (p, t, m) \<Rightarrow> normalize_preprocessed (c\<lparr>shared := p\<rparr>) (t, m) form)"

end
