(* ===== verification/Source_Trace.thy ===== *)
theory Source_Trace
  imports Source_Lines "HOL-Library.Sublist"
begin

text \<open>
  Where the characters of the pushed lines come from. The text of a statement is drawn from the
  preprocessed text from left to right: the pairs of \<open>drawn\<close> hold a character of the statement and the
  place it is taken from, up to its case; a separator is a blank at the place of the character after
  it. The map of a line gives every character the origin that its place has in the source's map.
\<close>

section \<open>Characters up to case\<close>

definition same_letter :: "char \<Rightarrow> char \<Rightarrow> bool" where
  "same_letter a b \<longleftrightarrow> tolower a = tolower b"

definition lowered :: "char \<Rightarrow> char \<Rightarrow> bool" where
  "lowered a b \<longleftrightarrow> b = a \<or> b = tolower a"

lemma same_letter_refl [simp]: "same_letter c c"
  by (simp add: same_letter_def)

lemma tolower_idem [simp]: "tolower (tolower c) = tolower c"
proof (cases "65 \<le> ascii c \<and> ascii c \<le> 90")
  case True
  then have "ascii (char_of (ascii c + 32)) = ascii c + 32" by (simp add: ascii_def)
  with True show ?thesis by (simp add: tolower_def)
qed (auto simp: tolower_def)

lemma tolower_blank [simp]: "tolower CHR '' '' = CHR '' ''"
  by (simp add: tolower_def ascii_def)

lemma lowered_same: "lowered a b \<Longrightarrow> same_letter a c \<Longrightarrow> same_letter b c"
  by (auto simp: lowered_def same_letter_def)

lemma lowered_blank: "lowered CHR '' '' b \<Longrightarrow> b = CHR '' ''"
  by (auto simp: lowered_def)

lemma lowered_refl: "list_all2 lowered s s"
  by (simp add: list_all2_conv_all_nth lowered_def)

lemma lowered_lowercase: "list_all2 lowered s (lowercase s)"
  by (simp add: list_all2_conv_all_nth lowered_def lowercase_def)

section \<open>Case normalization changes case only\<close>

lemma span_text_append [simp]: "span_text (u @ v) v = u"
  by (simp add: span_text_def)

lemma payload_count_suffix: "payload_count n s = Some (k, t) \<Longrightarrow> \<exists>u. s = u @ t"
proof (induction n s rule: payload_count.induct)
  case (2 n c s)
  then show ?case by (auto split: if_splits intro: exI [of _ "c # _"])
qed simp

lemma hollerith_payload_suffix:
  assumes "hollerith_payload (Some s) = Some (t, n)"
  shows "\<exists>u. s = u @ t"
proof -
  obtain k r where r: "payload_count 0 s = Some (k, r)" "t = drop 1 r"
    using assms by (auto simp: hollerith_payload_def split: if_splits option.splits)
  obtain u where "s = u @ r" using payload_count_suffix [OF r(1)] by blast
  then have "s = (u @ take 1 r) @ t" using r(2) by simp
  then show ?thesis by blast
qed

lemma suffix_between:
  assumes "s = u @ p" "s = w @ r" "length r \<le> length p"
  shows "\<exists>v. p = v @ r \<and> w = u @ v"
proof -
  have "w @ r = u @ p" using assms by simp
  then show ?thesis using assms(3) by (auto simp: append_eq_append_conv2)
qed

lemma normalize_token_lowered:
  assumes "token_begin t = w @ r" "token_length t = length w"
  shows "list_all2 lowered w (normalize_token t)"
proof -
  have after: "drop (token_length t) (token_begin t) = r" "token_text t = w"
    using assms by (simp_all add: token_text_def)
  have split: "list_all2 lowered w (lowercase (span_text (token_begin t) p) @ span_text p r)"
    if a: "token_begin t = u @ p" and b: "length r \<le> length p" for u p
  proof -
    obtain v where v: "p = v @ r" "w = u @ v" using suffix_between [OF a assms(1) b] by blast
    then show ?thesis
      using a by (auto simp: lowered_lowercase lowered_refl intro: list_all2_appendI)
  qed
  define payload where "payload = (if kind t = TOKEN_STRING then character_literal_quote (Some (token_begin t))
    else if kind t = TOKEN_HOLLERITH then map_option fst (hollerith_payload (Some (token_begin t))) else None)"
  show ?thesis
  proof (cases payload)
    case None
    then show ?thesis unfolding normalize_token_def Let_def payload_def [symmetric] by (simp add: after lowered_lowercase)
  next
    case (Some p)
    obtain u where u: "token_begin t = u @ p"
      using Some by (auto simp: payload_def split: if_splits elim: character_literal_quote_prefix dest: hollerith_payload_suffix)
    show ?thesis
    proof (cases "length r < length p")
      case False
      then show ?thesis unfolding normalize_token_def Let_def payload_def [symmetric] Some
        by (simp add: after lowered_lowercase)
    next
      case True
      then obtain c q where p: "p = c # q" by (cases p) auto
      have "list_all2 lowered w (lowercase (span_text (token_begin t) q) @ span_text q r)"
        using True u by (intro split [of "u @ [c]"]) (simp_all add: p)
      moreover have "list_all2 lowered w (lowercase (span_text (token_begin t) p) @ span_text p r)"
        using True by (intro split [OF u]) simp
      ultimately show ?thesis
        unfolding normalize_token_def Let_def payload_def [symmetric] Some using True by (simp add: after p)
    qed
  qed
qed

text \<open>What the scanner passes: white space, and a token that is not at the end.\<close>

lemma next_token_split:
  assumes "kind (stream_token (token_stream_next s)) \<noteq> TOKEN_END"
  obtains gap w where "stream_cursor s = gap @ w @ stream_cursor (token_stream_next s)"
    "token_begin (stream_token (token_stream_next s)) = w @ stream_cursor (token_stream_next s)"
    "token_length (stream_token (token_stream_next s)) = length w" "w \<noteq> []"
proof -
  obtain w where w: "skip_space (stream_cursor s) = w @ stream_cursor (token_stream_next s)" "w \<noteq> []"
      "token_begin (stream_token (token_stream_next s)) = skip_space (stream_cursor s)"
      "token_length (stream_token (token_stream_next s)) = length w"
    using next_in_line [OF refl] assms next_end_iff by metis
  obtain gap where "stream_cursor s = gap @ skip_space (stream_cursor s)"
    using skip_space_split by blast
  with w show thesis by (intro that [of gap w]) auto
qed

lemma next_end_split:
  assumes "kind (stream_token (token_stream_next s)) = TOKEN_END"
  obtains gap where "stream_cursor s = gap @ token_begin (stream_token (token_stream_next s))"
proof -
  have "token_begin (stream_token (token_stream_next s)) = skip_space (stream_cursor s)"
    using assms next_end_iff [of s]
    by (simp add: token_stream_next_def Let_def line_end_def set_kind_def move_to_def split: if_splits)
  then show thesis using skip_space_split [of "stream_cursor s"] by (elim exE conjE) (auto intro: that)
qed

lemma normalize_case_from_lowered: "list_all2 lowered (stream_cursor s) (normalize_case_from s)"
proof (induction s rule: normalize_case_from.induct)
  case (1 s)
  let ?s = "token_stream_next s"
  let ?t = "stream_token ?s"
  show ?case
  proof (cases "kind ?t = TOKEN_END")
    case True
    obtain gap where "stream_cursor s = gap @ token_begin ?t" using next_end_split [OF True] .
    then show ?thesis
      using True by (subst normalize_case_from.simps) (simp add: Let_def list_all2_appendI lowered_lowercase lowered_refl)
  next
    case False
    obtain gap w where w: "stream_cursor s = gap @ w @ stream_cursor ?s" "token_begin ?t = w @ stream_cursor ?s"
      "token_length ?t = length w" using next_token_split [OF False] .
    have "normalize_case_from s = lowercase gap @ normalize_token ?t @ normalize_case_from ?s"
      using False w(1,2) span_text_append [of gap "w @ stream_cursor ?s"]
      by (subst normalize_case_from.simps) (simp add: Let_def)
    moreover have "list_all2 lowered (stream_cursor ?s) (normalize_case_from ?s)"
      using "1.IH" False by blast
    ultimately show ?thesis
      using normalize_token_lowered [OF w(2,3)] w(1) by (simp add: list_all2_appendI lowered_lowercase)
  qed
qed

lemma normalize_code_case_lowered: "list_all2 lowered s (normalize_code_case s)"
  using normalize_case_from_lowered [of "token_stream_init (Some s) 1 1"]
  by (simp add: normalize_code_case_def token_stream_init_def Let_def)

text \<open>Comments are cut off at the end.\<close>

lemma tokens_end_suffix: "\<exists>u. stream_cursor s = u @ tokens_end s"
proof (induction s rule: tokens_end.induct)
  case (1 s)
  let ?s = "token_stream_next s"
  show ?case
  proof (cases "kind (stream_token ?s) = TOKEN_END")
    case True
    then show ?thesis using next_end_split [OF True] by (subst tokens_end.simps) (simp add: Let_def, blast)
  next
    case False
    obtain gap w where "stream_cursor s = gap @ w @ stream_cursor ?s" using next_token_split [OF False] .
    moreover obtain u where "stream_cursor ?s = u @ tokens_end ?s" using "1.IH" [OF refl False] by blast
    ultimately have "stream_cursor s = (gap @ w @ u) @ tokens_end s"
      using False by (subst tokens_end.simps) (simp add: Let_def)
    then show ?thesis by blast
  qed
qed

lemma strip_comment_prefix: "prefix (strip_comment s) s"
proof -
  obtain u where u: "s = u @ tokens_end (token_stream_init (Some s) 1 1)"
    using tokens_end_suffix [of "token_stream_init (Some s) 1 1"] by (auto simp: token_stream_init_def Let_def)
  then have "span_text s (tokens_end (token_stream_init (Some s) 1 1)) = u" by (metis span_text_append)
  with u show ?thesis by (auto simp: strip_comment_def Let_def prefix_def)
qed

section \<open>Texts that are drawn from the source\<close>

text \<open>
  \<open>drawn t cs n\<close>: every character of \<open>cs\<close> is the one at its place in \<open>t\<close> and stands before the next
  place, or is a blank at the next place; \<open>n\<close> is the place after the last one.
\<close>

fun next_place :: "(char \<times> nat) list \<Rightarrow> nat \<Rightarrow> nat" where
  "next_place [] n = n"
| "next_place (x # cs) n = snd x"

fun drawn :: "string \<Rightarrow> (char \<times> nat) list \<Rightarrow> nat \<Rightarrow> bool" where
  "drawn t [] n \<longleftrightarrow> True"
| "drawn t ((c, j) # cs) n \<longleftrightarrow>
     j < length t \<and> (same_letter c (t ! j) \<and> j < next_place cs n \<or> c = CHR '' '' \<and> j = next_place cs n) \<and>
     drawn t cs n"

lemma next_place_append [simp]: "next_place (xs @ ys) n = next_place xs (next_place ys n)"
  by (cases xs) auto

lemma drawn_append: "drawn t (xs @ ys) n \<longleftrightarrow> drawn t xs (next_place ys n) \<and> drawn t ys n"
  by (induction xs) (auto split: prod.splits)

lemma drawn_text:
  assumes "a + length s \<le> length t" "\<forall>i < length s. same_letter (s ! i) (t ! (a + i))" "a + length s \<le> n"
  shows "drawn t (zip s [a..<a + length s]) n"
  using assms
proof (induction s arbitrary: a)
  case (Cons c s)
  have "\<forall>i < length s. same_letter (s ! i) (t ! (Suc a + i))" using Cons.prems(2) by fastforce
  then have "drawn t (zip s [Suc a..<Suc a + length s]) n" using Cons.prems by (intro Cons.IH) simp_all
  moreover have "next_place (zip s [Suc a..<Suc a + length s]) n > a"
    using Cons.prems(3) by (cases s) (simp_all add: upt_conv_Cons del: upt_Suc)
  moreover have "same_letter c (t ! a)" using Cons.prems(2) by fastforce
  moreover have "zip (c # s) [a..<a + length (c # s)] = (c, a) # zip s [Suc a..<Suc a + length s]"
    by (simp add: upt_conv_Cons del: upt_Suc)
  ultimately show ?case using Cons.prems(1) by simp
qed simp

text \<open>A part that does not end with a blank is drawn by itself.\<close>

lemma drawn_settled:
  assumes "drawn t cs n" "cs = [] \<or> fst (last cs) \<noteq> CHR '' ''"
  shows "drawn t cs (length t)"
  using assms
proof (induction cs)
  case (Cons x cs)
  obtain c j where x: "x = (c, j)" by (cases x)
  show ?case
  proof (cases cs)
    case Nil
    then show ?thesis using Cons.prems by (auto simp: x)
  next
    case (Cons y ys)
    then show ?thesis using Cons.prems Cons.IH by (simp add: x)
  qed
qed simp

lemma drawn_part:
  assumes "drawn t cs n" "a + k \<le> length cs" "0 < k" "fst (cs ! (a + k - 1)) \<noteq> CHR '' ''"
  shows "drawn t (take k (drop a cs)) (length t)"
proof -
  have "cs = take a cs @ take k (drop a cs) @ drop k (drop a cs)"
    by (simp only: append_take_drop_id)
  then have "drawn t (take k (drop a cs)) (next_place (drop k (drop a cs)) n)"
    using assms(1) drawn_append by metis
  moreover have "last (take k (drop a cs)) = cs ! (a + k - 1)"
    using assms(2,3) by (subst last_conv_nth) (auto simp: min_def dest: le_antisym)
  ultimately show ?thesis using assms(4) by (intro drawn_settled) auto
qed

lemma drawn_lowered:
  assumes "drawn t cs n" "list_all2 lowered (map fst cs) s"
  shows "drawn t (zip s (map snd cs)) n \<and> map fst (zip s (map snd cs)) = s"
  using assms
proof (induction cs arbitrary: s)
  case (Cons x cs)
  obtain c j where x: "x = (c, j)" by (cases x)
  obtain d r where s: "s = d # r" "lowered c d" "list_all2 lowered (map fst cs) r"
    using Cons.prems(2) x by (auto simp: list_all2_Cons1)
  have "next_place (zip r (map snd cs)) n = next_place cs n"
    using s(3) by (cases cs; cases r) auto
  moreover have "drawn t (zip r (map snd cs)) n" "map fst (zip r (map snd cs)) = r"
    using Cons.IH [OF _ s(3)] Cons.prems(1) x by simp_all
  ultimately show ?case
    using Cons.prems(1) s(2) lowered_same lowered_blank unfolding s(1) x by auto
qed simp

section \<open>Maps of drawn texts\<close>

definition well_mapped :: "preprocessed_source \<Rightarrow> bool" where
  "well_mapped src \<longleftrightarrow> map_ok (segments (snd src)) \<and> (\<forall>x < length (fst src). known (segments (snd src)) x)"

definition traces :: "preprocessed_source \<Rightarrow> (char \<times> nat) list \<Rightarrow> segment list \<Rightarrow> bool" where
  "traces src cs ss \<longleftrightarrow> map_ok ss \<and> ends_by ss (length cs) \<and>
     (\<forall>i < length cs. origin ss i = origin (segments (snd src)) (snd (cs ! i)))"

lemma known_bound:
  assumes "map_ok ss" "known ss x"
  shows "x < SIZE_MAX"
proof -
  obtain s where "s \<in> set ss" "covers s x" using assms(2) by (auto simp: known_def)
  moreover from this have "segment_ok s" using assms(1) by (auto simp: map_ok_def list_all_iff)
  ultimately show ?thesis by (auto simp: covers_def segment_ok_def)
qed

lemma pred_less: "(n :: nat) - 1 < k \<Longrightarrow> n \<le> k"
  by linarith

lemma well_mapped_bound:
  assumes "well_mapped src" "fst src \<noteq> []"
  shows "length (fst src) \<le> SIZE_MAX"
proof (rule pred_less)
  have "known (segments (snd src)) (length (fst src) - 1)"
    using assms by (simp add: well_mapped_def)
  with assms(1) show "length (fst src) - 1 < SIZE_MAX"
    unfolding well_mapped_def by (intro known_bound) simp_all
qed

lemma ends_by_None:
  assumes "map_ok ss" "\<And>x. n \<le> x \<Longrightarrow> origin ss x = None"
  shows "ends_by ss n"
  unfolding ends_by_def
proof
  fix s assume s: "s \<in> set ss"
  then have pos: "0 < segment_length s" using assms(1) by (auto simp: map_ok_def list_all_iff segment_ok_def)
  let ?x = "logical_begin s + segment_length s - 1"
  have "covers s ?x" using pos by (simp add: covers_def)
  then have "origin ss ?x \<noteq> None" using s unfolding origin_None_iff by blast
  moreover have "origin ss ?x = None" if "n \<le> ?x" using that by (rule assms(2))
  ultimately have "\<not> n \<le> ?x" by auto
  then show "logical_begin s + segment_length s \<le> n" using pos by linarith
qed

text \<open>A copied slice, with whatever memory there is.\<close>

lemma copied_slice:
  assumes "source_map_append_slice mem m at source from_at len = (True, m')"
    and "map_ok source" "map_ok (segments m)" "ends_by (segments m) at" "len \<le> SIZE_MAX"
  shows "map_ok (segments m')" "ends_by (segments m') (at + len)"
    "origin (segments m') y = (if at \<le> y \<and> y < at + len then origin source (y - at + from_at) else origin (segments m) y)"
    "\<forall>x \<in> {from_at..<from_at + len}. known source x"
proof -
  have bounds: "from_at + len \<le> SIZE_MAX" "at + len \<le> SIZE_MAX"
    using assms(1,5) by (auto simp: source_map_append_slice_def split: if_splits)
  then have small: "\<not> (SIZE_MAX - len < from_at \<or> SIZE_MAX - len < at)" by linarith
  then have run: "append_overlaps mem at from_at (from_at + len) source 0 m = (Some len, m')"
    using assms(1) by (auto simp: source_map_append_slice_def split: prod.splits option.splits)
  have "covered_in source from_at (from_at + len) \<le> len"
    using covered_in_le [of source from_at "from_at + len"] by simp
  with bounds have copied: "map_ok (segments m') \<and> len = 0 + covered_in source from_at (from_at + len) \<and>
    (\<forall>y. origin (segments m') y =
       (if at \<le> y \<and> y - at + from_at < from_at + len \<and> origin source (y - at + from_at) \<noteq> None
        then origin source (y - at + from_at) else origin (segments m) y))"
    using assms(2-4) by (intro append_overlaps_origin [OF run, where p = from_at]) auto
  then show known: "\<forall>x \<in> {from_at..<from_at + len}. known source x"
    using covered_in_full [of source from_at "from_at + len"] by simp
  have all: "origin (segments m') y =
      (if at \<le> y \<and> y < at + len then origin source (y - at + from_at) else origin (segments m) y)" for y
  proof (cases "at \<le> y \<and> y < at + len")
    case True
    then have "y - at + from_at \<in> {from_at..<from_at + len}" by auto
    with known have "known source (y - at + from_at)" by (rule bspec)
    then show ?thesis using True copied by (auto simp: known_iff)
  next
    case False
    then have "\<not> (at \<le> y \<and> y - at + from_at < from_at + len)" by auto
    then show ?thesis using False copied by auto
  qed
  then show "origin (segments m') y =
      (if at \<le> y \<and> y < at + len then origin source (y - at + from_at) else origin (segments m) y)" .
  show "map_ok (segments m')" using copied by blast
  then show "ends_by (segments m') (at + len)"
    using all ends_by_origin [OF assms(4)] by (intro ends_by_None) auto
qed

section \<open>The buffer of a statement\<close>

text \<open>\<open>ready\<close>: the text at place \<open>n\<close> is next; \<open>settled\<close>: any text from place \<open>n\<close> on may be next.\<close>

definition ready :: "preprocessed_source \<Rightarrow> nat \<Rightarrow> source_buffer \<Rightarrow> bool" where
  "ready src n l \<longleftrightarrow> (\<exists>cs. map fst cs = buffer_text (logical_text l) \<and> traces src cs (segments (logical_map l)) \<and>
     drawn (fst src) cs n)"

definition settled :: "preprocessed_source \<Rightarrow> nat \<Rightarrow> source_buffer \<Rightarrow> bool" where
  "settled src n l \<longleftrightarrow> (\<exists>cs. map fst cs = buffer_text (logical_text l) \<and> traces src cs (segments (logical_map l)) \<and>
     (\<forall>k \<ge> n. drawn (fst src) cs k))"

lemma settled_ready: "settled src n l \<Longrightarrow> n \<le> k \<Longrightarrow> ready src k l"
  by (auto simp: settled_def ready_def)

lemma settled_later: "settled src n l \<Longrightarrow> n \<le> k \<Longrightarrow> settled src k l"
  unfolding settled_def using le_trans by blast

lemma traces_empty: "traces src [] []"
  by (simp add: traces_def map_ok_def ends_by_def)

lemma settled_discard [simp]: "settled src n source_buffer_discard"
  "settled src n (source_buffer_discard\<lparr>logical_source_name := x\<rparr>)"
  by (auto simp: settled_def source_buffer_discard_def empty_buffer_def empty_map_def traces_empty)

lemma buffer_append_bound:
  assumes "\<not> buffer_failed (buffer_append mem b s)" "s \<noteq> []"
  shows "length (buffer_text b) + length s \<le> SIZE_MAX"
proof -
  have "\<not> SIZE_MAX - length (buffer_text b) - 1 < length s"
    using assms(1) by (auto simp: buffer_append_def buffer_reserve_def Let_def split: if_splits)
  moreover have "0 < length s" using assms(2) by simp
  ultimately show ?thesis by linarith
qed

lemma append_mapped_copies:
  assumes "append_mapped mem l s src a ln col = Some l'" "s \<noteq> []" "well_mapped src" "a + length s \<le> length (fst src)"
  shows "buffer_text (logical_text l') = buffer_text (logical_text l) @ s"
    "length (buffer_text (logical_text l)) + length s \<le> SIZE_MAX"
    "source_map_append_slice mem (logical_map l) (length (buffer_text (logical_text l))) (segments (snd src)) a (length s)
      = (True, logical_map l')"
proof -
  let ?b = "buffer_append mem (logical_text l) s"
  have "fst src \<noteq> []" using assms(2,4) by auto
  then have "known (segments (snd src)) 0" using assms(3) by (simp add: well_mapped_def)
  then have "segments (snd src) \<noteq> []" by (auto simp: known_def)
  then have r: "\<not> buffer_failed ?b" "l' = l\<lparr>logical_text := ?b, logical_map := logical_map l'\<rparr>"
      "source_map_append_slice mem (logical_map l) (length (buffer_text (logical_text l))) (segments (snd src)) a (length s)
        = (True, logical_map l')"
    using assms(1,2) by (auto simp: append_mapped_def Let_def split: if_splits prod.splits bool.splits)
  have "buffer_text (logical_text l') = buffer_text ?b" by (subst r(2)) simp
  with buffer_append_text [OF r(1)] show "buffer_text (logical_text l') = buffer_text (logical_text l) @ s" by simp
  show "length (buffer_text (logical_text l)) + length s \<le> SIZE_MAX" by (rule buffer_append_bound [OF r(1) assms(2)])
  show "source_map_append_slice mem (logical_map l) (length (buffer_text (logical_text l))) (segments (snd src)) a (length s)
      = (True, logical_map l')" by (rule r(3))
qed

lemma append_mapped_traces:
  assumes a: "append_mapped mem l s src a ln col = Some l'" "s \<noteq> []" "well_mapped src" "a + length s \<le> length (fst src)"
    and cs: "map fst cs = buffer_text (logical_text l)" "traces src cs (segments (logical_map l))"
  shows "map fst (cs @ zip s [a..<a + length s]) = buffer_text (logical_text l')"
    "traces src (cs @ zip s [a..<a + length s]) (segments (logical_map l'))"
proof -
  note copies = append_mapped_copies [OF a]
  have len: "length (buffer_text (logical_text l)) = length cs" using cs(1) by (metis length_map)
  have small: "length s \<le> SIZE_MAX" using copies(2) by linarith
  have ok: "map_ok (segments (snd src))" "map_ok (segments (logical_map l))" "ends_by (segments (logical_map l)) (length cs)"
    using a(3) cs(2) by (simp_all add: well_mapped_def traces_def)
  note slice = copied_slice [OF copies(3) ok(1,2) ok(3) [folded len] small, unfolded len]
  show "map fst (cs @ zip s [a..<a + length s]) = buffer_text (logical_text l')"
    using copies(1) cs(1) by simp
  show "traces src (cs @ zip s [a..<a + length s]) (segments (logical_map l'))"
    unfolding traces_def
  proof (intro conjI allI impI)
    show "map_ok (segments (logical_map l'))" by (rule slice(1))
    show "ends_by (segments (logical_map l')) (length (cs @ zip s [a..<a + length s]))" using slice(2) by simp
    fix i assume i: "i < length (cs @ zip s [a..<a + length s])"
    show "origin (segments (logical_map l')) i =
        origin (segments (snd src)) (snd ((cs @ zip s [a..<a + length s]) ! i))"
    proof (cases "i < length cs")
      case True
      then show ?thesis using cs(2) slice(3) [of i] by (simp add: traces_def nth_append)
    next
      case False
      then show ?thesis using i slice(3) [of i] by (simp add: nth_append add.commute)
    qed
  qed
qed

lemma ready_text:
  assumes "ready src a l" "append_mapped mem l s src a ln col = Some l'" "well_mapped src"
    and "a + length s \<le> length (fst src)" "\<forall>i < length s. same_letter (s ! i) (fst src ! (a + i))" "s \<noteq> []"
  shows "settled src (a + length s) l'"
proof -
  obtain cs where cs: "map fst cs = buffer_text (logical_text l)" "traces src cs (segments (logical_map l))"
    "drawn (fst src) cs a" using assms(1) by (auto simp: ready_def)
  note after = append_mapped_traces [OF assms(2,6,3,4) cs(1,2)]
  have "drawn (fst src) (cs @ zip s [a..<a + length s]) k" if "a + length s \<le> k" for k
    using drawn_text [OF assms(4,5) that] cs(3) assms(6)
    by (cases s) (simp_all add: drawn_append upt_conv_Cons del: upt_Suc)
  with after show ?thesis unfolding settled_def by blast
qed

lemma settled_separator:
  assumes "settled src n l" "append_separator mem l src a ln col = Some l'" "well_mapped src" "n \<le> a" "a < length (fst src)"
  shows "ready src a l'"
proof (cases "buffer_text (logical_text l) = []")
  case True
  then show ?thesis using assms settled_ready by (auto simp: append_separator_def)
next
  case False
  obtain cs where cs: "map fst cs = buffer_text (logical_text l)" "traces src cs (segments (logical_map l))"
    "drawn (fst src) cs a" using assms(1,4) by (auto simp: settled_def)
  have append: "append_mapped mem l '' '' src a ln (if 1 < col then col - 1 else col) = Some l'"
    using assms(2) False by (simp add: append_separator_def)
  have one: "'' '' \<noteq> []" "a + length '' '' \<le> length (fst src)" using assms(5) by simp_all
  note after = append_mapped_traces [OF append one(1) assms(3) one(2) cs(1,2)]
  have "drawn (fst src) (cs @ zip '' '' [a..<a + length '' '']) a"
    using cs(3) assms(5) by (simp add: drawn_append)
  with after show ?thesis unfolding ready_def by blast
qed

lemma separator_empty: "buffer_text (logical_text l) = [] \<Longrightarrow> append_separator mem l src a ln col = Some l"
  by (simp add: append_separator_def)

section \<open>Runs of columns\<close>

text \<open>The characters of a line with their columns, from the place \<open>b\<close> of the source on.\<close>

definition columns_of :: "preprocessed_source \<Rightarrow> nat \<Rightarrow> (char \<times> nat) list \<Rightarrow> bool" where
  "columns_of src b s \<longleftrightarrow> sorted_wrt (<) (map snd s) \<and>
     (\<forall>(c, k) \<in> set s. 0 < k \<and> b + k \<le> length (fst src) \<and> c = fst src ! (b + k - 1))"

lemma run_length_le: "run_length s \<le> length s"
  by (induction s rule: run_length.induct) auto

lemma run_columns: "i < run_length s \<Longrightarrow> snd (s ! i) = snd (hd s) + i"
proof (induction s arbitrary: i rule: run_length.induct)
  case (3 x y s)
  then show ?case by (cases i) (auto split: if_splits)
qed auto

lemma columns_of_drop: "columns_of src b s \<Longrightarrow> columns_of src b (drop n s)"
  by (auto simp: columns_of_def drop_map [symmetric] sorted_wrt_drop dest: in_set_dropD)

lemma runs_settle:
  assumes "append_runs mem l src b ln s = Some l'" "columns_of src b s" "well_mapped src"
    and "s \<noteq> []" "ready src (b + snd (hd s) - 1) l"
  shows "settled src (b + snd (last s)) l'"
  using assms
proof (induction mem l src b ln s rule: append_runs.induct)
  case (1 mem l src b ln s)
  let ?n = "run_length s" and ?a = "b + snd (hd s) - 1"
  let ?run = "map fst (take ?n s)"
  obtain l1 where l1: "append_mapped mem l ?run src ?a ln (snd (hd s)) = Some l1"
      "append_runs mem l1 src b ln (drop ?n s) = Some l'"
    using "1.prems"(1,4) by (subst (asm) append_runs.simps) (auto split: option.splits)
  have n: "?n \<le> length s" "0 < ?n" using run_length_le run_length_pos [OF "1.prems"(4)] by auto
  have elem: "0 < snd (s ! i) \<and> b + snd (s ! i) \<le> length (fst src) \<and> fst (s ! i) = fst src ! (b + snd (s ! i) - 1)"
    if "i < length s" for i
    using "1.prems"(2) nth_mem [OF that] by (cases "s ! i") (auto simp: columns_of_def)
  have first: "0 < snd (hd s)" using elem [of 0] "1.prems"(4) by (simp add: hd_conv_nth)
  have at: "?a + i = b + snd (s ! i) - 1" if "i < ?n" for i
    using run_columns [OF that] first by simp
  have last_run: "b + snd (s ! (?n - 1)) = ?a + ?n"
  proof -
    have "?a + (?n - 1) = b + snd (s ! (?n - 1)) - 1" using n by (intro at) linarith
    moreover have "0 < snd (s ! (?n - 1))" using elem [of "?n - 1"] n by linarith
    ultimately show ?thesis using n by linarith
  qed
  have "settled src (?a + length ?run) l1"
  proof (rule ready_text [OF "1.prems"(5) l1(1) "1.prems"(3)])
    show "?a + length ?run \<le> length (fst src)" using last_run elem [of "?n - 1"] n by (simp add: min_def)
    show "\<forall>i < length ?run. same_letter (?run ! i) (fst src ! (?a + i))"
      using at elem n by (simp add: min_def)
    show "?run \<noteq> []" using n "1.prems"(4) by simp
  qed
  then have s1: "settled src (b + snd (s ! (?n - 1))) l1" using n last_run by (simp add: min_absorb2)
  show ?case
  proof (cases "drop ?n s = []")
    case True
    then have "?n = length s" using n by simp
    moreover have "l' = l1" using l1(2) True by (subst (asm) append_runs.simps) simp
    ultimately show ?thesis using s1 "1.prems"(4) by (simp add: last_conv_nth)
  next
    case False
    have less: "snd (s ! (?n - 1)) < snd (s ! ?n)"
      using "1.prems"(2) False n sorted_wrt_nth_less [of "(<)" "map snd s" "?n - 1" ?n] by (simp add: columns_of_def)
    have hd_drop: "hd (drop ?n s) = s ! ?n" using False by (simp add: hd_drop_conv_nth)
    have "ready src (b + snd (hd (drop ?n s)) - 1) l1"
      using settled_ready [OF s1] less by (simp add: hd_drop)
    moreover have "last (drop ?n s) = last s" using False by simp
    ultimately show ?thesis
      using "1.IH" [OF "1.prems"(4) l1] columns_of_drop [OF "1.prems"(2)] "1.prems"(3) l1(2) False by simp
  qed
qed

section \<open>The body of a line\<close>

text \<open>The characters of a physical line stand in the source from the place \<open>b\<close> on.\<close>

definition line_at :: "preprocessed_source \<Rightarrow> nat \<Rightarrow> string \<Rightarrow> bool" where
  "line_at src b raw \<longleftrightarrow> prefix raw (drop b (fst src))"

lemma line_at_bound:
  assumes "line_at src b raw"
  shows "b + length raw \<le> length (fst src) \<or> raw = []"
    and "i < length raw \<Longrightarrow> raw ! i = fst src ! (b + i)"
proof -
  obtain v where v: "drop b (fst src) = raw @ v" using assms by (auto simp: line_at_def prefix_def)
  then have "length (fst src) - b = length raw + length v" by (metis length_append length_drop)
  then show bound: "b + length raw \<le> length (fst src) \<or> raw = []" by (cases raw) auto
  assume i: "i < length raw"
  then have "b \<le> length (fst src)" using bound by auto
  then have "fst src ! (b + i) = drop b (fst src) ! i" by (simp add: nth_drop)
  then show "raw ! i = fst src ! (b + i)" using v i by (simp add: nth_append)
qed

lemma line_at_prefix: "line_at src b raw \<Longrightarrow> prefix s (drop n raw) \<Longrightarrow> line_at src (b + n) s"
proof -
  assume a: "line_at src b raw" "prefix s (drop n raw)"
  then obtain v w where "drop b (fst src) = raw @ v" "drop n raw = s @ w" by (auto simp: line_at_def prefix_def)
  then have "n \<le> length raw \<Longrightarrow> drop (b + n) (fst src) = s @ w @ v"
    using drop_drop [of n b "fst src"] by (simp add: add.commute)
  moreover have "length raw < n \<Longrightarrow> s = []" using \<open>drop n raw = s @ w\<close> by simp
  ultimately show "line_at src (b + n) s" by (cases "n \<le> length raw") (auto simp: line_at_def)
qed

lemma subseq_set: "subseq u s \<Longrightarrow> set u \<subseteq> set s"
  by (induction rule: list_emb.induct) auto

lemma columns_of_subseq: "subseq u s \<Longrightarrow> columns_of src b s \<Longrightarrow> columns_of src b u"
proof (induction rule: list_emb.induct)
  case (list_emb_Cons2 x y xs ys)
  have "columns_of src b ys" using list_emb_Cons2.prems by (auto simp: columns_of_def)
  then have "columns_of src b xs" by (rule list_emb_Cons2.IH)
  then show ?case using list_emb_Cons2.prems list_emb_Cons2.hyps subseq_set [of xs ys]
    by (auto simp: columns_of_def)
qed (auto simp: columns_of_def)

lemma numeric_blanks_subseq: "subseq (numeric_blanks quote d s) s"
proof (induction quote d s rule: numeric_blanks.induct)
  case (2 quote d c k s)
  have skip: "subseq (pair_skip s) s"
    unfolding pair_skip_def by (metis dropWhile_eq_drop list_emb_append2 append_take_drop_id subseq_order.refl)
  consider (double) "is_quote c" "quote = NUL \<or> quote = c" "quote \<noteq> NUL \<and> pair_peek s = c \<and> s \<noteq> []"
    | (quote) "is_quote c" "quote = NUL \<or> quote = c" "\<not> (quote \<noteq> NUL \<and> pair_peek s = c \<and> s \<noteq> [])"
    | (point) "\<not> (is_quote c \<and> (quote = NUL \<or> quote = c))" "quote = NUL \<and> c = CHR ''.'' \<and> d"
    | (other) "\<not> (is_quote c \<and> (quote = NUL \<or> quote = c))" "\<not> (quote = NUL \<and> c = CHR ''.'' \<and> d)"
    by blast
  then show ?case
  proof cases
    case double
    then obtain x r where s: "s = x # r" by (cases s) auto
    have "numeric_blanks quote d ((c, k) # s) = (c, k) # x # numeric_blanks quote False r"
      unfolding numeric_blanks.simps using double s by auto
    moreover have "subseq (numeric_blanks quote False r) r" using "2.IH"(1) double s by auto
    ultimately show ?thesis unfolding s by (auto intro!: subseq_Cons2)
  next
    case quote
    have "numeric_blanks quote d ((c, k) # s) = (c, k) # numeric_blanks (if quote = NUL then c else NUL) False s"
      unfolding numeric_blanks.simps using quote by auto
    moreover have "subseq (numeric_blanks (if quote = NUL then c else NUL) False s) s" using "2.IH"(2) quote by auto
    ultimately show ?thesis by (auto intro!: subseq_Cons2)
  next
    case point
    let ?s = "if exponent_at (pair_skip s) then pair_skip s else s"
    have "numeric_blanks quote d ((c, k) # s) = (c, k) # numeric_blanks quote False ?s"
      unfolding numeric_blanks.simps using point by auto
    moreover have "subseq (numeric_blanks quote False ?s) ?s" using "2.IH"(3) point by auto
    moreover have "subseq ?s s" using skip by auto
    ultimately show ?thesis using subseq_order.trans by (metis subseq_Cons2)
  next
    case other
    have "numeric_blanks quote d ((c, k) # s) = (c, k) # numeric_blanks quote (isdigit c) s"
      unfolding numeric_blanks.simps using other by auto
    moreover have "subseq (numeric_blanks quote (isdigit c) s) s" using "2.IH"(4) other by auto
    ultimately show ?thesis by (auto intro!: subseq_Cons2)
  qed
qed simp

lemma fixed_body_columns:
  assumes "line_at src b raw"
  shows "columns_of src b (fixed_body raw)" "x \<in> set (fixed_body raw) \<Longrightarrow> 7 \<le> snd x \<and> snd x \<le> length raw"
proof -
  define body where "body = strip_comment (take 126 (drop 6 raw))"
  let ?z = "zip body [7..<7 + length body]"
  have "prefix body (take 126 (drop 6 raw))" unfolding body_def by (rule strip_comment_prefix)
  then have body: "prefix body (drop 6 raw)" using take_is_prefix prefix_order.trans by blast
  have elem: "7 \<le> k \<and> k \<le> length raw \<and> c = raw ! (k - 1)" if x: "(c, k) \<in> set ?z" for c k
  proof -
    obtain i where i: "i < length body" "c = body ! i" "k = 7 + i" using x by (auto simp: in_set_zip)
    obtain v where v: "drop 6 raw = body @ v" using body by (auto simp: prefix_def)
    then have "length raw - 6 = length body + length v" by (metis length_append length_drop)
    moreover have "drop 6 raw ! i = body ! i" using v i by (simp add: nth_append)
    ultimately show ?thesis using i by (simp add: nth_drop)
  qed
  have "columns_of src b ?z"
    unfolding columns_of_def
  proof (intro conjI ballI)
    show "sorted_wrt (<) (map snd ?z)" by simp
    fix x assume member: "x \<in> set ?z"
    obtain c k where x: "x = (c, k)" by (cases x)
    note e = elem [OF member [unfolded x]]
    have "raw ! (k - 1) = fst src ! (b + (k - 1))" using e by (intro line_at_bound(2) [OF assms]) linarith
    moreover have "b + (k - 1) = b + k - 1" "raw \<noteq> []" using e by auto
    ultimately show "case x of (c, k) \<Rightarrow> 0 < k \<and> b + k \<le> length (fst src) \<and> c = fst src ! (b + k - 1)"
      using e line_at_bound(1) [OF assms] by (simp add: x)
  qed
  moreover have sub: "subseq (fixed_body raw) ?z"
    unfolding fixed_body_def Let_def body_def [symmetric] by (rule numeric_blanks_subseq)
  ultimately show "columns_of src b (fixed_body raw)" by (rule columns_of_subseq [rotated])
  assume "x \<in> set (fixed_body raw)"
  then have "x \<in> set ?z" using subseq_set [OF sub] by blast
  then show "7 \<le> snd x \<and> snd x \<le> length raw" using elem [of "fst x" "snd x"] by simp
qed

lemma trim_space_prefix: "prefix (trim_space s) (skip_space s)"
proof -
  let ?r = "rev (skip_space s)"
  have "rev (dropWhile isspace ?r) @ rev (takeWhile isspace ?r) = skip_space s" by (simp flip: rev_append)
  then show ?thesis unfolding trim_space_def by (metis prefixI)
qed

lemma skip_space_drop: "skip_space s = drop (length s - length (skip_space s)) s"
  using skip_space_suffix [of s] by auto

lemma skip_space_takeWhile: "skip_space s = drop (length (takeWhile isspace s)) s"
  by (induction s) auto

text \<open>A part of a line with the number of characters before it.\<close>

definition part_of :: "string \<Rightarrow> nat \<times> string \<Rightarrow> bool" where
  "part_of raw x \<longleftrightarrow> prefix (snd x) (drop (fst x) raw)"

lemma part_of_prefix: "part_of raw (n, s) \<Longrightarrow> prefix u s \<Longrightarrow> part_of raw (n, u)"
  unfolding part_of_def by (auto intro: prefix_order.trans)

lemma part_of_drop: "part_of raw (n, s) \<Longrightarrow> part_of raw (n + k, drop k s)"
proof -
  assume "part_of raw (n, s)"
  then obtain v where v: "drop n raw = s @ v" by (auto simp: part_of_def prefix_def)
  have "drop (n + k) raw = drop k (drop n raw)" by (simp add: add.commute)
  then show ?thesis unfolding part_of_def v by simp
qed

lemma trim_part_part_of: "part_of raw x \<Longrightarrow> part_of raw (trim_part x)"
proof -
  assume "part_of raw x"
  then have "part_of raw (fst x + (length (snd x) - length (skip_space (snd x))), skip_space (snd x))"
    using part_of_drop [of raw "fst x" "snd x"] skip_space_drop [of "snd x"] by (metis prod.collapse)
  then show ?thesis unfolding trim_part_def using trim_space_prefix by (rule part_of_prefix)
qed

lemma free_body_part_of: "part_of raw (fst (free_body continued raw))"
proof -
  define x where "x = trim_part (0, strip_comment raw)"
  define y where "y = (if continued \<and> peek (snd x) = CHR ''&'' then trim_part (fst x + 1, tl (snd x)) else x)"
  have "part_of raw (0, strip_comment raw)" using strip_comment_prefix by (simp add: part_of_def)
  then have x: "part_of raw x" unfolding x_def by (rule trim_part_part_of)
  have "part_of raw (fst x + 1, tl (snd x))" using part_of_drop [of raw "fst x" "snd x" 1] x by (simp add: drop_Suc)
  then have y: "part_of raw y" unfolding y_def using x by (auto intro: trim_part_part_of)
  obtain marked in_literal where m: "trailing_free_continuation (snd y) = (marked, in_literal)" by fastforce
  have "part_of raw (fst y, butlast (snd y))"
    by (rule part_of_prefix [of raw "fst y" "snd y"]) (use y in \<open>simp_all add: prefixeq_butlast\<close>)
  then have "part_of raw (if marked then trim_part (fst y, butlast (snd y)) else y)"
    using y by (auto intro: trim_part_part_of)
  then show ?thesis
    by (cases marked) (simp_all add: free_body_def Let_def x_def [symmetric] y_def [symmetric] m)
qed


section \<open>Pushed lines\<close>

text \<open>
  A line that is pushed is not empty and has no white space at its ends; its text is drawn from the
  source, its map gives every character the origin of its place, and its number is the line that its
  first character comes from.
\<close>

definition traced_line :: "preprocessed_source \<Rightarrow> line \<Rightarrow> bool" where
  "traced_line src x \<longleftrightarrow> line_text x \<noteq> [] \<and> \<not> isspace (hd (line_text x)) \<and> \<not> isspace (last (line_text x)) \<and>
     (\<exists>cs. map fst cs = line_text x \<and> drawn (fst src) cs (length (fst src)) \<and> traces src cs (line_source_map x)) \<and>
     (\<exists>at. origin (line_source_map x) 0 = Some at \<and> position_line (fst at) = line_number x)"

lemma push_mapped_line_frame:
  "push_mapped_line c s number items = Inr c' \<Longrightarrow>
    \<exists>x. pushed_lines c' = pushed_lines c @ [x] \<and> line_text x = s \<and> line_number x = number \<and> line_source_map x = items"
  by (auto simp: push_mapped_line_def Let_def split: if_splits option.splits)

lemma origin_first:
  assumes "map_ok ss" "origin ss 0 = Some at"
  shows "ss \<noteq> [] \<and> position_line (fst at) = position_line (expansion (hd ss))"
proof (cases ss)
  case Nil
  then show ?thesis using assms by simp
next
  case (Cons s r)
  have ok: "segment_ok s" "\<forall>t \<in> set r. logical_begin s + segment_length s \<le> logical_begin t"
    using assms(1) by (simp_all add: Cons map_ok_Cons)
  have pos: "0 < segment_length s" using ok(1) by (simp add: segment_ok_def)
  have "\<not> covers t 0" if "t \<in> set r" for t
    using ok(2) that pos by (fastforce simp: covers_def)
  then have "origin r 0 = None" by (simp add: origin_None_iff)
  then have "covers s 0" using assms(2) by (auto simp: Cons origin_def split: if_splits)
  then have "at = segment_origin s 0" using assms(2) by (simp add: Cons origin_def)
  then show ?thesis by (simp add: Cons segment_origin_def move_column_def)
qed

lemma trim_space_ends:
  assumes "trim_space s \<noteq> []"
  shows "\<not> isspace (hd (trim_space s))" "\<not> isspace (last (trim_space s))"
proof -
  let ?r = "rev (skip_space s)"
  have r: "dropWhile isspace ?r \<noteq> []" using assms by (simp add: trim_space_def)
  then have "\<not> isspace (hd (dropWhile isspace ?r))" by (rule hd_dropWhile)
  then show "\<not> isspace (last (trim_space s))" using r by (simp add: trim_space_def last_rev)
  obtain v where v: "skip_space s = trim_space s @ v" using trim_space_prefix by (auto simp: prefix_def)
  then have "peek (skip_space s) = hd (trim_space s)" using assms by (cases "trim_space s") auto
  then show "\<not> isspace (hd (trim_space s))" using skip_space_not_space [of s] by simp
qed

lemma drawn_place: "drawn t cs n \<Longrightarrow> i < length cs \<Longrightarrow> snd (cs ! i) < length t"
proof (induction cs arbitrary: i)
  case (Cons x cs)
  then show ?case by (cases x; cases i) auto
qed simp

lemma traces_known:
  assumes "well_mapped src" "drawn (fst src) cs n" "traces src cs ss" "i < length cs"
  shows "known ss i"
proof -
  have "known (segments (snd src)) (snd (cs ! i))"
    using assms(1) drawn_place [OF assms(2,4)] by (simp add: well_mapped_def)
  then show ?thesis using assms(3,4) by (simp add: traces_def known_iff)
qed

lemma traces_bound:
  assumes "well_mapped src" "drawn (fst src) cs n" "traces src cs ss" "cs \<noteq> []"
  shows "length cs \<le> SIZE_MAX"
proof (rule pred_less)
  have "known ss (length cs - 1)" using assms by (intro traces_known [OF assms(1-3)]) simp
  then show "length cs - 1 < SIZE_MAX" using assms(3) unfolding traces_def by (intro known_bound) simp_all
qed

text \<open>One statement: a part of the text with the slice of the map.\<close>

lemma traced_part:
  assumes "well_mapped src" "map fst cs = content" "drawn (fst src) cs n" "traces src cs ss"
    and "part = take (length part) (drop a content)" "part \<noteq> []" "\<not> isspace (hd part)" "\<not> isspace (last part)"
    and "source_map_slice mem ss a (length part) = Some items"
    and "line_text x = part" "line_source_map x = items" "line_number x = position_line (expansion (hd items))"
  shows "traced_line src x"
proof -
  let ?k = "length part"
  let ?cs = "take ?k (drop a cs)"
  have len: "length cs = length content" using assms(2) by (metis length_map)
  have "length part = min ?k (length content - a)" using arg_cong [OF assms(5), of length] by (simp add: min.commute)
  moreover have pos: "0 < ?k" using assms(6) by simp
  ultimately have bound: "a + ?k \<le> length cs" using len by linarith
  have text_of: "map fst ?cs = part" using assms(2,5) by (metis take_map drop_map)
  have "last part = content ! (a + ?k - 1)"
  proof -
    have "last part = part ! (?k - 1)" using assms(6) by (rule last_conv_nth)
    also have "\<dots> = take ?k (drop a content) ! (?k - 1)" using assms(5) by simp
    also have "\<dots> = content ! (a + (?k - 1))" using bound pos len by (simp add: nth_drop)
    also have "a + (?k - 1) = a + ?k - 1" using pos by linarith
    finally show ?thesis .
  qed
  moreover have "fst (cs ! (a + ?k - 1)) = content ! (a + ?k - 1)"
    using nth_map [of "a + ?k - 1" cs fst] bound pos by (simp only: assms(2))
  moreover have "isspace CHR '' ''" by (simp add: char_class)
  ultimately have "fst (cs ! (a + ?k - 1)) \<noteq> CHR '' ''" using assms(8) by auto
  then have dr: "drawn (fst src) ?cs (length (fst src))" using drawn_part [OF assms(3) bound pos] by blast
  obtain m where m: "source_map_append_slice mem source_map_discard 0 ss a ?k = (True, m)" "items = segments m"
    using assms(9) by (auto simp: source_map_slice_def split: if_splits prod.splits bool.splits)
  have fresh: "map_ok (segments source_map_discard)" "ends_by (segments source_map_discard) 0"
    by (simp_all add: source_map_discard_def map_ok_def ends_by_def)
  have small: "?k \<le> SIZE_MAX"
    using traces_bound [OF assms(1,3,4)] bound pos by (cases cs) simp_all
  have ss: "map_ok ss" using assms(4) by (simp add: traces_def)
  note slice = copied_slice [OF m(1) ss fresh small]
  have tr: "traces src ?cs items"
    unfolding traces_def m(2)
  proof (intro conjI allI impI)
    show "map_ok (segments m)" by (rule slice(1))
    show "ends_by (segments m) (length ?cs)" using slice(2) bound by (simp add: min_absorb2)
    fix i assume "i < length ?cs"
    then have i: "i < ?k" "a + i < length cs" using bound by auto
    then have "origin (segments m) i = origin ss (a + i)" using slice(3) [of i] by (simp add: add.commute)
    then show "origin (segments m) i = origin (segments (snd src)) (snd (?cs ! i))"
      using assms(4) i by (simp add: traces_def)
  qed
  have "known items 0" using traces_known [OF assms(1) dr tr, of 0] bound pos by simp
  then obtain at where "origin items 0 = Some at" by (auto simp: known_iff)
  moreover from this have "position_line (fst at) = position_line (expansion (hd items))"
    using origin_first [OF slice(1), folded m(2)] by blast
  ultimately show ?thesis
    unfolding traced_line_def assms(10-12) using assms(6-8) text_of dr tr by auto
qed

text \<open>All statements of a text.\<close>

lemma push_statements_traced:
  assumes "push_statements_from c l number start_at s = Inr c'"
    and "well_mapped src" "map fst cs = buffer_text (logical_text l)" "drawn (fst src) cs n"
    and "traces src cs (segments (logical_map l))"
    and "suffix start_at (buffer_text (logical_text l))" "suffix (stream_cursor s) start_at"
  shows "\<exists>ls. pushed_lines c' = pushed_lines c @ ls \<and> list_all (traced_line src) ls"
  using assms
proof (induction c l number start_at s arbitrary: c' rule: push_statements_from.induct)
  case (1 c l number start_at s)
  define s' t content piece part a items where defs:
    "s' = token_stream_next s" "t = stream_token s'" "content = buffer_text (logical_text l)"
    "piece = span_text start_at (token_begin t)" "part = trim_space piece"
    "a = length content - length (skip_space piece) - length (token_begin t)"
    "items = (case source_map_slice (memory (shared c)) (segments (logical_map l)) a (length part) of
       None \<Rightarrow> [] | Some items \<Rightarrow> items)"
  define number' where "number' = (if part \<noteq> [] \<and> items \<noteq> [] then position_line (expansion (hd items)) else number)"
  define next_start where "next_start = drop (a + length part + token_length t) content"
  obtain pre where pre: "content = pre @ start_at" using "1.prems"(6) by (auto simp: defs suffix_def)
  obtain gap0 where gap0: "start_at = gap0 @ stream_cursor s" using "1.prems"(7) by (auto simp: suffix_def)
  have step: "push_statements_from c l number start_at s =
    (if kind t \<noteq> TOKEN_SEMICOLON \<and> kind t \<noteq> TOKEN_END then push_statements_from c l number start_at s'
     else if \<not> memory (shared c) (length part + 1) then Inl c
     else if part \<noteq> [] \<and> segments (logical_map l) \<noteq> [] \<and> items = [] then Inl c
     else case (if part = [] then Inr c else push_mapped_line c part number' items) of
            Inl c \<Rightarrow> Inl c
          | Inr c \<Rightarrow> if kind t = TOKEN_END then Inr c else push_statements_from c l number' next_start s')"
    unfolding defs number'_def next_start_def by (subst push_statements_from.simps) (simp only: Let_def)
  have not_end: "\<exists>gap w. stream_cursor s = gap @ w @ stream_cursor s' \<and> token_begin t = w @ stream_cursor s' \<and>
      token_length t = length w" if "kind t \<noteq> TOKEN_END"
    using next_token_split [of s] that unfolding defs by metis
  show ?case
  proof (cases "kind t \<noteq> TOKEN_SEMICOLON \<and> kind t \<noteq> TOKEN_END")
    case True
    obtain gap w where "stream_cursor s = gap @ w @ stream_cursor s'" using not_end True by blast
    then have "suffix (stream_cursor s') start_at" using gap0 by (auto simp: suffix_def)
    moreover have "push_statements_from c l number start_at s' = Inr c'" using "1.prems"(1) step True by simp
    ultimately show ?thesis
      using "1.IH"(1) [OF refl refl refl refl refl refl refl refl refl] True "1.prems"(2-6) unfolding defs by blast
  next
    case False
    obtain gap where "stream_cursor s = gap @ token_begin t"
    proof (cases "kind t = TOKEN_END")
      case True
      show thesis by (rule next_end_split [of s]) (use True that in \<open>simp_all add: defs(1,2)\<close>)
    next
      case False
      then obtain gap w where "stream_cursor s = gap @ w @ stream_cursor s'" "token_begin t = w @ stream_cursor s'"
        using not_end by blast
      then show thesis by (intro that [of gap]) simp
    qed
    then have start_at: "start_at = (gap0 @ gap) @ token_begin t" using gap0 by simp
    then have piece: "piece = gap0 @ gap" unfolding defs by (simp only: span_text_append)
    have content: "content = pre @ piece @ token_begin t" using pre start_at piece by simp
    have a: "a = length pre + (length piece - length (skip_space piece))"
      using skip_space_length [of piece] unfolding defs(6) content by simp
    obtain v where v: "skip_space piece = part @ v" unfolding defs using trim_space_prefix by (auto simp: prefix_def)
    obtain u where u: "piece = u @ skip_space piece" using skip_space_split by blast
    have lu: "length u = length piece - length (skip_space piece)" using arg_cong [OF u, of length] by simp
    have at: "content = (pre @ u) @ part @ v @ token_begin t"
    proof -
      have "piece = u @ part @ v" using u unfolding v .
      with content show ?thesis by simp
    qed
    have au: "a = length (pre @ u)" using a lu by simp
    have part_at: "part = take (length part) (drop a content)" unfolding at au by simp
    have next_line: "kind t \<noteq> TOKEN_END \<Longrightarrow> suffix (stream_cursor s') next_start \<and> suffix next_start content"
    proof -
      assume "kind t \<noteq> TOKEN_END"
      then obtain w where w: "token_begin t = w @ stream_cursor s'" "token_length t = length w" using not_end by blast
      have "next_start = drop (length (pre @ u @ part @ w)) ((pre @ u @ part @ v @ w) @ stream_cursor s')"
        unfolding next_start_def at au w by (simp add: add.assoc)
      then have "next_start = drop (length (pre @ u @ part @ w)) (pre @ u @ part @ v @ w) @ stream_cursor s'" by simp
      then have "suffix (stream_cursor s') next_start" by (rule suffixI)
      moreover have "suffix next_start content" unfolding next_start_def by (rule suffix_drop)
      ultimately show ?thesis by blast
    qed
    have mem: "memory (shared c) (length part + 1)"
      using "1.prems"(1) step False by (auto split: if_splits)
    obtain c1 ls where c1: "pushed_lines c1 = pushed_lines c @ ls" "list_all (traced_line src) ls"
      "(if kind t = TOKEN_END then Inr c1 else push_statements_from c1 l number' next_start s') = Inr c'"
      "(if part = [] then Inr c else push_mapped_line c part number' items) = Inr c1"
    proof (cases "part = []")
      case True
      then have "(if kind t = TOKEN_END then Inr c else push_statements_from c l number' next_start s') = Inr c'"
        using "1.prems"(1) step False mem by auto
      then show thesis using True by (intro that [of c "[]"]) simp_all
    next
      case part: False
      have "cs \<noteq> []" using "1.prems"(3) at part unfolding defs(3) [symmetric] by auto
      then have "known (segments (logical_map l)) 0"
        using traces_known [OF "1.prems"(2,4,5)] by simp
      then have "segments (logical_map l) \<noteq> []" by (auto simp: known_def)
      then have items: "items \<noteq> []" using "1.prems"(1) step False mem part by (auto split: if_splits)
      then have slice: "source_map_slice (memory (shared c)) (segments (logical_map l)) a (length part) = Some items"
        unfolding defs(7) by (auto split: option.splits)
      obtain c1 where c1: "push_mapped_line c part number' items = Inr c1"
        "(if kind t = TOKEN_END then Inr c1 else push_statements_from c1 l number' next_start s') = Inr c'"
        using "1.prems"(1) step False mem part items by (auto split: if_splits sum.splits)
      obtain x where x: "pushed_lines c1 = pushed_lines c @ [x]" "line_text x = part" "line_number x = number'"
        "line_source_map x = items" using push_mapped_line_frame [OF c1(1)] by blast
      have number: "line_number x = position_line (expansion (hd items))" using x(3) part items by (simp add: number'_def)
      have "traced_line src x"
        using trim_space_ends [of piece] part
        by (intro traced_part [OF "1.prems"(2) "1.prems"(3) [folded defs(3)] "1.prems"(4,5) part_at part _ _ slice x(2,4) number])
          (simp_all add: defs(5))
      then show thesis using x(1) c1 part by (intro that [of c1 "[x]"]) simp_all
    qed
    show ?thesis
    proof (cases "kind t = TOKEN_END")
      case True
      then show ?thesis using c1 by auto
    next
      case not_at_end: False
      have rest: "push_statements_from c1 l number' next_start s' = Inr c'" using c1(3) not_at_end by simp
      have sliced: "\<not> (part \<noteq> [] \<and> segments (logical_map l) \<noteq> [] \<and> items = [])"
        using "1.prems"(1) step False mem by (auto split: if_splits)
      have "\<not> \<not> memory (shared c) (length part + 1)" using mem by simp
      note ih = False this sliced c1(4) not_at_end rest "1.prems"(2-5)
        next_line [OF not_at_end, THEN conjunct2] next_line [OF not_at_end, THEN conjunct1]
      have "\<exists>ls. pushed_lines c' = pushed_lines c1 @ ls \<and> list_all (traced_line src) ls"
        by (rule "1.IH"(2) [OF refl refl refl refl refl refl refl refl refl];
            rule ih [unfolded number'_def next_start_def, unfolded defs(7), unfolded defs(6), unfolded defs(5),
              unfolded defs(4), unfolded defs(3), unfolded defs(2), unfolded defs(1)])
      then show ?thesis using c1(1,2) by auto
    qed
  qed
qed

section \<open>The lines of a source\<close>

lemma append_logical_traced:
  assumes "append_logical_line c l number = Inr (c', l')" "well_mapped src" "settled src n l"
  shows "(\<exists>ls. pushed_lines c' = pushed_lines c @ ls \<and> list_all (traced_line src) ls) \<and>
    buffer_text (logical_text l') = [] \<and> settled src k l'"
proof (cases "buffer_text (logical_text l) = []")
  case True
  obtain cs where cs: "map fst cs = buffer_text (logical_text l)" "traces src cs (segments (logical_map l))"
    using assms(3) by (auto simp: settled_def)
  then have "cs = []" using True by simp
  then have "settled src k l" using cs unfolding settled_def by (intro exI [of _ "[]"]) simp
  then show ?thesis using assms(1) True by (auto simp: append_logical_line_def)
next
  case False
  obtain cs where cs: "map fst cs = buffer_text (logical_text l)" "traces src cs (segments (logical_map l))"
    "drawn (fst src) cs n" using assms(3) by (auto simp: settled_def)
  define content where "content = normalize_code_case (buffer_text (logical_text l))"
  define cs' where "cs' = zip content (map snd cs)"
  let ?l = "l\<lparr>logical_text := (logical_text l)\<lparr>buffer_text := content\<rparr>\<rparr>"
  have low: "list_all2 lowered (map fst cs) content"
    unfolding cs(1) content_def by (rule normalize_code_case_lowered)
  then have len: "length content = length cs" by (metis length_map list_all2_lengthD)
  have d: "drawn (fst src) cs' n" "map fst cs' = content"
    using drawn_lowered [OF cs(3) low] unfolding cs'_def by blast+
  have "traces src cs' (segments (logical_map l))"
    using cs(2) len by (simp add: traces_def cs'_def)
  then have t: "traces src cs' (segments (logical_map ?l))" by simp
  obtain c1 where c1: "push_statements_from c ?l number content (token_stream_init (Some content) number 1) = Inr c1"
      "c' = c1" "l' = source_buffer_discard"
    using assms(1) False
    by (cases "push_statements_from c ?l number content (token_stream_init (Some content) number 1)")
      (simp_all add: append_logical_line_def Let_def content_def)
  have "\<exists>ls. pushed_lines c1 = pushed_lines c @ ls \<and> list_all (traced_line src) ls"
    by (rule push_statements_traced [OF c1(1) assms(2) _ d(1) t])
      (use d(2) in \<open>simp_all add: token_stream_init_def Let_def\<close>)
  then show ?thesis using c1 by (simp add: source_buffer_discard_def empty_buffer_def settled_discard [unfolded source_buffer_discard_def empty_buffer_def])
qed

definition traced_so_far :: "preprocessed_source \<Rightarrow> normalizer \<Rightarrow> nat \<Rightarrow> line_progress \<Rightarrow> bool" where
  "traced_so_far src c n g \<longleftrightarrow> settled src n (progress_logical g) \<and>
     (\<exists>ls. pushed_lines (progress_context g) = pushed_lines c @ ls \<and> list_all (traced_line src) ls)"

lemma traced_later: "traced_so_far src c n g \<Longrightarrow> n \<le> k \<Longrightarrow> traced_so_far src c k g"
  using settled_later unfolding traced_so_far_def by blast

lemma start_statement_traced:
  assumes "start_statement g ln = Inr h" "well_mapped src" "traced_so_far src c n g"
  shows "traced_so_far src c k h" "buffer_text (logical_text (progress_logical h)) = []"
proof -
  obtain c1 l1 where r: "append_logical_line (progress_context g) (progress_logical g) (logical_number g) = Inr (c1, l1)"
      "h = g\<lparr>progress_context := c1, progress_logical := l1, logical_number := ln\<rparr>"
    using assms(1) by (cases "append_logical_line (progress_context g) (progress_logical g) (logical_number g)")
      (auto simp: start_statement_def)
  have "settled src n (progress_logical g)" using assms(3) by (simp add: traced_so_far_def)
  note a = append_logical_traced [OF r(1) assms(2) this]
  show "traced_so_far src c k h" using a [of k] assms(3) by (fastforce simp: traced_so_far_def r(2))
  show "buffer_text (logical_text (progress_logical h)) = []" using a by (simp add: r(2))
qed

lemma label_ready:
  assumes "append_label mem l src b ln raw column = Some l'" "well_mapped src" "line_at src b raw"
    and "buffer_text (logical_text l) = []" "settled src n l" "n \<le> b" "7 \<le> column" "column \<le> length raw"
  shows "ready src (b + column - 1) l'"
proof -
  define label start_at where "label = trim_space (take 5 raw)" and "start_at = length (takeWhile isspace (take 5 raw))"
  have raw: "b + length raw \<le> length (fst src)" using line_at_bound(1) [OF assms(3)] assms(7,8) by auto
  show ?thesis
  proof (cases "label = []")
    case True
    then have "l' = l" using assms(1) separator_empty [OF assms(4)]
      unfolding append_label_def Let_def label_def [symmetric] by simp
    then show ?thesis using settled_ready [OF assms(5)] assms(6,7) by simp
  next
    case False
    obtain l1 where l1: "append_mapped mem l label src (b + start_at) ln (start_at + 1) = Some l1"
      "append_separator mem l1 src (b + column - 1) ln column = Some l'"
      using assms(1) separator_empty [OF assms(4)] False
      unfolding append_label_def Let_def label_def [symmetric] start_at_def [symmetric] by (auto split: option.splits)
    have prefix: "prefix label (drop start_at (take 5 raw))"
      unfolding label_def start_at_def using trim_space_prefix skip_space_takeWhile by metis
    then obtain v where v: "drop start_at (take 5 raw) = label @ v" by (auto simp: prefix_def)
    have len: "start_at + length label \<le> 5"
      using arg_cong [OF v, of length] False by (cases label) auto
    have "same_letter (label ! i) (fst src ! (b + start_at + i))" if i: "i < length label" for i
    proof -
      have "label ! i = drop start_at (take 5 raw) ! i" using v i by (simp add: nth_append)
      also have "\<dots> = raw ! (start_at + i)" using i len assms(7,8) by (subst nth_drop) auto
      also have "\<dots> = fst src ! (b + (start_at + i))"
        using i len assms(7,8) by (intro line_at_bound(2) [OF assms(3)]) linarith
      finally show ?thesis by (simp add: add.assoc)
    qed
    moreover have "b + start_at + length label \<le> length (fst src)" using len raw assms(7,8) by linarith
    ultimately have "settled src (b + start_at + length label) l1"
      using settled_ready [OF assms(5), of "b + start_at"] assms(6) False
      by (intro ready_text [OF _ l1(1) assms(2)]) auto
    moreover have "b + start_at + length label \<le> b + column - 1" "b + column - 1 < length (fst src)"
      using len raw assms(7,8) by linarith+
    ultimately show ?thesis by (rule settled_separator [OF _ l1(2) assms(2)])
  qed
qed

lemma fixed_line_traced:
  assumes "fixed_line src b ln raw g = Inr h" "well_mapped src" "line_at src b raw" "embedded_program raw = raw"
    and "traced_so_far src c n g" "n \<le> b"
  shows "traced_so_far src c (b + length raw) h"
proof (cases "comment_mark raw")
  case True
  then have "h = g" using assms(1,4) by (simp add: fixed_line_def Let_def)
  then show ?thesis using traced_later [OF assms(5)] assms(6) by simp
next
  case False
  define mem where "mem = memory (shared (progress_context g))"
  obtain h1 where h1: "(if fixed_continuation_line raw then Inr g else start_statement g ln) = Inr h1"
    "fixed_body raw = [] \<Longrightarrow> h = h1"
    "fixed_body raw \<noteq> [] \<Longrightarrow> \<exists>l l'. (if fixed_continuation_line raw then Some (progress_logical h1)
        else append_label mem (progress_logical h1) src b ln raw (snd (hd (fixed_body raw)))) = Some l \<and>
      append_runs mem l src b ln (fixed_body raw) = Some l' \<and> h = h1\<lparr>progress_logical := l'\<rparr>"
    using assms(1,4) False unfolding fixed_line_def Let_def mem_def
    by (cases "if fixed_continuation_line raw then Inr g else start_statement g ln")
      (auto split: if_splits option.splits sum.splits)
  have g1: "traced_so_far src c n h1" "\<not> fixed_continuation_line raw \<Longrightarrow> buffer_text (logical_text (progress_logical h1)) = []"
    using h1(1) start_statement_traced [OF _ assms(2,5)] assms(5) by (auto split: if_splits)
  show ?thesis
  proof (cases "fixed_body raw = []")
    case True
    then show ?thesis using h1(2) traced_later [OF g1(1)] assms(6) by simp
  next
    case body: False
    let ?s = "fixed_body raw"
    obtain l l' where l: "(if fixed_continuation_line raw then Some (progress_logical h1)
        else append_label mem (progress_logical h1) src b ln raw (snd (hd ?s))) = Some l"
      "append_runs mem l src b ln ?s = Some l'" "h = h1\<lparr>progress_logical := l'\<rparr>" using h1(3) body by blast
    have first: "7 \<le> snd (hd ?s)" "snd (hd ?s) \<le> length raw" "snd (last ?s) \<le> length raw"
      using fixed_body_columns(2) [OF assms(3)] body by auto
    have s1: "settled src n (progress_logical h1)" using g1(1) by (simp add: traced_so_far_def)
    have "ready src (b + snd (hd ?s) - 1) l"
    proof (cases "fixed_continuation_line raw")
      case True
      then show ?thesis using l(1) settled_ready [OF s1] assms(6) first by simp
    next
      case False
      then show ?thesis
        using label_ready [OF _ assms(2,3) g1(2) s1 assms(6) first(1,2)] l(1) by simp
    qed
    then have "settled src (b + snd (last ?s)) l'"
      by (rule runs_settle [OF l(2) fixed_body_columns(1) [OF assms(3)] assms(2) body])
    then have "settled src (b + length raw) l'" using first(3) by (auto intro: settled_later)
    then show ?thesis using g1(1) l(3) by (simp add: traced_so_far_def)
  qed
qed

lemma free_line_traced:
  assumes "free_line src b ln raw g = Inr h" "well_mapped src" "line_at src b raw"
    and "traced_so_far src c n g" "n \<le> b"
  shows "traced_so_far src c (b + length raw) h"
proof -
  obtain a body marked literal where f: "free_body (is_continued g) raw = ((a, body), marked, literal)"
    by (cases "free_body (is_continued g) raw") auto
  define mem where "mem = memory (shared (progress_context g))"
  obtain h1 where start: "(if is_continued g then Inr g else start_statement g ln) = Inr h1"
    using assms(1) unfolding free_line_def Let_def f
    by (cases "if is_continued g then Inr g else start_statement g ln") simp_all
  let ?l = "if body = [] then Some (progress_logical h1)
      else case (if character_continued g then Some (progress_logical h1)
                 else append_separator mem (progress_logical h1) src (b + a) ln (a + 1)) of
        None \<Rightarrow> None
      | Some l \<Rightarrow> append_mapped mem l body src (b + a) ln (a + 1)"
  have "(case ?l of None \<Rightarrow> Inl (progress_context h1)
      | Some l \<Rightarrow> Inr (h1\<lparr>progress_logical := l, is_continued := marked, character_continued := literal\<rparr>)) = Inr h"
    using assms(1) unfolding free_line_def Let_def f prod.case start sum.case mem_def .
  then obtain l where h1: "(if is_continued g then Inr g else start_statement g ln) = Inr h1" "?l = Some l"
      "progress_logical h = l" "progress_context h = progress_context h1"
    using start by (cases ?l) (simp_all only: option.case, auto)
  have g1: "traced_so_far src c n h1"
    using h1(1) start_statement_traced(1) [OF _ assms(2,4)] assms(4) by (auto split: if_splits)
  then have s1: "settled src n (progress_logical h1)" by (simp add: traced_so_far_def)
  have "settled src (b + length raw) l"
  proof (cases "body = []")
    case True
    then show ?thesis using h1(2) s1 assms(5) by (auto intro: settled_later)
  next
    case False
    have part: "prefix body (drop a raw)"
      using free_body_part_of [of raw "is_continued g"] by (simp add: f part_of_def)
    then obtain v where v: "drop a raw = body @ v" by (auto simp: prefix_def)
    have len: "a + length body \<le> length raw" using arg_cong [OF v, of length] False by (cases body) auto
    have raw: "b + length raw \<le> length (fst src)" using line_at_bound(1) [OF assms(3)] len False by auto
    note at = line_at_bound(2) [OF line_at_prefix [OF assms(3) part]]
    obtain l1 where l1: "append_mapped mem l1 body src (b + a) ln (a + 1) = Some l" "ready src (b + a) l1"
    proof (cases "character_continued g")
      case True
      then show thesis using h1(2) False s1 assms(5) by (intro that [of "progress_logical h1"]) (auto intro: settled_ready)
    next
      case sep: False
      then obtain l1 where l1: "append_separator mem (progress_logical h1) src (b + a) ln (a + 1) = Some l1"
        "append_mapped mem l1 body src (b + a) ln (a + 1) = Some l"
        using h1(2) False by (auto split: option.splits)
      have "0 < length body" using False by simp
      then have "n \<le> b + a" "b + a < length (fst src)" using len raw assms(5) by linarith+
      then have "ready src (b + a) l1" by (rule settled_separator [OF s1 l1(1) assms(2)])
      then show thesis using l1(2) by (intro that)
    qed
    have "settled src (b + a + length body) l"
      using at len raw False by (intro ready_text [OF l1(2,1) assms(2)]) auto
    then show ?thesis using len by (auto intro: settled_later)
  qed
  then show ?thesis using g1 h1(3,4) by (simp add: traced_so_far_def)
qed

text \<open>The physical lines of a text.\<close>

function physical_lines :: "cptr \<Rightarrow> string list" where
  "physical_lines s = (if s = [] then [] else line_part s # physical_lines (next_line s))"
  by auto
termination by (relation "measure length") (auto simp: next_line_length)

declare physical_lines.simps [simp del]

lemma normalize_lines_traced:
  assumes "normalize_lines src form ln s g = Inr h" "well_mapped src" "suffix s (fst src)"
    and "form = SOURCE_FIXED \<longrightarrow> (\<forall>raw \<in> set (physical_lines s). embedded_program raw = raw)"
    and "traced_so_far src c (length (fst src) - length s) g"
  shows "traced_so_far src c (length (fst src)) h"
  using assms
proof (induction src form ln s g rule: normalize_lines.induct)
  case (1 src form ln s g)
  show ?case
  proof (cases "s = []")
    case True
    then show ?thesis using "1.prems"(1,5) by (subst (asm) normalize_lines.simps) simp
  next
    case False
    let ?b = "length (fst src) - length s" and ?raw = "line_part s"
    let ?line = "(if form = SOURCE_FIXED then fixed_line else free_line) src ?b (ln + 1) ?raw g"
    obtain h1 where h1: "?line = Inr h1" "normalize_lines src form (ln + 1) (next_line s) h1 = Inr h"
        "memory (shared (progress_context g)) (length ?raw + 1)"
      using "1.prems"(1) False by (subst (asm) normalize_lines.simps) (auto split: if_splits sum.splits)
    obtain pre where pre: "fst src = pre @ s" using "1.prems"(3) by (auto simp: suffix_def)
    have at: "line_at src ?b ?raw"
      using pre line_split [of s] by (auto simp: line_at_def prefix_def intro: exI [of _ "line_rest s"])
    have mem: "form = SOURCE_FIXED \<Longrightarrow> embedded_program ?raw = ?raw"
      "form = SOURCE_FIXED \<longrightarrow> (\<forall>raw \<in> set (physical_lines (next_line s)). embedded_program raw = raw)"
      using "1.prems"(4) False by (simp_all add: physical_lines.simps [of s])
    have g1: "traced_so_far src c (?b + length ?raw) h1"
      using h1(1) fixed_line_traced [OF _ "1.prems"(2) at mem(1) "1.prems"(5) order_refl]
        free_line_traced [OF _ "1.prems"(2) at "1.prems"(5) order_refl] by (auto split: if_splits)
    have split: "length s = length ?raw + length (newline_part (line_rest s)) + length (next_line s)"
      using arg_cong [OF next_line_split [of s], of length] by simp
    then have later: "?b + length ?raw \<le> length (fst src) - length (next_line s)" unfolding pre by simp
    have "suffix (next_line s) s" using next_line_split [of s] by (metis append_assoc suffixI)
    then have suf: "suffix (next_line s) (fst src)" using "1.prems"(3) by (auto intro: suffix_order.trans)
    have "traced_so_far src c (length (fst src) - length (next_line s)) h1"
      using g1 later by (rule traced_later)
    then show ?thesis using "1.IH" [OF False _ h1(1)] h1(2,3) "1.prems"(2) suf mem(2) by simp
  qed
qed

end
