(* ===== verification/Source_Pushed.thy ===== *)
theory Source_Pushed
  imports Source_Trace Preprocess_Map
begin

text \<open>
  The lines that reach the scanner, traced back to the preprocessed text, with a statement in free form
  on two lines where the property applies.
\<close>

text \<open>The statement \<open>GO TO\<close> on two lines, and the map of the preprocessor for it.\<close>

definition sample_text :: string where
  "sample_text = ''GO &'' @ [CHR 0x0A] @ ''TO''"

definition sample_segment :: "nat \<Rightarrow> nat \<Rightarrow> nat \<Rightarrow> segment" where
  "sample_segment begin_at len ln =
     \<lparr>logical_begin = begin_at, segment_length = len, expansion = example_position ln 1,
      spelling = example_position ln 1, expansion_width = len, spelling_width = len,
      expansion_column_step = 1, spelling_column_step = 1, has_spelling = False\<rparr>"

definition sample_source :: preprocessed_source where
  "sample_source = (sample_text, \<lparr>segments = [sample_segment 0 5 3, sample_segment 5 2 4], segment_capacity = 8\<rparr>)"

definition sample_normalizer :: normalizer where
  "sample_normalizer = \<lparr>shared = sample_preprocessor, pushed_lines = [], line_capacity = 0,
     max_logical_lines = 0, option_source_name = Some ''a.F90''\<rparr>"

lemma sample_bodies:
  "free_body False ''GO &'' = ((0, ''GO''), True, False)" "free_body True ''TO'' = ((0, ''TO''), False, False)"
  "normalize_code_case ''GO TO'' = ''go to''"
  by code_simp+

primrec sample_token :: "nat \<Rightarrow> token_stream" where
  "sample_token 0 = token_stream_init (Some ''go to'') 1 1"
| "sample_token (Suc n) = token_stream_next (sample_token n)"

declare sample_token.simps [simp del]

lemma sample_tokens:
  "kind (stream_token (sample_token (Suc 0))) = TOKEN_IDENTIFIER"
  "kind (stream_token (sample_token (Suc (Suc 0)))) = TOKEN_IDENTIFIER"
  "kind (stream_token (sample_token (Suc (Suc (Suc 0))))) = TOKEN_END"
  "token_begin (stream_token (sample_token (Suc (Suc (Suc 0))))) = []"
  by code_simp+

lemma sample_token_next: "token_stream_next (sample_token n) = sample_token (Suc n)"
  by (simp add: sample_token.simps)

lemma sample_token_init: "token_stream_init (Some ''go to'') (Suc 0) (Suc 0) = sample_token 0"
  by (simp add: sample_token.simps)

lemmas line_simps =
  context_source_name_def own_source_name_def start_statement_def append_logical_line_def
  append_mapped_def append_separator_def source_buffer_discard_def push_mapped_line_def
  buffer_append_def buffer_reserve_def grow_buffer.simps empty_buffer_def empty_map_def
  source_map_append_slice_def append_overlap_def source_map_append_def move_column_def segment_end_def
  size_add_def size_sub_def size_mul_def source_map_slice_def source_map_discard_def continues_def
  extend_segment_def same_name_def advanced_column_def reserve_segments_def grow_capacity.simps
  span_text_def trim_space_def Let_def char_class
  sample_segment_def example_position_def

lemma sample_lines_of:
  "line_part sample_text = ''GO &''" "next_line sample_text = ''TO''" "line_part ''TO'' = ''TO''" "next_line ''TO'' = []"
  by code_simp+

lemmas sample_steps =
  push_statements_from.simps [of _ _ _ _ "sample_token 0"]
  push_statements_from.simps [of _ _ _ _ "sample_token (Suc 0)"]
  push_statements_from.simps [of _ _ _ _ "sample_token (Suc (Suc 0))"]
  normalize_lines.simps [of _ _ _ sample_text] normalize_lines.simps [of _ _ _ "''TO''"] normalize_lines.simps [of _ _ _ "[]"]

lemma sample_text_facts: "sample_text \<noteq> []" "length sample_text = 7"
  by (simp_all add: sample_text_def)

lemma statement_run:
  "\<exists>c. normalize_preprocessed sample_normalizer sample_source SOURCE_FREE = Inr c \<and>
     map line_text (pushed_lines c) = [''go to''] \<and> map line_number (pushed_lines c) = [3]"
  unfolding normalize_preprocessed_def sample_source_def sample_normalizer_def sample_preprocessor_def
  by (simp add: sample_steps sample_text_facts sample_lines_of free_line_def sample_bodies sample_token_init sample_token_next
      sample_tokens line_simps)

lemma sample_source_mapped: "well_mapped sample_source"
  by (auto simp: well_mapped_def sample_source_def sample_text_facts map_ok_def segment_ok_def sample_segment_def
      example_position_def known_def covers_def)

text \<open>
  C5: Every line that reaches the scanner comes from the preprocessed text and says where. When the
  statements of a mapped text are split off, in free or fixed form, each pushed line is not empty and
  has no white space at its ends; its characters are, in their order and up to letter case, characters
  of the text, except for the blanks that separate joined parts; its source map gives every character
  the origin that this character has in the text, and its number is the line its first character
  comes from. Lines pushed before stay. In fixed form no comment may hold a program statement, which the
  code moves to other columns.
\<close>
theorem pushed_lines_traced:
  assumes "normalize_preprocessed c source form = Inr c'" "well_mapped source"
    and "form = SOURCE_FIXED \<longrightarrow> (\<forall>raw \<in> set (physical_lines (fst source)). embedded_program raw = raw)"
  shows "\<exists>ls. pushed_lines c' = pushed_lines c @ ls \<and> list_all (traced_line source) ls"
proof -
  obtain p g where g: "normalize_lines source form 0 (fst source)
      \<lparr>progress_context = c\<lparr>shared := p\<rparr>,
       progress_logical = source_buffer_discard\<lparr>logical_source_name := Some (own_source_name c)\<rparr>,
       logical_number = 1, is_continued = False, character_continued = False\<rparr> = Inr g"
    and last_one: "map_sum id fst (append_logical_line (progress_context g) (progress_logical g) (logical_number g)) = Inr c'"
    using assms(1) by (auto simp: normalize_preprocessed_def split: option.splits sum.splits)
  have "traced_so_far source c (length (fst source)) g"
    by (rule normalize_lines_traced [OF g assms(2) _ assms(3)]) (simp_all add: traced_so_far_def)
  then obtain ls where ls: "settled source (length (fst source)) (progress_logical g)"
      "pushed_lines (progress_context g) = pushed_lines c @ ls" "list_all (traced_line source) ls"
    by (auto simp: traced_so_far_def)
  obtain l where "append_logical_line (progress_context g) (progress_logical g) (logical_number g) = Inr (c', l)"
    using last_one by (cases "append_logical_line (progress_context g) (progress_logical g) (logical_number g)") auto
  then obtain ls' where "pushed_lines c' = pushed_lines (progress_context g) @ ls'" "list_all (traced_line source) ls'"
    using append_logical_traced [OF _ assms(2) ls(1)] by metis
  then show ?thesis using ls(2,3) by (intro exI [of _ "ls @ ls'"]) simp
qed

theorem pushed_lines_traced_witness:
  "\<exists>c. normalize_preprocessed sample_normalizer sample_source SOURCE_FREE = Inr c \<and>
     map line_text (pushed_lines c) = [''go to''] \<and> map line_number (pushed_lines c) = [3] \<and>
     list_all (traced_line sample_source) (pushed_lines c)"
proof -
  from statement_run obtain c where c: "normalize_preprocessed sample_normalizer sample_source SOURCE_FREE = Inr c"
    "map line_text (pushed_lines c) = [''go to'']" "map line_number (pushed_lines c) = [3]"
    by (elim exE conjE)
  have "\<exists>ls. pushed_lines c = pushed_lines sample_normalizer @ ls \<and> list_all (traced_line sample_source) ls"
    by (rule pushed_lines_traced [OF c(1) sample_source_mapped]) simp
  then have "list_all (traced_line sample_source) (pushed_lines c)" by (auto simp: sample_normalizer_def)
  with c show ?thesis by (intro exI [of _ c] conjI)
qed

end
