(* ===== verification/Flow_Model.thy ===== *)
theory Flow_Model
  imports F2C_Prelude "HOL-Library.Code_Target_Nat"
begin

text \<open>
  The intermediate representation as the flow analyses read it: symbols and expressions
  (\<open>semantic/model.h\<close>, \<open>ir/expression.h\<close>), statements (\<open>ir/statement.h\<close>) and calls (\<open>ir/call.c\<close>).

  \<^item> A record holds the members that the analyses read; the others are left out.
  \<^item> A pointer to a symbol or statement is that object; identity of pointers is equality of the member
    \<open>symbol_address\<close> or \<open>statement_address\<close>. A pointer that is only compared is the address. NULL is
    \<^const>\<open>None\<close>.
  \<^item> The analyses do not change the representation, so it is a value.
\<close>

section \<open>Symbols\<close>

datatype intent = INTENT_UNSPECIFIED | INTENT_IN | INTENT_OUT | INTENT_INOUT

record symbol =
  symbol_address :: nat
  symbol_name :: string
  is_external :: bool
  procedure_pointer :: bool
  statement_function :: bool
  symbol_intent :: intent
  passed_by_value :: bool
  type_bound :: bool
  type_bound_nopass :: bool
  type_bound_pass_index :: nat
  external_parameter_value :: "bool list"
  external_parameter_intents :: "intent list"
  external_parameter_count :: nat
  scope_begin_line :: nat
  scope_end_line :: nat

text \<open>A resolved procedure: the part of its \<open>Unit\<close> that says which dummy arguments it has.\<close>

record procedure_definition =
  definition_arguments :: "string list"
  definition_symbols :: "symbol list"

definition find_symbol :: "symbol list \<Rightarrow> string \<Rightarrow> symbol option" where
  "find_symbol symbols name = find (\<lambda>s. symbol_name s = name) symbols"

section \<open>Expressions\<close>

datatype expr_kind =
  EXPR_INVALID | EXPR_INTEGER_LITERAL | EXPR_REAL_LITERAL | EXPR_STRING_LITERAL
| EXPR_LOGICAL_LITERAL | EXPR_NAME | EXPR_PARENTHESIZED | EXPR_UNARY | EXPR_BINARY | EXPR_CALL
| EXPR_ARRAY_REFERENCE | EXPR_ARRAY_SECTION | EXPR_ARRAY_CONSTRUCTOR | EXPR_IMPLIED_DO
| EXPR_KEYWORD_ARGUMENT | EXPR_ABSENT_ARGUMENT | EXPR_ALTERNATE_RETURN | EXPR_SUBSTRING
| EXPR_COMPLEX_LITERAL | EXPR_COMPONENT | EXPR_STRUCTURE_CONSTRUCTOR

datatype scalar_type =
  TYPE_UNKNOWN | TYPE_INTEGER | TYPE_REAL | TYPE_DOUBLE | TYPE_COMPLEX | TYPE_DOUBLE_COMPLEX
| TYPE_LOGICAL | TYPE_CHARACTER | TYPE_DERIVED

record expr_fields =
  expr_kind :: expr_kind
  expr_text :: "string option"
  expr_type :: scalar_type
  definable :: bool
  expr_symbol :: "symbol option"
  resolved_procedure :: "procedure_definition option"

datatype expr = Expr (expr_info: expr_fields) (children: "expr option list")

text \<open>\<open>f2c_call_child_parameter\<close> for a call that is not NULL; \<open>SIZE_MAX\<close> is \<^const>\<open>None\<close>.\<close>

definition call_child_parameter :: "expr \<Rightarrow> nat \<Rightarrow> nat option" where
  "call_child_parameter call child =
     (if expr_kind (expr_info call) \<noteq> EXPR_CALL \<or> child \<ge> length (children call) then None
      else case expr_symbol (expr_info call) of
        None \<Rightarrow> Some child
      | Some procedure \<Rightarrow>
          if \<not> type_bound procedure then Some child
          else if child = 0 then
            (if type_bound_nopass procedure \<or> type_bound_pass_index procedure \<ge> external_parameter_count procedure
             then None else Some (type_bound_pass_index procedure))
          else
            (let parameter = child - 1;
                 parameter = (if \<not> type_bound_nopass procedure \<and> parameter \<ge> type_bound_pass_index procedure
                              then parameter + 1 else parameter)
             in if parameter < external_parameter_count procedure then Some parameter else None))"

section \<open>Statements\<close>

datatype statement_kind =
  STMT_INVALID | STMT_EMPTY | STMT_DECLARATION | STMT_END_SELECT | STMT_CASE | STMT_SELECT_CASE
| STMT_ELSEWHERE | STMT_WHERE | STMT_END_WHERE | STMT_TYPE_GUARD | STMT_SELECT_TYPE
| STMT_BLOCK_SCOPE | STMT_END_BLOCK_SCOPE | STMT_END_IF | STMT_END_DO | STMT_ELSE_IF | STMT_ELSE
| STMT_IF | STMT_ARITHMETIC_IF | STMT_DO_WHILE | STMT_DO | STMT_WRITE | STMT_READ | STMT_PRINT
| STMT_OPEN | STMT_REWIND | STMT_BACKSPACE | STMT_ENDFILE | STMT_INQUIRE | STMT_CLOSE
| STMT_ALLOCATE | STMT_DEALLOCATE | STMT_DATA | STMT_CALL | STMT_MOVE_ALLOC | STMT_NULLIFY
| STMT_POINTER_ASSIGNMENT | STMT_RETURN | STMT_STOP | STMT_CYCLE | STMT_EXIT | STMT_CONTINUE
| STMT_FORMAT | STMT_ASSIGN_LABEL | STMT_GOTO | STMT_ASSIGNED_GOTO | STMT_LABEL | STMT_ASSIGNMENT

datatype io_control_kind =
  IO_CONTROL_POSITIONAL | IO_CONTROL_UNKNOWN | IO_CONTROL_UNIT | IO_CONTROL_FMT | IO_CONTROL_NML
| IO_CONTROL_END | IO_CONTROL_EOR | IO_CONTROL_ERR | IO_CONTROL_IOSTAT | IO_CONTROL_IOMSG
| IO_CONTROL_SIZE | IO_CONTROL_ADVANCE | IO_CONTROL_REC | IO_CONTROL_POS | IO_CONTROL_FILE
| IO_CONTROL_STATUS | IO_CONTROL_ACCESS | IO_CONTROL_ACTION | IO_CONTROL_FORM | IO_CONTROL_RECL
| IO_CONTROL_BLANK | IO_CONTROL_DECIMAL | IO_CONTROL_DELIM | IO_CONTROL_ENCODING | IO_CONTROL_PAD
| IO_CONTROL_ROUND | IO_CONTROL_SIGN | IO_CONTROL_ASYNCHRONOUS | IO_CONTROL_ID | IO_CONTROL_NEWUNIT
| IO_CONTROL_IOLENGTH | IO_CONTROL_EXIST | IO_CONTROL_OPENED | IO_CONTROL_NUMBER | IO_CONTROL_NAMED
| IO_CONTROL_NAME | IO_CONTROL_SEQUENTIAL | IO_CONTROL_DIRECT | IO_CONTROL_FORMATTED
| IO_CONTROL_UNFORMATTED | IO_CONTROL_NEXTREC | IO_CONTROL_POSITION | IO_CONTROL_READ
| IO_CONTROL_WRITE | IO_CONTROL_READWRITE

record io_control =
  control_kind :: io_control_kind
  control_value :: "expr option"
  asterisk :: bool
  resolved_formats :: "string list"
  formats_resolved :: bool

record io_item_fields =
  item_expression :: "expr option"
  item_iterator :: "expr option"
  item_initial :: "expr option"
  item_limit :: "expr option"
  item_step :: "expr option"
  implied_do :: bool

datatype io_item = Io_Item (item_info: io_item_fields) (item_children: "io_item list")

record case_range =
  case_lower :: "expr option"
  case_upper :: "expr option"

record statement_fields =
  statement_kind :: statement_kind
  statement_address :: nat
  statement_line :: nat
  statement_name :: "string option"
  statement_arguments :: "expr option list"
  io_controls :: "io_control list"
  io_items :: "io_item list"
  case_ranges :: "case_range list"
  statement_expression :: "expr option"
  statement_left :: "expr option"
  statement_right :: "expr option"
  statement_limit :: "expr option"
  statement_step :: "expr option"
  allocation_character_length :: "expr option"
  statement_procedure :: "procedure_definition option"
  construct_owner :: "nat option"
  control_target :: "nat option"
  terminal_loops :: "nat list"
  statement_labels :: "string list"
  format_validated :: bool
  resolved_branches :: "string list"
  assigned_labels_resolved :: bool
  is_block :: bool
  case_default :: bool
  ownership_analyzed :: bool
  owned_temporaries :: "nat list"

datatype statement = Statement (info: statement_fields) (nested: "statement option")

text \<open>
  \<open>arguments\<close> is either NULL or holds \<open>item_count\<close> entries, and reading it where it is NULL gives
  NULL, so it is the list of its entries.
\<close>

abbreviation kind_of :: "statement \<Rightarrow> statement_kind" where
  "kind_of s \<equiv> statement_kind (info s)"

section \<open>Labels\<close>

text \<open>\<open>ast/statement/label.c\<close>: labels are equal up to leading zeros.\<close>

fun label_canonical :: "string \<Rightarrow> string" where
  "label_canonical (a # b # s) = (if a = CHR ''0'' then label_canonical (b # s) else a # b # s)"
| "label_canonical s = s"

definition labels_equal :: "string \<Rightarrow> string \<Rightarrow> bool" where
  "labels_equal left right \<longleftrightarrow> label_canonical left = label_canonical right"

section \<open>Statements for concrete instances\<close>

definition plain_fields :: "statement_kind \<Rightarrow> nat \<Rightarrow> statement_fields" where
  "plain_fields kind address = \<lparr>statement_kind = kind, statement_address = address, statement_line = address,
     statement_name = None, statement_arguments = [], io_controls = [], io_items = [], case_ranges = [],
     statement_expression = None, statement_left = None, statement_right = None, statement_limit = None,
     statement_step = None, allocation_character_length = None, statement_procedure = None,
     construct_owner = None, control_target = None, terminal_loops = [], statement_labels = [], format_validated = False,
     resolved_branches = [], assigned_labels_resolved = False, is_block = False, case_default = False,
     ownership_analyzed = False, owned_temporaries = []\<rparr>"

definition plain :: "statement_kind \<Rightarrow> nat \<Rightarrow> statement" where
  "plain kind address = Statement (plain_fields kind address) None"

definition name_expr :: "symbol option \<Rightarrow> string \<Rightarrow> expr" where
  "name_expr symbol text = Expr \<lparr>expr_kind = EXPR_NAME, expr_text = Some text, expr_type = TYPE_INTEGER, definable = True,
     expr_symbol = symbol, resolved_procedure = None\<rparr> []"

end
