(* ===== verification/Flow_Graph.thy ===== *)
theory Flow_Graph
  imports Flow_Model "HOL-Library.Monad_Syntax"
begin

text \<open>
  The control-flow graph (\<open>semantic/control_flow.h\<close>) and the two operations that change its edges
  (\<open>append_edge\<close> and \<open>remove_fallthrough_edges\<close> of \<open>semantic/control_flow.c\<close>,
  \<open>append_connection\<close> of \<open>semantic/control_flow/connectivity.c\<close>), against their meaning on the set of edges.

  \<^item> An array with its count is a list; the capacities are kept, so that the reallocation paths are
    the code's. \<open>mem n\<close> says whether an allocation of \<open>n\<close> bytes succeeds.
  \<^item> An operation that returns 0 gives \<^const>\<open>None\<close>; the caller then discards the graph.
\<close>

section \<open>Loops that stop at the first failure\<close>

fun for_each :: "('a \<Rightarrow> 'g \<Rightarrow> 'g option) \<Rightarrow> 'a list \<Rightarrow> 'g \<Rightarrow> 'g option" where
  "for_each f [] g = Some g"
| "for_each f (x # xs) g = do { g \<leftarrow> f x g; for_each f xs g }"

lemma for_each_append: "for_each f (xs @ ys) g = do { g \<leftarrow> for_each f xs g; for_each f ys g }"
  by (induction xs arbitrary: g) (auto split: bind_splits)

lemma for_each_relation:
  assumes "for_each f xs g = Some h" "\<And>g. R g g" "\<And>a b c. R a b \<Longrightarrow> R b c \<Longrightarrow> R a c"
    and "\<And>x a b. x \<in> set xs \<Longrightarrow> f x a = Some b \<Longrightarrow> R a b"
  shows "R g h"
  using assms(1,4)
proof (induction xs arbitrary: g)
  case Nil
  then show ?case using assms(2) by simp
next
  case (Cons x xs)
  from Cons.prems(1) obtain a where a: "f x g = Some a" "for_each f xs a = Some h"
    by (auto split: bind_splits)
  have "R a h" by (rule Cons.IH [OF a(2)]) (auto intro: Cons.prems)
  with Cons.prems(2) [OF _ a(1)] show ?case by (auto intro: assms(3))
qed

lemma for_each_invariant:
  assumes "for_each f xs g = Some h" "P g" "\<And>x a b. x \<in> set xs \<Longrightarrow> P a \<Longrightarrow> f x a = Some b \<Longrightarrow> P b"
  shows "P h"
  using for_each_relation [OF assms(1), of "\<lambda>a b. P a \<longrightarrow> P b"] assms(2,3) by blast

text \<open>A loop whose iterations each add a set to what the state holds.\<close>

lemma for_each_collects:
  assumes "for_each f xs g = Some h" "I g"
    and "\<And>x a b. x \<in> set xs \<Longrightarrow> I a \<Longrightarrow> f x a = Some b \<Longrightarrow> I b \<and> M b = M a \<union> A x"
  shows "I h \<and> M h = M g \<union> (\<Union>x \<in> set xs. A x)"
  using assms
proof (induction xs arbitrary: g)
  case (Cons x xs)
  from Cons.prems(1) obtain a where a: "f x g = Some a" "for_each f xs a = Some h"
    by (auto split: bind_splits)
  have "I a" "M a = M g \<union> A x" using Cons.prems(3) [OF _ Cons.prems(2) a(1)] by simp_all
  moreover have "I h \<and> M h = M a \<union> (\<Union>x \<in> set xs. A x)"
  proof (rule Cons.IH [OF a(2) \<open>I a\<close>])
    show "I c \<and> M c = M b \<union> A y" if "y \<in> set xs" "I b" "f y b = Some c" for y b c
      using that by (intro Cons.prems(3)) simp_all
  qed
  ultimately show ?case by auto
qed simp

text \<open>What one iteration establishes and the later ones keep holds at the end.\<close>

lemma for_each_establishes:
  assumes "for_each f xs g = Some h" "x \<in> set xs"
    and "\<And>a b. f x a = Some b \<Longrightarrow> P b" "\<And>y a b. f y a = Some b \<Longrightarrow> P a \<Longrightarrow> P b"
  shows "P h"
proof -
  obtain us vs where "xs = us @ x # vs" using assms(2) by (meson split_list)
  with assms(1) obtain a b where "f x a = Some b" "for_each f vs b = Some h"
    by (auto simp: for_each_append split: bind_splits)
  with assms(3,4) show ?thesis by (auto intro: for_each_invariant)
qed

section \<open>Data\<close>

datatype edge_kind =
  CFG_EDGE_FALLTHROUGH | CFG_EDGE_BRANCH | CFG_EDGE_LOOP_BACK | CFG_EDGE_LOOP_EXIT
| CFG_EDGE_ALTERNATE_RETURN | CFG_EDGE_IO_END | CFG_EDGE_IO_EOR | CFG_EDGE_IO_ERROR
| CFG_EDGE_RETURN | CFG_EDGE_STOP | CFG_EDGE_PROCEDURE_EXIT

record flow_edge =
  edge_target :: nat
  edge_kind :: edge_kind

datatype node_kind =
  CFG_NODE_STATEMENT | CFG_NODE_LOOP_LATCH | CFG_NODE_PROCEDURE_EXIT | CFG_NODE_IMAGE_TERMINATION

record flow_node =
  successors :: "flow_edge list"
  successor_capacity :: nat
  predecessors :: "flow_edge list"
  predecessor_capacity :: nat
  statement_index :: nat
  block_index :: nat
  node_kind :: node_kind
  node_reachable :: bool

record flow_block =
  block_successors :: "flow_edge list"
  block_successor_capacity :: nat
  block_predecessors :: "flow_edge list"
  block_predecessor_capacity :: nat
  first_node :: nat
  block_node_count :: nat
  block_reachable :: bool

record flow_graph =
  graph_nodes :: "flow_node list"
  statement_count :: nat
  procedure_exit :: nat
  image_termination :: nat
  graph_blocks :: "flow_block list"

abbreviation node_count :: "flow_graph \<Rightarrow> nat" where
  "node_count g \<equiv> length (graph_nodes g)"

abbreviation node_at :: "flow_graph \<Rightarrow> nat \<Rightarrow> flow_node" where
  "node_at g i \<equiv> graph_nodes g ! i"

abbreviation edge_to :: "nat \<Rightarrow> edge_kind \<Rightarrow> flow_edge" where
  "edge_to t k \<equiv> \<lparr>edge_target = t, edge_kind = k\<rparr>"

section \<open>Operations\<close>

text \<open>\<open>sizeof(F2cControlFlowEdge)\<close> is 16 bytes.\<close>

definition append_connection ::
  "(nat \<Rightarrow> bool) \<Rightarrow> flow_edge list \<Rightarrow> nat \<Rightarrow> nat \<Rightarrow> edge_kind \<Rightarrow> (flow_edge list \<times> nat) option" where
  "append_connection mem items capacity target kind =
     (if edge_to target kind \<in> set items then Some (items, capacity)
      else if length items = capacity then
        (let next_capacity = (if capacity = 0 then 2 else capacity * 2 mod (SIZE_MAX + 1))
         in if next_capacity < capacity \<or> next_capacity > SIZE_MAX div 16 then None
            else if \<not> mem (next_capacity * 16) then None
            else Some (items @ [edge_to target kind], next_capacity))
      else Some (items @ [edge_to target kind], capacity))"

definition append_edge ::
  "(nat \<Rightarrow> bool) \<Rightarrow> flow_graph \<Rightarrow> nat \<Rightarrow> nat \<Rightarrow> edge_kind \<Rightarrow> flow_graph option" where
  "append_edge mem graph source target kind =
     (if source \<ge> node_count graph \<or> target \<ge> node_count graph then None
      else
        let node = node_at graph source
        in case append_connection mem (successors node) (successor_capacity node) target kind of
             None \<Rightarrow> None
           | Some (items, capacity) \<Rightarrow>
               Some (graph\<lparr>graph_nodes := (graph_nodes graph)
                       [source := node\<lparr>successors := items, successor_capacity := capacity\<rparr>]\<rparr>))"

definition remove_fallthrough_edges :: "flow_graph \<Rightarrow> nat \<Rightarrow> flow_graph" where
  "remove_fallthrough_edges graph source =
     (if source \<ge> node_count graph then graph
      else graph\<lparr>graph_nodes := (graph_nodes graph)
             [source := (node_at graph source)\<lparr>successors :=
                filter (\<lambda>e. edge_kind e \<noteq> CFG_EDGE_FALLTHROUGH) (successors (node_at graph source))\<rparr>]\<rparr>)"

section \<open>The edges as a relation\<close>

definition has_edge :: "flow_graph \<Rightarrow> nat \<Rightarrow> nat \<Rightarrow> edge_kind \<Rightarrow> bool" where
  "has_edge g u v k \<longleftrightarrow> u < node_count g \<and> edge_to v k \<in> set (successors (node_at g u))"

lemma edge_to_eta [simp]: "edge_to (edge_target e) (edge_kind e) = e"
  by (cases e) simp

lemma append_connection_items:
  assumes "append_connection mem items capacity t k = Some (items', capacity')"
  shows "items' = (if edge_to t k \<in> set items then items else items @ [edge_to t k])"
  using assms by (auto simp: append_connection_def Let_def split: if_splits)

lemma append_connection_set:
  assumes "append_connection mem items capacity t k = Some (items', capacity')"
  shows "set items' = insert (edge_to t k) (set items)" "distinct items \<Longrightarrow> distinct items'"
  using append_connection_items [OF assms] by auto

text \<open>With memory and few edges the operation cannot fail.\<close>

lemma append_connection_succeeds:
  assumes "\<And>n. mem n" "length items \<le> capacity" "capacity \<le> 2 ^ 50"
  obtains items' capacity' where "append_connection mem items capacity t k = Some (items', capacity')"
    "length items' \<le> capacity'" "capacity' \<le> max 2 (2 * capacity)"
proof -
  have m: "capacity * 2 mod (SIZE_MAX + 1) = capacity * 2" using assms(3) by (intro mod_less) simp
  show thesis
    using that assms unfolding append_connection_def m Let_def
    by (cases "edge_to t k \<in> set items"; cases "length items = capacity"; cases "capacity = 0") auto
qed

text \<open>\<open>evolves\<close>: only the successors of nodes have changed.\<close>

definition node_core :: "flow_node \<Rightarrow> flow_node" where
  "node_core n = n\<lparr>successors := [], successor_capacity := 0\<rparr>"

definition graph_core :: "flow_graph \<Rightarrow> flow_graph" where
  "graph_core g = g\<lparr>graph_nodes := map node_core (graph_nodes g)\<rparr>"

definition evolves :: "flow_graph \<Rightarrow> flow_graph \<Rightarrow> bool" where
  "evolves g h \<longleftrightarrow> graph_core h = graph_core g"

lemma evolves_refl [simp, intro]: "evolves g g"
  by (simp add: evolves_def)

lemma evolves_trans: "evolves a b \<Longrightarrow> evolves b c \<Longrightarrow> evolves a c"
  by (simp add: evolves_def)

lemma evolves_fields:
  assumes "evolves g h"
  shows "node_count h = node_count g" "statement_count h = statement_count g"
    "procedure_exit h = procedure_exit g" "image_termination h = image_termination g"
    "graph_blocks h = graph_blocks g"
proof -
  have "map node_core (graph_nodes h) = map node_core (graph_nodes g)"
    using arg_cong [OF assms [unfolded evolves_def], of graph_nodes] by (simp add: graph_core_def)
  then show "node_count h = node_count g" by (rule map_eq_imp_length_eq)
  show "statement_count h = statement_count g" "procedure_exit h = procedure_exit g"
    "image_termination h = image_termination g" "graph_blocks h = graph_blocks g"
    using arg_cong [OF assms [unfolded evolves_def], of statement_count]
      arg_cong [OF assms [unfolded evolves_def], of procedure_exit]
      arg_cong [OF assms [unfolded evolves_def], of image_termination]
      arg_cong [OF assms [unfolded evolves_def], of graph_blocks]
    by (simp_all add: graph_core_def)
qed

lemma evolves_node:
  assumes "evolves g h" "i < node_count g"
  shows "node_core (node_at h i) = node_core (node_at g i)"
proof -
  have "map node_core (graph_nodes h) = map node_core (graph_nodes g)"
    using arg_cong [OF assms(1) [unfolded evolves_def], of graph_nodes] by (simp add: graph_core_def)
  then show ?thesis using assms(2) evolves_fields(1) [OF assms(1)] by (metis nth_map)
qed

lemma evolves_update:
  "node_core n = node_core (node_at g i) \<Longrightarrow> evolves g (g\<lparr>graph_nodes := (graph_nodes g)[i := n]\<rparr>)"
  by (auto simp: evolves_def graph_core_def map_update list_update_same_conv intro!: list_update_id)
    (metis length_map list_update_beyond list_update_id map_update not_less nth_map)

section \<open>Laws\<close>

definition successors_ok :: "flow_graph \<Rightarrow> bool" where
  "successors_ok g \<longleftrightarrow> (\<forall>n \<in> set (graph_nodes g). distinct (successors n) \<and>
     (\<forall>e \<in> set (successors n). edge_target e < node_count g))"

lemma successors_ok_nth:
  "successors_ok g \<longleftrightarrow> (\<forall>i < node_count g. distinct (successors (node_at g i)) \<and>
     (\<forall>e \<in> set (successors (node_at g i)). edge_target e < node_count g))"
  by (simp add: successors_ok_def all_set_conv_all_nth)

lemma append_edge_laws:
  assumes "append_edge mem g u v k = Some h"
  shows "u < node_count g" "v < node_count g" "evolves g h"
    "has_edge h a b c \<longleftrightarrow> has_edge g a b c \<or> (a = u \<and> b = v \<and> c = k)"
    "successors_ok g \<Longrightarrow> successors_ok h"
proof -
  let ?n = "node_at g u"
  show u: "u < node_count g" and v: "v < node_count g"
    using assms by (auto simp: append_edge_def split: if_splits)
  obtain items capacity where c: "append_connection mem (successors ?n) (successor_capacity ?n) v k = Some (items, capacity)"
    and h: "h = g\<lparr>graph_nodes := (graph_nodes g)[u := ?n\<lparr>successors := items, successor_capacity := capacity\<rparr>]\<rparr>"
    using assms by (auto simp: append_edge_def Let_def split: if_splits option.splits)
  show "evolves g h" unfolding h by (rule evolves_update) (simp add: node_core_def)
  show "has_edge h a b c \<longleftrightarrow> has_edge g a b c \<or> (a = u \<and> b = v \<and> c = k)"
    using append_connection_set(1) [OF c] u by (auto simp: h has_edge_def nth_list_update)
  show "successors_ok h" if "successors_ok g"
    using that append_connection_set [OF c] u v
    by (auto simp: successors_ok_nth h nth_list_update)
qed

lemma remove_fallthrough_laws:
  "evolves g (remove_fallthrough_edges g u)"
  "has_edge (remove_fallthrough_edges g u) a b c \<longleftrightarrow> has_edge g a b c \<and> \<not> (a = u \<and> c = CFG_EDGE_FALLTHROUGH)"
  "successors_ok g \<Longrightarrow> successors_ok (remove_fallthrough_edges g u)"
proof -
  show "evolves g (remove_fallthrough_edges g u)"
    by (auto simp: remove_fallthrough_edges_def node_core_def intro!: evolves_update)
  show "has_edge (remove_fallthrough_edges g u) a b c \<longleftrightarrow> has_edge g a b c \<and> \<not> (a = u \<and> c = CFG_EDGE_FALLTHROUGH)"
    by (auto simp: remove_fallthrough_edges_def has_edge_def nth_list_update)
  show "successors_ok g \<Longrightarrow> successors_ok (remove_fallthrough_edges g u)"
    by (auto simp: remove_fallthrough_edges_def successors_ok_nth nth_list_update not_le)
qed

section \<open>The interface that the construction uses\<close>

text \<open>
  A store of edges: edges are added, and the fallthrough edges of a node are dropped. \<open>exits\<close>: the
  node has a way out. The construction drops the fallthrough of a node only to add another edge.
\<close>

locale edge_store =
  fixes edge :: "'g \<Rightarrow> nat \<Rightarrow> nat \<Rightarrow> edge_kind \<Rightarrow> bool"
    and add :: "'g \<Rightarrow> nat \<Rightarrow> nat \<Rightarrow> edge_kind \<Rightarrow> 'g option"
    and dismiss :: "'g \<Rightarrow> nat \<Rightarrow> 'g"
  assumes add_edge: "add g u v k = Some h \<Longrightarrow> edge h a b c \<longleftrightarrow> edge g a b c \<or> (a = u \<and> b = v \<and> c = k)"
    and dismiss_edge: "edge (dismiss g u) a b c \<longleftrightarrow> edge g a b c \<and> \<not> (a = u \<and> c = CFG_EDGE_FALLTHROUGH)"
begin

definition exits :: "'g \<Rightarrow> nat \<Rightarrow> bool" where
  "exits g u \<longleftrightarrow> (\<exists>v k. edge g u v k)"

definition permanent :: "'g \<Rightarrow> 'g \<Rightarrow> bool" where
  "permanent g h \<longleftrightarrow> (\<forall>u v k. edge g u v k \<longrightarrow> k \<noteq> CFG_EDGE_FALLTHROUGH \<longrightarrow> edge h u v k) \<and>
     (\<forall>u. exits g u \<longrightarrow> exits h u)"

lemma permanent_refl [simp, intro]: "permanent g g"
  by (simp add: permanent_def)

lemma permanent_trans: "permanent a b \<Longrightarrow> permanent b c \<Longrightarrow> permanent a c"
  by (auto simp: permanent_def)

lemma permanent_edge: "permanent g h \<Longrightarrow> edge g u v k \<Longrightarrow> k \<noteq> CFG_EDGE_FALLTHROUGH \<Longrightarrow> edge h u v k"
  by (simp add: permanent_def)

lemma permanent_exits: "permanent g h \<Longrightarrow> exits g u \<Longrightarrow> exits h u"
  by (simp add: permanent_def)

lemma add_permanent: "add g u v k = Some h \<Longrightarrow> permanent g h"
  using add_edge by (fastforce simp: permanent_def exits_def)

lemma redirect_permanent:
  assumes "add (dismiss g u) u v k = Some h"
  shows "permanent g h"
  unfolding permanent_def exits_def add_edge [OF assms] dismiss_edge by auto

lemma add_exits: "add g u v k = Some h \<Longrightarrow> exits h u"
  using add_edge by (fastforce simp: exits_def)

end

interpretation cfg: edge_store has_edge "append_edge mem" remove_fallthrough_edges for mem
proof
  show "has_edge h a b c \<longleftrightarrow> has_edge g a b c \<or> (a = u \<and> b = v \<and> c = k)"
    if "append_edge mem g u v k = Some h" for g u v k h a b c
    using that by (rule append_edge_laws(4))
  show "has_edge (remove_fallthrough_edges g u) a b c \<longleftrightarrow> has_edge g a b c \<and> \<not> (a = u \<and> c = CFG_EDGE_FALLTHROUGH)"
    for g u a b c
    by (rule remove_fallthrough_laws(2))
qed

end
