(* ===== verification/Flow_Edges.thy ===== *)
theory Flow_Edges
  imports Flow_Graph
begin

text \<open>
  The edges of the control-flow graph (\<open>semantic/control_flow.c\<close> up to \<open>build_control_transfer_edges\<close>):
  label references, implicit and explicit termination, block constructs, loops with their latches,
  \<open>CYCLE\<close> and \<open>EXIT\<close>. A program unit is the list of its statements. An index that the code returns as
  \<open>SIZE_MAX\<close> is \<^const>\<open>None\<close>.
\<close>

section \<open>Labels\<close>

definition statement_body :: "statement \<Rightarrow> statement" where
  "statement_body s = (case nested s of Some body \<Rightarrow> (if kind_of s = STMT_LABEL then body else s) | None \<Rightarrow> s)"

definition label_index :: "statement list \<Rightarrow> string \<Rightarrow> nat option" where
  "label_index unit label =
     find (\<lambda>index. kind_of (unit ! index) = STMT_LABEL \<and>
         (case statement_name (info (unit ! index)) of None \<Rightarrow> False | Some name \<Rightarrow> labels_equal name label))
       [0..<length unit]"

definition is_unconditional_terminal_transfer :: "statement \<Rightarrow> bool" where
  "is_unconditional_terminal_transfer statement =
     (let body = statement_body statement
      in kind_of body \<in> {STMT_RETURN, STMT_STOP, STMT_ARITHMETIC_IF, STMT_ASSIGNED_GOTO, STMT_CYCLE, STMT_EXIT} \<or>
         (kind_of body = STMT_GOTO \<and> length (statement_labels (info body)) = 0))"

definition append_label_edge ::
  "(nat \<Rightarrow> bool) \<Rightarrow> statement list \<Rightarrow> nat \<Rightarrow> edge_kind \<Rightarrow> string \<Rightarrow> flow_graph \<Rightarrow> flow_graph option" where
  "append_label_edge mem unit source kind label graph =
     (case label_index unit label of None \<Rightarrow> Some graph | Some target \<Rightarrow> append_edge mem graph source target kind)"

text \<open>The label references of one statement, its nested statement apart: label and edge kind, in order.\<close>

definition io_edge_kind :: "io_control_kind \<Rightarrow> edge_kind option" where
  "io_edge_kind kind =
     (if kind = IO_CONTROL_END then Some CFG_EDGE_IO_END
      else if kind = IO_CONTROL_EOR then Some CFG_EDGE_IO_EOR
      else if kind = IO_CONTROL_ERR then Some CFG_EDGE_IO_ERROR
      else None)"

definition io_label :: "io_control \<Rightarrow> (string \<times> edge_kind) option" where
  "io_label control =
     (case (io_edge_kind (control_kind control), Option.bind (control_value control) (expr_text \<circ> expr_info)) of
        (Some kind, Some label) \<Rightarrow> Some (label, kind)
      | _ \<Rightarrow> None)"

definition label_references :: "statement_fields \<Rightarrow> (string \<times> edge_kind) list" where
  "label_references s =
     (case statement_name s of
        Some name \<Rightarrow> if statement_kind s = STMT_GOTO then [(name, CFG_EDGE_BRANCH)] else []
      | None \<Rightarrow> []) @
     (if statement_kind s = STMT_ASSIGNED_GOTO \<and> assigned_labels_resolved s then
        map (\<lambda>label. (label, CFG_EDGE_BRANCH)) (resolved_branches s)
      else if statement_kind s \<in> {STMT_GOTO, STMT_ARITHMETIC_IF, STMT_ASSIGNED_GOTO} then
        map (\<lambda>label. (label, CFG_EDGE_BRANCH)) (statement_labels s)
      else []) @
     (if statement_kind s = STMT_CALL then map (\<lambda>label. (label, CFG_EDGE_ALTERNATE_RETURN)) (statement_labels s)
      else []) @
     (if statement_kind s \<in> {STMT_READ, STMT_WRITE, STMT_OPEN, STMT_REWIND, STMT_BACKSPACE, STMT_ENDFILE,
          STMT_INQUIRE, STMT_CLOSE}
      then List.map_filter io_label (io_controls s) else [])"

fun append_statement_label_edges ::
  "(nat \<Rightarrow> bool) \<Rightarrow> statement list \<Rightarrow> nat \<Rightarrow> statement \<Rightarrow> flow_graph \<Rightarrow> flow_graph option" where
  "append_statement_label_edges mem unit source (Statement s inner) graph =
     do {
       graph \<leftarrow> for_each (\<lambda>(label, kind). append_label_edge mem unit source kind label) (label_references s) graph;
       case inner of
         None \<Rightarrow> Some graph
       | Some statement \<Rightarrow> append_statement_label_edges mem unit source statement graph
     }"

section \<open>Termination of the image and the procedure\<close>

definition statement_has_control :: "statement_fields \<Rightarrow> io_control_kind \<Rightarrow> bool" where
  "statement_has_control s kind \<longleftrightarrow> (\<exists>control \<in> set (io_controls s). control_kind control = kind)"

definition io_statement :: "statement_fields \<Rightarrow> bool" where
  "io_statement s \<longleftrightarrow> statement_kind s \<in> {STMT_READ, STMT_WRITE, STMT_PRINT, STMT_OPEN, STMT_REWIND,
     STMT_BACKSPACE, STMT_ENDFILE, STMT_INQUIRE, STMT_CLOSE}"

definition append_if ::
  "(nat \<Rightarrow> bool) \<Rightarrow> bool \<Rightarrow> nat \<Rightarrow> nat \<Rightarrow> edge_kind \<Rightarrow> flow_graph \<Rightarrow> flow_graph option" where
  "append_if mem condition source target kind graph =
     (if condition then append_edge mem graph source target kind else Some graph)"

fun append_implicit_termination_edges ::
  "(nat \<Rightarrow> bool) \<Rightarrow> nat \<Rightarrow> statement \<Rightarrow> flow_graph \<Rightarrow> flow_graph option" where
  "append_implicit_termination_edges mem source (Statement s inner) graph =
     (let unhandled = (io_statement s \<and> \<not> statement_has_control s IO_CONTROL_IOSTAT);
          reads = (statement_kind s = STMT_READ);
          stop = image_termination graph
      in do {
        graph \<leftarrow> append_if mem (unhandled \<and> reads \<and> \<not> statement_has_control s IO_CONTROL_END)
          source stop CFG_EDGE_IO_END graph;
        graph \<leftarrow> append_if mem (unhandled \<and> reads \<and> statement_has_control s IO_CONTROL_ADVANCE \<and>
            \<not> statement_has_control s IO_CONTROL_EOR)
          source stop CFG_EDGE_IO_EOR graph;
        graph \<leftarrow> append_if mem (unhandled \<and> \<not> statement_has_control s IO_CONTROL_ERR)
          source stop CFG_EDGE_IO_ERROR graph;
        case inner of
          None \<Rightarrow> Some graph
        | Some statement \<Rightarrow> append_implicit_termination_edges mem source statement graph
      })"

fun append_explicit_termination_edges ::
  "(nat \<Rightarrow> bool) \<Rightarrow> nat \<Rightarrow> statement \<Rightarrow> flow_graph \<Rightarrow> flow_graph option" where
  "append_explicit_termination_edges mem source (Statement s inner) graph =
     do {
       graph \<leftarrow> append_if mem (statement_kind s = STMT_RETURN) source (procedure_exit graph) CFG_EDGE_RETURN graph;
       graph \<leftarrow> append_if mem (statement_kind s = STMT_STOP) source (image_termination graph) CFG_EDGE_STOP graph;
       case inner of
         None \<Rightarrow> Some graph
       | Some statement \<Rightarrow> append_explicit_termination_edges mem source statement graph
     }"

section \<open>Assigned \<open>GOTO\<close> without a list\<close>

definition same_symbol :: "expr option \<Rightarrow> expr option \<Rightarrow> bool" where
  "same_symbol left right =
     (case (left, right) of
        (Some l, Some r) \<Rightarrow>
          (case (expr_symbol (expr_info l), expr_symbol (expr_info r)) of
             (Some a, Some b) \<Rightarrow> symbol_address a = symbol_address b
           | _ \<Rightarrow> (case (expr_text (expr_info l), expr_text (expr_info r)) of
                    (Some a, Some b) \<Rightarrow> a = b
                  | _ \<Rightarrow> False))
      | _ \<Rightarrow> False)"

text \<open>The labels that an \<open>ASSIGN\<close> of the unit stores in the variable of the statement.\<close>

definition assigned_labels :: "statement list \<Rightarrow> statement_fields \<Rightarrow> string list" where
  "assigned_labels unit s =
     (if statement_kind s = STMT_ASSIGNED_GOTO \<and> \<not> assigned_labels_resolved s \<and>
         length (statement_labels s) = 0 \<and> statement_expression s \<noteq> None
      then List.map_filter (\<lambda>root.
          let candidate = info (statement_body root)
          in if statement_kind candidate = STMT_ASSIGN_LABEL \<and> length (statement_labels candidate) = 1 \<and>
                same_symbol (statement_expression candidate) (statement_expression s)
             then Some (statement_labels candidate ! 0) else None) unit
      else [])"

fun append_bare_assigned_edges ::
  "(nat \<Rightarrow> bool) \<Rightarrow> statement list \<Rightarrow> nat \<Rightarrow> statement \<Rightarrow> flow_graph \<Rightarrow> flow_graph option" where
  "append_bare_assigned_edges mem unit source (Statement s inner) graph =
     do {
       graph \<leftarrow> for_each (append_label_edge mem unit source CFG_EDGE_BRANCH) (assigned_labels unit s) graph;
       case inner of
         None \<Rightarrow> Some graph
       | Some statement \<Rightarrow> append_bare_assigned_edges mem unit source statement graph
     }"

section \<open>Constructs\<close>

text \<open>The statement that ends the construct of \<open>opener\<close>, or shares its termination.\<close>

definition construct_end :: "statement list \<Rightarrow> statement \<Rightarrow> nat option" where
  "construct_end unit opener =
     find (\<lambda>index.
         let root = unit ! index; body = statement_body root
         in (construct_owner (info body) = Some (statement_address (info opener)) \<and>
             kind_of body \<in> {STMT_END_IF, STMT_END_DO, STMT_END_SELECT, STMT_END_BLOCK_SCOPE, STMT_END_WHERE}) \<or>
            statement_address (info opener) \<in> set (terminal_loops (info root)))
       [0..<length unit]"

definition node_after_statement :: "flow_graph \<Rightarrow> nat \<Rightarrow> nat" where
  "node_after_statement graph index =
     (if index + 1 < statement_count graph then index + 1 else procedure_exit graph)"

record loop_flow =
  loop_opener :: statement
  loop_opener_index :: nat
  loop_end_index :: nat
  loop_latch_index :: nat

definition find_loop :: "loop_flow list \<Rightarrow> nat \<Rightarrow> loop_flow option" where
  "find_loop loops opener = find (\<lambda>loop. statement_address (info (loop_opener loop)) = opener) loops"

text \<open>The candidate with the largest opener, among equals the first one (the scans keep the first maximum).\<close>

definition latest_loop :: "loop_flow list \<Rightarrow> loop_flow option" where
  "latest_loop candidates =
     foldl (\<lambda>best candidate.
         case best of
           None \<Rightarrow> Some candidate
         | Some loop \<Rightarrow> if loop_opener_index candidate > loop_opener_index loop then Some candidate else best)
       None candidates"

definition next_outer_shared_loop :: "loop_flow list \<Rightarrow> loop_flow \<Rightarrow> loop_flow option" where
  "next_outer_shared_loop loops loop =
     latest_loop (filter (\<lambda>candidate. \<not> (loop_end_index candidate \<noteq> loop_end_index loop \<or>
         loop_opener_index candidate \<ge> loop_opener_index loop)) loops)"

definition innermost_ending_loop :: "loop_flow list \<Rightarrow> nat \<Rightarrow> loop_flow option" where
  "innermost_ending_loop loops ends = latest_loop (filter (\<lambda>candidate. loop_end_index candidate = ends) loops)"

text \<open>\<open>sizeof(F2cLoopFlow)\<close> is 32 bytes.\<close>

definition collect_loops :: "(nat \<Rightarrow> bool) \<Rightarrow> statement list \<Rightarrow> loop_flow list option" where
  "collect_loops mem unit =
     (if length unit > SIZE_MAX div 32 then None
      else if length unit \<noteq> 0 \<and> \<not> mem (length unit * 32) then None
      else Some (List.map_filter (\<lambda>index.
         let statement = statement_body (unit ! index)
         in if kind_of statement \<noteq> STMT_DO \<and> kind_of statement \<noteq> STMT_DO_WHILE then None
            else map_option (\<lambda>ends. \<lparr>loop_opener = statement, loop_opener_index = index, loop_end_index = ends,
                                       loop_latch_index = SIZE_MAX\<rparr>)
                   (construct_end unit statement))
       [0..<length unit]))"

definition is_direct_boundary :: "statement \<Rightarrow> statement \<Rightarrow> bool" where
  "is_direct_boundary statement owner =
     (let body = statement_body statement
      in if construct_owner (info body) \<noteq> Some (statement_address (info owner)) then False
         else if kind_of owner = STMT_IF then kind_of body = STMT_ELSE_IF \<or> kind_of body = STMT_ELSE
         else if kind_of owner = STMT_SELECT_CASE then kind_of body = STMT_CASE
         else if kind_of owner = STMT_SELECT_TYPE then kind_of body = STMT_TYPE_GUARD
         else if kind_of owner = STMT_WHERE then kind_of body = STMT_ELSEWHERE
         else False)"

definition next_boundary :: "statement list \<Rightarrow> statement \<Rightarrow> nat \<Rightarrow> nat \<Rightarrow> nat" where
  "next_boundary unit owner after ends =
     (case find (\<lambda>index. is_direct_boundary (unit ! index) owner) [after..<ends] of
        Some index \<Rightarrow> index
      | None \<Rightarrow> ends)"

definition branch_body_target :: "statement list \<Rightarrow> statement \<Rightarrow> nat \<Rightarrow> nat \<Rightarrow> nat" where
  "branch_body_target unit owner marker ends =
     (if marker + 1 \<ge> ends \<or> is_direct_boundary (unit ! (marker + 1)) owner then ends else marker + 1)"

lemma next_boundary_bounds:
  "next_boundary unit owner after ends \<le> ends \<or> ends < after"
  "after \<le> next_boundary unit owner after ends \<or> ends < after"
  by (auto simp: next_boundary_def find_Some_iff split: option.splits)

text \<open>\<open>remove_fallthrough_edges\<close> followed by \<open>append_edge\<close> at the same node.\<close>

definition redirect ::
  "(nat \<Rightarrow> bool) \<Rightarrow> flow_graph \<Rightarrow> nat \<Rightarrow> nat \<Rightarrow> edge_kind \<Rightarrow> flow_graph option" where
  "redirect mem graph source target kind = append_edge mem (remove_fallthrough_edges graph source) source target kind"

text \<open>The last loop of the branch builders: the statement before a boundary leaves the construct.\<close>

definition close_branches ::
  "(nat \<Rightarrow> bool) \<Rightarrow> statement list \<Rightarrow> nat \<Rightarrow> statement \<Rightarrow> nat \<Rightarrow> flow_graph \<Rightarrow> flow_graph option" where
  "close_branches mem unit opener_index opener ends =
     for_each (\<lambda>marker graph.
         if marker + 1 < ends \<and> is_direct_boundary (unit ! (marker + 1)) opener
         then redirect mem graph marker ends CFG_EDGE_BRANCH else Some graph)
       [opener_index + 1..<ends]"

text \<open>The loop over the boundaries of an \<open>IF\<close>.\<close>

function if_boundaries ::
  "(nat \<Rightarrow> bool) \<Rightarrow> statement list \<Rightarrow> statement \<Rightarrow> nat \<Rightarrow> nat \<Rightarrow> flow_graph \<Rightarrow> flow_graph option" where
  "if_boundaries mem unit opener marker ends graph =
     (if marker < ends then
        (let following = next_boundary unit opener (marker + 1) ends
         in do {
           graph \<leftarrow> redirect mem graph marker (branch_body_target unit opener marker ends) CFG_EDGE_BRANCH;
           graph \<leftarrow> append_if mem (kind_of (statement_body (unit ! marker)) = STMT_ELSE_IF)
             marker following CFG_EDGE_BRANCH graph;
           if following = ends then Some graph else if_boundaries mem unit opener following ends graph
         })
      else Some graph)"
  by pat_completeness auto
termination
  apply (relation "measure (\<lambda>(mem, unit, opener, marker, ends, graph). ends - marker)")
  subgoal by simp
  subgoal for mem unit opener marker ends
    using next_boundary_bounds(2) [of "marker + 1" unit opener ends] by auto
  done

declare if_boundaries.simps [simp del]

definition build_if_edges ::
  "(nat \<Rightarrow> bool) \<Rightarrow> statement list \<Rightarrow> flow_graph \<Rightarrow> nat \<Rightarrow> statement \<Rightarrow> nat \<Rightarrow> flow_graph option" where
  "build_if_edges mem unit graph opener_index opener ends =
     (let first_boundary = next_boundary unit opener (opener_index + 1) ends;
          true_target = (if opener_index + 1 < first_boundary then opener_index + 1 else ends)
      in do {
        graph \<leftarrow> redirect mem graph opener_index true_target CFG_EDGE_BRANCH;
        graph \<leftarrow> append_edge mem graph opener_index first_boundary CFG_EDGE_BRANCH;
        graph \<leftarrow> if_boundaries mem unit opener first_boundary ends graph;
        close_branches mem unit opener_index opener ends graph
      })"

definition build_select_edges ::
  "(nat \<Rightarrow> bool) \<Rightarrow> statement list \<Rightarrow> flow_graph \<Rightarrow> nat \<Rightarrow> statement \<Rightarrow> nat \<Rightarrow> flow_graph option" where
  "build_select_edges mem unit graph opener_index opener ends =
     (let boundaries = filter (\<lambda>marker. is_direct_boundary (unit ! marker) opener) [opener_index + 1..<ends];
          has_default = list_ex (\<lambda>marker.
            let body = statement_body (unit ! marker)
            in (kind_of body = STMT_CASE \<and> case_default (info body)) \<or>
               (kind_of body = STMT_TYPE_GUARD \<and> case_default (info body))) boundaries
      in do {
        graph \<leftarrow> for_each (\<lambda>marker graph. do {
            graph \<leftarrow> append_edge mem graph opener_index marker CFG_EDGE_BRANCH;
            redirect mem graph marker (branch_body_target unit opener marker ends) CFG_EDGE_BRANCH
          }) boundaries (remove_fallthrough_edges graph opener_index);
        graph \<leftarrow> append_if mem (\<not> has_default) opener_index ends CFG_EDGE_BRANCH graph;
        close_branches mem unit opener_index opener ends graph
      })"

section \<open>Loops\<close>

definition build_loop_edges ::
  "(nat \<Rightarrow> bool) \<Rightarrow> flow_graph \<Rightarrow> loop_flow list \<Rightarrow> loop_flow \<Rightarrow> flow_graph option" where
  "build_loop_edges mem graph loops loop =
     (let opener = loop_opener loop;
          outer = next_outer_shared_loop loops loop;
          conditional = (kind_of opener = STMT_DO_WHILE \<or> statement_right (info opener) \<noteq> None);
          body_target = (if loop_opener_index loop + 1 < statement_count graph then loop_opener_index loop + 1
                         else loop_latch_index loop);
          exit_target = (case outer of Some o' \<Rightarrow> loop_latch_index o'
                         | None \<Rightarrow> node_after_statement graph (loop_end_index loop));
          inner = innermost_ending_loop loops (loop_end_index loop)
      in do {
        graph \<leftarrow> redirect mem graph (loop_opener_index loop) body_target CFG_EDGE_BRANCH;
        graph \<leftarrow> append_if mem conditional (loop_opener_index loop) exit_target CFG_EDGE_LOOP_EXIT graph;
        graph \<leftarrow> append_edge mem graph (loop_latch_index loop) (loop_opener_index loop) CFG_EDGE_LOOP_BACK;
        graph \<leftarrow> append_if mem conditional (loop_latch_index loop) exit_target CFG_EDGE_LOOP_EXIT graph;
        if map_option loop_opener_index inner = Some (loop_opener_index loop)
        then redirect mem graph (loop_end_index loop) (loop_latch_index loop) CFG_EDGE_FALLTHROUGH
        else Some graph
      })"

text \<open>
  \<open>inner == loop\<close> compares pointers into the array of loops; the loops have different openers, so it
  is equality of the opener's index.
\<close>

definition build_construct_at ::
  "(nat \<Rightarrow> bool) \<Rightarrow> statement list \<Rightarrow> loop_flow list \<Rightarrow> nat \<Rightarrow> flow_graph \<Rightarrow> flow_graph option" where
  "build_construct_at mem unit loops index graph =
     (let opener = statement_body (unit ! index); kind = kind_of opener
      in if \<not> ((kind = STMT_IF \<and> is_block (info opener)) \<or> kind = STMT_SELECT_CASE \<or> kind = STMT_SELECT_TYPE \<or>
               kind = STMT_DO \<or> kind = STMT_DO_WHILE) then Some graph
         else case construct_end unit opener of
           None \<Rightarrow> Some graph
         | Some ends \<Rightarrow>
             if kind = STMT_IF then build_if_edges mem unit graph index opener ends
             else if kind = STMT_SELECT_CASE \<or> kind = STMT_SELECT_TYPE then
               build_select_edges mem unit graph index opener ends
             else (case find_loop loops (statement_address (info opener)) of
                     None \<Rightarrow> Some graph
                   | Some loop \<Rightarrow> build_loop_edges mem graph loops loop))"

definition build_construct_edges ::
  "(nat \<Rightarrow> bool) \<Rightarrow> statement list \<Rightarrow> loop_flow list \<Rightarrow> flow_graph \<Rightarrow> flow_graph option" where
  "build_construct_edges mem unit loops graph =
     for_each (build_construct_at mem unit loops) [0..<length unit] graph"

section \<open>\<open>CYCLE\<close> and \<open>EXIT\<close>\<close>

fun build_control_transfer_action ::
  "(nat \<Rightarrow> bool) \<Rightarrow> loop_flow list \<Rightarrow> nat \<Rightarrow> statement \<Rightarrow> bool \<Rightarrow> flow_graph \<Rightarrow> flow_graph option" where
  "build_control_transfer_action mem loops source (Statement s inner) conditional graph =
     do {
       graph \<leftarrow>
         (case (if statement_kind s = STMT_CYCLE \<or> statement_kind s = STMT_EXIT
                then Option.bind (control_target s) (find_loop loops) else None) of
            None \<Rightarrow> Some graph
          | Some loop \<Rightarrow>
              (let outer = next_outer_shared_loop loops loop;
                   graph = (if \<not> conditional then remove_fallthrough_edges graph source else graph)
               in append_edge mem graph source
                    (if statement_kind s = STMT_CYCLE then loop_latch_index loop
                     else case outer of Some o' \<Rightarrow> loop_latch_index o'
                          | None \<Rightarrow> node_after_statement graph (loop_end_index loop))
                    (if statement_kind s = STMT_CYCLE then CFG_EDGE_LOOP_BACK else CFG_EDGE_LOOP_EXIT)));
       case inner of
         None \<Rightarrow> Some graph
       | Some statement \<Rightarrow>
           build_control_transfer_action mem loops source statement
             (conditional \<or> ((statement_kind s = STMT_IF \<or> statement_kind s = STMT_WHERE) \<and> \<not> is_block s)) graph
     }"

definition build_control_transfer_edges ::
  "(nat \<Rightarrow> bool) \<Rightarrow> statement list \<Rightarrow> loop_flow list \<Rightarrow> flow_graph \<Rightarrow> flow_graph option" where
  "build_control_transfer_edges mem unit loops graph =
     for_each (\<lambda>index. build_control_transfer_action mem loops index (unit ! index) False) [0..<length unit] graph"

section \<open>The nodes\<close>

text \<open>\<open>sizeof(F2cControlFlowNode)\<close> is 72 bytes. A node that \<open>calloc\<close> has cleared:\<close>

definition zero_node :: flow_node where
  "zero_node = \<lparr>successors = [], successor_capacity = 0, predecessors = [], predecessor_capacity = 0,
     statement_index = 0, block_index = 0, node_kind = CFG_NODE_STATEMENT, node_reachable = False\<rparr>"

definition new_node :: "node_kind \<Rightarrow> nat \<Rightarrow> flow_node" where
  "new_node kind index = zero_node\<lparr>node_kind := kind, statement_index := index, block_index := SIZE_MAX\<rparr>"

definition number_latches :: "nat \<Rightarrow> loop_flow list \<Rightarrow> loop_flow list" where
  "number_latches count loops =
     map (\<lambda>(loop, index). loop\<lparr>loop_latch_index := count + 2 + index\<rparr>) (zip loops [0..<length loops])"

text \<open>\<open>f2c_control_flow_build\<close> up to the creation of the nodes.\<close>

definition create_nodes ::
  "(nat \<Rightarrow> bool) \<Rightarrow> statement list \<Rightarrow> (flow_graph \<times> loop_flow list) option" where
  "create_nodes mem unit =
     do {
       loops \<leftarrow> collect_loops mem unit;
       let total_nodes = length unit + 2 + length loops;
       if length unit > SIZE_MAX - 2 \<or> length loops > SIZE_MAX - length unit - 2 then None
       else if total_nodes > SIZE_MAX div 72 then None
       else if \<not> mem (total_nodes * 72) then None
       else Some
         (\<lparr>graph_nodes = map (new_node CFG_NODE_STATEMENT) [0..<length unit] @
              [new_node CFG_NODE_PROCEDURE_EXIT SIZE_MAX, new_node CFG_NODE_IMAGE_TERMINATION SIZE_MAX] @
              map (\<lambda>loop. new_node CFG_NODE_LOOP_LATCH (loop_opener_index loop)) loops,
            statement_count = length unit, procedure_exit = length unit, image_termination = length unit + 1,
            graph_blocks = []\<rparr>,
          number_latches (length unit) loops)
     }"

text \<open>The two loops over the statements before the constructs.\<close>

definition append_next_edge ::
  "(nat \<Rightarrow> bool) \<Rightarrow> statement list \<Rightarrow> nat \<Rightarrow> flow_graph \<Rightarrow> flow_graph option" where
  "append_next_edge mem unit index graph =
     append_if mem (\<not> is_unconditional_terminal_transfer (unit ! index)) index (node_after_statement graph index)
       (if index + 1 < statement_count graph then CFG_EDGE_FALLTHROUGH else CFG_EDGE_PROCEDURE_EXIT) graph"

definition append_transfer_edges ::
  "(nat \<Rightarrow> bool) \<Rightarrow> statement list \<Rightarrow> nat \<Rightarrow> flow_graph \<Rightarrow> flow_graph option" where
  "append_transfer_edges mem unit index graph =
     do {
       graph \<leftarrow> append_statement_label_edges mem unit index (unit ! index) graph;
       graph \<leftarrow> append_bare_assigned_edges mem unit index (unit ! index) graph;
       graph \<leftarrow> append_explicit_termination_edges mem index (unit ! index) graph;
       append_implicit_termination_edges mem index (unit ! index) graph
     }"

text \<open>All edges of the graph.\<close>

definition build_edges ::
  "(nat \<Rightarrow> bool) \<Rightarrow> statement list \<Rightarrow> loop_flow list \<Rightarrow> flow_graph \<Rightarrow> flow_graph option" where
  "build_edges mem unit loops graph =
     do {
       graph \<leftarrow> for_each (append_next_edge mem unit) [0..<length unit] graph;
       graph \<leftarrow> for_each (append_transfer_edges mem unit) [0..<length unit] graph;
       graph \<leftarrow> build_construct_edges mem unit loops graph;
       build_control_transfer_edges mem unit loops graph
     }"

section \<open>What every part of the construction does\<close>

text \<open>
  \<open>builds S g h\<close>: from \<open>g\<close> to \<open>h\<close> only successors have changed, the new edges leave nodes of \<open>S\<close>, the
  successor lists stay well formed, an edge that is not a fallthrough stays, and a node with a way
  out keeps one.
\<close>

abbreviation permanent :: "flow_graph \<Rightarrow> flow_graph \<Rightarrow> bool" where
  "permanent \<equiv> edge_store.permanent has_edge"

abbreviation exits :: "flow_graph \<Rightarrow> nat \<Rightarrow> bool" where
  "exits \<equiv> edge_store.exits has_edge"

definition builds :: "nat set \<Rightarrow> flow_graph \<Rightarrow> flow_graph \<Rightarrow> bool" where
  "builds S g h \<longleftrightarrow> evolves g h \<and> (successors_ok g \<longrightarrow> successors_ok h) \<and> permanent g h \<and>
     (\<forall>u v k. has_edge h u v k \<longrightarrow> has_edge g u v k \<or> u \<in> S)"

lemma builds_refl [simp, intro]: "builds S g g"
  by (simp add: builds_def cfg.permanent_refl)

lemma builds_trans [trans]: "builds S a b \<Longrightarrow> builds S b c \<Longrightarrow> builds S a c"
  unfolding builds_def using evolves_trans cfg.permanent_trans by blast

lemma builds_append_edge:
  assumes "append_edge mem g u v k = Some h" "u \<in> S"
  shows "builds S g h"
  using assms(2) append_edge_laws(3,5) [OF assms(1)] cfg.add_permanent [OF assms(1)]
  by (simp add: builds_def append_edge_laws(4) [OF assms(1)])

lemma builds_redirect:
  assumes "redirect mem g u v k = Some h" "u \<in> S"
  shows "builds S g h"
proof -
  note add = assms(1) [unfolded redirect_def]
  have "evolves g h" "successors_ok g \<longrightarrow> successors_ok h"
    using append_edge_laws(3,5) [OF add] remove_fallthrough_laws(1,3) evolves_trans by blast+
  then show ?thesis
    using assms(2) cfg.redirect_permanent [OF add]
    by (simp add: builds_def append_edge_laws(4) [OF add] remove_fallthrough_laws(2))
qed

lemma builds_append_if: "append_if mem c u v k g = Some h \<Longrightarrow> u \<in> S \<Longrightarrow> builds S g h"
  by (auto simp: append_if_def intro: builds_append_edge split: if_splits)

lemma builds_label_edge: "append_label_edge mem unit u k l g = Some h \<Longrightarrow> u \<in> S \<Longrightarrow> builds S g h"
  by (auto simp: append_label_edge_def intro: builds_append_edge split: option.splits)

lemma builds_for_each:
  assumes "for_each f xs g = Some h" "\<And>x a b. x \<in> set xs \<Longrightarrow> f x a = Some b \<Longrightarrow> builds S a b"
  shows "builds S g h"
  using for_each_relation [OF assms(1), of "builds S"] assms(2) builds_trans by blast

lemmas bind_conv = Option.bind_eq_Some_conv

lemma append_statement_label_edges_builds:
  "append_statement_label_edges mem unit u s g = Some h \<Longrightarrow> u \<in> S \<Longrightarrow> builds S g h"
proof (induction mem unit u s g arbitrary: h rule: append_statement_label_edges.induct)
  case (1 mem unit u s inner g)
  from 1(2) obtain a where a:
    "for_each (\<lambda>(label, kind). append_label_edge mem unit u kind label) (label_references s) g = Some a"
    "(case inner of None \<Rightarrow> Some a | Some statement \<Rightarrow> append_statement_label_edges mem unit u statement a) = Some h"
    by (auto simp: bind_conv)
  have "builds S g a" using 1(3) by (intro builds_for_each [OF a(1)]) (auto intro: builds_label_edge)
  moreover have "builds S a h" using a(2) 1(1) [OF a(1)] 1(3) by (cases inner) auto
  ultimately show ?case by (rule builds_trans)
qed

lemma append_bare_assigned_edges_builds:
  "append_bare_assigned_edges mem unit u s g = Some h \<Longrightarrow> u \<in> S \<Longrightarrow> builds S g h"
proof (induction mem unit u s g arbitrary: h rule: append_bare_assigned_edges.induct)
  case (1 mem unit u s inner g)
  from 1(2) obtain a where a:
    "for_each (append_label_edge mem unit u CFG_EDGE_BRANCH) (assigned_labels unit s) g = Some a"
    "(case inner of None \<Rightarrow> Some a | Some statement \<Rightarrow> append_bare_assigned_edges mem unit u statement a) = Some h"
    by (auto simp: bind_conv)
  have "builds S g a" using 1(3) by (intro builds_for_each [OF a(1)]) (auto intro: builds_label_edge)
  moreover have "builds S a h" using a(2) 1(1) [OF a(1)] 1(3) by (cases inner) auto
  ultimately show ?case by (rule builds_trans)
qed

lemma append_explicit_termination_edges_builds:
  "append_explicit_termination_edges mem u s g = Some h \<Longrightarrow> u \<in> S \<Longrightarrow> builds S g h"
proof (induction mem u s g arbitrary: h rule: append_explicit_termination_edges.induct)
  case (1 mem u s inner g)
  from 1(2) obtain a b where a:
    "append_if mem (statement_kind s = STMT_RETURN) u (procedure_exit g) CFG_EDGE_RETURN g = Some a"
    "append_if mem (statement_kind s = STMT_STOP) u (image_termination a) CFG_EDGE_STOP a = Some b"
    "(case inner of None \<Rightarrow> Some b | Some statement \<Rightarrow> append_explicit_termination_edges mem u statement b) = Some h"
    by (auto simp: bind_conv)
  have "builds S b h" using a(3) 1(1) [OF a(1,2)] 1(3) by (cases inner) auto
  with builds_append_if [OF a(1) 1(3)] builds_append_if [OF a(2) 1(3)] show ?case
    by (blast intro: builds_trans)
qed

lemma append_implicit_termination_edges_builds:
  "append_implicit_termination_edges mem u s g = Some h \<Longrightarrow> u \<in> S \<Longrightarrow> builds S g h"
proof (induction mem u s g arbitrary: h rule: append_implicit_termination_edges.induct)
  case (1 mem u s inner g)
  define c where "c = (io_statement s \<and> \<not> statement_has_control s IO_CONTROL_IOSTAT)"
  define r where "r = (statement_kind s = STMT_READ)"
  define t where "t = image_termination g"
  note IH = 1(1) [OF c_def r_def t_def]
  from 1(2) obtain a b d where a:
    "append_if mem (c \<and> r \<and> \<not> statement_has_control s IO_CONTROL_END) u t CFG_EDGE_IO_END g = Some a"
    "append_if mem (c \<and> r \<and> statement_has_control s IO_CONTROL_ADVANCE \<and> \<not> statement_has_control s IO_CONTROL_EOR)
       u t CFG_EDGE_IO_EOR a = Some b"
    "append_if mem (c \<and> \<not> statement_has_control s IO_CONTROL_ERR) u t CFG_EDGE_IO_ERROR b = Some d"
    "(case inner of None \<Rightarrow> Some d | Some statement \<Rightarrow> append_implicit_termination_edges mem u statement d) = Some h"
    unfolding append_implicit_termination_edges.simps Let_def c_def [symmetric] r_def [symmetric] t_def [symmetric]
    by (auto simp: bind_conv)
  have "builds S d h" using a(4) IH [OF a(1-3)] 1(3) by (cases inner) auto
  with builds_append_if [OF a(1) 1(3)] builds_append_if [OF a(2) 1(3)] builds_append_if [OF a(3) 1(3)] show ?case
    by (blast intro: builds_trans)
qed

lemma find_SomeD: "find P xs = Some x \<Longrightarrow> x \<in> set xs \<and> P x"
  by (auto simp: find_Some_iff)

lemma construct_end_less: "construct_end unit opener = Some e \<Longrightarrow> e < length unit"
  by (auto simp: construct_end_def dest: find_SomeD)

definition sources :: "nat \<Rightarrow> nat set" where
  "sources n = {u. u < n \<or> n + 2 \<le> u}"

lemma in_sources [simp, intro]: "u < n \<Longrightarrow> u \<in> sources n" "n + 2 \<le> u \<Longrightarrow> u \<in> sources n"
  by (simp_all add: sources_def)

definition loops_ok :: "nat \<Rightarrow> loop_flow list \<Rightarrow> bool" where
  "loops_ok n loops \<longleftrightarrow> (\<forall>loop \<in> set loops. loop_opener_index loop < n \<and> loop_end_index loop < n \<and>
     n + 2 \<le> loop_latch_index loop)"

lemma close_branches_builds:
  "close_branches mem unit i opener e g = Some h \<Longrightarrow> e \<le> n \<Longrightarrow> builds (sources n) g h"
  unfolding close_branches_def
  by (erule builds_for_each) (auto intro: builds_redirect split: if_splits)

lemma if_boundaries_builds:
  "if_boundaries mem unit opener i e g = Some h \<Longrightarrow> e \<le> n \<Longrightarrow> builds (sources n) g h"
proof (induction mem unit opener i e g arbitrary: h rule: if_boundaries.induct)
  case (1 mem unit opener i e g)
  show ?case
  proof (cases "i < e")
    case False
    with 1(2) show ?thesis by (simp add: if_boundaries.simps)
  next
    case True
    define j where "j = next_boundary unit opener (i + 1) e"
    obtain a b where a: "redirect mem g i (branch_body_target unit opener i e) CFG_EDGE_BRANCH = Some a"
      "append_if mem (kind_of (statement_body (unit ! i)) = STMT_ELSE_IF) i j CFG_EDGE_BRANCH a = Some b"
      "(if j = e then Some b else if_boundaries mem unit opener j e b) = Some h"
      using 1(2) unfolding if_boundaries.simps [of mem unit opener i e g] if_P [OF True] Let_def j_def [symmetric]
      by (auto simp: bind_conv)
    have i: "i \<in> sources n" using True 1(3) by auto
    have "builds (sources n) b h" using a(3) 1(1) [OF True j_def a(1,2)] 1(3) by (cases "j = e") auto
    with builds_redirect [OF a(1) i] builds_append_if [OF a(2) i] show ?thesis by (blast intro: builds_trans)
  qed
qed

lemma build_if_edges_builds:
  assumes "build_if_edges mem unit g i opener e = Some h" "i < n" "e < n"
  shows "builds (sources n) g h"
proof -
  define j where "j = next_boundary unit opener (i + 1) e"
  define t where "t = (if i + 1 < j then i + 1 else e)"
  obtain a b c where a: "redirect mem g i t CFG_EDGE_BRANCH = Some a" "append_edge mem a i j CFG_EDGE_BRANCH = Some b"
    "if_boundaries mem unit opener j e b = Some c" "close_branches mem unit i opener e c = Some h"
    using assms(1) unfolding build_if_edges_def Let_def j_def [symmetric] t_def [symmetric]
    by (auto simp: bind_conv)
  have s: "i \<in> sources n" "e \<le> n" using assms(2,3) by auto
  note builds_redirect [OF a(1) s(1)]
  also note builds_append_edge [OF a(2) s(1)]
  also note if_boundaries_builds [OF a(3) s(2)]
  also note close_branches_builds [OF a(4) s(2)]
  finally show ?thesis .
qed

text \<open>
  The select builder drops the fallthrough of its opener first; without a boundary there is no
  default, so an edge of the opener always follows.
\<close>

lemma build_select_edges_builds:
  assumes "build_select_edges mem unit g i opener e = Some h" "i < n" "e < n"
  shows "builds (sources n) g h"
proof -
  define bs where "bs = filter (\<lambda>marker. is_direct_boundary (unit ! marker) opener) [i + 1..<e]"
  define body where "body = (\<lambda>marker graph. do {
            graph \<leftarrow> append_edge mem graph i marker CFG_EDGE_BRANCH;
            redirect mem graph marker (branch_body_target unit opener marker e) CFG_EDGE_BRANCH})"
  from assms(1) obtain a b d where a: "for_each body bs (remove_fallthrough_edges g i) = Some a"
    "append_if mem (\<not> d) i e CFG_EDGE_BRANCH a = Some b" "close_branches mem unit i opener e b = Some h"
    "bs = [] \<longrightarrow> \<not> d"
    unfolding build_select_edges_def bs_def [symmetric] Let_def body_def [symmetric]
    by (auto simp: bind_conv)
  have s: "i \<in> sources n" "e \<le> n" using assms(2,3) by auto
  have step: "builds (sources n) c c'" if "body m c = Some c'" "m \<in> set bs" for m c c'
  proof -
    from that(1) obtain c1 where c1: "append_edge mem c i m CFG_EDGE_BRANCH = Some c1"
      "redirect mem c1 m (branch_body_target unit opener m e) CFG_EDGE_BRANCH = Some c'"
      by (auto simp: body_def bind_conv)
    have "m \<in> sources n" using that(2) assms(3) by (auto simp: bs_def)
    with builds_append_edge [OF c1(1) s(1)] builds_redirect [OF c1(2)] show ?thesis by (blast intro: builds_trans)
  qed
  have "builds (sources n) g b"
  proof (cases bs)
    case Nil
    with a(1,2,4) have "redirect mem g i e CFG_EDGE_BRANCH = Some b" by (simp add: redirect_def append_if_def)
    then show ?thesis using s(1) by (rule builds_redirect)
  next
    case (Cons m ms)
    with a(1) obtain c1 c2 where c: "redirect mem g i m CFG_EDGE_BRANCH = Some c1"
      "redirect mem c1 m (branch_body_target unit opener m e) CFG_EDGE_BRANCH = Some c2" "for_each body ms c2 = Some a"
      by (auto simp: body_def bind_conv redirect_def)
    have "m \<in> set bs" using Cons by simp
    then have "m \<in> sources n" using assms(3) by (auto simp: bs_def)
    moreover have "builds (sources n) c2 a"
      using step Cons by (intro builds_for_each [OF c(3)]) auto
    ultimately show ?thesis
      using builds_redirect [OF c(1) s(1)] builds_redirect [OF c(2)] builds_append_if [OF a(2) s(1)]
      by (blast intro: builds_trans)
  qed
  then show ?thesis using close_branches_builds [OF a(3) s(2)] by (rule builds_trans)
qed

lemma build_loop_edges_builds:
  assumes "build_loop_edges mem g loops loop = Some h" "loops_ok n loops" "loop \<in> set loops"
  shows "builds (sources n) g h"
proof -
  define c where "c = (kind_of (loop_opener loop) = STMT_DO_WHILE \<or> statement_right (info (loop_opener loop)) \<noteq> None)"
  define t where "t = (if loop_opener_index loop + 1 < statement_count g then loop_opener_index loop + 1 else loop_latch_index loop)"
  define x where "x = (case next_outer_shared_loop loops loop of Some o' \<Rightarrow> loop_latch_index o'
      | None \<Rightarrow> node_after_statement g (loop_end_index loop))"
  obtain g1 g2 g3 g4 where a: "redirect mem g (loop_opener_index loop) t CFG_EDGE_BRANCH = Some g1"
    "append_if mem c (loop_opener_index loop) x CFG_EDGE_LOOP_EXIT g1 = Some g2"
    "append_edge mem g2 (loop_latch_index loop) (loop_opener_index loop) CFG_EDGE_LOOP_BACK = Some g3"
    "append_if mem c (loop_latch_index loop) x CFG_EDGE_LOOP_EXIT g3 = Some g4"
    "(if map_option loop_opener_index (innermost_ending_loop loops (loop_end_index loop)) = Some (loop_opener_index loop)
      then redirect mem g4 (loop_end_index loop) (loop_latch_index loop) CFG_EDGE_FALLTHROUGH else Some g4) = Some h"
    using assms(1) unfolding build_loop_edges_def Let_def c_def [symmetric] t_def [symmetric] x_def [symmetric]
    by (auto simp: bind_conv)
  have s: "loop_opener_index loop \<in> sources n" "loop_latch_index loop \<in> sources n" "loop_end_index loop \<in> sources n"
    using assms(2,3) by (auto simp: loops_ok_def)
  note builds_redirect [OF a(1) s(1)]
  also note builds_append_if [OF a(2) s(1)]
  also note builds_append_edge [OF a(3) s(2)]
  also note builds_append_if [OF a(4) s(2)]
  also have "builds (sources n) g4 h" using a(5) s(3) by (auto intro: builds_redirect split: if_splits)
  finally show ?thesis .
qed

lemma build_construct_at_builds:
  assumes "build_construct_at mem unit loops i g = Some h" "loops_ok (length unit) loops" "i < length unit"
  shows "builds (sources (length unit)) g h"
  using assms build_if_edges_builds [OF _ assms(3)] build_select_edges_builds [OF _ assms(3)]
    build_loop_edges_builds [OF _ assms(2)] construct_end_less
  by (fastforce simp: build_construct_at_def Let_def find_loop_def dest: find_SomeD split: if_splits option.splits)

lemma build_control_transfer_action_builds:
  assumes "loops_ok n loops" "u < n"
  shows "build_control_transfer_action mem loops u s c g = Some h \<Longrightarrow> builds (sources n) g h"
  using assms
proof (induction mem loops u s c g arbitrary: h rule: build_control_transfer_action.induct)
  case (1 mem loops u s inner c g)
  have u: "u \<in> sources n" using 1(4) by auto
  define step where "step = (case (if statement_kind s = STMT_CYCLE \<or> statement_kind s = STMT_EXIT
                then Option.bind (control_target s) (find_loop loops) else None) of
            None \<Rightarrow> Some g
          | Some loop \<Rightarrow>
              (let outer = next_outer_shared_loop loops loop;
                   graph = (if \<not> c then remove_fallthrough_edges g u else g)
               in append_edge mem graph u
                    (if statement_kind s = STMT_CYCLE then loop_latch_index loop
                     else case outer of Some o' \<Rightarrow> loop_latch_index o'
                          | None \<Rightarrow> node_after_statement graph (loop_end_index loop))
                    (if statement_kind s = STMT_CYCLE then CFG_EDGE_LOOP_BACK else CFG_EDGE_LOOP_EXIT)))"
  from 1(2) obtain a where a: "step = Some a"
    "(case inner of None \<Rightarrow> Some a | Some statement \<Rightarrow> build_control_transfer_action mem loops u statement
       (c \<or> ((statement_kind s = STMT_IF \<or> statement_kind s = STMT_WHERE) \<and> \<not> is_block s)) a) = Some h"
    unfolding build_control_transfer_action.simps step_def [symmetric] by (auto simp: bind_conv)
  have "builds (sources n) g a"
    using a(1) u builds_append_edge builds_redirect
    by (auto simp: step_def Let_def redirect_def [symmetric] split: option.splits if_splits)
  moreover have "builds (sources n) a h"
    using a(2) 1(1) [OF a(1) [unfolded step_def]] 1(3,4) by (cases inner) auto
  ultimately show ?case by (rule builds_trans)
qed

lemma append_next_edge_builds:
  "append_next_edge mem unit i g = Some h \<Longrightarrow> i < n \<Longrightarrow> builds (sources n) g h"
  unfolding append_next_edge_def by (auto intro: builds_append_if)

lemma append_transfer_edges_builds:
  assumes "append_transfer_edges mem unit i g = Some h" "i < n"
  shows "builds (sources n) g h"
proof -
  from assms(1) obtain a b c where a: "append_statement_label_edges mem unit i (unit ! i) g = Some a"
    "append_bare_assigned_edges mem unit i (unit ! i) a = Some b"
    "append_explicit_termination_edges mem i (unit ! i) b = Some c"
    "append_implicit_termination_edges mem i (unit ! i) c = Some h"
    by (auto simp: append_transfer_edges_def bind_conv)
  have i: "i \<in> sources n" using assms(2) by auto
  note append_statement_label_edges_builds [OF a(1) i]
  also note append_bare_assigned_edges_builds [OF a(2) i]
  also note append_explicit_termination_edges_builds [OF a(3) i]
  also note append_implicit_termination_edges_builds [OF a(4) i]
  finally show ?thesis .
qed

lemma build_construct_edges_builds:
  assumes "build_construct_edges mem unit loops g = Some h" "loops_ok (length unit) loops"
  shows "builds (sources (length unit)) g h"
  using assms(1) unfolding build_construct_edges_def
  by (rule builds_for_each) (auto intro: build_construct_at_builds assms(2))

lemma build_control_transfer_edges_builds:
  assumes "build_control_transfer_edges mem unit loops g = Some h" "loops_ok (length unit) loops"
  shows "builds (sources (length unit)) g h"
  using assms(1) unfolding build_control_transfer_edges_def
  by (rule builds_for_each) (auto intro: build_control_transfer_action_builds assms(2))

end
