(* ===== verification/Flow_Blocks.thy ===== *)
theory Flow_Blocks
  imports Flow_Graph
begin

text \<open>
  Connecting the graph (\<open>semantic/control_flow/connectivity.c\<close>): the predecessors of every node, the
  partition of the nodes into blocks, and the edges between blocks.
\<close>

section \<open>Predecessors\<close>

definition add_predecessor ::
  "(nat \<Rightarrow> bool) \<Rightarrow> nat \<Rightarrow> flow_edge \<Rightarrow> flow_graph \<Rightarrow> flow_graph option" where
  "add_predecessor mem source successor graph =
     (if edge_target successor \<ge> node_count graph then None
      else
        let target = node_at graph (edge_target successor)
        in case append_connection mem (predecessors target) (predecessor_capacity target) source (edge_kind successor) of
             None \<Rightarrow> None
           | Some (items, capacity) \<Rightarrow>
               Some (graph\<lparr>graph_nodes := (graph_nodes graph)
                 [edge_target successor := target\<lparr>predecessors := items, predecessor_capacity := capacity\<rparr>]\<rparr>))"

definition build_node_predecessors :: "(nat \<Rightarrow> bool) \<Rightarrow> flow_graph \<Rightarrow> flow_graph option" where
  "build_node_predecessors mem graph =
     for_each (\<lambda>source graph. for_each (add_predecessor mem source) (successors (node_at graph source)) graph)
       [0..<node_count graph] graph"

section \<open>Leaders\<close>

definition mark_edge_leaders :: "flow_graph \<Rightarrow> nat \<Rightarrow> bool list \<Rightarrow> bool list option" where
  "mark_edge_leaders graph source =
     for_each (\<lambda>successor leaders.
         if edge_target successor \<ge> node_count graph then None
         else Some (if edge_target successor \<noteq> source + 1 \<or> edge_kind successor \<noteq> CFG_EDGE_FALLTHROUGH
                    then leaders[edge_target successor := True] else leaders))
       (successors (node_at graph source))"

definition mark_next_leader :: "flow_graph \<Rightarrow> nat \<Rightarrow> bool list \<Rightarrow> bool list" where
  "mark_next_leader graph source leaders =
     (let items = successors (node_at graph source)
      in if source + 1 < statement_count graph \<and>
            (length items \<noteq> 1 \<or> edge_target (items ! 0) \<noteq> source + 1 \<or> edge_kind (items ! 0) \<noteq> CFG_EDGE_FALLTHROUGH)
         then leaders[source + 1 := True] else leaders)"

definition mark_block_leaders :: "flow_graph \<Rightarrow> bool list \<Rightarrow> bool list option" where
  "mark_block_leaders graph leaders =
     (let leaders = (if statement_count graph \<noteq> 0 then leaders[0 := True] else leaders);
          leaders = foldl (\<lambda>leaders source. leaders[source := True]) leaders [statement_count graph..<node_count graph]
      in for_each (\<lambda>source leaders. map_option (mark_next_leader graph source) (mark_edge_leaders graph source leaders))
           [0..<statement_count graph] leaders)"

section \<open>Blocks\<close>

text \<open>\<open>sizeof(F2cControlFlowBlock)\<close> is 72 bytes. The scan over the nodes keeps \<open>block_index\<close>, which starts
  at \<open>SIZE_MAX\<close> and wraps to 0.\<close>

definition zero_block :: flow_block where
  "zero_block = \<lparr>block_successors = [], block_successor_capacity = 0, block_predecessors = [],
     block_predecessor_capacity = 0, first_node = 0, block_node_count = 0, block_reachable = False\<rparr>"

definition place_node :: "bool list \<Rightarrow> nat \<Rightarrow> flow_graph \<times> nat \<Rightarrow> (flow_graph \<times> nat) option" where
  "place_node leaders node = (\<lambda>(graph, index).
     let index' = (if leaders ! node then (index + 1) mod (SIZE_MAX + 1) else index);
         graph = (if leaders ! node
                  then graph\<lparr>graph_blocks := (graph_blocks graph)
                         [index' := (graph_blocks graph ! index')\<lparr>first_node := node\<rparr>]\<rparr>
                  else graph)
     in if index' = SIZE_MAX \<or> index' \<ge> length (graph_blocks graph) then None
        else
          let block = graph_blocks graph ! index';
              block = block\<lparr>block_node_count := block_node_count block + 1,
                            block_reachable := (block_reachable block \<or> node_reachable (node_at graph node))\<rparr>
          in Some (graph\<lparr>graph_blocks := (graph_blocks graph)[index' := block],
                         graph_nodes := (graph_nodes graph)[node := (node_at graph node)\<lparr>block_index := index'\<rparr>]\<rparr>,
                   index'))"

definition create_blocks :: "(nat \<Rightarrow> bool) \<Rightarrow> flow_graph \<Rightarrow> bool list \<Rightarrow> flow_graph option" where
  "create_blocks mem graph leaders =
     (let block_count = length (filter (\<lambda>node. leaders ! node) [0..<node_count graph])
      in if block_count = 0 \<or> block_count > SIZE_MAX div 72 then None
         else if \<not> mem (block_count * 72) then None
         else do {
           (graph, index) \<leftarrow> for_each (place_node leaders) [0..<node_count graph]
             (graph\<lparr>graph_blocks := replicate block_count zero_block\<rparr>, SIZE_MAX);
           if (index + 1) mod (SIZE_MAX + 1) = length (graph_blocks graph) then Some graph else None
         })"

section \<open>Edges between blocks\<close>

definition connect_edge ::
  "(nat \<Rightarrow> bool) \<Rightarrow> nat \<Rightarrow> flow_edge \<Rightarrow> flow_graph \<Rightarrow> flow_graph option" where
  "connect_edge mem source successor graph =
     (let source_block = block_index (node_at graph source);
          target_block = block_index (node_at graph (edge_target successor))
      in if source_block = target_block then Some graph
         else
           let from = graph_blocks graph ! source_block; to = graph_blocks graph ! target_block
           in do {
             (items, capacity) \<leftarrow> append_connection mem (block_successors from) (block_successor_capacity from)
               target_block (edge_kind successor);
             (items', capacity') \<leftarrow> append_connection mem (block_predecessors to) (block_predecessor_capacity to)
               source_block (edge_kind successor);
             Some (graph\<lparr>graph_blocks := (graph_blocks graph)
               [source_block := from\<lparr>block_successors := items, block_successor_capacity := capacity\<rparr>,
                target_block := to\<lparr>block_predecessors := items', block_predecessor_capacity := capacity'\<rparr>]\<rparr>)
           })"

definition connect_blocks :: "(nat \<Rightarrow> bool) \<Rightarrow> flow_graph \<Rightarrow> flow_graph option" where
  "connect_blocks mem graph =
     for_each (\<lambda>source graph. for_each (connect_edge mem source) (successors (node_at graph source)) graph)
       [0..<node_count graph] graph"

definition control_flow_finalize :: "(nat \<Rightarrow> bool) \<Rightarrow> flow_graph \<Rightarrow> flow_graph option" where
  "control_flow_finalize mem graph =
     (if node_count graph = 0 \<or> procedure_exit graph \<ge> node_count graph \<or>
         image_termination graph \<ge> node_count graph then None
      else if \<not> mem (node_count graph) then None
      else do {
        graph \<leftarrow> build_node_predecessors mem graph;
        leaders \<leftarrow> mark_block_leaders graph (replicate (node_count graph) False);
        graph \<leftarrow> create_blocks mem graph leaders;
        connect_blocks mem graph
      })"

section \<open>What the connection keeps\<close>

text \<open>The members of a node that are set before the connection.\<close>

definition node_view :: "flow_node \<Rightarrow> flow_edge list \<times> node_kind \<times> bool \<times> nat" where
  "node_view n = (successors n, node_kind n, node_reachable n, statement_index n)"

definition view :: "flow_graph \<Rightarrow> (flow_edge list \<times> node_kind \<times> bool \<times> nat) list \<times> nat \<times> nat \<times> nat" where
  "view g = (map node_view (graph_nodes g), statement_count g, procedure_exit g, image_termination g)"

lemma view_fields:
  assumes "view h = view g"
  shows "node_count h = node_count g" "statement_count h = statement_count g"
    "procedure_exit h = procedure_exit g" "image_termination h = image_termination g"
  using assms by (auto simp: view_def dest: map_eq_imp_length_eq)

lemma view_node:
  assumes "view h = view g" "i < node_count g"
  shows "successors (node_at h i) = successors (node_at g i)" "node_kind (node_at h i) = node_kind (node_at g i)"
    "node_reachable (node_at h i) = node_reachable (node_at g i)"
    "statement_index (node_at h i) = statement_index (node_at g i)"
proof -
  have "map node_view (graph_nodes h) = map node_view (graph_nodes g)" using assms(1) by (simp add: view_def)
  then have "node_view (node_at h i) = node_view (node_at g i)"
    using assms(2) view_fields(1) [OF assms(1)] by (metis nth_map)
  then show "successors (node_at h i) = successors (node_at g i)" "node_kind (node_at h i) = node_kind (node_at g i)"
    "node_reachable (node_at h i) = node_reachable (node_at g i)"
    "statement_index (node_at h i) = statement_index (node_at g i)"
    by (simp_all add: node_view_def)
qed

lemma view_update:
  assumes "node_view n = node_view (node_at g i)"
  shows "view (g\<lparr>graph_nodes := (graph_nodes g)[i := n]\<rparr>) = view g"
proof -
  have "map node_view ((graph_nodes g)[i := n]) = map node_view (graph_nodes g)"
  proof (cases "i < node_count g")
    case True
    then show ?thesis by (metis assms list_update_id map_update nth_map)
  qed (simp add: list_update_beyond)
  then show ?thesis by (simp add: view_def)
qed

lemma has_edge_view: "view h = view g \<Longrightarrow> has_edge h u v k = has_edge g u v k"
  using view_fields(1) [of h g] view_node(1) [of h g u] by (simp add: has_edge_def cong: conj_cong)

section \<open>Predecessors are the converse of successors\<close>

lemma add_predecessor_laws:
  assumes "add_predecessor mem u e g = Some h"
  shows "view h = view g" "graph_blocks h = graph_blocks g" "edge_target e < node_count g"
    "v < node_count g \<Longrightarrow> set (predecessors (node_at h v)) = set (predecessors (node_at g v)) \<union>
       (if v = edge_target e then {edge_to u (edge_kind e)} else {})"
    "v < node_count g \<Longrightarrow> distinct (predecessors (node_at g v)) \<Longrightarrow> distinct (predecessors (node_at h v))"
proof -
  let ?t = "node_at g (edge_target e)"
  obtain items capacity where t: "edge_target e < node_count g"
    "append_connection mem (predecessors ?t) (predecessor_capacity ?t) u (edge_kind e) = Some (items, capacity)"
    and h: "h = g\<lparr>graph_nodes := (graph_nodes g)[edge_target e := ?t\<lparr>predecessors := items, predecessor_capacity := capacity\<rparr>]\<rparr>"
    using assms by (auto simp: add_predecessor_def Let_def split: if_splits option.splits)
  show "view h = view g" unfolding h by (rule view_update) (simp add: node_view_def)
  show "graph_blocks h = graph_blocks g" "edge_target e < node_count g" using t h by simp_all
  show "set (predecessors (node_at h v)) = set (predecessors (node_at g v)) \<union>
       (if v = edge_target e then {edge_to u (edge_kind e)} else {})" if "v < node_count g"
    using that append_connection_set(1) [OF t(2)] t(1) by (auto simp: h nth_list_update)
  show "distinct (predecessors (node_at h v))" if "v < node_count g" "distinct (predecessors (node_at g v))"
    using that append_connection_set(2) [OF t(2)] t(1) by (auto simp: h nth_list_update)
qed

lemma add_predecessors:
  assumes "for_each (add_predecessor mem u) es g = Some h"
  shows "view h = view g \<and> graph_blocks h = graph_blocks g \<and> (\<forall>e \<in> set es. edge_target e < node_count g) \<and>
    (\<forall>v < node_count g. set (predecessors (node_at h v)) =
       set (predecessors (node_at g v)) \<union> {edge_to u k | k. edge_to v k \<in> set es}) \<and>
    (\<forall>v < node_count g. distinct (predecessors (node_at g v)) \<longrightarrow> distinct (predecessors (node_at h v)))"
  using assms
proof (induction es arbitrary: g)
  case (Cons e es)
  then obtain a where a: "add_predecessor mem u e g = Some a" "for_each (add_predecessor mem u) es a = Some h"
    by (auto simp: bind_eq_Some_conv)
  note l = add_predecessor_laws [OF a(1)] and IH = Cons.IH [OF a(2)]
  have n: "node_count a = node_count g" by (rule view_fields(1) [OF l(1)])
  have "set (predecessors (node_at h v)) = set (predecessors (node_at g v)) \<union> {edge_to u k | k. edge_to v k \<in> set (e # es)}"
    if "v < node_count g" for v
    using IH n that l(4) [OF that] by (cases e) auto
  with IH l n show ?case by auto
qed auto

lemma all_predecessors:
  assumes "for_each (\<lambda>source graph. for_each (add_predecessor mem source) (successors (node_at graph source)) graph) us g = Some h"
    and "\<forall>u \<in> set us. u < node_count g"
  shows "view h = view g \<and> graph_blocks h = graph_blocks g \<and>
    (\<forall>u \<in> set us. \<forall>e \<in> set (successors (node_at g u)). edge_target e < node_count g) \<and>
    (\<forall>v < node_count g. set (predecessors (node_at h v)) =
       set (predecessors (node_at g v)) \<union> {edge_to u k | u k. u \<in> set us \<and> has_edge g u v k}) \<and>
    (\<forall>v < node_count g. distinct (predecessors (node_at g v)) \<longrightarrow> distinct (predecessors (node_at h v)))"
  using assms
proof (induction us arbitrary: g)
  case (Cons u us)
  then obtain a where a: "for_each (add_predecessor mem u) (successors (node_at g u)) g = Some a"
    "for_each (\<lambda>source graph. for_each (add_predecessor mem source) (successors (node_at graph source)) graph) us a = Some h"
    by (auto simp: bind_eq_Some_conv)
  note l = add_predecessors [OF a(1)]
  have v: "view a = view g" using l by blast
  note n = view_fields(1) [OF v]
  have IH: "view h = view a \<and> graph_blocks h = graph_blocks a \<and>
    (\<forall>u \<in> set us. \<forall>e \<in> set (successors (node_at a u)). edge_target e < node_count a) \<and>
    (\<forall>v < node_count a. set (predecessors (node_at h v)) =
       set (predecessors (node_at a v)) \<union> {edge_to u k | u k. u \<in> set us \<and> has_edge a u v k}) \<and>
    (\<forall>v < node_count a. distinct (predecessors (node_at a v)) \<longrightarrow> distinct (predecessors (node_at h v)))"
    using Cons.prems(2) n by (intro Cons.IH [OF a(2)]) simp
  have "set (predecessors (node_at h v)) =
       set (predecessors (node_at g v)) \<union> {edge_to w k | w k. w \<in> set (u # us) \<and> has_edge g w v k}"
    if "v < node_count g" for v
  proof -
    have "set (predecessors (node_at h v)) = set (predecessors (node_at a v)) \<union> {edge_to w k | w k. w \<in> set us \<and> has_edge g w v k}"
      using IH that n has_edge_view [OF v] by simp
    moreover have "set (predecessors (node_at a v)) = set (predecessors (node_at g v)) \<union> {edge_to u k | k. has_edge g u v k}"
      using l that Cons.prems(2) by (simp add: has_edge_def)
    ultimately show ?thesis by auto
  qed
  with IH l n v show ?case using view_node(1) [OF v] Cons.prems(2) by auto
qed auto

lemma build_node_predecessors_laws:
  assumes "build_node_predecessors mem g = Some h" "\<forall>i < node_count g. predecessors (node_at g i) = []"
  shows "view h = view g" "graph_blocks h = graph_blocks g"
    "\<forall>v < node_count g. \<forall>u k. edge_to u k \<in> set (predecessors (node_at h v)) \<longleftrightarrow> has_edge g u v k"
    "\<forall>v < node_count g. distinct (predecessors (node_at h v))"
  using all_predecessors [OF assms(1) [unfolded build_node_predecessors_def]] assms(2)
  by (auto simp: has_edge_def)

section \<open>Which nodes lead a block\<close>

definition is_leader :: "flow_graph \<Rightarrow> nat \<Rightarrow> bool" where
  "is_leader g v \<longleftrightarrow> (v = 0 \<and> statement_count g \<noteq> 0) \<or> statement_count g \<le> v \<or>
     (\<exists>u < statement_count g. \<exists>k. has_edge g u v k \<and> \<not> (v = u + 1 \<and> k = CFG_EDGE_FALLTHROUGH)) \<or>
     (\<exists>u. v = u + 1 \<and> v < statement_count g \<and> successors (node_at g u) \<noteq> [edge_to v CFG_EDGE_FALLTHROUGH])"

lemma nth_update_True: "v < length L \<Longrightarrow> L[i := True] ! v \<longleftrightarrow> L ! v \<or> v = i"
  by (cases "i = v") simp_all

lemma mark_edge_leaders_laws:
  assumes "mark_edge_leaders g u L = Some L'" "length L = node_count g" "u < node_count g"
  shows "length L' = node_count g"
    "v < node_count g \<Longrightarrow> L' ! v \<longleftrightarrow> L ! v \<or> (\<exists>k. has_edge g u v k \<and> \<not> (v = u + 1 \<and> k = CFG_EDGE_FALLTHROUGH))"
proof -
  define f :: "flow_edge \<Rightarrow> bool list \<Rightarrow> bool list option" where "f = (\<lambda>successor leaders.
         if edge_target successor \<ge> node_count g then None
         else Some (if edge_target successor \<noteq> u + 1 \<or> edge_kind successor \<noteq> CFG_EDGE_FALLTHROUGH
                    then leaders[edge_target successor := True] else leaders))"
  have step: "for_each f es L = Some L' \<Longrightarrow> length L = node_count g \<Longrightarrow> length L' = node_count g \<and>
      (\<forall>v < node_count g. L' ! v \<longleftrightarrow> L ! v \<or>
         (\<exists>k. edge_to v k \<in> set es \<and> \<not> (v = u + 1 \<and> k = CFG_EDGE_FALLTHROUGH)))" for es :: "flow_edge list" and L
  proof (induction es arbitrary: L)
    case (Cons e es)
    obtain t k where e: "e = edge_to t k" by (cases e) auto
    from Cons.prems have t: "t < node_count g"
      "for_each f es (if t \<noteq> u + 1 \<or> k \<noteq> CFG_EDGE_FALLTHROUGH then L[t := True] else L) = Some L'"
      by (auto simp: f_def e split: if_splits)
    then show ?case using Cons.IH [OF t(2)] Cons.prems(2) by (auto simp: e nth_update_True split: if_splits)
  qed simp
  note s = step [OF assms(1) [unfolded mark_edge_leaders_def f_def [symmetric]] assms(2)]
  then show "length L' = node_count g" by blast
  show "L' ! v \<longleftrightarrow> L ! v \<or> (\<exists>k. has_edge g u v k \<and> \<not> (v = u + 1 \<and> k = CFG_EDGE_FALLTHROUGH))"
    if "v < node_count g"
    using s that assms(3) by (simp add: has_edge_def)
qed

lemma mark_next_leader_laws:
  assumes "length L = node_count g" "v < node_count g"
  shows "length (mark_next_leader g u L) = node_count g"
    "mark_next_leader g u L ! v \<longleftrightarrow> L ! v \<or>
      (v = u + 1 \<and> v < statement_count g \<and> successors (node_at g u) \<noteq> [edge_to v CFG_EDGE_FALLTHROUGH])"
proof -
  have "(length items \<noteq> 1 \<or> edge_target (items ! 0) \<noteq> t \<or> edge_kind (items ! 0) \<noteq> k) \<longleftrightarrow> items \<noteq> [edge_to t k]"
    for items :: "flow_edge list" and t k
    by (cases items; cases "tl items") (auto simp flip: edge_to_eta)
  then show "length (mark_next_leader g u L) = node_count g"
    "mark_next_leader g u L ! v \<longleftrightarrow> L ! v \<or>
      (v = u + 1 \<and> v < statement_count g \<and> successors (node_at g u) \<noteq> [edge_to v CFG_EDGE_FALLTHROUGH])"
    using assms by (auto simp: mark_next_leader_def Let_def nth_update_True)
qed

lemma foldl_mark:
  "length (foldl (\<lambda>leaders source. leaders[source := True]) L xs) = length L \<and>
   (\<forall>v < length L. foldl (\<lambda>leaders source. leaders[source := True]) L xs ! v \<longleftrightarrow> L ! v \<or> v \<in> set xs)"
  by (induction xs arbitrary: L) (auto simp: nth_update_True)

lemma mark_block_leaders_laws:
  assumes "mark_block_leaders g (replicate (node_count g) False) = Some L" "statement_count g \<le> node_count g"
  shows "length L = node_count g" "v < node_count g \<Longrightarrow> L ! v \<longleftrightarrow> is_leader g v"
proof -
  define L0 where "L0 = replicate (node_count g) False"
  define L1 where "L1 = (if statement_count g \<noteq> 0 then L0[0 := True] else L0)"
  define L2 where "L2 = foldl (\<lambda>leaders source. leaders[source := True]) L1 [statement_count g..<node_count g]"
  define f where "f = (\<lambda>source leaders. map_option (mark_next_leader g source) (mark_edge_leaders g source leaders))"
  define P where "P = (\<lambda>v u. (\<exists>k. has_edge g u v k \<and> \<not> (v = u + 1 \<and> k = CFG_EDGE_FALLTHROUGH)) \<or>
      (v = u + 1 \<and> v < statement_count g \<and> successors (node_at g u) \<noteq> [edge_to v CFG_EDGE_FALLTHROUGH]))"
  have step: "for_each f us M = Some L \<Longrightarrow> length M = node_count g \<Longrightarrow> \<forall>u \<in> set us. u < node_count g \<Longrightarrow>
      length L = node_count g \<and> (\<forall>v < node_count g. L ! v \<longleftrightarrow> M ! v \<or> (\<exists>u \<in> set us. P v u))" for us M
  proof (induction us arbitrary: M)
    case (Cons u us)
    from Cons.prems(1) obtain A where a: "mark_edge_leaders g u M = Some A"
      "for_each f us (mark_next_leader g u A) = Some L"
      by (auto simp: f_def bind_eq_Some_conv)
    have u: "u < node_count g" using Cons.prems(3) by simp
    note e = mark_edge_leaders_laws [OF a(1) Cons.prems(2) u]
    have n: "length (mark_next_leader g u A) = node_count g" using mark_next_leader_laws(1) [OF e(1) u] .
    have "mark_next_leader g u A ! v \<longleftrightarrow> M ! v \<or> P v u" if "v < node_count g" for v
      using mark_next_leader_laws(2) [OF e(1) that] e(2) [OF that] by (auto simp: P_def)
    with Cons.IH [OF a(2) n] Cons.prems(3) show ?case by auto
  qed simp
  have L: "for_each f [0..<statement_count g] L2 = Some L"
    using assms(1) unfolding mark_block_leaders_def Let_def L0_def [symmetric] L1_def [symmetric] L2_def [symmetric] f_def .
  have n1: "length L1 = node_count g" by (simp add: L1_def L0_def)
  have L2: "length L2 = node_count g" "\<And>v. v < node_count g \<Longrightarrow> L2 ! v \<longleftrightarrow> (v = 0 \<and> statement_count g \<noteq> 0) \<or> statement_count g \<le> v"
    using foldl_mark [of L1 "[statement_count g..<node_count g]"] n1
    by (auto simp: L2_def L1_def L0_def nth_update_True)
  note s = step [OF L L2(1)]
  show "length L = node_count g" using s assms(2) by simp
  show "L ! v \<longleftrightarrow> is_leader g v" if "v < node_count g"
    using s that assms(2) L2(2) [OF that] unfolding is_leader_def P_def by (auto simp: Bex_def)
qed

lemma first_is_leader: "is_leader g 0"
  by (cases "statement_count g = 0") (simp_all add: is_leader_def)

section \<open>The blocks\<close>

definition leader_count :: "bool list \<Rightarrow> nat \<Rightarrow> nat" where
  "leader_count L m = length (filter (\<lambda>v. L ! v) [0..<m])"

lemma leader_count_simps [simp]:
  "leader_count L 0 = 0" "leader_count L (Suc m) = leader_count L m + (if L ! m then 1 else 0)"
  by (simp_all add: leader_count_def)

lemma leader_count_mono: "m \<le> n \<Longrightarrow> leader_count L m \<le> leader_count L n"
  by (rule lift_Suc_mono_le) simp

lemma leader_count_pos: "L ! 0 \<Longrightarrow> 0 < leader_count L (Suc m)"
  using leader_count_mono [of 1 "Suc m" L] by (simp split: if_splits)

text \<open>The block of a node, and the nodes below \<open>m\<close> of a block.\<close>

definition block_of :: "bool list \<Rightarrow> nat \<Rightarrow> nat" where
  "block_of L v = leader_count L (Suc v) - 1"

definition members :: "bool list \<Rightarrow> nat \<Rightarrow> nat \<Rightarrow> nat set" where
  "members L m b = {v. v < m \<and> block_of L v = b}"

lemma members_Suc: "members L (Suc m) b = (if block_of L m = b then insert m (members L m b) else members L m b)"
  by (auto simp: members_def less_Suc_eq)

lemma finite_members [simp]: "finite (members L m b)" and not_member [simp]: "m \<notin> members L m b"
  by (simp_all add: members_def)

definition block_ok :: "flow_graph \<Rightarrow> bool list \<Rightarrow> nat \<Rightarrow> nat \<Rightarrow> flow_block \<Rightarrow> bool" where
  "block_ok g L m b block \<longleftrightarrow> block_node_count block = card (members L m b) \<and>
     (block_reachable block \<longleftrightarrow> (\<exists>v \<in> members L m b. node_reachable (node_at g v))) \<and>
     (\<forall>v \<in> members L m b. L ! v \<longrightarrow> first_node block = v) \<and>
     block_successors block = [] \<and> block_predecessors block = []"

definition placed :: "flow_graph \<Rightarrow> bool list \<Rightarrow> nat \<Rightarrow> flow_graph \<Rightarrow> bool" where
  "placed g L m h \<longleftrightarrow> view h = view g \<and> map predecessors (graph_nodes h) = map predecessors (graph_nodes g) \<and>
     length (graph_blocks h) = leader_count L (node_count g) \<and>
     (\<forall>v < m. block_index (node_at h v) = block_of L v) \<and>
     (\<forall>b < length (graph_blocks h). block_ok g L m b (graph_blocks h ! b))"

lemma block_of_less: "L ! 0 \<Longrightarrow> v < n \<Longrightarrow> block_of L v < leader_count L n"
  using leader_count_mono [of "Suc v" n L] leader_count_pos [of L v] by (simp add: block_of_def split: if_splits)

lemma block_of_leader: "L ! m \<Longrightarrow> block_of L m = leader_count L m"
  by (simp add: block_of_def)

lemma leader_starts:
  assumes "L ! m" "L ! 0"
  shows "members L m (block_of L m) = {}"
proof -
  have "block_of L v < leader_count L m" if "v < m" for v
    using block_of_less [OF assms(2) that] .
  then show ?thesis by (fastforce simp: members_def block_of_leader [OF assms(1)])
qed

lemma place_node_placed:
  assumes "placed g L m h" "m < node_count g" "L ! 0" "leader_count L (node_count g) \<le> SIZE_MAX div 72"
    and "index = (if m = 0 then SIZE_MAX else block_of L (m - 1))"
    and "place_node L m (h, index) = Some (h', index')"
  shows "placed g L (Suc m) h' \<and> index' = block_of L m"
proof -
  let ?j = "block_of L m" and ?blocks = "graph_blocks h"
  have j: "?j < length ?blocks" using assms(1-3) block_of_less by (simp add: placed_def)
  then have limit: "?j < SIZE_MAX" using assms(1,4) by (simp add: placed_def)
  then have index: "(if L ! m then (index + 1) mod (SIZE_MAX + 1) else index) = ?j"
    using assms(3,5) leader_count_pos [OF assms(3), of "m - 1"] by (cases m) (auto simp: block_of_def)
  define first where "first = (if L ! m then m else first_node (?blocks ! ?j))"
  define block where "block = (?blocks ! ?j)\<lparr>first_node := first, block_node_count := block_node_count (?blocks ! ?j) + 1,
      block_reachable := (block_reachable (?blocks ! ?j) \<or> node_reachable (node_at h m))\<rparr>"
  have "h' = h\<lparr>graph_blocks := ?blocks[?j := block],
      graph_nodes := (graph_nodes h)[m := (node_at h m)\<lparr>block_index := ?j\<rparr>]\<rparr> \<and> index' = ?j"
    using assms(6) j limit unfolding place_node_def prod.case index Let_def first_def block_def
    by (cases "L ! m") auto
  then have h': "h' = h\<lparr>graph_blocks := ?blocks[?j := block],
      graph_nodes := (graph_nodes h)[m := (node_at h m)\<lparr>block_index := ?j\<rparr>]\<rparr>" and i': "index' = ?j"
    by simp_all
  have v: "view h = view g" using assms(1) by (simp add: placed_def)
  have n: "node_count h = node_count g" by (rule view_fields(1) [OF v])
  have m: "m < node_count h" using n assms(2) by simp
  have "view h' = view h" "graph_blocks h' = ?blocks[?j := block]"
    using view_update [of "(node_at h m)\<lparr>block_index := ?j\<rparr>" h m] by (simp_all add: h' node_view_def view_def)
  moreover have "map predecessors (graph_nodes h') = map predecessors (graph_nodes h)"
    using m by (auto simp: h' map_update intro!: nth_equalityI simp: nth_list_update)
  moreover have "block_index (node_at h' v) = block_of L v" if "v < Suc m" for v
    using that assms(1) m by (auto simp: h' nth_list_update placed_def less_Suc_eq)
  moreover have "block_ok g L (Suc m) b (graph_blocks h' ! b)" if "b < length ?blocks" for b
  proof (cases "b = ?j")
    case False
    with that assms(1) show ?thesis by (simp add: h' placed_def block_ok_def members_Suc)
  next
    case True
    have "block_ok g L m ?j (?blocks ! ?j)" using assms(1) j by (simp add: placed_def)
    then show ?thesis
      using True j leader_starts [OF _ assms(3), of m] view_node(3) [OF v assms(2)]
      by (auto simp: h' block_ok_def block_def first_def members_Suc)
  qed
  ultimately show ?thesis using v assms(1) i' by (simp add: placed_def)
qed

lemma place_nodes:
  assumes "for_each (place_node L) [0..<m] (g\<lparr>graph_blocks := replicate (leader_count L (node_count g)) zero_block\<rparr>, SIZE_MAX)
      = Some (h, index)"
    and "m \<le> node_count g" "L ! 0" "leader_count L (node_count g) \<le> SIZE_MAX div 72"
  shows "placed g L m h \<and> index = (if m = 0 then SIZE_MAX else block_of L (m - 1))"
  using assms(1,2)
proof (induction m arbitrary: h index)
  case 0
  then show ?case
    by (auto simp: placed_def view_def block_ok_def members_def zero_block_def)
next
  case (Suc m)
  from Suc.prems(1) obtain a i where a: "for_each (place_node L) [0..<m]
      (g\<lparr>graph_blocks := replicate (leader_count L (node_count g)) zero_block\<rparr>, SIZE_MAX) = Some (a, i)"
    "place_node L m (a, i) = Some (h, index)"
    by (auto simp: for_each_append bind_eq_Some_conv simp del: for_each.simps split: prod.splits)
      (auto simp: bind_eq_Some_conv)
  have IH: "placed g L m a \<and> i = (if m = 0 then SIZE_MAX else block_of L (m - 1))"
    using Suc.IH [OF a(1)] Suc.prems(2) by simp
  show ?case
    using place_node_placed [OF conjunct1 [OF IH] _ assms(3,4) conjunct2 [OF IH] a(2)] Suc.prems(2) by simp
qed

lemma create_blocks_placed:
  assumes "create_blocks mem g L = Some h" "L ! 0" "0 < node_count g"
  shows "placed g L (node_count g) h"
proof -
  have c: "length (filter (\<lambda>node. L ! node) [0..<node_count g]) = leader_count L (node_count g)"
    by (simp add: leader_count_def)
  obtain i where "for_each (place_node L) [0..<node_count g]
      (g\<lparr>graph_blocks := replicate (leader_count L (node_count g)) zero_block\<rparr>, SIZE_MAX) = Some (h, i)"
    "leader_count L (node_count g) \<le> SIZE_MAX div 72"
    using assms(1) unfolding create_blocks_def Let_def c
    by (auto simp: bind_eq_Some_conv split: if_splits)
  then show ?thesis using place_nodes [of L "node_count g" g h i] assms(2) by simp
qed

section \<open>The edges between blocks\<close>

definition block_core :: "flow_block \<Rightarrow> nat \<times> nat \<times> bool" where
  "block_core b = (first_node b, block_node_count b, block_reachable b)"

definition block_frame :: "flow_graph \<Rightarrow> flow_graph \<Rightarrow> bool" where
  "block_frame g h \<longleftrightarrow> graph_nodes h = graph_nodes g \<and> view h = view g \<and>
     map block_core (graph_blocks h) = map block_core (graph_blocks g)"

definition block_out :: "flow_graph \<Rightarrow> (nat \<times> flow_edge) set" where
  "block_out g = {(b, e). b < length (graph_blocks g) \<and> e \<in> set (block_successors (graph_blocks g ! b))}"

definition block_in :: "flow_graph \<Rightarrow> (nat \<times> flow_edge) set" where
  "block_in g = {(b, e). b < length (graph_blocks g) \<and> e \<in> set (block_predecessors (graph_blocks g ! b))}"

lemma block_frame_refl [simp]: "block_frame g g"
  by (simp add: block_frame_def)

lemma block_frame_trans: "block_frame a b \<Longrightarrow> block_frame b c \<Longrightarrow> block_frame a c"
  by (simp add: block_frame_def)

lemma block_frame_length: "block_frame g h \<Longrightarrow> length (graph_blocks h) = length (graph_blocks g)"
  by (auto simp: block_frame_def dest: map_eq_imp_length_eq)

lemma connect_edge_laws:
  assumes "connect_edge mem u e g = Some h"
    and "block_index (node_at g u) < length (graph_blocks g)"
    and "block_index (node_at g (edge_target e)) < length (graph_blocks g)"
  defines "s \<equiv> block_index (node_at g u)" and "t \<equiv> block_index (node_at g (edge_target e))"
  shows "block_frame g h"
    "block_out h = block_out g \<union> (if s \<noteq> t then {(s, edge_to t (edge_kind e))} else {})"
    "block_in h = block_in g \<union> (if s \<noteq> t then {(t, edge_to s (edge_kind e))} else {})"
proof -
  have "block_frame g h \<and> block_out h = block_out g \<union> (if s \<noteq> t then {(s, edge_to t (edge_kind e))} else {}) \<and>
      block_in h = block_in g \<union> (if s \<noteq> t then {(t, edge_to s (edge_kind e))} else {})"
  proof (cases "s = t")
    case True
    then show ?thesis using assms(1) by (simp add: connect_edge_def s_def t_def)
  next
    case False
    let ?from = "graph_blocks g ! s" and ?to = "graph_blocks g ! t"
    have st: "s < length (graph_blocks g)" "t < length (graph_blocks g)" using assms(2,3) by (simp_all add: s_def t_def)
    obtain items capacity items' capacity' where
      a: "append_connection mem (block_successors ?from) (block_successor_capacity ?from) t (edge_kind e) = Some (items, capacity)"
        "append_connection mem (block_predecessors ?to) (block_predecessor_capacity ?to) s (edge_kind e) = Some (items', capacity')"
      and h: "h = g\<lparr>graph_blocks := (graph_blocks g)
               [s := ?from\<lparr>block_successors := items, block_successor_capacity := capacity\<rparr>,
                t := ?to\<lparr>block_predecessors := items', block_predecessor_capacity := capacity'\<rparr>]\<rparr>"
      using assms(1) False unfolding connect_edge_def Let_def s_def [symmetric] t_def [symmetric]
      by (auto simp: bind_eq_Some_conv)
    have "map block_core (graph_blocks h) = map block_core (graph_blocks g)"
      using st by (intro nth_equalityI) (auto simp: h block_core_def nth_list_update)
    then have "block_frame g h" by (simp add: block_frame_def h view_def)
    moreover have "block_out h = block_out g \<union> {(s, edge_to t (edge_kind e))}"
      using append_connection_set(1) [OF a(1)] st False by (auto simp: h block_out_def nth_list_update split: if_splits)
    moreover have "block_in h = block_in g \<union> {(t, edge_to s (edge_kind e))}"
      using append_connection_set(1) [OF a(2)] st False by (auto simp: h block_in_def nth_list_update split: if_splits)
    ultimately show ?thesis using False by simp
  qed
  then show "block_frame g h" "block_out h = block_out g \<union> (if s \<noteq> t then {(s, edge_to t (edge_kind e))} else {})"
    "block_in h = block_in g \<union> (if s \<noteq> t then {(t, edge_to s (edge_kind e))} else {})"
    by simp_all
qed

text \<open>The edges that \<open>connect_blocks\<close> adds for one edge of a node.\<close>

definition crossing :: "flow_graph \<Rightarrow> nat \<Rightarrow> flow_edge \<Rightarrow> (nat \<times> flow_edge) set \<times> (nat \<times> flow_edge) set" where
  "crossing g u e =
     (let s = block_index (node_at g u); t = block_index (node_at g (edge_target e))
      in if s \<noteq> t then ({(s, edge_to t (edge_kind e))}, {(t, edge_to s (edge_kind e))}) else ({}, {}))"

definition blocks_indexed :: "flow_graph \<Rightarrow> bool" where
  "blocks_indexed g \<longleftrightarrow> (\<forall>v < node_count g. block_index (node_at g v) < length (graph_blocks g))"

lemma connect_node:
  assumes "for_each (connect_edge mem u) es g = Some h" "blocks_indexed g" "u < node_count g"
    and "\<forall>e \<in> set es. edge_target e < node_count g"
  shows "block_frame g h" "block_out h = block_out g \<union> (\<Union>e \<in> set es. fst (crossing g u e))"
    "block_in h = block_in g \<union> (\<Union>e \<in> set es. snd (crossing g u e))"
proof -
  have step: "block_frame g b \<and> block_out b = block_out a \<union> fst (crossing g u e) \<and> block_in b = block_in a \<union> snd (crossing g u e)"
    if "e \<in> set es" "block_frame g a" "connect_edge mem u e a = Some b" for e a b
  proof -
    have n: "graph_nodes a = graph_nodes g" "length (graph_blocks a) = length (graph_blocks g)"
      using that(2) block_frame_length [OF that(2)] by (simp_all add: block_frame_def)
    have i: "block_index (node_at g u) < length (graph_blocks g)"
      "block_index (node_at g (edge_target e)) < length (graph_blocks g)"
      using assms(2-4) that(1) by (simp_all add: blocks_indexed_def)
    note l = connect_edge_laws [OF that(3), unfolded n, OF i]
    show ?thesis
      using block_frame_trans [OF that(2) l(1)] l(2,3) by (simp add: crossing_def Let_def)
  qed
  have "block_frame g h \<and> block_out h = block_out g \<union> (\<Union>e \<in> set es. fst (crossing g u e))"
    by (rule for_each_collects [OF assms(1)]) (simp, use step in blast)
  moreover have "block_frame g h \<and> block_in h = block_in g \<union> (\<Union>e \<in> set es. snd (crossing g u e))"
    by (rule for_each_collects [OF assms(1)]) (simp, use step in blast)
  ultimately show "block_frame g h" "block_out h = block_out g \<union> (\<Union>e \<in> set es. fst (crossing g u e))"
    "block_in h = block_in g \<union> (\<Union>e \<in> set es. snd (crossing g u e))"
    by blast+
qed

lemma connect_blocks_laws:
  assumes "connect_blocks mem g = Some h" "blocks_indexed g" "successors_ok g"
  shows "block_frame g h"
    "block_out h = block_out g \<union> (\<Union>u < node_count g. \<Union>e \<in> set (successors (node_at g u)). fst (crossing g u e))"
    "block_in h = block_in g \<union> (\<Union>u < node_count g. \<Union>e \<in> set (successors (node_at g u)). snd (crossing g u e))"
proof -
  have step: "block_frame g b \<and> block_out b = block_out a \<union> (\<Union>e \<in> set (successors (node_at g u)). fst (crossing g u e)) \<and>
      block_in b = block_in a \<union> (\<Union>e \<in> set (successors (node_at g u)). snd (crossing g u e))"
    if "u \<in> set [0..<node_count g]" "block_frame g a"
      "for_each (connect_edge mem u) (successors (node_at a u)) a = Some b" for u a b
  proof -
    have n: "graph_nodes a = graph_nodes g" "length (graph_blocks a) = length (graph_blocks g)"
      using that(2) block_frame_length [OF that(2)] by (simp_all add: block_frame_def)
    have c: "crossing a u e = crossing g u e" for e by (simp add: crossing_def n)
    have "blocks_indexed a" "u < node_count a" "\<forall>e \<in> set (successors (node_at a u)). edge_target e < node_count a"
      using assms(2,3) that(1) by (auto simp: blocks_indexed_def n successors_ok_nth)
    note l = connect_node [OF that(3) this]
    show ?thesis using block_frame_trans [OF that(2) l(1)] l(2,3) by (simp add: n c)
  qed
  note l = assms(1) [unfolded connect_blocks_def]
  have out: "block_frame g h \<and> block_out h = block_out g \<union>
      (\<Union>u \<in> set [0..<node_count g]. \<Union>e \<in> set (successors (node_at g u)). fst (crossing g u e))"
    by (rule for_each_collects [OF l]) (simp, drule (2) step, simp)
  have inn: "block_frame g h \<and> block_in h = block_in g \<union>
      (\<Union>u \<in> set [0..<node_count g]. \<Union>e \<in> set (successors (node_at g u)). snd (crossing g u e))"
    by (rule for_each_collects [OF l]) (simp, drule (2) step, simp)
  show "block_frame g h"
    "block_out h = block_out g \<union> (\<Union>u < node_count g. \<Union>e \<in> set (successors (node_at g u)). fst (crossing g u e))"
    "block_in h = block_in g \<union> (\<Union>u < node_count g. \<Union>e \<in> set (successors (node_at g u)). snd (crossing g u e))"
    using out inn by (simp_all add: atLeast0LessThan)
qed

end
