(* ===== verification/Flow_Reach.thy ===== *)
theory Flow_Reach
  imports Flow_Graph
begin

text \<open>
  Reachability (\<open>mark_reachable\<close> of \<open>semantic/control_flow.c\<close>): a breadth-first search whose worklist is
  an array with one entry per node, a head and a tail. The list holds the entries written so far, so
  its length is the tail; a write beyond the array or a read of a node that does not exist is
  \<^const>\<open>None\<close>, and the theorems show that neither happens.
\<close>

section \<open>The search\<close>

definition mark_node :: "nat \<Rightarrow> flow_graph \<Rightarrow> flow_graph" where
  "mark_node v graph = graph\<lparr>graph_nodes := (graph_nodes graph)[v := (node_at graph v)\<lparr>node_reachable := True\<rparr>]\<rparr>"

definition visit_target :: "flow_edge \<Rightarrow> flow_graph \<times> nat list \<Rightarrow> (flow_graph \<times> nat list) option" where
  "visit_target edge = (\<lambda>(graph, worklist).
     let target = edge_target edge
     in if target \<ge> node_count graph then None
        else if node_reachable (node_at graph target) then Some (graph, worklist)
        else if length worklist \<ge> node_count graph then None
        else Some (mark_node target graph, worklist @ [target]))"

partial_function (option) search :: "nat \<Rightarrow> nat list \<Rightarrow> flow_graph \<Rightarrow> flow_graph option" where
  "search head worklist graph =
     (if head < length worklist then
        do {
          (graph, worklist) \<leftarrow> for_each visit_target (successors (node_at graph (worklist ! head))) (graph, worklist);
          search (head + 1) worklist graph
        }
      else Some graph)"

declare search.simps [code]

definition entry_node :: "flow_graph \<Rightarrow> nat" where
  "entry_node graph = (if statement_count graph \<noteq> 0 then 0 else procedure_exit graph)"

definition mark_reachable :: "(nat \<Rightarrow> bool) \<Rightarrow> flow_graph \<Rightarrow> flow_graph option" where
  "mark_reachable mem graph =
     (if node_count graph = 0 then Some graph
      else if \<not> mem (node_count graph * 8) then None
      else search 0 [entry_node graph] (mark_node (entry_node graph) graph))"

section \<open>What marking keeps\<close>

definition unmarked :: "flow_graph \<Rightarrow> flow_graph" where
  "unmarked g = g\<lparr>graph_nodes := map (\<lambda>n. n\<lparr>node_reachable := False\<rparr>) (graph_nodes g)\<rparr>"

definition marked :: "flow_graph \<Rightarrow> nat set" where
  "marked g = {v. v < node_count g \<and> node_reachable (node_at g v)}"

definition arcs :: "flow_graph \<Rightarrow> (nat \<times> nat) set" where
  "arcs g = {(u, v). \<exists>k. has_edge g u v k}"

lemma unmarked_fields:
  assumes "unmarked h = unmarked g"
  shows "node_count h = node_count g" "statement_count h = statement_count g"
    "procedure_exit h = procedure_exit g" "image_termination h = image_termination g"
    "graph_blocks h = graph_blocks g"
    "i < node_count g \<Longrightarrow> (node_at h i)\<lparr>node_reachable := False\<rparr> = (node_at g i)\<lparr>node_reachable := False\<rparr>"
proof -
  have m: "map (\<lambda>n. n\<lparr>node_reachable := False\<rparr>) (graph_nodes h) = map (\<lambda>n. n\<lparr>node_reachable := False\<rparr>) (graph_nodes g)"
    using arg_cong [OF assms, of graph_nodes] by (simp add: unmarked_def)
  then show n: "node_count h = node_count g" by (rule map_eq_imp_length_eq)
  show "i < node_count g \<Longrightarrow> (node_at h i)\<lparr>node_reachable := False\<rparr> = (node_at g i)\<lparr>node_reachable := False\<rparr>"
    using arg_cong [OF m, of "\<lambda>ns. ns ! i"] n by simp
  show "statement_count h = statement_count g" "procedure_exit h = procedure_exit g"
    "image_termination h = image_termination g" "graph_blocks h = graph_blocks g"
    using arg_cong [OF assms, of statement_count] arg_cong [OF assms, of procedure_exit]
      arg_cong [OF assms, of image_termination] arg_cong [OF assms, of graph_blocks]
    by (simp_all add: unmarked_def)
qed

lemma unmarked_node:
  assumes "unmarked h = unmarked g" "i < node_count g"
  shows "successors (node_at h i) = successors (node_at g i)" "predecessors (node_at h i) = predecessors (node_at g i)"
    "node_kind (node_at h i) = node_kind (node_at g i)" "statement_index (node_at h i) = statement_index (node_at g i)"
proof -
  note n = unmarked_fields(6) [OF assms]
  show "successors (node_at h i) = successors (node_at g i)" "predecessors (node_at h i) = predecessors (node_at g i)"
    "node_kind (node_at h i) = node_kind (node_at g i)" "statement_index (node_at h i) = statement_index (node_at g i)"
    using arg_cong [OF n, of successors] arg_cong [OF n, of predecessors] arg_cong [OF n, of node_kind]
      arg_cong [OF n, of statement_index] by simp_all
qed

lemma unmarked_edges: "unmarked h = unmarked g \<Longrightarrow> has_edge h u v k = has_edge g u v k"
  using unmarked_fields(1) [of h g] unmarked_node(1) [of h g u] by (simp add: has_edge_def cong: conj_cong)

lemma unmarked_arcs: "unmarked h = unmarked g \<Longrightarrow> arcs h = arcs g"
  using unmarked_edges [of h g] by (simp add: arcs_def)

lemma unmarked_successors_ok: "unmarked h = unmarked g \<Longrightarrow> successors_ok g \<Longrightarrow> successors_ok h"
  using unmarked_fields(1) [of h g] unmarked_node(1) [of h g] by (simp add: successors_ok_nth)

lemma mark_node_laws:
  assumes "v < node_count g"
  shows "unmarked (mark_node v g) = unmarked g" "marked (mark_node v g) = insert v (marked g)"
proof -
  have "map (\<lambda>n. n\<lparr>node_reachable := False\<rparr>) ((graph_nodes g)[v := (node_at g v)\<lparr>node_reachable := True\<rparr>]) =
      map (\<lambda>n. n\<lparr>node_reachable := False\<rparr>) (graph_nodes g)"
    using assms by (intro nth_equalityI) (auto simp: nth_list_update)
  then show "unmarked (mark_node v g) = unmarked g" by (simp add: unmarked_def mark_node_def)
  show "marked (mark_node v g) = insert v (marked g)"
    using assms by (auto simp: marked_def mark_node_def nth_list_update)
qed

lemma finite_marked [simp]: "finite (marked g)" and marked_below: "marked g \<subseteq> {..<node_count g}"
  by (auto simp: marked_def)

section \<open>One node of the worklist\<close>

text \<open>The worklist holds every marked node exactly once, so it never outgrows its array.\<close>

definition listed :: "flow_graph \<Rightarrow> nat list \<Rightarrow> bool" where
  "listed g w \<longleftrightarrow> distinct w \<and> set w = marked g"

lemma listed_length: "listed g w \<Longrightarrow> length w \<le> node_count g"
  using card_mono [OF _ marked_below [of g]] by (auto simp: listed_def simp flip: distinct_card)

lemma visit_targets:
  assumes "listed g w" "\<forall>e \<in> set es. edge_target e < node_count g"
  shows "\<exists>h w'. for_each visit_target es (g, w) = Some (h, w @ w') \<and> unmarked h = unmarked g \<and>
    listed h (w @ w') \<and> marked h = marked g \<union> edge_target ` set es"
  using assms
proof (induction es arbitrary: g w)
  case Nil
  then show ?case by auto
next
  case (Cons e es)
  let ?t = "edge_target e"
  have t: "?t < node_count g" using Cons.prems(2) by simp
  show ?case
  proof (cases "?t \<in> marked g")
    case True
    then have "visit_target e (g, w) = Some (g, w)" using t by (simp add: visit_target_def marked_def)
    moreover obtain h w' where "for_each visit_target es (g, w) = Some (h, w @ w')" "unmarked h = unmarked g"
      "listed h (w @ w')" "marked h = marked g \<union> edge_target ` set es"
      using Cons.IH [OF Cons.prems(1)] Cons.prems(2) by auto
    ultimately show ?thesis using True by auto
  next
    case False
    note m = mark_node_laws [OF t]
    have l: "listed (mark_node ?t g) (w @ [?t])" using Cons.prems(1) False m(2) by (auto simp: listed_def)
    have n: "node_count (mark_node ?t g) = node_count g" by (simp add: mark_node_def)
    have "length w < node_count g" using listed_length [OF l] n by simp
    then have "visit_target e (g, w) = Some (mark_node ?t g, w @ [?t])"
      using t False by (simp add: visit_target_def marked_def Let_def)
    moreover obtain h w' where "for_each visit_target es (mark_node ?t g, w @ [?t]) = Some (h, (w @ [?t]) @ w')"
      "unmarked h = unmarked (mark_node ?t g)" "listed h ((w @ [?t]) @ w')"
      "marked h = marked (mark_node ?t g) \<union> edge_target ` set es"
      using Cons.IH [OF l] Cons.prems(2) n by auto
    ultimately show ?thesis using m by auto
  qed
qed

section \<open>The whole search\<close>

text \<open>
  The invariant of the loop: every marked node can be reached, and the successors of the nodes before
  the head are marked.
\<close>

definition searching :: "flow_graph \<Rightarrow> nat \<Rightarrow> nat \<Rightarrow> nat list \<Rightarrow> flow_graph \<Rightarrow> bool" where
  "searching g entry head w h \<longleftrightarrow> unmarked h = unmarked g \<and> listed h w \<and> head \<le> length w \<and> entry \<in> marked h \<and>
     marked h \<subseteq> (arcs g)\<^sup>* `` {entry} \<and> (\<forall>i < head. arcs g `` {w ! i} \<subseteq> marked h)"

lemma closed_under_arcs:
  assumes "entry \<in> M" "\<forall>u \<in> M. arcs g `` {u} \<subseteq> M"
  shows "(arcs g)\<^sup>* `` {entry} \<subseteq> M"
proof
  fix v assume "v \<in> (arcs g)\<^sup>* `` {entry}"
  then have "(entry, v) \<in> (arcs g)\<^sup>*" by simp
  then show "v \<in> M" by induction (use assms in auto)
qed

lemma successor_targets: "u < node_count g \<Longrightarrow> edge_target ` set (successors (node_at g u)) = arcs g `` {u}"
proof (intro equalityI subsetI)
  fix v assume u: "u < node_count g" and "v \<in> edge_target ` set (successors (node_at g u))"
  then obtain e where "e \<in> set (successors (node_at g u))" "v = edge_target e" by blast
  then have "edge_to v (edge_kind e) \<in> set (successors (node_at g u))" by simp
  with u show "v \<in> arcs g `` {u}" by (auto simp: arcs_def has_edge_def)
qed (auto simp: arcs_def has_edge_def rev_image_eqI)

lemma search_finds:
  assumes "successors_ok g" "searching g entry head w h"
  shows "\<exists>h'. search head w h = Some h' \<and> unmarked h' = unmarked g \<and> marked h' = (arcs g)\<^sup>* `` {entry}"
  using assms(2)
proof (induction "node_count g - head" arbitrary: head w h rule: less_induct)
  case less
  note inv = less.prems [unfolded searching_def]
  have n: "node_count h = node_count g" using unmarked_fields(1) [of h g] inv by simp
  show ?case
  proof (cases "head < length w")
    case False
    have "arcs g `` {u} \<subseteq> marked h" if "u \<in> marked h" for u
    proof -
      have "u \<in> set w" using that inv by (simp add: listed_def)
      then obtain i where "i < length w" "w ! i = u" by (auto simp: in_set_conv_nth)
      with False inv show ?thesis by (metis le_neq_implies_less)
    qed
    then have "(arcs g)\<^sup>* `` {entry} \<subseteq> marked h" using inv by (intro closed_under_arcs) simp_all
    then have "marked h = (arcs g)\<^sup>* `` {entry}" using inv by (intro equalityI) simp_all
    then show ?thesis using False inv by (subst search.simps) simp
  next
    case True
    let ?u = "w ! head"
    have "?u \<in> marked h" using True inv by (auto simp: listed_def)
    then have u: "?u < node_count h" by (simp add: marked_def)
    have es: "\<forall>e \<in> set (successors (node_at h ?u)). edge_target e < node_count h"
      using unmarked_successors_ok [of h g] inv assms(1) u by (simp add: successors_ok_nth)
    have "listed h w" using inv by simp
    from visit_targets [OF this es] obtain a w' where a: "for_each visit_target (successors (node_at h ?u)) (h, w) = Some (a, w @ w')"
      "unmarked a = unmarked h" "listed a (w @ w')" "marked a = marked h \<union> arcs h `` {?u}"
      unfolding successor_targets [OF u] by blast
    have arcs: "arcs h = arcs g" using unmarked_arcs [of h g] inv by simp
    have i: "arcs g `` {(w @ w') ! i} \<subseteq> marked a" if "i < head + 1" for i
    proof (cases "i = head")
      case False
      then have "i < head" "(w @ w') ! i = w ! i" using that True by (simp_all add: nth_append)
      then show ?thesis using inv a(4) by auto
    qed (use True a(4) arcs in \<open>simp add: nth_append\<close>)
    have "?u \<in> (arcs g)\<^sup>* `` {entry}" using \<open>?u \<in> marked h\<close> inv by blast
    then have "arcs g `` {?u} \<subseteq> (arcs g)\<^sup>* `` {entry}" by (auto intro: rtrancl_into_rtrancl)
    then have "searching g entry (head + 1) (w @ w') a"
      using inv a i True arcs by (auto simp: searching_def)
    moreover have "node_count g - (head + 1) < node_count g - head"
      using True listed_length [of h w] inv n by simp
    ultimately show ?thesis using less.hyps a(1) True by (subst search.simps) simp
  qed
qed

lemma mark_reachable_correct:
  assumes "successors_ok g" "entry_node g < node_count g" "marked g = {}" "mem (node_count g * 8)"
  shows "\<exists>h. mark_reachable mem g = Some h \<and> unmarked h = unmarked g \<and> marked h = (arcs g)\<^sup>* `` {entry_node g}"
proof -
  let ?h = "mark_node (entry_node g) g"
  note m = mark_node_laws [OF assms(2)]
  have "searching g (entry_node g) 0 [entry_node g] ?h"
    using m assms(3) by (auto simp: searching_def listed_def)
  from search_finds [OF assms(1) this] have "\<exists>h. search 0 [entry_node g] ?h = Some h \<and>
      unmarked h = unmarked g \<and> marked h = (arcs g)\<^sup>* `` {entry_node g}" .
  moreover have "mark_reachable mem g = search 0 [entry_node g] ?h"
    unfolding mark_reachable_def using assms(2,4) by fastforce
  ultimately show ?thesis by simp
qed

end
