(* ===== verification/Control_Flow.thy ===== *)
theory Control_Flow
  imports Flow_Edges Flow_Blocks Flow_Reach
begin

text \<open>
  \<open>f2c_control_flow_build\<close> (\<open>semantic/control_flow.c\<close>): the nodes, the edges, reachability and the
  blocks of one program unit, and what the finished graph satisfies.
\<close>

section \<open>The construction\<close>

definition build_graph :: "(nat \<Rightarrow> bool) \<Rightarrow> statement list \<Rightarrow> flow_graph option" where
  "build_graph mem unit =
     do {
       (graph, loops) \<leftarrow> create_nodes mem unit;
       graph \<leftarrow> build_edges mem unit loops graph;
       graph \<leftarrow> mark_reachable mem graph;
       control_flow_finalize mem graph
     }"

definition zero_graph :: flow_graph where
  "zero_graph = \<lparr>graph_nodes = [], statement_count = 0, procedure_exit = 0, image_termination = 0, graph_blocks = []\<rparr>"

text \<open>The diagnostics of a context are the list of their messages; without a context nothing is reported.\<close>

definition control_flow_build ::
  "(nat \<Rightarrow> bool) \<Rightarrow> string list option \<Rightarrow> statement list option \<Rightarrow> flow_graph \<times> bool \<times> string list option" where
  "control_flow_build mem context unit =
     (case unit of
        None \<Rightarrow> (zero_graph, True, context)
      | Some statements \<Rightarrow>
          (case build_graph mem statements of
             Some graph \<Rightarrow> (graph, True, context)
           | None \<Rightarrow> (zero_graph, False,
               map_option (\<lambda>messages. messages @ [''out of memory while building the procedure control-flow graph''])
                 context)))"

lemma control_flow_build_Some:
  "control_flow_build mem context (Some unit) = (g, True, context') \<longleftrightarrow> build_graph mem unit = Some g \<and> context' = context"
  by (auto simp: control_flow_build_def split: option.splits)

section \<open>The stages\<close>

lemma map_filter_set: "set (List.map_filter f xs) = {y. \<exists>x \<in> set xs. f x = Some y}"
  by (induction xs) (auto simp: List.map_filter_simps split: option.splits)

lemma create_nodes_laws:
  assumes "create_nodes mem unit = Some (g, loops)"
  shows "statement_count g = length unit" "procedure_exit g = length unit" "image_termination g = length unit + 1"
    "node_count g = length unit + 2 + length loops" "graph_blocks g = []"
    "\<forall>v < node_count g. node_at g v = new_node
       (if v < length unit then CFG_NODE_STATEMENT else if v = length unit then CFG_NODE_PROCEDURE_EXIT
        else if v = length unit + 1 then CFG_NODE_IMAGE_TERMINATION else CFG_NODE_LOOP_LATCH)
       (if v < length unit then v else if v < length unit + 2 then SIZE_MAX
        else loop_opener_index (loops ! (v - length unit - 2)))"
    "loops_ok (length unit) loops" "node_count g \<le> SIZE_MAX div 72"
    "\<forall>i < length loops. loop_latch_index (loops ! i) = length unit + 2 + i"
proof -
  obtain ls where ls: "collect_loops mem unit = Some ls" "loops = number_latches (length unit) ls"
    "\<not> length unit + 2 + length ls > SIZE_MAX div 72" and g: "g = \<lparr>graph_nodes = map (new_node CFG_NODE_STATEMENT) [0..<length unit] @
              [new_node CFG_NODE_PROCEDURE_EXIT SIZE_MAX, new_node CFG_NODE_IMAGE_TERMINATION SIZE_MAX] @
              map (\<lambda>loop. new_node CFG_NODE_LOOP_LATCH (loop_opener_index loop)) ls,
            statement_count = length unit, procedure_exit = length unit, image_termination = length unit + 1,
            graph_blocks = []\<rparr>"
    using assms by (auto simp: create_nodes_def bind_conv Let_def split: if_splits)
  have l: "length loops = length ls" by (simp add: ls(2) number_latches_def)
  have at: "loops ! i = (ls ! i)\<lparr>loop_latch_index := length unit + 2 + i\<rparr>" if "i < length ls" for i
    using that by (simp add: ls(2) number_latches_def)
  show "statement_count g = length unit" "procedure_exit g = length unit" "image_termination g = length unit + 1"
    "node_count g = length unit + 2 + length loops" "graph_blocks g = []" "node_count g \<le> SIZE_MAX div 72"
    using ls(3) l by (simp_all add: g)
  show "\<forall>i < length loops. loop_latch_index (loops ! i) = length unit + 2 + i" using at l by simp
  show "\<forall>v < node_count g. node_at g v = new_node
       (if v < length unit then CFG_NODE_STATEMENT else if v = length unit then CFG_NODE_PROCEDURE_EXIT
        else if v = length unit + 1 then CFG_NODE_IMAGE_TERMINATION else CFG_NODE_LOOP_LATCH)
       (if v < length unit then v else if v < length unit + 2 then SIZE_MAX
        else loop_opener_index (loops ! (v - length unit - 2)))"
  proof (intro allI impI)
    fix v assume v: "v < node_count g"
    have n: "node_count g = length unit + 2 + length ls" by (simp add: g)
    consider "v < length unit" | "v = length unit" | "v = Suc (length unit)"
      | i where "v = Suc (Suc (length unit + i))" "i < length ls"
    proof (cases "v < length unit + 2")
      case True
      then show thesis using that(1-3) by fastforce
    next
      case False
      then obtain i where i: "v = length unit + 2 + i" using le_Suc_ex [of "length unit + 2" v] by auto
      with v n have "i < length ls" by simp
      with i that(4) show thesis by simp
    qed
    then show "node_at g v = new_node
       (if v < length unit then CFG_NODE_STATEMENT else if v = length unit then CFG_NODE_PROCEDURE_EXIT
        else if v = length unit + 1 then CFG_NODE_IMAGE_TERMINATION else CFG_NODE_LOOP_LATCH)
       (if v < length unit then v else if v < length unit + 2 then SIZE_MAX
        else loop_opener_index (loops ! (v - length unit - 2)))"
      by cases (simp_all add: g nth_append at)
  qed
  have "loop_opener_index loop < length unit \<and> loop_end_index loop < length unit" if "loop \<in> set ls" for loop
    using that ls(1) by (auto simp: collect_loops_def map_filter_set Let_def dest!: construct_end_less split: if_splits)
  then show "loops_ok (length unit) loops"
    using l at by (fastforce simp: loops_ok_def in_set_conv_nth)
qed

lemma build_edges_builds:
  assumes "build_edges mem unit loops g = Some h" "loops_ok (length unit) loops"
  shows "builds (sources (length unit)) g h"
proof -
  obtain a b c where a: "for_each (append_next_edge mem unit) [0..<length unit] g = Some a"
    "for_each (append_transfer_edges mem unit) [0..<length unit] a = Some b"
    "build_construct_edges mem unit loops b = Some c" "build_control_transfer_edges mem unit loops c = Some h"
    using assms(1) by (auto simp: build_edges_def bind_conv)
  have "builds (sources (length unit)) g a"
    by (rule builds_for_each [OF a(1)]) (auto intro: append_next_edge_builds)
  also have "builds (sources (length unit)) a b"
    by (rule builds_for_each [OF a(2)]) (auto intro: append_transfer_edges_builds)
  also note build_construct_edges_builds [OF a(3) assms(2)]
  also note build_control_transfer_edges_builds [OF a(4) assms(2)]
  finally show ?thesis .
qed

text \<open>The stages of a construction that succeeds.\<close>

lemma build_stages:
  assumes "build_graph mem unit = Some g"
  obtains g0 loops g1 g2 g3 L g4 where
    "create_nodes mem unit = Some (g0, loops)" "build_edges mem unit loops g0 = Some g1"
    "builds (sources (length unit)) g0 g1" "unmarked g2 = unmarked g1" "marked g2 = (arcs g1)\<^sup>* `` {entry_node g1}"
    "view g3 = view g2" "mark_block_leaders g3 (replicate (node_count g3) False) = Some L"
    "\<forall>v < node_count g2. \<forall>u k. edge_to u k \<in> set (predecessors (node_at g3 v)) \<longleftrightarrow> has_edge g2 u v k"
    "\<forall>v < node_count g2. distinct (predecessors (node_at g3 v))"
    "placed g3 L (node_count g3) g4" "connect_blocks mem g4 = Some g"
proof -
  obtain g0 loops g1 g2 g3 L g4 where
    c: "create_nodes mem unit = Some (g0, loops)" and e: "build_edges mem unit loops g0 = Some g1"
    and r: "mark_reachable mem g1 = Some g2"
    and p: "build_node_predecessors mem g2 = Some g3"
    and l: "mark_block_leaders g3 (replicate (node_count g3) False) = Some L"
    and b: "create_blocks mem g3 L = Some g4" "connect_blocks mem g4 = Some g"
    using assms by (auto simp: build_graph_def control_flow_finalize_def bind_conv split: if_splits)
  note c' = create_nodes_laws [OF c]
  have B: "builds (sources (length unit)) g0 g1" by (rule build_edges_builds [OF e c'(7)])
  then have evolves: "evolves g0 g1" and ok: "successors_ok g1"
    using c'(6) by (auto simp: builds_def successors_ok_nth new_node_def zero_node_def)
  note f = evolves_fields [OF evolves]
  have node: "node_core (node_at g1 i) = node_core (node_at g0 i)" if "i < node_count g1" for i
    using evolves_node [OF evolves] that f(1) by simp
  have fresh: "predecessors (node_at g1 i) = []" "\<not> node_reachable (node_at g1 i)" if "i < node_count g1" for i
  proof -
    have "predecessors (node_core (node_at g1 i)) = []" "\<not> node_reachable (node_core (node_at g1 i))"
      unfolding node [OF that] using c'(6) that f(1) by (auto simp: node_core_def new_node_def zero_node_def)
    then show "predecessors (node_at g1 i) = []" "\<not> node_reachable (node_at g1 i)" by (simp_all add: node_core_def)
  qed
  have entry: "entry_node g1 < node_count g1" using c' f by (simp add: entry_node_def)
  have "marked g1 = {}" using fresh(2) by (auto simp: marked_def)
  moreover have "mem (node_count g1 * 8)"
    using r entry by (auto simp: mark_reachable_def split: if_splits)
  ultimately obtain h where "mark_reachable mem g1 = Some h" "unmarked h = unmarked g1"
    "marked h = (arcs g1)\<^sup>* `` {entry_node g1}"
    using mark_reachable_correct [of g1 mem, OF ok entry] by blast
  then have m: "unmarked g2 = unmarked g1" "marked g2 = (arcs g1)\<^sup>* `` {entry_node g1}" using r by simp_all
  note u = unmarked_fields(1,2) [OF m(1)]
  have "\<forall>i < node_count g2. predecessors (node_at g2 i) = []"
    using fresh(1) unmarked_node(2) [OF m(1)] unfolding u by simp
  note P = build_node_predecessors_laws [OF p this]
  note n = view_fields [OF P(1)]
  have "statement_count g3 \<le> node_count g3" "0 < node_count g3"
    unfolding n(1,2) u f(1,2) c'(1,4) by simp_all
  then have "L ! 0" using mark_block_leaders_laws(2) [OF l] first_is_leader by simp
  then have "placed g3 L (node_count g3) g4" using create_blocks_placed [OF b(1)] \<open>0 < node_count g3\<close> by simp
  with c e B m P l b show thesis by (intro that [of g0 loops g1 g2 g3 L g4])
qed

lemma is_leader_view:
  assumes "view h = view g" "statement_count g \<le> node_count g"
  shows "is_leader h v = is_leader g v"
proof -
  note n = view_fields(2) [OF assms(1)]
  have "successors (node_at h u) = successors (node_at g u)" if "u < statement_count g" for u
    using view_node(1) [OF assms(1)] that assms(2) by simp
  then show ?thesis unfolding is_leader_def n has_edge_view [OF assms(1)] by auto
qed

text \<open>The edges, the reachability and the predecessors of the finished graph.\<close>

lemma finished:
  assumes "build_graph mem unit = Some g"
  obtains g0 loops g1 where
    "create_nodes mem unit = Some (g0, loops)" "build_edges mem unit loops g0 = Some g1"
    "builds (sources (length unit)) g0 g1" "\<And>u v k. has_edge g u v k = has_edge g1 u v k"
    "statement_count g = length unit" "procedure_exit g = length unit" "image_termination g = length unit + 1"
    "node_count g = length unit + 2 + length loops" "node_count g \<le> SIZE_MAX div 72" "successors_ok g"
    "\<And>v. v < node_count g \<Longrightarrow> node_kind (node_at g v) = node_kind (node_at g0 v) \<and>
       statement_index (node_at g v) = statement_index (node_at g0 v)"
    "\<And>v. v < node_count g \<Longrightarrow> node_reachable (node_at g v) \<longleftrightarrow> (entry_node g, v) \<in> (arcs g)\<^sup>*"
    "\<And>u v k. v < node_count g \<Longrightarrow> edge_to u k \<in> set (predecessors (node_at g v)) \<longleftrightarrow> has_edge g u v k"
    "\<And>v. v < node_count g \<Longrightarrow> distinct (predecessors (node_at g v))"
proof -
  obtain g0 loops g1 g2 g3 L g4 where s: "create_nodes mem unit = Some (g0, loops)"
    "build_edges mem unit loops g0 = Some g1" and B: "builds (sources (length unit)) g0 g1"
    and u: "unmarked g2 = unmarked g1" "marked g2 = (arcs g1)\<^sup>* `` {entry_node g1}" and v3: "view g3 = view g2"
    and l: "mark_block_leaders g3 (replicate (node_count g3) False) = Some L"
    and p: "\<forall>v < node_count g2. \<forall>u k. edge_to u k \<in> set (predecessors (node_at g3 v)) \<longleftrightarrow> has_edge g2 u v k"
      "\<forall>v < node_count g2. distinct (predecessors (node_at g3 v))"
    and b: "placed g3 L (node_count g3) g4" "connect_blocks mem g4 = Some g"
    by (rule build_stages [OF assms])
  note c = create_nodes_laws [OF s(1)]
  have ev: "evolves g0 g1" and ok1: "successors_ok g1"
    using B c(6) by (auto simp: builds_def successors_ok_nth new_node_def zero_node_def)
  note f1 = evolves_fields [OF ev] and f2 = unmarked_fields [OF u(1)] and f3 = view_fields [OF v3]
  have v4: "view g4 = view g3" and p4: "map predecessors (graph_nodes g4) = map predecessors (graph_nodes g3)"
    using b(1) by (simp_all add: placed_def)
  note f4 = view_fields [OF v4]
  have ok4: "successors_ok g4"
    using unmarked_successors_ok [OF u(1) ok1] view_node(1) [OF v3] view_node(1) [OF v4] f3(1) f4(1)
    by (simp add: successors_ok_nth)
  have bi: "blocks_indexed g4"
  proof -
    have "statement_count g3 \<le> node_count g3" "0 < node_count g3"
      unfolding f3(1,2) f2(1,2) f1(1,2) c(1,4) by simp_all
    then have "L ! 0" using mark_block_leaders_laws(2) [OF l] first_is_leader by simp
    then show ?thesis
      using b(1) f4(1) block_of_less [of L] by (simp add: blocks_indexed_def placed_def)
  qed
  have fr: "block_frame g4 g" by (rule connect_blocks_laws(1) [OF b(2) bi ok4])
  then have same: "graph_nodes g = graph_nodes g4" and vg4: "view g = view g4" by (simp_all add: block_frame_def)
  have v2: "view g = view g2" using vg4 v4 v3 by simp
  note fg = view_fields [OF v2] and ng = view_node [OF v2]
  have edges: "has_edge g u v k = has_edge g1 u v k" for u v k
    using has_edge_view [OF v2] unmarked_edges [OF u(1)] by simp
  then have arcs: "arcs g = arcs g1" by (simp add: arcs_def)
  have entry: "entry_node g = entry_node g1" using fg(2,3) f2(2,3) by (simp add: entry_node_def)
  show thesis
  proof (rule that [OF s B edges])
    show "statement_count g = length unit" "procedure_exit g = length unit" "image_termination g = length unit + 1"
      "node_count g = length unit + 2 + length loops" "node_count g \<le> SIZE_MAX div 72"
      unfolding fg f2(1-4) f1(1-4) using c(8) by (simp_all add: c(1-4))
    show "successors_ok g" using ok4 by (simp add: successors_ok_def same)
    show "node_kind (node_at g v) = node_kind (node_at g0 v) \<and> statement_index (node_at g v) = statement_index (node_at g0 v)"
      if "v < node_count g" for v
    proof -
      have v: "v < node_count g0" "v < node_count g1" "v < node_count g2" using that fg(1) f2(1) f1(1) by simp_all
      have "node_kind (node_core (node_at g1 v)) = node_kind (node_core (node_at g0 v))"
        "statement_index (node_core (node_at g1 v)) = statement_index (node_core (node_at g0 v))"
        using evolves_node [OF ev v(1)] by simp_all
      then show ?thesis using ng(2,4) [OF v(3)] unmarked_node(3,4) [OF u(1) v(2)] by (simp add: node_core_def)
    qed
    show "node_reachable (node_at g v) \<longleftrightarrow> (entry_node g, v) \<in> (arcs g)\<^sup>*" if "v < node_count g" for v
    proof -
      have v: "v < node_count g2" using that fg(1) by simp
      have "node_reachable (node_at g v) \<longleftrightarrow> v \<in> marked g2" unfolding ng(3) [OF v] marked_def using v by simp
      then show ?thesis unfolding u(2) arcs entry by simp
    qed
    have pred: "predecessors (node_at g v) = predecessors (node_at g3 v)" if "v < node_count g" for v
      using arg_cong [OF p4, of "\<lambda>ps. ps ! v"] that same f4(1) by simp
    show "edge_to u k \<in> set (predecessors (node_at g v)) \<longleftrightarrow> has_edge g u v k" if "v < node_count g" for u v k
      unfolding pred [OF that] using p(1) that fg(1) has_edge_view [OF v2] by simp
    show "distinct (predecessors (node_at g v))" if "v < node_count g" for v
      unfolding pred [OF that] using p(2) that fg(1) by simp
  qed
qed

text \<open>The blocks of the finished graph.\<close>

lemma finished_blocks:
  assumes "build_graph mem unit = Some g"
  obtains L where
    "length L = node_count g" "\<And>v. v < node_count g \<Longrightarrow> L ! v \<longleftrightarrow> is_leader g v"
    "length (graph_blocks g) = leader_count L (node_count g)"
    "\<And>v. v < node_count g \<Longrightarrow> block_index (node_at g v) = block_of L v"
    "\<And>b. b < length (graph_blocks g) \<Longrightarrow>
       block_node_count (graph_blocks g ! b) = card (members L (node_count g) b) \<and>
       (block_reachable (graph_blocks g ! b) \<longleftrightarrow> (\<exists>v \<in> members L (node_count g) b. node_reachable (node_at g v))) \<and>
       (\<forall>v \<in> members L (node_count g) b. L ! v \<longrightarrow> first_node (graph_blocks g ! b) = v)"
    "block_out g = (\<Union>u < node_count g. \<Union>e \<in> set (successors (node_at g u)). fst (crossing g u e))"
    "block_in g = (\<Union>u < node_count g. \<Union>e \<in> set (successors (node_at g u)). snd (crossing g u e))"
proof -
  obtain g0 loops g1 g2 g3 L g4 where s: "create_nodes mem unit = Some (g0, loops)"
    and B: "builds (sources (length unit)) g0 g1"
    and u: "unmarked g2 = unmarked g1" and v3: "view g3 = view g2"
    and l: "mark_block_leaders g3 (replicate (node_count g3) False) = Some L"
    and b: "placed g3 L (node_count g3) g4" "connect_blocks mem g4 = Some g"
    by (rule build_stages [OF assms])
  note c = create_nodes_laws [OF s(1)]
  have ev: "evolves g0 g1" and ok1: "successors_ok g1"
    using B c(6) by (auto simp: builds_def successors_ok_nth new_node_def zero_node_def)
  note f1 = evolves_fields [OF ev] and f2 = unmarked_fields [OF u] and f3 = view_fields [OF v3]
  have v4: "view g4 = view g3" using b(1) by (simp add: placed_def)
  note f4 = view_fields [OF v4]
  have ok4: "successors_ok g4"
    using unmarked_successors_ok [OF u ok1] view_node(1) [OF v3] view_node(1) [OF v4] f3(1) f4(1)
    by (simp add: successors_ok_nth)
  have n3: "statement_count g3 \<le> node_count g3" "0 < node_count g3"
    unfolding f3(1,2) f2(1,2) f1(1,2) c(1,4) by simp_all
  have "L ! 0" using mark_block_leaders_laws(2) [OF l n3(1) n3(2)] first_is_leader by simp
  then have bi: "blocks_indexed g4"
    using b(1) f4(1) block_of_less [of L] by (simp add: blocks_indexed_def placed_def)
  note K = connect_blocks_laws [OF b(2) bi ok4]
  have same: "graph_nodes g = graph_nodes g4" and vg4: "view g = view g4" using K(1) by (simp_all add: block_frame_def)
  have v: "view g = view g3" using vg4 v4 by simp
  note fg = view_fields [OF v] and nr = view_node(3) [OF v]
  have cross: "crossing g4 w e = crossing g w e" for w e by (simp add: crossing_def same)
  have len: "length (graph_blocks g) = length (graph_blocks g4)" by (rule block_frame_length [OF K(1)])
  have empty: "block_out g4 = {}" "block_in g4 = {}"
    using b(1) by (auto simp: placed_def block_ok_def block_out_def block_in_def)
  show thesis
  proof (rule that [of L])
    show "length L = node_count g" using mark_block_leaders_laws(1) [OF l n3(1)] fg(1) by simp
    show "L ! w \<longleftrightarrow> is_leader g w" if "w < node_count g" for w
      using mark_block_leaders_laws(2) [OF l n3(1)] that is_leader_view [OF v n3(1)] fg(1) by simp
    show "length (graph_blocks g) = leader_count L (node_count g)" using b(1) len fg(1) by (simp add: placed_def)
    show "block_index (node_at g w) = block_of L w" if "w < node_count g" for w
      using that b(1) fg(1) same by (simp add: placed_def)
    show "block_out g = (\<Union>u < node_count g. \<Union>e \<in> set (successors (node_at g u)). fst (crossing g u e))"
      "block_in g = (\<Union>u < node_count g. \<Union>e \<in> set (successors (node_at g u)). snd (crossing g u e))"
      using K(2,3) unfolding empty cross same by simp_all
    fix i assume i: "i < length (graph_blocks g)"
    have "block_core (graph_blocks g ! i) = block_core (graph_blocks g4 ! i)"
      using K(1) i len unfolding block_frame_def by (metis nth_map)
    then have core: "first_node (graph_blocks g ! i) = first_node (graph_blocks g4 ! i)"
      "block_node_count (graph_blocks g ! i) = block_node_count (graph_blocks g4 ! i)"
      "block_reachable (graph_blocks g ! i) = block_reachable (graph_blocks g4 ! i)"
      by (simp_all add: block_core_def)
    have "block_ok g3 L (node_count g3) i (graph_blocks g4 ! i)" using b(1) i len by (simp add: placed_def)
    moreover have "node_reachable (node_at g3 w) = node_reachable (node_at g w)" if "w \<in> members L (node_count g) i" for w
      using nr that fg(1) by (simp add: members_def)
    ultimately show "block_node_count (graph_blocks g ! i) = card (members L (node_count g) i) \<and>
       (block_reachable (graph_blocks g ! i) \<longleftrightarrow> (\<exists>v \<in> members L (node_count g) i. node_reachable (node_at g v))) \<and>
       (\<forall>v \<in> members L (node_count g) i. L ! v \<longrightarrow> first_node (graph_blocks g ! i) = v)"
      unfolding core block_ok_def fg(1) by (metis (no_types, lifting))
  qed
qed

section \<open>Blocks are intervals\<close>

lemma block_of_step: "L ! 0 \<Longrightarrow> block_of L (Suc v) = block_of L v + (if L ! Suc v then 1 else 0)"
  using leader_count_pos [of L v] by (simp add: block_of_def split: if_splits)

lemma block_of_mono: "v \<le> w \<Longrightarrow> block_of L v \<le> block_of L w"
  using leader_count_mono [of "Suc v" "Suc w" L] by (simp add: block_of_def diff_le_mono)

text \<open>The first node of a block: a leader, followed by the nodes that are none.\<close>

lemma block_leader:
  assumes "L ! 0" "b < leader_count L m"
  obtains f where "f < m" "L ! f" "block_of L f = b" "\<And>v. v < f \<Longrightarrow> block_of L v < b"
proof -
  have "\<exists>f < m. L ! f \<and> block_of L f = b"
    using assms(2)
  proof (induction m)
    case (Suc m)
    show ?case
    proof (cases "b < leader_count L m")
      case True
      with Suc.IH show ?thesis by (auto intro: less_SucI)
    next
      case False
      with Suc.prems have "L ! m" "b = leader_count L m" by (auto split: if_splits)
      then show ?thesis using block_of_leader [of L m] by auto
    qed
  qed simp
  then obtain f where f: "f < m" "L ! f" "block_of L f = b" by blast
  have "block_of L v < b" if "v < f" for v
    using block_of_less [OF assms(1) that] f(2,3) block_of_leader [OF f(2)] by simp
  with f show thesis by (rule that)
qed

lemma members_interval:
  assumes "L ! 0" "b < leader_count L m"
  shows "\<exists>f. L ! f \<and> f \<in> members L m b \<and> members L m b = {f..<f + card (members L m b)}"
proof -
  obtain f where f: "f < m" "L ! f" "block_of L f = b" "\<And>v. v < f \<Longrightarrow> block_of L v < b"
    by (rule block_leader [OF assms]) blast
  let ?M = "members L m b"
  have fM: "f \<in> ?M" using f by (simp add: members_def)
  have "?M = {f..Max ?M}"
  proof
    show "?M \<subseteq> {f..Max ?M}"
    proof
      fix v assume v: "v \<in> ?M"
      then have "\<not> v < f" using f(4) [of v] by (auto simp: members_def)
      with v show "v \<in> {f..Max ?M}" by simp
    qed
    show "{f..Max ?M} \<subseteq> ?M"
    proof
      fix v assume v: "v \<in> {f..Max ?M}"
      have M: "Max ?M \<in> ?M" using fM by (intro Max_in) auto
      then have "block_of L f \<le> block_of L v" "block_of L v \<le> block_of L (Max ?M)" "Max ?M < m"
        using v block_of_mono [of f v L] block_of_mono [of v "Max ?M" L] by (simp_all add: members_def)
      then show "v \<in> ?M" using v f(3) M by (auto simp: members_def)
    qed
  qed
  then obtain x where x: "?M = {f..x}" by blast
  then have "f \<le> x" using fM by auto
  then have "?M = {f..<f + card ?M}" unfolding x by auto
  with f(2) fM show ?thesis by blast
qed

end
