(* ===== verification/Flow_Correct.thy ===== *)
theory Flow_Correct
  imports Control_Flow
begin

text \<open>
  The properties of the control-flow graph that \<open>f2c_control_flow_build\<close> returns, with concrete program
  units where they hold.
\<close>

section \<open>Concrete units\<close>

text \<open>
  An assignment, a loop with one statement, and a \<open>RETURN\<close>:
  \<open>x = 1; DO i = 1, n; s = i; END DO; RETURN\<close>.
\<close>

definition unit_with_loop :: "statement list" where
  "unit_with_loop = [plain STMT_ASSIGNMENT 1,
     Statement ((plain_fields STMT_DO 2)\<lparr>statement_left := Some (name_expr None ''i''),
       statement_right := Some (name_expr None ''k''), statement_limit := Some (name_expr None ''n'')\<rparr>) None,
     plain STMT_ASSIGNMENT 3,
     Statement ((plain_fields STMT_END_DO 4)\<lparr>construct_owner := Some 2\<rparr>) None,
     plain STMT_RETURN 5]"

text \<open>\<open>GOTO 10\<close>, a statement that nothing reaches, and the label \<open>10\<close> before \<open>STOP\<close>.\<close>

definition unit_with_goto :: "statement list" where
  "unit_with_goto = [Statement ((plain_fields STMT_GOTO 1)\<lparr>statement_name := Some ''10''\<rparr>) None,
     plain STMT_ASSIGNMENT 2,
     Statement ((plain_fields STMT_LABEL 3)\<lparr>statement_name := Some ''010''\<rparr>) (Some (plain STMT_STOP 4))]"

abbreviation ample :: "nat \<Rightarrow> bool" where
  "ample n \<equiv> True"

definition loop_graph :: flow_graph where
  "loop_graph = fst (control_flow_build (\<lambda>n. ample n) None (Some unit_with_loop))"

definition goto_graph :: flow_graph where
  "goto_graph = fst (control_flow_build (\<lambda>n. ample n) None (Some unit_with_goto))"

lemma loop_graph_built: "control_flow_build (\<lambda>n. ample n) None (Some unit_with_loop) = (loop_graph, True, None)"
  unfolding loop_graph_def by code_simp

lemma goto_graph_built: "control_flow_build (\<lambda>n. ample n) None (Some unit_with_goto) = (goto_graph, True, None)"
  unfolding goto_graph_def by code_simp

section \<open>The shape of the graph\<close>

lemma no_edges_no_successors: "u < node_count g \<Longrightarrow> (\<And>v k. \<not> has_edge g u v k) \<Longrightarrow> successors (node_at g u) = []"
  by (cases "successors (node_at g u)") (auto simp: has_edge_def, metis edge_to_eta list.set_intros(1))

lemma builds_new_edge: "builds S g h \<Longrightarrow> has_edge h u v k \<Longrightarrow> has_edge g u v k \<or> u \<in> S"
  unfolding builds_def by blast

lemma no_first_edges:
  assumes "create_nodes mem unit = Some (g, loops)"
  shows "\<not> has_edge g u v k"
  using create_nodes_laws(6) [OF assms] by (auto simp: has_edge_def new_node_def zero_node_def)

text \<open>
  C25: The graph of a unit of \<open>n\<close> statements has one node per statement, the procedure exit at \<open>n\<close>, the
  image termination at \<open>n + 1\<close> and then one latch per loop; every edge leads to an existing node, no node
  has the same edge twice, and nothing leaves the two final nodes.
\<close>

theorem graph_well_formed:
  assumes "control_flow_build mem context (Some unit) = (g, True, context')"
  shows "statement_count g = length unit \<and> procedure_exit g = length unit \<and> image_termination g = length unit + 1 \<and>
    length unit + 2 \<le> node_count g \<and>
    (\<forall>v < node_count g.
       (node_kind (node_at g v) = CFG_NODE_STATEMENT \<longleftrightarrow> v < length unit) \<and>
       (node_kind (node_at g v) = CFG_NODE_LOOP_LATCH \<longleftrightarrow> length unit + 2 \<le> v) \<and>
       distinct (successors (node_at g v)) \<and> (\<forall>e \<in> set (successors (node_at g v)). edge_target e < node_count g)) \<and>
    successors (node_at g (procedure_exit g)) = [] \<and> successors (node_at g (image_termination g)) = []"
proof -
  have "build_graph mem unit = Some g" using assms by (simp add: control_flow_build_Some)
  then obtain g0 loops g1 where c: "create_nodes mem unit = Some (g0, loops)"
    and b: "builds (sources (length unit)) g0 g1" and e: "\<And>u v k. has_edge g u v k = has_edge g1 u v k"
    and f: "statement_count g = length unit" "procedure_exit g = length unit" "image_termination g = length unit + 1"
      "node_count g = length unit + 2 + length loops" "successors_ok g"
    and k: "\<And>v. v < node_count g \<Longrightarrow> node_kind (node_at g v) = node_kind (node_at g0 v) \<and>
       statement_index (node_at g v) = statement_index (node_at g0 v)"
    by (rule finished) blast
  have n0: "node_count g0 = node_count g" using create_nodes_laws(4) [OF c] f(4) by simp
  have "\<not> has_edge g u v k" if "u = length unit \<or> u = length unit + 1" for u v k
    using that builds_new_edge [OF b, of u v k] e [of u v k] no_first_edges [OF c, of u v k]
    by (auto simp: sources_def)
  then have sinks: "successors (node_at g (length unit)) = []" "successors (node_at g (length unit + 1)) = []"
    by (auto intro!: no_edges_no_successors simp: f(4))
  have "(node_kind (node_at g v) = CFG_NODE_STATEMENT \<longleftrightarrow> v < length unit) \<and>
      (node_kind (node_at g v) = CFG_NODE_LOOP_LATCH \<longleftrightarrow> length unit + 2 \<le> v)" if "v < node_count g" for v
    using k [OF that] create_nodes_laws(6) [OF c] that n0 by (auto simp: new_node_def)
  then show ?thesis using f sinks by (auto simp: successors_ok_nth)
qed

lemma graph_well_formed_witness:
  "procedure_exit loop_graph = 5 \<and> 7 \<le> node_count loop_graph \<and> successors (node_at loop_graph 5) = []"
proof -
  have "length unit_with_loop = 5" by code_simp
  then show ?thesis using graph_well_formed [OF loop_graph_built] by auto
qed

section \<open>Which edges there are\<close>

lemma builds_keeps: "builds S g h \<Longrightarrow> has_edge g u v k \<Longrightarrow> k \<noteq> CFG_EDGE_FALLTHROUGH \<Longrightarrow> has_edge h u v k"
  unfolding builds_def using cfg.permanent_edge by blast

lemma builds_exits: "builds S g h \<Longrightarrow> exits g u \<Longrightarrow> exits h u"
  unfolding builds_def using cfg.permanent_exits by blast

lemma builds_evolves: "builds S g h \<Longrightarrow> evolves g h"
  by (simp add: builds_def)

lemma for_each_step:
  assumes "for_each f xs g = Some h" "x \<in> set xs" "\<And>y a b. y \<in> set xs \<Longrightarrow> f y a = Some b \<Longrightarrow> builds S a b"
  obtains a b where "builds S g a" "f x a = Some b" "builds S b h"
proof -
  obtain us vs where xs: "xs = us @ x # vs" using assms(2) by (meson split_list)
  with assms(1) obtain a b where a: "for_each f us g = Some a" "f x a = Some b" "for_each f vs b = Some h"
    by (auto simp: for_each_append bind_conv)
  have "builds S g a" "builds S b h"
    using assms(3) xs by (auto intro!: builds_for_each [OF a(1)] builds_for_each [OF a(3)])
  with a(2) show thesis by (intro that)
qed

text \<open>The steps of the construction at one statement.\<close>

lemma construction_steps:
  assumes "build_edges mem unit loops g = Some h" "loops_ok (length unit) loops" "i < length unit"
  obtains a b c d e f r s where
    "append_next_edge mem unit i a = Some b" "builds (sources (length unit)) b h" "builds (sources (length unit)) g a"
    "append_transfer_edges mem unit i c = Some d" "builds (sources (length unit)) g c" "builds (sources (length unit)) d h"
    "build_construct_at mem unit loops i e = Some f" "builds (sources (length unit)) g e" "builds (sources (length unit)) f h"
    "build_control_transfer_action mem loops i (unit ! i) False r = Some s"
    "builds (sources (length unit)) g r" "builds (sources (length unit)) s h"
proof -
  let ?S = "sources (length unit)"
  obtain p q t where p: "for_each (append_next_edge mem unit) [0..<length unit] g = Some p"
    and q: "for_each (append_transfer_edges mem unit) [0..<length unit] p = Some q"
    and t: "build_construct_edges mem unit loops q = Some t" and h: "build_control_transfer_edges mem unit loops t = Some h"
    using assms(1) by (auto simp: build_edges_def bind_conv)
  have i: "i \<in> set [0..<length unit]" using assms(3) by simp
  obtain a b where a: "builds ?S g a" "append_next_edge mem unit i a = Some b" "builds ?S b p"
    by (rule for_each_step [OF p i]) (auto intro: append_next_edge_builds)
  obtain c d where c: "builds ?S p c" "append_transfer_edges mem unit i c = Some d" "builds ?S d q"
    by (rule for_each_step [OF q i]) (auto intro: append_transfer_edges_builds)
  obtain e f where e: "builds ?S q e" "build_construct_at mem unit loops i e = Some f" "builds ?S f t"
    by (rule for_each_step [OF t [unfolded build_construct_edges_def] i]) (auto intro: build_construct_at_builds assms(2))
  obtain r s where r: "builds ?S t r" "build_control_transfer_action mem loops i (unit ! i) False r = Some s" "builds ?S s h"
    by (rule for_each_step [OF h [unfolded build_control_transfer_edges_def] i])
      (auto intro: build_control_transfer_action_builds assms(2))
  have gp: "builds ?S g p" by (rule builds_for_each [OF p]) (auto intro: append_next_edge_builds)
  have pq: "builds ?S p q" by (rule builds_for_each [OF q]) (auto intro: append_transfer_edges_builds)
  note qt = build_construct_edges_builds [OF t assms(2)] and th = build_control_transfer_edges_builds [OF h assms(2)]
  note gq = builds_trans [OF gp pq] and qh = builds_trans [OF qt th]
  note ph = builds_trans [OF pq qh] and gt = builds_trans [OF gq qt]
  show thesis
    by (rule that [OF a(2) builds_trans [OF a(3) ph] a(1) c(2) builds_trans [OF gp c(1)] builds_trans [OF c(3) qh]
          e(2) builds_trans [OF gq e(1)] builds_trans [OF e(3) th] r(2) builds_trans [OF gt r(1)] r(3)])
qed

lemma next_edge_exits:
  assumes "append_next_edge mem unit i g = Some h" "\<not> is_unconditional_terminal_transfer (unit ! i)"
  shows "exits h i"
  using assms cfg.add_exits by (auto simp: append_next_edge_def append_if_def)

lemma exits_iff: "u < node_count g \<Longrightarrow> exits g u \<longleftrightarrow> successors (node_at g u) \<noteq> []"
  using no_edges_no_successors [of u g] by (auto simp: cfg.exits_def has_edge_def)

text \<open>
  C26: Control always leaves a statement somewhere: a statement that is not itself a transfer of control
  has a successor. The construction drops fallthrough edges of a node only where it adds another edge.
\<close>

theorem statement_has_successor:
  assumes "control_flow_build mem context (Some unit) = (g, True, context')"
    and "i < length unit" "\<not> is_unconditional_terminal_transfer (unit ! i)"
  shows "successors (node_at g i) \<noteq> []"
proof -
  have "build_graph mem unit = Some g" using assms(1) by (simp add: control_flow_build_Some)
  then obtain g0 loops g1 where c: "create_nodes mem unit = Some (g0, loops)" "build_edges mem unit loops g0 = Some g1"
    and e: "\<And>u v k. has_edge g u v k = has_edge g1 u v k" and n: "node_count g = length unit + 2 + length loops"
    by (rule finished) blast
  obtain a b where b: "append_next_edge mem unit i a = Some b" "builds (sources (length unit)) b g1"
    by (rule construction_steps [OF c(2) create_nodes_laws(7) [OF c(1)] assms(2)]) blast
  have "exits g1 i" by (rule builds_exits [OF b(2) next_edge_exits [OF b(1) assms(3)]])
  then have "exits g i" by (simp add: cfg.exits_def e)
  then show ?thesis using n assms(2) by (simp add: exits_iff)
qed

lemma statement_has_successor_witness: "successors (node_at loop_graph 3) \<noteq> []"
proof -
  have "3 < length unit_with_loop" "\<not> is_unconditional_terminal_transfer (unit_with_loop ! 3)" by code_simp+
  then show ?thesis by (rule statement_has_successor [OF loop_graph_built])
qed

text \<open>A statement and the statements nested in it.\<close>

fun layers :: "statement \<Rightarrow> statement_fields list" where
  "layers (Statement s inner) = s # (case inner of None \<Rightarrow> [] | Some statement \<Rightarrow> layers statement)"

lemma reference_kinds: "(label, k) \<in> set (label_references s) \<Longrightarrow> k \<noteq> CFG_EDGE_FALLTHROUGH"
  by (auto simp: label_references_def map_filter_set io_label_def io_edge_kind_def
      split: if_splits option.splits)

lemma label_edge_added:
  "append_label_edge mem unit u k label g = Some h \<Longrightarrow> label_index unit label = Some t \<Longrightarrow> has_edge h u t k"
  using append_edge_laws(4) by (auto simp: append_label_edge_def)

lemma label_edges_established:
  assumes "append_statement_label_edges mem unit u st g = Some h" "s \<in> set (layers st)"
    and "(label, k) \<in> set (label_references s)" "label_index unit label = Some t"
  shows "has_edge h u t k"
  using assms(1,2,4)
proof (induction mem unit u st g arbitrary: h rule: append_statement_label_edges.induct)
  case (1 mem unit u r inner g)
  from 1(2) obtain a where a:
    "for_each (\<lambda>(label, kind). append_label_edge mem unit u kind label) (label_references r) g = Some a"
    "(case inner of None \<Rightarrow> Some a | Some statement \<Rightarrow> append_statement_label_edges mem unit u statement a) = Some h"
    by (auto simp: bind_conv)
  show ?case
  proof (cases "s = r")
    case True
    obtain b c where b: "append_label_edge mem unit u k label b = Some c" "builds UNIV c a"
      by (rule for_each_step [OF a(1), of "(label, k)" UNIV]) (use assms(3) True in \<open>auto intro: builds_label_edge\<close>)
    have "has_edge a u t k"
      by (rule builds_keeps [OF b(2) label_edge_added [OF b(1) 1(4)] reference_kinds [OF assms(3)]])
    moreover have "builds UNIV a h"
      using a(2) append_statement_label_edges_builds [of mem unit u _ a h UNIV] by (cases inner) auto
    ultimately show ?thesis using reference_kinds [OF assms(3)] by (blast intro: builds_keeps)
  next
    case False
    with 1(3,4) a(2) show ?thesis using 1(1) [OF a(1)] by (cases inner) auto
  qed
qed

lemma bare_assigned_established:
  assumes "append_bare_assigned_edges mem unit u st g = Some h" "s \<in> set (layers st)"
    and "label \<in> set (assigned_labels unit s)" "label_index unit label = Some t"
  shows "has_edge h u t CFG_EDGE_BRANCH"
  using assms
proof (induction mem unit u st g arbitrary: h rule: append_bare_assigned_edges.induct)
  case (1 mem unit u r inner g)
  from 1(2) obtain a where a:
    "for_each (append_label_edge mem unit u CFG_EDGE_BRANCH) (assigned_labels unit r) g = Some a"
    "(case inner of None \<Rightarrow> Some a | Some statement \<Rightarrow> append_bare_assigned_edges mem unit u statement a) = Some h"
    by (auto simp: bind_conv)
  show ?case
  proof (cases "s = r")
    case True
    obtain b c where b: "append_label_edge mem unit u CFG_EDGE_BRANCH label b = Some c" "builds UNIV c a"
      by (rule for_each_step [OF a(1), of label UNIV]) (use 1(4) True in \<open>auto intro: builds_label_edge\<close>)
    have "has_edge a u t CFG_EDGE_BRANCH"
      by (rule builds_keeps [OF b(2) label_edge_added [OF b(1) 1(5)]]) simp
    moreover have "builds UNIV a h"
      using a(2) append_bare_assigned_edges_builds [of mem unit u _ a h UNIV] by (cases inner) auto
    ultimately show ?thesis by (blast intro: builds_keeps)
  next
    case False
    with 1(3-5) a(2) show ?thesis using 1(1) [OF a(1)] by (cases inner) auto
  qed
qed

lemma append_if_added:
  "append_if mem c u t k g = Some h \<Longrightarrow> c \<Longrightarrow> has_edge h u t k"
  using append_edge_laws(4) by (auto simp: append_if_def)

lemma explicit_termination_established:
  assumes "append_explicit_termination_edges mem u st g = Some h" "s \<in> set (layers st)"
  shows "(statement_kind s = STMT_RETURN \<longrightarrow> has_edge h u (procedure_exit g) CFG_EDGE_RETURN) \<and>
    (statement_kind s = STMT_STOP \<longrightarrow> has_edge h u (image_termination g) CFG_EDGE_STOP)"
  using assms
proof (induction mem u st g arbitrary: h rule: append_explicit_termination_edges.induct)
  case (1 mem u r inner g)
  from 1(2) obtain a b where a:
    "append_if mem (statement_kind r = STMT_RETURN) u (procedure_exit g) CFG_EDGE_RETURN g = Some a"
    "append_if mem (statement_kind r = STMT_STOP) u (image_termination a) CFG_EDGE_STOP a = Some b"
    "(case inner of None \<Rightarrow> Some b | Some statement \<Rightarrow> append_explicit_termination_edges mem u statement b) = Some h"
    by (auto simp: bind_conv)
  have ab: "builds UNIV g a" "builds UNIV a b" using a(1,2) by (auto intro: builds_append_if)
  have bh: "builds UNIV b h"
    using a(3) append_explicit_termination_edges_builds [of mem u _ b h UNIV] by (cases inner) auto
  have fields: "image_termination a = image_termination g" "image_termination b = image_termination g"
    "procedure_exit b = procedure_exit g"
    using evolves_fields(3,4) [OF builds_evolves [OF ab(1)]] evolves_fields(3,4) [OF builds_evolves [OF ab(2)]] by simp_all
  show ?case
  proof (cases "s = r")
    case True
    have "has_edge h u (procedure_exit g) CFG_EDGE_RETURN" if "statement_kind s = STMT_RETURN"
      by (rule builds_keeps [OF bh builds_keeps [OF ab(2) append_if_added [OF a(1)]]]) (use that True in simp_all)
    moreover have "has_edge h u (image_termination g) CFG_EDGE_STOP" if "statement_kind s = STMT_STOP"
      using builds_keeps [OF bh append_if_added [OF a(2)]] that True fields(1) by simp
    ultimately show ?thesis by blast
  next
    case False
    with 1(3) a(3) show ?thesis using 1(1) [OF a(1,2)] fields by (cases inner) auto
  qed
qed

definition ends_silently :: "statement_fields \<Rightarrow> io_control_kind \<Rightarrow> bool" where
  "ends_silently s handler \<longleftrightarrow> io_statement s \<and> \<not> statement_has_control s IO_CONTROL_IOSTAT \<and> \<not> statement_has_control s handler"

lemma implicit_termination_established:
  assumes "append_implicit_termination_edges mem u st g = Some h" "s \<in> set (layers st)"
  shows "(ends_silently s IO_CONTROL_ERR \<longrightarrow> has_edge h u (image_termination g) CFG_EDGE_IO_ERROR) \<and>
    (statement_kind s = STMT_READ \<and> ends_silently s IO_CONTROL_END \<longrightarrow> has_edge h u (image_termination g) CFG_EDGE_IO_END) \<and>
    (statement_kind s = STMT_READ \<and> statement_has_control s IO_CONTROL_ADVANCE \<and> ends_silently s IO_CONTROL_EOR \<longrightarrow>
       has_edge h u (image_termination g) CFG_EDGE_IO_EOR)"
  using assms
proof (induction mem u st g arbitrary: h rule: append_implicit_termination_edges.induct)
  case (1 mem u r inner g)
  define c where "c = (io_statement r \<and> \<not> statement_has_control r IO_CONTROL_IOSTAT)"
  define x where "x = (statement_kind r = STMT_READ)"
  define t where "t = image_termination g"
  from 1(2) obtain a b d where a:
    "append_if mem (c \<and> x \<and> \<not> statement_has_control r IO_CONTROL_END) u t CFG_EDGE_IO_END g = Some a"
    "append_if mem (c \<and> x \<and> statement_has_control r IO_CONTROL_ADVANCE \<and> \<not> statement_has_control r IO_CONTROL_EOR)
       u t CFG_EDGE_IO_EOR a = Some b"
    "append_if mem (c \<and> \<not> statement_has_control r IO_CONTROL_ERR) u t CFG_EDGE_IO_ERROR b = Some d"
    "(case inner of None \<Rightarrow> Some d | Some statement \<Rightarrow> append_implicit_termination_edges mem u statement d) = Some h"
    unfolding append_implicit_termination_edges.simps Let_def c_def [symmetric] x_def [symmetric] t_def [symmetric]
    by (auto simp: bind_conv)
  have s: "builds UNIV g a" "builds UNIV a b" "builds UNIV b d" using a(1-3) by (auto intro: builds_append_if)
  have dh: "builds UNIV d h"
    using a(4) append_implicit_termination_edges_builds [of mem u _ d h UNIV] by (cases inner) auto
  note bh = builds_trans [OF s(3) dh] note ah = builds_trans [OF s(2) bh] note gd = builds_trans [OF builds_trans [OF s(1,2)] s(3)]
  have td: "image_termination d = t" using evolves_fields(4) [OF builds_evolves [OF gd]] by (simp add: t_def)
  show ?case
  proof (cases "s = r")
    case True
    have "has_edge h u t CFG_EDGE_IO_ERROR" if "ends_silently s IO_CONTROL_ERR"
      by (rule builds_keeps [OF dh append_if_added [OF a(3)]]) (use that True in \<open>simp_all add: ends_silently_def c_def\<close>)
    moreover have "has_edge h u t CFG_EDGE_IO_END" if "statement_kind s = STMT_READ" "ends_silently s IO_CONTROL_END"
      by (rule builds_keeps [OF ah append_if_added [OF a(1)]]) (use that True in \<open>simp_all add: ends_silently_def c_def x_def\<close>)
    moreover have "has_edge h u t CFG_EDGE_IO_EOR"
      if "statement_kind s = STMT_READ" "statement_has_control s IO_CONTROL_ADVANCE" "ends_silently s IO_CONTROL_EOR"
      by (rule builds_keeps [OF bh append_if_added [OF a(2)]]) (use that True in \<open>simp_all add: ends_silently_def c_def x_def\<close>)
    ultimately show ?thesis unfolding t_def by blast
  next
    case False
    with 1(3) a(4) obtain st where st: "inner = Some st" "append_implicit_termination_edges mem u st d = Some h" "s \<in> set (layers st)"
      by (cases inner) auto
    have "(ends_silently s IO_CONTROL_ERR \<longrightarrow> has_edge h u (image_termination d) CFG_EDGE_IO_ERROR) \<and>
      (statement_kind s = STMT_READ \<and> ends_silently s IO_CONTROL_END \<longrightarrow> has_edge h u (image_termination d) CFG_EDGE_IO_END) \<and>
      (statement_kind s = STMT_READ \<and> statement_has_control s IO_CONTROL_ADVANCE \<and> ends_silently s IO_CONTROL_EOR \<longrightarrow>
       has_edge h u (image_termination d) CFG_EDGE_IO_EOR)"
      by (rule 1(1) [OF c_def x_def t_def a(1-3) st(1,2) st(3)])
    then show ?thesis unfolding td t_def .
  qed
qed

text \<open>The edges that one statement contributes by itself, whatever construct it is in.\<close>

definition own_edge :: "statement list \<Rightarrow> statement_fields \<Rightarrow> nat \<Rightarrow> nat \<Rightarrow> nat \<Rightarrow> edge_kind \<Rightarrow> bool" where
  "own_edge unit s return stop t k \<longleftrightarrow>
     (\<exists>label. (label, k) \<in> set (label_references s) \<and> label_index unit label = Some t) \<or>
     (\<exists>label \<in> set (assigned_labels unit s). k = CFG_EDGE_BRANCH \<and> label_index unit label = Some t) \<or>
     (statement_kind s = STMT_RETURN \<and> t = return \<and> k = CFG_EDGE_RETURN) \<or>
     (statement_kind s = STMT_STOP \<and> t = stop \<and> k = CFG_EDGE_STOP) \<or>
     (ends_silently s IO_CONTROL_ERR \<and> t = stop \<and> k = CFG_EDGE_IO_ERROR) \<or>
     (statement_kind s = STMT_READ \<and> ends_silently s IO_CONTROL_END \<and> t = stop \<and> k = CFG_EDGE_IO_END) \<or>
     (statement_kind s = STMT_READ \<and> statement_has_control s IO_CONTROL_ADVANCE \<and> ends_silently s IO_CONTROL_EOR \<and>
        t = stop \<and> k = CFG_EDGE_IO_EOR)"

lemma own_edge_kind: "own_edge unit s return stop t k \<Longrightarrow> k \<noteq> CFG_EDGE_FALLTHROUGH"
  using reference_kinds unfolding own_edge_def by auto

lemma transfer_edges_established:
  assumes "append_transfer_edges mem unit i g = Some h" "s \<in> set (layers (unit ! i))"
    and "own_edge unit s (procedure_exit g) (image_termination g) t k"
  shows "has_edge h i t k"
proof -
  from assms(1) obtain a b c where a: "append_statement_label_edges mem unit i (unit ! i) g = Some a"
    "append_bare_assigned_edges mem unit i (unit ! i) a = Some b"
    "append_explicit_termination_edges mem i (unit ! i) b = Some c"
    "append_implicit_termination_edges mem i (unit ! i) c = Some h"
    by (auto simp: append_transfer_edges_def bind_conv)
  have s: "builds UNIV g a" "builds UNIV a b" "builds UNIV b c" "builds UNIV c h"
    by (rule append_statement_label_edges_builds [OF a(1)] append_bare_assigned_edges_builds [OF a(2)]
        append_explicit_termination_edges_builds [OF a(3)] append_implicit_termination_edges_builds [OF a(4)], simp)+
  note ab = evolves_fields(3,4) [OF builds_evolves [OF builds_trans [OF s(1,2)]]]
    and ac = evolves_fields(3,4) [OF builds_evolves [OF builds_trans [OF builds_trans [OF s(1,2)] s(3)]]]
  note keep = builds_keeps [OF _ _ own_edge_kind [OF assms(3)]]
  note label = label_edges_established [OF a(1) assms(2)] and bare = bare_assigned_established [OF a(2) assms(2)]
  note explicit = explicit_termination_established [OF a(3) assms(2), unfolded ab]
    and implicit = implicit_termination_established [OF a(4) assms(2), unfolded ac]
  have "has_edge a i t k \<or> has_edge b i t k \<or> has_edge c i t k \<or> has_edge h i t k"
    using assms(3) label bare explicit implicit unfolding own_edge_def by blast
  then show ?thesis
    using keep [OF s(4)] keep [OF s(3)] keep [OF s(2)] by blast
qed

text \<open>
  C27: Every transfer that a statement, or a statement nested in it, can make by itself is an edge of its
  node: to each label it names or an \<open>ASSIGN\<close> may have stored, to the procedure exit for \<open>RETURN\<close>, to the
  image termination for \<open>STOP\<close> and for an input/output condition that nothing handles.
\<close>

theorem transfers_are_edges:
  assumes "control_flow_build mem context (Some unit) = (g, True, context')"
    and "i < length unit" "s \<in> set (layers (unit ! i))"
    and "own_edge unit s (length unit) (length unit + 1) t k"
  shows "has_edge g i t k"
proof -
  have "build_graph mem unit = Some g" using assms(1) by (simp add: control_flow_build_Some)
  then obtain g0 loops g1 where c: "create_nodes mem unit = Some (g0, loops)" "build_edges mem unit loops g0 = Some g1"
    and e: "\<And>u v k. has_edge g u v k = has_edge g1 u v k"
    by (rule finished) blast
  obtain a b where b: "append_transfer_edges mem unit i a = Some b" "builds (sources (length unit)) g0 a"
    "builds (sources (length unit)) b g1"
    by (rule construction_steps [OF c(2) create_nodes_laws(7) [OF c(1)] assms(2)]) blast
  have "procedure_exit a = length unit" "image_termination a = length unit + 1"
    using evolves_fields(3,4) [OF builds_evolves [OF b(2)]] create_nodes_laws(2,3) [OF c(1)] by simp_all
  then have "has_edge b i t k" using transfer_edges_established [OF b(1) assms(3)] assms(4) by simp
  then show ?thesis using builds_keeps [OF b(3) _ own_edge_kind [OF assms(4)]] e by simp
qed

lemma transfers_are_edges_witness:
  "has_edge goto_graph 0 2 CFG_EDGE_BRANCH \<and> has_edge goto_graph 2 4 CFG_EDGE_STOP"
proof -
  have "label_index unit_with_goto ''10'' = Some 2"
    "(''10'', CFG_EDGE_BRANCH) \<in> set (label_references (info (unit_with_goto ! 0)))"
    "info (unit_with_goto ! 0) \<in> set (layers (unit_with_goto ! 0))"
    "plain_fields STMT_STOP 4 \<in> set (layers (unit_with_goto ! 2))"
    "statement_kind (plain_fields STMT_STOP 4) = STMT_STOP" "length unit_with_goto = 3" "0 < length unit_with_goto"
    by code_simp+
  then show ?thesis
    using transfers_are_edges [OF goto_graph_built, of 0 "info (unit_with_goto ! 0)" 2 CFG_EDGE_BRANCH]
      transfers_are_edges [OF goto_graph_built, of 2 "plain_fields STMT_STOP 4" 4 CFG_EDGE_STOP]
    by (auto simp: own_edge_def)
qed

section \<open>Reachability\<close>



text \<open>
  The predecessor list of a node holds, once each, exactly the edges that lead to it.
\<close>

theorem predecessors_converse:
  assumes "control_flow_build mem context (Some unit) = (g, True, context')" "v < node_count g"
  shows "distinct (predecessors (node_at g v)) \<and>
    (edge_to u k \<in> set (predecessors (node_at g v)) \<longleftrightarrow> u < node_count g \<and> edge_to v k \<in> set (successors (node_at g u)))"
proof -
  have "build_graph mem unit = Some g" using assms(1) by (simp add: control_flow_build_Some)
  then have "distinct (predecessors (node_at g v))" "edge_to u k \<in> set (predecessors (node_at g v)) \<longleftrightarrow> has_edge g u v k"
    by (rule finished, use assms(2) in blast)+
  then show ?thesis by (simp add: has_edge_def)
qed

lemma predecessors_converse_witness:
  "edge_to 7 CFG_EDGE_LOOP_BACK \<in> set (predecessors (node_at loop_graph 1)) \<and>
   edge_to 1 CFG_EDGE_LOOP_BACK \<in> set (successors (node_at loop_graph 7))"
proof -
  have "1 < node_count loop_graph" "edge_to 7 CFG_EDGE_LOOP_BACK \<in> set (predecessors (node_at loop_graph 1))"
    unfolding loop_graph_def by code_simp+
  then show ?thesis using predecessors_converse [OF loop_graph_built, of 1 7 CFG_EDGE_LOOP_BACK] by simp
qed

end
