(* ===== verification/Flow_Structure.thy ===== *)
theory Flow_Structure
  imports Flow_Correct
begin

text \<open>
  The block structure and the loops of the control-flow graph: the blocks partition the nodes into
  intervals, control enters a block at its first node except along the back edge of a loop, and every
  loop has its latch.
\<close>

section \<open>Blocks\<close>

definition block_at :: "flow_graph \<Rightarrow> nat \<Rightarrow> flow_block" where
  "block_at g v = graph_blocks g ! block_index (node_at g v)"

definition block_nodes :: "flow_graph \<Rightarrow> nat \<Rightarrow> nat set" where
  "block_nodes g b = {v. v < node_count g \<and> block_index (node_at g v) = b}"

lemma blocks_laws:
  assumes "build_graph mem unit = Some g"
  obtains L where
    "L ! 0" "\<And>v. v < node_count g \<Longrightarrow> L ! v \<longleftrightarrow> is_leader g v"
    "\<And>v. v < node_count g \<Longrightarrow> block_index (node_at g v) = block_of L v"
    "\<And>v. v < node_count g \<Longrightarrow> block_index (node_at g v) < length (graph_blocks g)"
    "\<And>v. v < node_count g \<Longrightarrow> L ! v \<Longrightarrow> first_node (block_at g v) = v"
    "\<And>b. b < length (graph_blocks g) \<Longrightarrow> 0 < block_node_count (graph_blocks g ! b) \<and>
       block_nodes g b = {first_node (graph_blocks g ! b)..<first_node (graph_blocks g ! b) + block_node_count (graph_blocks g ! b)} \<and>
       (block_reachable (graph_blocks g ! b) \<longleftrightarrow> (\<exists>v \<in> block_nodes g b. node_reachable (node_at g v)))"
    "statement_count g = length unit" "length unit + 2 \<le> node_count g"
proof -
  obtain L where L: "length L = node_count g" "\<And>v. v < node_count g \<Longrightarrow> L ! v \<longleftrightarrow> is_leader g v"
    "length (graph_blocks g) = leader_count L (node_count g)"
    "\<And>v. v < node_count g \<Longrightarrow> block_index (node_at g v) = block_of L v"
    "\<And>b. b < length (graph_blocks g) \<Longrightarrow>
       block_node_count (graph_blocks g ! b) = card (members L (node_count g) b) \<and>
       (block_reachable (graph_blocks g ! b) \<longleftrightarrow> (\<exists>v \<in> members L (node_count g) b. node_reachable (node_at g v))) \<and>
       (\<forall>v \<in> members L (node_count g) b. L ! v \<longrightarrow> first_node (graph_blocks g ! b) = v)"
    by (rule finished_blocks [OF assms]) blast
  have n: "statement_count g = length unit" "length unit + 2 \<le> node_count g"
    by (rule finished [OF assms], simp)+
  have "0 < node_count g" using n(2) by linarith
  then have L0: "L ! 0" using L(2) first_is_leader by simp
  have nodes: "block_nodes g b = members L (node_count g) b" for b
    using L(4) by (auto simp: block_nodes_def members_def)
  have less: "block_index (node_at g v) < length (graph_blocks g)" if "v < node_count g" for v
    using block_of_less [OF L0 that] L(3,4) that by simp
  show thesis
  proof (rule that [OF L0 L(2,4) less])
    show "first_node (block_at g v) = v" if "v < node_count g" "L ! v" for v
      using L(5) [OF less [OF that(1)]] that L(4) [OF that(1)] by (simp add: block_at_def members_def)
    show "0 < block_node_count (graph_blocks g ! b) \<and>
       block_nodes g b = {first_node (graph_blocks g ! b)..<first_node (graph_blocks g ! b) + block_node_count (graph_blocks g ! b)} \<and>
       (block_reachable (graph_blocks g ! b) \<longleftrightarrow> (\<exists>v \<in> block_nodes g b. node_reachable (node_at g v)))"
      if b: "b < length (graph_blocks g)" for b
    proof -
      let ?M = "members L (node_count g) b"
      obtain f where f: "L ! f" "f \<in> ?M" and I: "?M = {f..<f + card ?M}"
        using members_interval [OF L0 b [unfolded L(3)]] by blast
      have "first_node (graph_blocks g ! b) = f" using L(5) [OF b] f by blast
      moreover have "0 < card ?M" using f(2) by (auto simp: card_gt_0_iff)
      ultimately show ?thesis using L(5) [OF b] I unfolding nodes by metis
    qed
  qed (use n in simp_all)
qed

text \<open>
  C29: The blocks partition the nodes into intervals: every node has one block, a block is not empty and
  holds exactly the nodes from its first one on, and it is marked reachable exactly when one of its
  nodes is.
\<close>

theorem blocks_partition:
  assumes "control_flow_build mem context (Some unit) = (g, True, context')"
  shows "(\<forall>v < node_count g. block_index (node_at g v) < length (graph_blocks g)) \<and>
    (\<forall>b < length (graph_blocks g). 0 < block_node_count (graph_blocks g ! b) \<and>
       block_nodes g b = {first_node (graph_blocks g ! b)..<first_node (graph_blocks g ! b) + block_node_count (graph_blocks g ! b)} \<and>
       (block_reachable (graph_blocks g ! b) \<longleftrightarrow> (\<exists>v \<in> block_nodes g b. node_reachable (node_at g v))))"
proof -
  have "build_graph mem unit = Some g" using assms by (simp add: control_flow_build_Some)
  then show ?thesis by (rule blocks_laws) blast
qed

lemma blocks_partition_witness:
  "1 < length (graph_blocks goto_graph) \<and> block_nodes goto_graph 1 = {1} \<and> \<not> block_reachable (graph_blocks goto_graph ! 1)"
proof -
  have b: "1 < length (graph_blocks goto_graph)" "first_node (graph_blocks goto_graph ! 1) = 1"
    "block_node_count (graph_blocks goto_graph ! 1) = 1" "\<not> block_reachable (graph_blocks goto_graph ! 1)"
    unfolding goto_graph_def by code_simp+
  then show ?thesis using blocks_partition [OF goto_graph_built] by auto
qed

text \<open>
  C30: Control is straight inside a block, as far as edges of statements go: an edge of a statement either
  leads to the first node of a block, or it is the only edge of its source and leads to the next
  node of the same block.
\<close>

theorem statement_edge_enters_at_first:
  assumes "control_flow_build mem context (Some unit) = (g, True, context')"
    and "u < length unit" "edge_to v k \<in> set (successors (node_at g u))"
  shows "first_node (block_at g v) = v \<or>
    (v = u + 1 \<and> successors (node_at g u) = [edge_to v k] \<and> block_index (node_at g v) = block_index (node_at g u))"
proof -
  have "build_graph mem unit = Some g" using assms(1) by (simp add: control_flow_build_Some)
  then obtain L where L: "L ! 0" "\<And>v. v < node_count g \<Longrightarrow> L ! v \<longleftrightarrow> is_leader g v"
    "\<And>v. v < node_count g \<Longrightarrow> block_index (node_at g v) = block_of L v"
    "\<And>v. v < node_count g \<Longrightarrow> L ! v \<Longrightarrow> first_node (block_at g v) = v"
    and n: "statement_count g = length unit" "length unit + 2 \<le> node_count g"
    by (rule blocks_laws) blast
  have u: "u < node_count g" using assms(2) n(2) by simp
  then have v: "v < node_count g"
    using graph_well_formed [OF assms(1)] assms(3) by fastforce
  show ?thesis
  proof (cases "is_leader g v")
    case True
    then show ?thesis using L(2,4) v by simp
  next
    case False
    have e: "has_edge g u v k" using u assms(3) by (simp add: has_edge_def)
    then have "v = u + 1 \<and> k = CFG_EDGE_FALLTHROUGH"
      using False assms(2) unfolding is_leader_def n(1) by blast
    then have "v = u + 1" "k = CFG_EDGE_FALLTHROUGH" by simp_all
    moreover have "successors (node_at g u) = [edge_to v CFG_EDGE_FALLTHROUGH]"
      using False \<open>v = u + 1\<close> unfolding is_leader_def n(1) by (metis not_le_imp_less)
    moreover have "block_of L v = block_of L u"
      using False L(2) v block_of_step [OF L(1), of u] \<open>v = u + 1\<close> by simp
    ultimately show ?thesis using L(3) u v by simp
  qed
qed

lemma statement_edge_enters_at_first_witness:
  "first_node (block_at loop_graph 2) = 2 \<and> block_index (node_at loop_graph 3) = block_index (node_at loop_graph 2)"
proof -
  have "1 < length unit_with_loop" "2 < length unit_with_loop"
    "edge_to 2 CFG_EDGE_BRANCH \<in> set (successors (node_at loop_graph 1))"
    "edge_to 3 CFG_EDGE_FALLTHROUGH \<in> set (successors (node_at loop_graph 2))"
    "first_node (block_at loop_graph 3) \<noteq> 3" "successors (node_at loop_graph 1) \<noteq> [edge_to 2 CFG_EDGE_BRANCH]"
    unfolding loop_graph_def by code_simp+
  then show ?thesis
    using statement_edge_enters_at_first [OF loop_graph_built, of 1 2 CFG_EDGE_BRANCH]
      statement_edge_enters_at_first [OF loop_graph_built, of 2 3 CFG_EDGE_FALLTHROUGH] by auto
qed

text \<open>
  The marking of leaders reads the edges of statements only, so the opener of a loop that follows a
  straight statement does not lead a block, although the latch of the loop jumps back to it: control can
  enter the middle of a block.
\<close>

theorem loop_header_inside_block:
  "edge_to 1 CFG_EDGE_LOOP_BACK \<in> set (successors (node_at loop_graph 7)) \<and>
   block_index (node_at loop_graph 1) = block_index (node_at loop_graph 0) \<and>
   first_node (block_at loop_graph 1) \<noteq> 1"
  unfolding loop_graph_def by code_simp

text \<open>
  C31: The edges between blocks are exactly the edges of nodes that cross from one block to another, with
  their kind, in both directions.
\<close>

theorem block_edges_exactly:
  assumes "control_flow_build mem context (Some unit) = (g, True, context')"
    and "a < length (graph_blocks g)" "b < length (graph_blocks g)"
  shows "(edge_to b k \<in> set (block_successors (graph_blocks g ! a)) \<longleftrightarrow>
      a \<noteq> b \<and> (\<exists>u \<in> block_nodes g a. \<exists>v \<in> block_nodes g b. edge_to v k \<in> set (successors (node_at g u)))) \<and>
    (edge_to a k \<in> set (block_predecessors (graph_blocks g ! b)) \<longleftrightarrow>
      edge_to b k \<in> set (block_successors (graph_blocks g ! a)))"
proof -
  have build: "build_graph mem unit = Some g" using assms(1) by (simp add: control_flow_build_Some)
  then have c: "block_out g = (\<Union>u < node_count g. \<Union>e \<in> set (successors (node_at g u)). fst (crossing g u e))"
    "block_in g = (\<Union>u < node_count g. \<Union>e \<in> set (successors (node_at g u)). snd (crossing g u e))"
    by (rule finished_blocks, blast)+
  have ok: "successors_ok g" using build by (rule finished) blast
  have "(a, edge_to b k) \<in> block_out g \<longleftrightarrow> edge_to b k \<in> set (block_successors (graph_blocks g ! a))"
    "(b, edge_to a k) \<in> block_in g \<longleftrightarrow> edge_to a k \<in> set (block_predecessors (graph_blocks g ! b))"
    using assms(2,3) by (simp_all add: block_out_def block_in_def)
  moreover have "(a, edge_to b k) \<in> block_out g \<longleftrightarrow>
      a \<noteq> b \<and> (\<exists>u \<in> block_nodes g a. \<exists>v \<in> block_nodes g b. edge_to v k \<in> set (successors (node_at g u)))"
    (is "_ \<longleftrightarrow> ?R")
  proof
    assume "(a, edge_to b k) \<in> block_out g"
    then obtain u e where "u < node_count g" "e \<in> set (successors (node_at g u))" "(a, edge_to b k) \<in> fst (crossing g u e)"
      unfolding c by auto
    moreover have "edge_target e < node_count g" using calculation(1,2) ok by (simp add: successors_ok_nth)
    ultimately show ?R
      by (intro conjI bexI [of _ u] bexI [of _ "edge_target e"])
        (auto simp: crossing_def Let_def block_nodes_def split: if_splits)
  next
    assume ?R
    then obtain u v where "a \<noteq> b" "u \<in> block_nodes g a" "v \<in> block_nodes g b" "edge_to v k \<in> set (successors (node_at g u))"
      by blast
    then show "(a, edge_to b k) \<in> block_out g"
      unfolding c by (auto intro!: bexI [of _ u] bexI [of _ "edge_to v k"] simp: crossing_def Let_def block_nodes_def)
  qed
  moreover have "(b, edge_to a k) \<in> block_in g \<longleftrightarrow> (a, edge_to b k) \<in> block_out g"
    unfolding c by (auto simp: crossing_def Let_def split: if_splits)
  ultimately show ?thesis by blast
qed

lemma block_edges_exactly_witness:
  "edge_to 1 CFG_EDGE_BRANCH \<in> set (block_successors (graph_blocks loop_graph ! 0)) \<and>
   edge_to 0 CFG_EDGE_BRANCH \<in> set (block_predecessors (graph_blocks loop_graph ! 1))"
proof -
  have "0 < length (graph_blocks loop_graph)" "1 < length (graph_blocks loop_graph)"
    "edge_to 1 CFG_EDGE_BRANCH \<in> set (block_successors (graph_blocks loop_graph ! 0))"
    unfolding loop_graph_def by code_simp+
  then show ?thesis using block_edges_exactly [OF loop_graph_built, of 0 1 CFG_EDGE_BRANCH] by simp
qed

section \<open>Loops\<close>

abbreviation opens_loop :: "statement list \<Rightarrow> nat \<Rightarrow> bool" where
  "opens_loop unit i \<equiv> kind_of (statement_body (unit ! i)) = STMT_DO \<or> kind_of (statement_body (unit ! i)) = STMT_DO_WHILE"

lemma created_loops:
  assumes "create_nodes mem unit = Some (g, loops)"
  shows "loop \<in> set loops \<Longrightarrow> loop_opener loop = statement_body (unit ! loop_opener_index loop) \<and>
      loop_opener_index loop < length unit \<and> opens_loop unit (loop_opener_index loop) \<and>
      construct_end unit (statement_body (unit ! loop_opener_index loop)) = Some (loop_end_index loop)"
    "i < length unit \<Longrightarrow> opens_loop unit i \<Longrightarrow> construct_end unit (statement_body (unit ! i)) = Some e \<Longrightarrow>
      \<exists>loop \<in> set loops. loop_opener_index loop = i \<and> loop_end_index loop = e"
proof -
  obtain ls where ls: "collect_loops mem unit = Some ls" "loops = number_latches (length unit) ls"
    using assms by (auto simp: create_nodes_def bind_conv Let_def split: if_splits)
  have number: "set loops = (\<lambda>i. (ls ! i)\<lparr>loop_latch_index := length unit + 2 + i\<rparr>) ` {..<length ls}"
    unfolding ls(2) number_latches_def by (force simp: set_zip image_iff)
  define f where "f = (\<lambda>index. let statement = statement_body (unit ! index)
         in if kind_of statement \<noteq> STMT_DO \<and> kind_of statement \<noteq> STMT_DO_WHILE then None
            else map_option (\<lambda>ends. \<lparr>loop_opener = statement, loop_opener_index = index, loop_end_index = ends,
                                       loop_latch_index = SIZE_MAX\<rparr>)
                   (construct_end unit statement))"
  have f: "f i = Some loop \<longleftrightarrow> opens_loop unit i \<and> (\<exists>e. construct_end unit (statement_body (unit ! i)) = Some e \<and>
      loop = \<lparr>loop_opener = statement_body (unit ! i), loop_opener_index = i, loop_end_index = e, loop_latch_index = SIZE_MAX\<rparr>)"
    for i loop
    unfolding f_def Let_def by (cases "construct_end unit (statement_body (unit ! i))") auto
  have "ls = List.map_filter f [0..<length unit]"
    using ls(1) by (simp add: collect_loops_def f_def split: if_splits)
  then have collected: "loop \<in> set ls \<longleftrightarrow> (\<exists>i < length unit. f i = Some loop)" for loop
    by (auto simp: map_filter_set)
  show "loop_opener loop = statement_body (unit ! loop_opener_index loop) \<and>
      loop_opener_index loop < length unit \<and> opens_loop unit (loop_opener_index loop) \<and>
      construct_end unit (statement_body (unit ! loop_opener_index loop)) = Some (loop_end_index loop)" if "loop \<in> set loops"
  proof -
    obtain j where "loop = (ls ! j)\<lparr>loop_latch_index := length unit + 2 + j\<rparr>" "ls ! j \<in> set ls"
      using \<open>loop \<in> set loops\<close> unfolding number by auto
    then show ?thesis unfolding collected f by auto
  qed
  show "\<exists>loop \<in> set loops. loop_opener_index loop = i \<and> loop_end_index loop = e"
    if "i < length unit" "opens_loop unit i" "construct_end unit (statement_body (unit ! i)) = Some e"
  proof -
    define l where "l = \<lparr>loop_opener = statement_body (unit ! i), loop_opener_index = i, loop_end_index = e, loop_latch_index = SIZE_MAX\<rparr>"
    have "l \<in> set ls" using that unfolding collected f l_def by blast
    then obtain j where "j < length ls" "ls ! j = l" by (auto simp: in_set_conv_nth)
    then show ?thesis unfolding number by (auto simp: l_def intro!: bexI [of _ j])
  qed
qed

definition distinct_statements :: "statement list \<Rightarrow> bool" where
  "distinct_statements unit \<longleftrightarrow> distinct (map (\<lambda>s. statement_address (info (statement_body s))) unit)"

lemma find_own_loop:
  assumes "create_nodes mem unit = Some (g, loops)" "distinct_statements unit"
    and "i < length unit" "opens_loop unit i" "construct_end unit (statement_body (unit ! i)) = Some e"
  obtains loop where "find_loop loops (statement_address (info (statement_body (unit ! i)))) = Some loop"
    "loop \<in> set loops" "loop_opener loop = statement_body (unit ! i)" "loop_opener_index loop = i" "loop_end_index loop = e"
proof -
  let ?a = "statement_address (info (statement_body (unit ! i)))"
  obtain own where own: "own \<in> set loops" "loop_opener_index own = i"
    using created_loops(2) [OF assms(1,3-5)] by blast
  then have "statement_address (info (loop_opener own)) = ?a" using created_loops(1) [OF assms(1) own(1)] by simp
  then have "find_loop loops ?a \<noteq> None" using own(1) by (auto simp: find_loop_def find_None_iff)
  then obtain loop where f: "find_loop loops ?a = Some loop" by blast
  then have l: "loop \<in> set loops" "statement_address (info (loop_opener loop)) = ?a"
    by (auto simp: find_loop_def dest: find_SomeD)
  note c = created_loops(1) [OF assms(1) l(1)]
  have "loop_opener_index loop = i"
    using assms(2,3) l(2) c by (auto simp: distinct_statements_def distinct_conv_nth)
  with c f l(1) assms(5) show thesis by (intro that) auto
qed

lemma latest_loop_None: "latest_loop candidates = None \<longleftrightarrow> candidates = []"
proof -
  have "foldl (\<lambda>best candidate. case best of None \<Rightarrow> Some candidate
      | Some loop \<Rightarrow> if loop_opener_index candidate > loop_opener_index loop then Some candidate else best) (Some l) xs \<noteq> None" for l xs
    by (induction xs arbitrary: l) auto
  then show ?thesis by (cases candidates) (auto simp: latest_loop_def)
qed

lemma build_loop_edges_established:
  assumes "build_loop_edges mem g loops loop = Some h" "loops_ok n loops" "loop \<in> set loops"
  defines "c \<equiv> kind_of (loop_opener loop) = STMT_DO_WHILE \<or> statement_right (info (loop_opener loop)) \<noteq> None"
    and "x \<equiv> case next_outer_shared_loop loops loop of Some o' \<Rightarrow> loop_latch_index o'
      | None \<Rightarrow> node_after_statement g (loop_end_index loop)"
  shows "has_edge h (loop_opener_index loop)
      (if loop_opener_index loop + 1 < statement_count g then loop_opener_index loop + 1 else loop_latch_index loop) CFG_EDGE_BRANCH"
    "has_edge h (loop_latch_index loop) (loop_opener_index loop) CFG_EDGE_LOOP_BACK"
    "c \<Longrightarrow> has_edge h (loop_opener_index loop) x CFG_EDGE_LOOP_EXIT"
    "c \<Longrightarrow> has_edge h (loop_latch_index loop) x CFG_EDGE_LOOP_EXIT"
proof -
  define t where "t = (if loop_opener_index loop + 1 < statement_count g then loop_opener_index loop + 1 else loop_latch_index loop)"
  obtain g1 g2 g3 g4 where a: "redirect mem g (loop_opener_index loop) t CFG_EDGE_BRANCH = Some g1"
    "append_if mem c (loop_opener_index loop) x CFG_EDGE_LOOP_EXIT g1 = Some g2"
    "append_edge mem g2 (loop_latch_index loop) (loop_opener_index loop) CFG_EDGE_LOOP_BACK = Some g3"
    "append_if mem c (loop_latch_index loop) x CFG_EDGE_LOOP_EXIT g3 = Some g4"
    "(if map_option loop_opener_index (innermost_ending_loop loops (loop_end_index loop)) = Some (loop_opener_index loop)
      then redirect mem g4 (loop_end_index loop) (loop_latch_index loop) CFG_EDGE_FALLTHROUGH else Some g4) = Some h"
    using assms(1) unfolding build_loop_edges_def Let_def c_def [symmetric] t_def [symmetric] x_def [symmetric]
    by (auto simp: bind_conv)
  have b4: "builds UNIV g4 h" using a(5) by (auto intro: builds_redirect split: if_splits)
  have b3: "builds UNIV g3 h" using builds_append_if [OF a(4), of UNIV] b4 by (auto intro: builds_trans)
  have b2: "builds UNIV g2 h" using builds_append_edge [OF a(3), of UNIV] b3 by (auto intro: builds_trans)
  have b1: "builds UNIV g1 h" using builds_append_if [OF a(2), of UNIV] b2 by (auto intro: builds_trans)
  have "has_edge g1 (loop_opener_index loop) t CFG_EDGE_BRANCH"
    using a(1) append_edge_laws(4) unfolding redirect_def by blast
  then show "has_edge h (loop_opener_index loop)
      (if loop_opener_index loop + 1 < statement_count g then loop_opener_index loop + 1 else loop_latch_index loop) CFG_EDGE_BRANCH"
    unfolding t_def [symmetric] by (rule builds_keeps [OF b1]) simp
  have "has_edge g3 (loop_latch_index loop) (loop_opener_index loop) CFG_EDGE_LOOP_BACK"
    using a(3) append_edge_laws(4) by blast
  then show "has_edge h (loop_latch_index loop) (loop_opener_index loop) CFG_EDGE_LOOP_BACK"
    by (rule builds_keeps [OF b3]) simp
  show "has_edge h (loop_opener_index loop) x CFG_EDGE_LOOP_EXIT" if c
    by (rule builds_keeps [OF b2 append_if_added [OF a(2) that]]) simp
  show "has_edge h (loop_latch_index loop) x CFG_EDGE_LOOP_EXIT" if c
    by (rule builds_keeps [OF b4 append_if_added [OF a(4) that]]) simp
qed

text \<open>
  C28: In a unit whose statements are different objects, every \<open>DO\<close> and \<open>DO WHILE\<close> with an end has a
  latch of its own, which jumps back to the opener; the opener branches into the body; and if the loop
  has a condition or a count, opener and latch leave to the same place, the statement after the end
  when no enclosing loop ends there too.
\<close>

theorem loop_has_latch:
  assumes "control_flow_build mem context (Some unit) = (g, True, context')" "distinct_statements unit"
    and "i < length unit" "opens_loop unit i" "construct_end unit (statement_body (unit ! i)) = Some e"
  shows "\<exists>latch < node_count g. node_kind (node_at g latch) = CFG_NODE_LOOP_LATCH \<and> statement_index (node_at g latch) = i \<and>
    has_edge g latch i CFG_EDGE_LOOP_BACK \<and>
    has_edge g i (if i + 1 < length unit then i + 1 else latch) CFG_EDGE_BRANCH \<and>
    (kind_of (statement_body (unit ! i)) = STMT_DO_WHILE \<or> statement_right (info (statement_body (unit ! i))) \<noteq> None \<longrightarrow>
       (\<exists>leave. has_edge g i leave CFG_EDGE_LOOP_EXIT \<and> has_edge g latch leave CFG_EDGE_LOOP_EXIT \<and>
          ((\<forall>j < i. opens_loop unit j \<longrightarrow> construct_end unit (statement_body (unit ! j)) \<noteq> Some e) \<longrightarrow>
             leave = (if e + 1 < length unit then e + 1 else procedure_exit g))))"
proof -
  have "build_graph mem unit = Some g" using assms(1) by (simp add: control_flow_build_Some)
  then obtain g0 loops g1 where c: "create_nodes mem unit = Some (g0, loops)" "build_edges mem unit loops g0 = Some g1"
    and edges: "\<And>u v k. has_edge g u v k = has_edge g1 u v k" and n: "node_count g = length unit + 2 + length loops"
      "procedure_exit g = length unit"
    and k: "\<And>v. v < node_count g \<Longrightarrow> node_kind (node_at g v) = node_kind (node_at g0 v) \<and>
       statement_index (node_at g v) = statement_index (node_at g0 v)"
    by (rule finished) blast
  note create = create_nodes_laws [OF c(1)]
  obtain loop where loop: "find_loop loops (statement_address (info (statement_body (unit ! i)))) = Some loop"
    "loop \<in> set loops" "loop_opener loop = statement_body (unit ! i)" "loop_opener_index loop = i" "loop_end_index loop = e"
    by (rule find_own_loop [OF c(1) assms(2-5)])
  obtain a b where ab: "build_construct_at mem unit loops i a = Some b" "builds (sources (length unit)) g0 a"
    "builds (sources (length unit)) b g1"
    by (rule construction_steps [OF c(2) create(7) assms(3)]) blast
  have count: "statement_count a = length unit" "procedure_exit a = length unit"
    using evolves_fields(2,3) [OF builds_evolves [OF ab(2)]] create(1,2) by simp_all
  have "build_loop_edges mem a loops loop = Some b"
    using ab(1) assms(4,5) loop(1) by (auto simp: build_construct_at_def Let_def)
  note L = build_loop_edges_established [OF this create(7) loop(2), unfolded loop(3-5) count]
  have keep: "has_edge g u v k" if "has_edge b u v k" "k \<noteq> CFG_EDGE_FALLTHROUGH" for u v k
    using builds_keeps [OF ab(3) that] edges by simp
  obtain j where j: "j < length loops" "loops ! j = loop" using loop(2) by (auto simp: in_set_conv_nth)
  define latch where "latch = loop_latch_index loop"
  have latch: "latch = length unit + 2 + j" using create(9) j by (auto simp: latch_def)
  then have less: "latch < node_count g" "latch < node_count g0" using j n create(4) by simp_all
  have "node_kind (node_at g0 latch) = CFG_NODE_LOOP_LATCH" "statement_index (node_at g0 latch) = i"
    using create(6) less(2) loop(4) j(2) unfolding latch by (simp_all add: new_node_def)
  then have node: "node_kind (node_at g latch) = CFG_NODE_LOOP_LATCH" "statement_index (node_at g latch) = i"
    using k [OF less(1)] by simp_all
  define leave where "leave = (case next_outer_shared_loop loops loop of Some o' \<Rightarrow> loop_latch_index o'
      | None \<Rightarrow> node_after_statement a e)"
  have only: "leave = (if e + 1 < length unit then e + 1 else procedure_exit g)"
    if "\<forall>j < i. opens_loop unit j \<longrightarrow> construct_end unit (statement_body (unit ! j)) \<noteq> Some e"
  proof -
    have "\<not> (loop_end_index l = e \<and> loop_opener_index l < i)" if "l \<in> set loops" for l
      using created_loops(1) [OF c(1) that] \<open>\<forall>j < i. _\<close> by blast
    then have "next_outer_shared_loop loops loop = None"
      by (fastforce simp: next_outer_shared_loop_def latest_loop_None loop(4,5) filter_empty_conv not_le)
    then show ?thesis by (simp add: leave_def node_after_statement_def count n(2))
  qed
  show ?thesis
    using less(1) node keep [OF L(1)] keep [OF L(2)] keep [OF L(3)] keep [OF L(4)] only
    unfolding latch_def [symmetric] leave_def [symmetric]
    by (intro exI [of _ latch] conjI impI exI [of _ leave]) simp_all
qed

lemma loop_has_latch_witness: "\<exists>latch < node_count loop_graph. has_edge loop_graph latch 1 CFG_EDGE_LOOP_BACK \<and>
    has_edge loop_graph latch 4 CFG_EDGE_LOOP_EXIT"
proof -
  have "distinct_statements unit_with_loop" "1 < length unit_with_loop" "opens_loop unit_with_loop 1"
    "construct_end unit_with_loop (statement_body (unit_with_loop ! 1)) = Some 3"
    "statement_right (info (statement_body (unit_with_loop ! 1))) \<noteq> None" "length unit_with_loop = 5"
    "\<not> opens_loop unit_with_loop 0"
    by code_simp+
  then show ?thesis using loop_has_latch [OF loop_graph_built, of 1 3] by auto
qed

end
