(* ===== verification/Work_Queue.thy ===== *)
theory Work_Queue
  imports Flow_Graph
begin

text \<open>
  The worklist of the data-flow solvers (\<open>enqueue\<close> and the removal in the loops of
  \<open>semantic/data_flow/bitset.c\<close>): a ring buffer with one slot per node and a flag per node that says
  whether the node waits, against the interface of a queue without repetition.
\<close>

section \<open>The ring buffer\<close>

record work_queue =
  queue_slots :: "nat list"
  queued :: "bool list"
  queue_head :: nat
  queue_tail :: nat
  queue_count :: nat

definition new_queue :: "nat \<Rightarrow> work_queue" where
  "new_queue capacity = \<lparr>queue_slots = replicate capacity 0, queued = replicate capacity False,
     queue_head = 0, queue_tail = 0, queue_count = 0\<rparr>"

definition enqueue :: "nat \<Rightarrow> nat \<Rightarrow> work_queue \<Rightarrow> work_queue option" where
  "enqueue capacity node q =
     (if node \<ge> capacity then None
      else if queued q ! node then Some q
      else if queue_count q \<ge> capacity then None
      else Some (q\<lparr>queue_slots := (queue_slots q)[queue_tail q := node],
                   queue_tail := (queue_tail q + 1) mod capacity,
                   queue_count := queue_count q + 1,
                   queued := (queued q)[node := True]\<rparr>))"

definition dequeue :: "nat \<Rightarrow> work_queue \<Rightarrow> nat \<times> work_queue" where
  "dequeue capacity q =
     (let node = queue_slots q ! queue_head q
      in (node, q\<lparr>queue_head := (queue_head q + 1) mod capacity, queue_count := queue_count q - 1,
                  queued := (queued q)[node := False]\<rparr>))"

section \<open>The interface\<close>

text \<open>
  What the solvers rely on: a queue of different nodes below the capacity, where adding a node that
  waits already does nothing and adding a node never fails.
\<close>

locale node_queue =
  fixes capacity :: nat
    and waiting :: "'q \<Rightarrow> nat list"
    and add :: "nat \<Rightarrow> 'q \<Rightarrow> 'q option"
    and take_first :: "'q \<Rightarrow> nat \<times> 'q"
    and ok :: "'q \<Rightarrow> bool"
  assumes add_law: "ok q \<Longrightarrow> node < capacity \<Longrightarrow> \<exists>q'. add node q = Some q' \<and> ok q' \<and>
      waiting q' = (if node \<in> set (waiting q) then waiting q else waiting q @ [node])"
    and take_law: "ok q \<Longrightarrow> waiting q = node # rest \<Longrightarrow> \<exists>q'. take_first q = (node, q') \<and> ok q' \<and> waiting q' = rest"
    and ok_law: "ok q \<Longrightarrow> distinct (waiting q) \<and> set (waiting q) \<subseteq> {..<capacity}"
begin

lemma add_obtains:
  assumes "ok q" "node < capacity"
  obtains q' where "add node q = Some q'" "ok q'" "set (waiting q') = insert node (set (waiting q))"
  using add_law [OF assms] by (metis insert_absorb list.set(2) set_append append.simps insert_is_Un sup_commute
      list.set(1) insert_iff Un_insert_right sup_bot_right)

lemma waiting_bounded: "ok q \<Longrightarrow> length (waiting q) \<le> capacity"
  using ok_law [of q] card_mono [of "{..<capacity}" "set (waiting q)"] by (simp add: distinct_card)

lemma add_all:
  assumes "ok q" "set nodes \<subseteq> {..<capacity}"
  shows "\<exists>q'. for_each add nodes q = Some q' \<and> ok q' \<and> set (waiting q') = set (waiting q) \<union> set nodes"
  using assms
proof (induction nodes arbitrary: q)
  case (Cons n ns)
  then have "n < capacity" by simp
  then obtain a where a: "add n q = Some a" "ok a" "set (waiting a) = insert n (set (waiting q))"
    by (rule add_obtains [OF Cons.prems(1)])
  with Cons.IH [OF a(2)] Cons.prems(2) show ?case by auto
qed simp

end

section \<open>The ring buffer provides it\<close>

definition ring_waiting :: "nat \<Rightarrow> work_queue \<Rightarrow> nat list" where
  "ring_waiting capacity q = map (\<lambda>i. queue_slots q ! ((queue_head q + i) mod capacity)) [0..<queue_count q]"

definition ring_ok :: "nat \<Rightarrow> work_queue \<Rightarrow> bool" where
  "ring_ok capacity q \<longleftrightarrow> length (queue_slots q) = capacity \<and> length (queued q) = capacity \<and>
     queue_count q \<le> capacity \<and> (capacity > 0 \<longrightarrow> queue_head q < capacity) \<and>
     (capacity > 0 \<longrightarrow> queue_tail q = (queue_head q + queue_count q) mod capacity) \<and>
     distinct (ring_waiting capacity q) \<and> (\<forall>v < capacity. queued q ! v \<longleftrightarrow> v \<in> set (ring_waiting capacity q)) \<and>
     set (ring_waiting capacity q) \<subseteq> {..<capacity}"

lemma ring_new: "ring_ok capacity (new_queue capacity)" "ring_waiting capacity (new_queue capacity) = []"
  by (simp_all add: ring_ok_def ring_waiting_def new_queue_def)

lemma ring_slot_less:
  assumes "i \<le> j" "j < capacity" "(h + i) mod capacity = (h + j) mod (capacity :: nat)"
  shows "i = j"
proof -
  have "capacity dvd (h + j) - (h + i)"
    using assms(1) mod_eq_dvd_iff_nat [of "h + i" "h + j" capacity] assms(3) by simp
  then have "capacity dvd j - i" by simp
  then show ?thesis using assms(1,2) by (auto dest!: dvd_imp_le)
qed

lemma ring_slot_distinct:
  assumes "i < capacity" "j < capacity" "(h + i) mod capacity = (h + j) mod (capacity :: nat)"
  shows "i = j"
  using ring_slot_less [of i j capacity h] ring_slot_less [of j i capacity h] assms by (cases "i \<le> j") auto

lemma ring_not_full:
  assumes "ring_ok capacity q" "node < capacity" "node \<notin> set (ring_waiting capacity q)"
  shows "queue_count q < capacity"
proof -
  let ?w = "ring_waiting capacity q"
  have "length (node # ?w) = card (set (node # ?w))"
    using assms(1,3) by (subst distinct_card) (simp_all add: ring_ok_def)
  also have "\<dots> \<le> card {..<capacity}" using assms(1,2) by (intro card_mono) (auto simp: ring_ok_def)
  finally show ?thesis by (simp add: ring_waiting_def)
qed

lemma ring_add:
  assumes "ring_ok capacity q" "node < capacity"
  shows "\<exists>q'. enqueue capacity node q = Some q' \<and> ring_ok capacity q' \<and>
    ring_waiting capacity q' = (if node \<in> set (ring_waiting capacity q) then ring_waiting capacity q
                                else ring_waiting capacity q @ [node])"
proof (cases "node \<in> set (ring_waiting capacity q)")
  case True
  then have "enqueue capacity node q = Some q" using assms by (simp add: enqueue_def ring_ok_def)
  with True assms(1) show ?thesis by simp
next
  case False
  note full = ring_not_full [OF assms False]
  define q' where "q' = q\<lparr>queue_slots := (queue_slots q)[queue_tail q := node],
      queue_tail := (queue_tail q + 1) mod capacity, queue_count := queue_count q + 1, queued := (queued q)[node := True]\<rparr>"
  have e: "enqueue capacity node q = Some q'"
    using assms False full by (simp add: enqueue_def ring_ok_def q'_def)
  have t: "queue_tail q = (queue_head q + queue_count q) mod capacity" "queue_tail q < capacity"
    using assms by (auto simp: ring_ok_def)
  have other: "(queue_head q + i) mod capacity \<noteq> queue_tail q" if "i < queue_count q" for i
    using ring_slot_distinct [of i capacity "queue_count q" "queue_head q"] that full t(1) by auto
  have l: "length (queue_slots q) = capacity" "length (queued q) = capacity" using assms(1) by (simp_all add: ring_ok_def)
  have "queue_slots q' ! ((queue_head q' + i) mod capacity) = queue_slots q ! ((queue_head q + i) mod capacity)"
    if "i < queue_count q" for i
    using other [OF that] by (simp add: q'_def)
  moreover have "queue_slots q' ! ((queue_head q' + queue_count q) mod capacity) = node"
    using t l by (simp add: q'_def)
  ultimately have w: "ring_waiting capacity q' = ring_waiting capacity q @ [node]"
    by (simp add: ring_waiting_def q'_def)
  have "(queue_tail q + 1) mod capacity = (queue_head q + (queue_count q + 1)) mod capacity"
    unfolding t(1) by (simp add: mod_simps add.assoc)
  then have "ring_ok capacity q'"
    using assms False full w l unfolding ring_ok_def w
    by (auto simp: q'_def nth_list_update)
  with e w False show ?thesis by auto
qed

lemma ring_take:
  assumes "ring_ok capacity q" "ring_waiting capacity q = node # rest"
  shows "\<exists>q'. dequeue capacity q = (node, q') \<and> ring_ok capacity q' \<and> ring_waiting capacity q' = rest"
proof -
  obtain n where n: "queue_count q = Suc n"
    using assms(2) by (cases "queue_count q") (simp_all add: ring_waiting_def)
  have "0 < capacity" using assms(1) n by (simp add: ring_ok_def)
  have split: "ring_waiting capacity q =
      queue_slots q ! (queue_head q mod capacity) # map (\<lambda>i. queue_slots q ! ((queue_head q + Suc i) mod capacity)) [0..<n]"
    unfolding ring_waiting_def n
    by (rule nth_equalityI) (auto simp: nth_Cons simp del: upt_Suc split: nat.splits)
  have h: "queue_head q mod capacity = queue_head q" using assms(1) \<open>0 < capacity\<close> by (simp add: ring_ok_def)
  define q' where "q' = q\<lparr>queue_head := (queue_head q + 1) mod capacity, queue_count := queue_count q - 1,
      queued := (queued q)[node := False]\<rparr>"
  have d: "dequeue capacity q = (node, q')"
    using assms(2) split h by (simp add: dequeue_def q'_def)
  have w: "ring_waiting capacity q' = rest"
    using assms(2) split by (simp add: ring_waiting_def q'_def n mod_simps)
  have distinct: "node \<notin> set rest" "distinct rest" "node < capacity" "set rest \<subseteq> {..<capacity}"
    using assms by (auto simp: ring_ok_def)
  have "queue_tail q = ((queue_head q + 1) mod capacity + n) mod capacity"
    using assms(1) \<open>0 < capacity\<close> n by (simp add: ring_ok_def mod_simps)
  moreover have "queued q' ! v \<longleftrightarrow> v \<in> set rest" if "v < capacity" for v
    using that assms distinct by (auto simp: q'_def nth_list_update ring_ok_def)
  ultimately have "ring_ok capacity q'"
    using assms(1) distinct n \<open>0 < capacity\<close> unfolding ring_ok_def w by (simp add: q'_def)
  with d w show ?thesis by blast
qed

interpretation ring: node_queue capacity "ring_waiting capacity" "enqueue capacity" "dequeue capacity" "ring_ok capacity"
  for capacity
proof
  show "\<exists>q'. enqueue capacity node q = Some q' \<and> ring_ok capacity q' \<and>
      ring_waiting capacity q' = (if node \<in> set (ring_waiting capacity q) then ring_waiting capacity q
        else ring_waiting capacity q @ [node])" if "ring_ok capacity q" "node < capacity" for q node
    using that by (rule ring_add)
  show "\<exists>q'. dequeue capacity q = (node, q') \<and> ring_ok capacity q' \<and> ring_waiting capacity q' = rest"
    if "ring_ok capacity q" "ring_waiting capacity q = node # rest" for q node rest
    using that by (rule ring_take)
  show "distinct (ring_waiting capacity q) \<and> set (ring_waiting capacity q) \<subseteq> {..<capacity}" if "ring_ok capacity q" for q
    using that by (simp add: ring_ok_def)
qed

lemma ring_count: "queue_count q = length (ring_waiting capacity q)"
  by (simp add: ring_waiting_def)

end
