(* ===== verification/Bit_Flow.thy ===== *)
theory Bit_Flow
  imports Work_Queue
begin

unbundle bit_operations_syntax

text \<open>
  The bit-vector data-flow solvers (\<open>semantic/data_flow/bitset.c\<close>): the forward and the backward
  worklist iteration over the control-flow graph.

  \<^item> The words of a node's state are a list of \<open>word_count\<close> words.
  \<^item> The transfer and the edge filter are callbacks: functions of the model, \<^const>\<open>None\<close> where the code
    passes NULL. The transfer is given the state of the node and a copy of it, and returns its changed
    copy, \<^const>\<open>None\<close> where the code's callback returns 0.
  \<^item> A solver that fails returns \<^const>\<open>None\<close>, else the states of all nodes.
\<close>

section \<open>States\<close>

record bit_state =
  bits :: "64 word list"
  flags :: "64 word"
  initialized :: bool

type_synonym transfer = "nat \<Rightarrow> bit_state \<Rightarrow> bit_state \<Rightarrow> bit_state option"

type_synonym edge_filter = "nat \<Rightarrow> flow_edge \<Rightarrow> bit_state \<Rightarrow> bool"

definition copy_bits :: "64 word list option \<Rightarrow> nat \<Rightarrow> 64 word list" where
  "copy_bits source word_count = (case source of Some words \<Rightarrow> take word_count words | None \<Rightarrow> replicate word_count 0)"

definition merge_words :: "64 word list \<Rightarrow> 64 word list \<Rightarrow> nat \<Rightarrow> bool \<Rightarrow> 64 word list \<times> bool" where
  "merge_words target source word_count changed =
     foldl (\<lambda>(words, changed) word.
         let merged = words ! word OR source ! word
         in if merged \<noteq> words ! word then (words[word := merged], True) else (words, changed))
       (target, changed) [0..<word_count]"

definition merge_state :: "bit_state \<Rightarrow> bit_state \<Rightarrow> nat \<Rightarrow> bit_state \<times> bool" where
  "merge_state target source word_count =
     (if \<not> initialized target
      then (target\<lparr>initialized := True, flags := flags source, bits := copy_bits (Some (bits source)) word_count\<rparr>, True)
      else
        let changed = (flags source AND NOT (flags target) \<noteq> 0);
            target = (if changed then target\<lparr>flags := flags target OR flags source\<rparr> else target);
            (words, changed) = merge_words (bits target) (bits source) word_count changed
        in (target\<lparr>bits := words\<rparr>, changed))"

section \<open>The solvers\<close>

text \<open>
  One edge of the node that was taken from the queue; \<open>admit\<close> is the answer of the filter.
\<close>

definition propagate ::
  "nat \<Rightarrow> nat \<Rightarrow> (flow_edge \<Rightarrow> bit_state \<Rightarrow> bool) \<Rightarrow> bit_state \<Rightarrow> flow_edge \<Rightarrow> bit_state list \<times> work_queue \<Rightarrow>
   (bit_state list \<times> work_queue) option" where
  "propagate capacity word_count admit output edge = (\<lambda>(states, q).
     if edge_target edge \<ge> capacity then None
     else if \<not> admit edge output then Some (states, q)
     else
       let (state, changed) = merge_state (states ! edge_target edge) output word_count;
           states = states[edge_target edge := state]
       in if changed then map_option (Pair states) (enqueue capacity (edge_target edge) q) else Some (states, q))"

definition transferred :: "transfer option \<Rightarrow> nat \<Rightarrow> nat \<Rightarrow> bit_state \<Rightarrow> bit_state option" where
  "transferred transfer word_count node input =
     (let output = \<lparr>bits = copy_bits (Some (bits input)) word_count, flags = flags input, initialized = True\<rparr>
      in case transfer of None \<Rightarrow> Some output | Some f \<Rightarrow> f node input output)"

text \<open>The loop of both solvers; \<open>links\<close> are the edges that a node's output travels.\<close>

partial_function (option) solve_loop ::
  "nat \<Rightarrow> nat \<Rightarrow> (nat \<Rightarrow> flow_edge list) \<Rightarrow> (nat \<Rightarrow> flow_edge \<Rightarrow> bit_state \<Rightarrow> bool) \<Rightarrow> transfer option \<Rightarrow>
   bit_state list \<Rightarrow> work_queue \<Rightarrow> bit_state list option" where
  "solve_loop capacity word_count links admit transfer states q =
     (if queue_count q \<noteq> 0 then
        (let (node, q) = dequeue capacity q
         in do {
           output \<leftarrow> transferred transfer word_count node (states ! node);
           (states, q) \<leftarrow> for_each (propagate capacity word_count (admit node) output) (links node) (states, q);
           solve_loop capacity word_count links admit transfer states q
         })
      else Some states)"

declare solve_loop.simps [code]

text \<open>
  \<open>allocate_result\<close>: the size checks, then five allocations. \<open>sizeof(F2cBitFlowState)\<close> is 24 bytes.
\<close>

definition allocate_result :: "(nat \<Rightarrow> bool) \<Rightarrow> nat \<Rightarrow> nat \<Rightarrow> bit_state list option" where
  "allocate_result mem nodes word_count =
     (if nodes > SIZE_MAX div 24 \<or> (word_count \<noteq> 0 \<and> nodes > SIZE_MAX div word_count) \<or>
         (word_count \<noteq> 0 \<and> nodes * word_count > SIZE_MAX div 8) \<or> nodes > SIZE_MAX div 8 then None
      else if \<not> mem (nodes * 24) \<or> (word_count \<noteq> 0 \<and> (\<not> mem (nodes * word_count * 8) \<or> \<not> mem (word_count * 8))) \<or>
         \<not> mem (nodes * 8) \<or> \<not> mem nodes then None
      else Some (replicate nodes \<lparr>bits = replicate word_count 0, flags = 0, initialized = False\<rparr>))"

definition bit_flow_solve ::
  "(nat \<Rightarrow> bool) \<Rightarrow> flow_graph \<Rightarrow> nat \<Rightarrow> nat \<Rightarrow> 64 word list option \<Rightarrow> 64 word \<Rightarrow> transfer option \<Rightarrow> edge_filter option \<Rightarrow>
   bit_state list option" where
  "bit_flow_solve mem graph entry word_count entry_bits entry_flags transfer edge_filter =
     (if entry \<ge> node_count graph then None
      else do {
        states \<leftarrow> allocate_result mem (node_count graph) word_count;
        let states = states[entry := (states ! entry)\<lparr>initialized := True, flags := entry_flags,
                                         bits := copy_bits entry_bits word_count\<rparr>];
        q \<leftarrow> enqueue (node_count graph) entry (new_queue (node_count graph));
        solve_loop (node_count graph) word_count (\<lambda>node. successors (node_at graph node))
          (\<lambda>node edge output. case edge_filter of None \<Rightarrow> True | Some f \<Rightarrow> f node edge output)
          transfer states q
      })"

definition start_backward :: "flow_graph \<Rightarrow> nat \<Rightarrow> 64 word list option \<Rightarrow> 64 word \<Rightarrow> nat \<Rightarrow> bit_state \<Rightarrow> bit_state" where
  "start_backward graph word_count exit_bits exit_flags node state =
     (let state = state\<lparr>initialized := True\<rparr>
      in if successors (node_at graph node) = [] then state\<lparr>flags := exit_flags, bits := copy_bits exit_bits word_count\<rparr>
         else state)"

definition bit_flow_solve_backward ::
  "(nat \<Rightarrow> bool) \<Rightarrow> flow_graph \<Rightarrow> nat \<Rightarrow> 64 word list option \<Rightarrow> 64 word \<Rightarrow> transfer option \<Rightarrow> edge_filter option \<Rightarrow>
   bit_state list option" where
  "bit_flow_solve_backward mem graph word_count exit_bits exit_flags transfer edge_filter =
     (if node_count graph = 0 then None
      else do {
        states \<leftarrow> allocate_result mem (node_count graph) word_count;
        (states, q) \<leftarrow> for_each (\<lambda>node (states, q).
            map_option (Pair (states[node := start_backward graph word_count exit_bits exit_flags node (states ! node)]))
              (enqueue (node_count graph) node q))
          [0..<node_count graph] (states, new_queue (node_count graph));
        solve_loop (node_count graph) word_count (\<lambda>node. predecessors (node_at graph node))
          (\<lambda>node edge input. case edge_filter of None \<Rightarrow> True
             | Some f \<Rightarrow> f (edge_target edge) (edge_to node (edge_kind edge)) input)
          transfer states q
      })"

section \<open>The order of states\<close>

text \<open>
  \<open>below\<close>: fewer bits; a state that is not initialized holds nothing. \<open>carries s o\<close>: the state
  \<open>s\<close> holds at least the output \<open>o\<close>.
\<close>

definition fewer :: "64 word \<Rightarrow> 64 word \<Rightarrow> bool" where
  "fewer a b \<longleftrightarrow> a OR b = b"

definition carries :: "bit_state \<Rightarrow> bit_state \<Rightarrow> bool" where
  "carries s out \<longleftrightarrow> initialized s \<and> fewer (flags out) (flags s) \<and> list_all2 fewer (bits out) (bits s)"

definition below :: "bit_state \<Rightarrow> bit_state \<Rightarrow> bool" where
  "below s t \<longleftrightarrow> (initialized s \<longrightarrow> carries t s)"

lemma fewer_bits: "fewer a b \<longleftrightarrow> (\<forall>i. bit a i \<longrightarrow> bit b i)"
proof
  assume "fewer a b"
  then show "\<forall>i. bit a i \<longrightarrow> bit b i" unfolding fewer_def by (metis bit_or_iff)
next
  assume "\<forall>i. bit a i \<longrightarrow> bit b i"
  then show "fewer a b" unfolding fewer_def by (intro bit_word_eqI) (auto simp: bit_or_iff)
qed

lemma fewer_refl [simp]: "fewer a a" and fewer_zero [simp]: "fewer 0 a"
  by (simp_all add: fewer_bits)

lemma fewer_trans: "fewer a b \<Longrightarrow> fewer b c \<Longrightarrow> fewer a c"
  by (simp add: fewer_bits)

lemma fewer_antisym: "fewer a b \<Longrightarrow> fewer b a \<Longrightarrow> a = b"
  by (metis fewer_def or.commute)

lemma fewer_or [simp]: "fewer a (a OR b)" "fewer b (a OR b)" "fewer (a OR b) c \<longleftrightarrow> fewer a c \<and> fewer b c"
  by (auto simp: fewer_bits bit_or_iff)

lemma fewer_mask: "a AND NOT b \<noteq> 0 \<longleftrightarrow> \<not> fewer a b"
proof -
  have "a AND NOT b = 0 \<longleftrightarrow> fewer a b"
  proof
    assume z: "a AND NOT b = 0"
    have "bit b i" if "bit a i" for i
    proof (rule ccontr)
      assume "\<not> bit b i"
      with that have "bit (a AND NOT b) i"
        using bit_imp_le_length [OF that] by (simp add: bit_and_iff bit_not_iff)
      then show False using z by simp
    qed
    then show "fewer a b" by (simp add: fewer_bits)
  next
    assume "fewer a b"
    then show "a AND NOT b = 0"
      by (intro bit_word_eqI) (auto simp: fewer_bits bit_and_iff bit_not_iff)
  qed
  then show ?thesis by blast
qed

lemma carries_refl [simp]: "initialized s \<Longrightarrow> carries s s"
  by (simp add: carries_def list_all2_refl)

lemma fewer_all_trans: "list_all2 fewer a b \<Longrightarrow> list_all2 fewer b c \<Longrightarrow> list_all2 fewer a c"
  by (rule list_all2_trans [of fewer fewer fewer]) (blast intro: fewer_trans)

lemma carries_trans: "carries t s \<Longrightarrow> carries s out \<Longrightarrow> carries t out"
  unfolding carries_def by (blast intro: fewer_trans fewer_all_trans)

lemma below_refl [simp]: "below s s"
  by (simp add: below_def)

lemma carries_below: "carries s out \<Longrightarrow> below s t \<Longrightarrow> carries t out"
  unfolding below_def using carries_trans [of t s out] carries_def by blast

lemma below_trans: "below a b \<Longrightarrow> below b c \<Longrightarrow> below a c"
  using carries_below [of b a c] unfolding below_def by blast

section \<open>Merging\<close>

lemma merge_words_prefix:
  assumes "length target = n" "length source = n" "m \<le> n"
  shows "foldl (\<lambda>(words, changed) word.
         let merged = words ! word OR source ! word
         in if merged \<noteq> words ! word then (words[word := merged], True) else (words, changed))
       (target, changed) [0..<m] =
     (map2 (OR) (take m target) (take m source) @ drop m target,
      changed \<or> \<not> list_all2 fewer (take m source) (take m target))"
  using assms(3)
proof (induction m)
  case (Suc m)
  let ?f = "\<lambda>(words, changed) word. let merged = words ! word OR source ! word
         in if merged \<noteq> words ! word then (words[word := merged], True) else (words, changed)"
  have m: "m < n" "m \<le> n" using Suc.prems by simp_all
  let ?p = "map2 (OR) (take m target) (take m source)"
  have p: "length ?p = m" using assms m by simp
  have d: "drop m target = target ! m # drop (Suc m) target" using assms(1) m by (simp add: Cons_nth_drop_Suc)
  have at: "(?p @ target ! m # drop (Suc m) target) ! m = target ! m"
    by (subst (2) p [symmetric]) (rule nth_append_length)
  have up: "(?p @ target ! m # drop (Suc m) target)[m := x] = ?p @ x # drop (Suc m) target" for x
    by (subst (2) p [symmetric]) (rule list_update_length)
  have fewer: "target ! m OR source ! m = target ! m \<longleftrightarrow> fewer (source ! m) (target ! m)"
    by (simp add: fewer_def or.commute)
  have step: "foldl ?f (target, changed) [0..<Suc m] = ?f (foldl ?f (target, changed) [0..<m]) m" by simp
  have nexts: "map2 (OR) (take (Suc m) target) (take (Suc m) source) = ?p @ [target ! m OR source ! m]"
    "list_all2 fewer (take (Suc m) source) (take (Suc m) target) \<longleftrightarrow>
       list_all2 fewer (take m source) (take m target) \<and> fewer (source ! m) (target ! m)"
    using assms m by (simp_all add: take_Suc_conv_app_nth list_all2_append)
  show ?case
    unfolding step Suc.IH [OF m(2)] unfolding d prod.case Let_def at up nexts using fewer by auto
qed simp

lemma merge_words_laws:
  assumes "length target = n" "length source = n"
  shows "merge_words target source n changed = (map2 (OR) target source, changed \<or> \<not> list_all2 fewer source target)"
  using merge_words_prefix [OF assms order_refl] assms unfolding merge_words_def by simp

lemma map2_or:
  assumes "length target = length source"
  shows "list_all2 fewer target (map2 (OR) target source)" "list_all2 fewer source (map2 (OR) target source)"
    "list_all2 fewer target c \<Longrightarrow> list_all2 fewer source c \<Longrightarrow> list_all2 fewer (map2 (OR) target source) c"
  using assms by (simp_all add: list_all2_conv_all_nth)

definition sized :: "nat \<Rightarrow> bit_state \<Rightarrow> bool" where
  "sized n s \<longleftrightarrow> length (bits s) = n"

text \<open>The merge is the least upper bound, and it says whether the target has grown.\<close>

lemma merge_state_laws:
  assumes "sized n target" "sized n source"
  defines "r \<equiv> fst (merge_state target source n)"
  shows "sized n r" "carries r source" "below target r"
    "carries t source \<Longrightarrow> below target t \<Longrightarrow> below r t"
    "snd (merge_state target source n) \<longleftrightarrow> \<not> carries target source"
    "carries target source \<Longrightarrow> r = target"
proof -
  have l: "length (bits target) = n" "length (bits source) = n" using assms(1,2) by (simp_all add: sized_def)
  note w = merge_words_laws [OF l]
  note up = map2_or [of "bits target" "bits source", unfolded l, OF refl]
  have r: "r = (if initialized target
      then target\<lparr>flags := flags target OR flags source, bits := map2 (OR) (bits target) (bits source)\<rparr>
      else target\<lparr>initialized := True, flags := flags source, bits := bits source\<rparr>)"
    unfolding r_def merge_state_def Let_def fewer_mask
    by (auto simp: w l copy_bits_def fewer_def or.commute)
  show "sized n r" using l by (simp add: r sized_def)
  show "carries r source" "below target r"
    using up(1,2) by (auto simp: r carries_def below_def list_all2_refl)
  show "below r t" if "carries t source" "below target t"
    using that up(3) by (auto simp: r below_def carries_def)
  show "snd (merge_state target source n) \<longleftrightarrow> \<not> carries target source"
    unfolding merge_state_def Let_def fewer_mask
    by (auto simp: w l carries_def)
  show "r = target" if "carries target source"
  proof -
    have "flags target OR flags source = flags target" using that by (simp add: carries_def fewer_def or.commute)
    moreover have "map2 (OR) (bits target) (bits source) = bits target"
      using that l by (intro nth_equalityI) (auto simp: carries_def fewer_def list_all2_conv_all_nth or.commute)
    ultimately show ?thesis using that by (simp add: r carries_def)
  qed
qed

section \<open>How often a state can grow\<close>

definition zeros :: "64 word \<Rightarrow> nat" where
  "zeros w = card {i. i < 64 \<and> \<not> bit w i}"

definition room :: "nat \<Rightarrow> bit_state \<Rightarrow> nat" where
  "room n s = (if initialized s then zeros (flags s) + sum_list (map zeros (bits s)) else 64 * (n + 1) + 1)"

lemma zeros_mono: "fewer a b \<Longrightarrow> zeros b \<le> zeros a"
  unfolding zeros_def by (rule card_mono) (auto simp: fewer_bits)

lemma zeros_less:
  assumes "fewer a b" "a \<noteq> b"
  shows "zeros b < zeros a"
proof -
  have "\<not> fewer b a" using fewer_antisym assms by blast
  then obtain i where "bit b i" "\<not> bit a i" by (auto simp: fewer_bits)
  moreover have "i < 64" using bit_imp_le_length [OF \<open>bit b i\<close>] by simp
  ultimately have "{i. i < 64 \<and> \<not> bit b i} \<subset> {i. i < 64 \<and> \<not> bit a i}"
    using assms(1) by (auto simp: fewer_bits)
  then show ?thesis unfolding zeros_def by (intro psubset_card_mono) auto
qed

lemma zeros_bound: "zeros w \<le> 64"
proof -
  have "zeros w \<le> card {..<64::nat}" unfolding zeros_def by (rule card_mono) auto
  then show ?thesis by simp
qed

lemma zeros_list:
  assumes "list_all2 fewer a b"
  shows "sum_list (map zeros b) \<le> sum_list (map zeros a)" "a \<noteq> b \<Longrightarrow> sum_list (map zeros b) < sum_list (map zeros a)"
proof -
  have "sum_list (map zeros b) \<le> sum_list (map zeros a) \<and> (a \<noteq> b \<longrightarrow> sum_list (map zeros b) < sum_list (map zeros a))"
    using assms
  proof (induction rule: list_all2_induct)
    case (Cons x xs y ys)
    then show ?case using zeros_mono [of x y] zeros_less [of x y] by auto
  qed simp
  then show "sum_list (map zeros b) \<le> sum_list (map zeros a)" "a \<noteq> b \<Longrightarrow> sum_list (map zeros b) < sum_list (map zeros a)"
    by simp_all
qed

lemma room_bound: "sized n s \<Longrightarrow> initialized s \<Longrightarrow> room n s \<le> 64 * (n + 1)"
proof -
  have sum: "sum_list (map zeros ws) \<le> 64 * length ws" for ws
    using zeros_bound by (induction ws) (simp_all add: add_mono)
  then show "sized n s \<Longrightarrow> initialized s \<Longrightarrow> room n s \<le> 64 * (n + 1)"
    using zeros_bound [of "flags s"] sum [of "bits s"] by (simp add: room_def sized_def)
qed

lemma room_less:
  assumes "sized n s" "sized n t" "below s t" "\<not> below t s"
  shows "room n t < room n s"
proof (cases "initialized s")
  case False
  then show ?thesis
    using room_bound [OF assms(2)] assms(4) by (cases "initialized t") (auto simp: room_def below_def)
next
  case True
  then have c: "initialized t" "fewer (flags s) (flags t)" "list_all2 fewer (bits s) (bits t)"
    using assms(3) by (simp_all add: below_def carries_def)
  have "flags s \<noteq> flags t \<or> bits s \<noteq> bits t"
    using assms(4) c True by (auto simp: below_def carries_def list_all2_refl)
  then show ?thesis
    using c True zeros_mono [OF c(2)] zeros_less [OF c(2)] zeros_list [OF c(3)]
    by (auto simp: room_def intro: add_less_le_mono add_le_less_mono)
qed

section \<open>Bits in a flat array\<close>

lemma bit_power: "bit (2 ^ k :: 64 word) i \<longleftrightarrow> i = k \<and> k < 64"
  by (auto simp: bit_exp_iff)

lemma nth_update_if: "j < length xs \<Longrightarrow> xs[i := x] ! j = (if i = j then x else xs ! j)"
  by (cases "i = j") simp_all

lemma index_in_words: "i < m \<Longrightarrow> i < 64 * ((m + 63) div 64)" for i m :: nat
  using mult_div_mod_eq [of 64 "m + 63"] mod_less_divisor [of 64 "m + 63"] by linarith

text \<open>An array holds \<open>n\<close> words for each of \<open>c\<close> nodes; bit \<open>j\<close> of node \<open>u\<close> is set.\<close>

lemma set_node_bit:
  assumes "length storage = c * n" "u < c" "v < c" "j < 64 * n" "i < 64 * n"
  shows "bit (storage[u * n + j div 64 := storage ! (u * n + j div 64) OR 2 ^ (j mod 64)] ! (v * n + i div 64)) (i mod 64) \<longleftrightarrow>
    bit (storage ! (v * n + i div 64) :: 64 word) (i mod 64) \<or> (v = u \<and> i = j)"
proof -
  have w: "j div 64 < n" "i div 64 < n" using assms(4,5) by auto
  have "v * n + i div 64 < Suc v * n" using w(2) by simp
  also have "\<dots> \<le> c * n" using assms(3) by (intro mult_le_mono1) simp
  finally have inside: "v * n + i div 64 < length storage" using assms(1) by simp
  have "(u * n + j div 64) div n = u" "(v * n + i div 64) div n = v" using w by simp_all
  then have "u * n + j div 64 = v * n + i div 64 \<longleftrightarrow> u = v \<and> j div 64 = i div 64" by auto
  moreover have "j div 64 = i div 64 \<and> j mod 64 = i mod 64 \<longleftrightarrow> j = i" by (metis div_mult_mod_eq)
  ultimately show ?thesis by (auto simp: nth_update_if [OF inside] bit_or_iff bit_power)
qed

lemma node_position_less:
  assumes "v < c" "k < n"
  shows "v * n + k < c * (n :: nat)"
proof -
  have "v * n + k < Suc v * n" using assms(2) by simp
  also have "\<dots> \<le> c * n" using assms(1) by (intro mult_le_mono1) simp
  finally show ?thesis .
qed

lemma mask_bit: "k < 64 \<Longrightarrow> (w :: 64 word) AND push_bit k 1 \<noteq> 0 \<longleftrightarrow> bit w k"
  by (simp add: bit_iff_and_push_bit_not_eq_0)

end
