(* ===== verification/Variable_Marks.thy ===== *)
theory Variable_Marks
  imports Bit_Flow
begin

text \<open>
  Which variables a statement uses and defines (\<open>semantic/data_flow/variables.c\<close> up to
  \<open>mark_statement\<close>), and what the marking of a node may change.

  \<^item> The four arrays of \<open>F2cVariableFlow\<close> are lists of \<open>node_count * word_count\<close> words; NULL is the
    empty list.
  \<^item> \<open>VariableFlowBuilder\<close> is split: the symbols of the unit and the node stay fixed, the flow is the
    state that is passed through.
\<close>

section \<open>Data\<close>

record variable_flow =
  flow_uses :: "64 word list"
  flow_definitions :: "64 word list"
  flow_live_in :: "64 word list"
  flow_live_out :: "64 word list"
  flow_node_count :: nat
  flow_word_count :: nat
  flow_analyzed :: bool

record flow_builder =
  builder_symbols :: "symbol list"
  builder_node :: nat

definition symbol_index :: "symbol list \<Rightarrow> symbol option \<Rightarrow> nat option" where
  "symbol_index symbols symbol =
     (case symbol of
        None \<Rightarrow> None
      | Some s \<Rightarrow> find (\<lambda>index. symbol_address (symbols ! index) = symbol_address s) [0..<length symbols])"

text \<open>\<open>mark_symbol\<close> on the storage it is given.\<close>

definition mark_symbol ::
  "flow_builder \<Rightarrow> variable_flow \<Rightarrow> symbol option \<Rightarrow> 64 word list \<Rightarrow> 64 word list" where
  "mark_symbol builder flow symbol storage =
     (case (symbol_index (builder_symbols builder) symbol, symbol) of
        (Some index, Some s) \<Rightarrow>
          if (is_external s \<and> \<not> procedure_pointer s) \<or> statement_function s then storage
          else if storage = [] \<or> builder_node builder \<ge> flow_node_count flow then storage
          else
            let word = builder_node builder * flow_word_count flow + index div 64
            in storage[word := storage ! word OR push_bit (index mod 64) 1]
      | _ \<Rightarrow> storage)"

definition mark_use :: "flow_builder \<Rightarrow> symbol option \<Rightarrow> variable_flow \<Rightarrow> variable_flow" where
  "mark_use builder symbol flow = flow\<lparr>flow_uses := mark_symbol builder flow symbol (flow_uses flow)\<rparr>"

definition mark_define :: "flow_builder \<Rightarrow> symbol option \<Rightarrow> variable_flow \<Rightarrow> variable_flow" where
  "mark_define builder symbol flow = flow\<lparr>flow_definitions := mark_symbol builder flow symbol (flow_definitions flow)\<rparr>"

section \<open>Expressions\<close>

definition argument_value :: "expr option \<Rightarrow> expr option" where
  "argument_value expression =
     (case expression of
        Some (Expr head [child]) \<Rightarrow> if expr_kind head = EXPR_KEYWORD_ARGUMENT then child else expression
      | _ \<Rightarrow> expression)"

abbreviation tree_size :: "expr option \<Rightarrow> nat" where
  "tree_size \<equiv> size_option size"

lemma argument_value_size: "tree_size (argument_value e) \<le> tree_size e"
  by (auto simp: argument_value_def split: option.splits expr.splits list.splits)

lemma argument_value_size_Some: "argument_value e = Some v \<Longrightarrow> Suc (size v) \<le> tree_size e"
  using argument_value_size [of e] by simp

lemma expr_size: "size e = Suc (size_list tree_size (children e))"
  by (cases e) simp

lemma argument_value_bound: "argument_value a = Some v \<Longrightarrow> 3 + 3 * size v \<le> 3 * tree_size a"
  using argument_value_size_Some [of a v] by simp

function designator_symbol :: "symbol list \<Rightarrow> expr option \<Rightarrow> symbol option"
  and designator_among :: "symbol list \<Rightarrow> expr option list \<Rightarrow> symbol option" where
  "designator_symbol symbols expression =
     (case argument_value expression of
        None \<Rightarrow> None
      | Some value \<Rightarrow>
          if symbol_index symbols (expr_symbol (expr_info value)) \<noteq> None then expr_symbol (expr_info value)
          else designator_among symbols (children value))"
| "designator_among symbols [] = None"
| "designator_among symbols (child # rest) =
     (case designator_symbol symbols child of
        Some symbol \<Rightarrow> Some symbol
      | None \<Rightarrow> designator_among symbols rest)"
  by pat_completeness auto
termination
proof (relation "measure (\<lambda>x. case x of Inl (_, e) \<Rightarrow> 2 * tree_size e | Inr (_, es) \<Rightarrow> 2 * size_list tree_size es + 1)")
  show "(Inr (symbols, children v), Inl (symbols, e))
      \<in> measure (\<lambda>x. case x of Inl (_, e) \<Rightarrow> 2 * tree_size e | Inr (_, es) \<Rightarrow> 2 * size_list tree_size es + 1)"
    if "argument_value e = Some v" for symbols e v
    using argument_value_size_Some [OF that] by (cases v) simp
qed auto

declare designator_symbol.simps [simp del]

definition definition_intent :: "procedure_definition \<Rightarrow> nat \<Rightarrow> intent" where
  "definition_intent procedure parameter =
     (if parameter \<ge> length (definition_arguments procedure) then INTENT_UNSPECIFIED
      else case find_symbol (definition_symbols procedure) (definition_arguments procedure ! parameter) of
        Some dummy \<Rightarrow> if passed_by_value dummy then INTENT_IN else symbol_intent dummy
      | None \<Rightarrow> INTENT_UNSPECIFIED)"

definition signature_intent :: "symbol option \<Rightarrow> nat \<Rightarrow> intent" where
  "signature_intent procedure parameter =
     (case procedure of
        None \<Rightarrow> INTENT_UNSPECIFIED
      | Some s \<Rightarrow>
          if parameter < external_parameter_count s then
            (if external_parameter_value s ! parameter then INTENT_IN else external_parameter_intents s ! parameter)
          else INTENT_UNSPECIFIED)"

text \<open>The intent of an actual argument of a function reference, in \<open>mark_call\<close>.\<close>

definition call_intent :: "expr \<Rightarrow> nat \<Rightarrow> intent" where
  "call_intent call parameter =
     (let procedure = expr_symbol (expr_info call); resolved = resolved_procedure (expr_info call);
          intent = (case (resolved, procedure) of (Some d, None) \<Rightarrow> definition_intent d parameter
                    | _ \<Rightarrow> signature_intent procedure parameter);
          intent = (case resolved of
                      Some d \<Rightarrow> (case procedure of
                                  None \<Rightarrow> definition_intent d parameter
                                | Some s \<Rightarrow> if \<not> type_bound s then definition_intent d parameter else intent)
                    | None \<Rightarrow> intent)
      in if resolved = None \<and> procedure = None then INTENT_IN else intent)"

text \<open>\<open>mark_value\<close>, with its loops over children; \<open>mark_call\<close>, whose loop is \<open>mark_arguments\<close>;
  \<open>mark_actual\<close> and \<open>mark_definition\<close>.\<close>

definition whole_name :: "expr option \<Rightarrow> symbol option \<Rightarrow> bool" where
  "whole_name value symbol \<longleftrightarrow>
     (case value of
        None \<Rightarrow> False
      | Some e \<Rightarrow> expr_kind (expr_info e) = EXPR_NAME \<and>
          map_option symbol_address (expr_symbol (expr_info e)) = map_option symbol_address symbol)"

function mark_value :: "flow_builder \<Rightarrow> expr option \<Rightarrow> variable_flow \<Rightarrow> variable_flow"
  and mark_values :: "flow_builder \<Rightarrow> expr option list \<Rightarrow> variable_flow \<Rightarrow> variable_flow"
  and mark_arguments :: "flow_builder \<Rightarrow> expr \<Rightarrow> nat \<Rightarrow> expr option list \<Rightarrow> variable_flow \<Rightarrow> variable_flow"
  and mark_actual :: "flow_builder \<Rightarrow> expr option \<Rightarrow> intent \<Rightarrow> variable_flow \<Rightarrow> variable_flow"
  and mark_definition :: "flow_builder \<Rightarrow> expr option \<Rightarrow> bool \<Rightarrow> variable_flow \<Rightarrow> variable_flow" where
  "mark_value builder expression flow =
     (case expression of
        None \<Rightarrow> flow
      | Some e \<Rightarrow>
          if expr_kind (expr_info e) = EXPR_ABSENT_ARGUMENT then flow
          else if expr_kind (expr_info e) = EXPR_CALL then
            mark_arguments builder e 0 (children e)
              (case expr_symbol (expr_info e) of
                 Some procedure \<Rightarrow> if procedure_pointer procedure then mark_use builder (Some procedure) flow else flow
               | None \<Rightarrow> flow)
          else mark_values builder (children e) (mark_use builder (expr_symbol (expr_info e)) flow))"
| "mark_values builder [] flow = flow"
| "mark_values builder (child # rest) flow = mark_values builder rest (mark_value builder child flow)"
| "mark_arguments builder call index [] flow = flow"
| "mark_arguments builder call index (child # rest) flow =
     mark_arguments builder call (index + 1) rest
       (case call_child_parameter call index of
          None \<Rightarrow> mark_value builder child flow
        | Some parameter \<Rightarrow> mark_actual builder child (call_intent call parameter) flow)"
| "mark_actual builder actual intent flow =
     (case argument_value actual of
        None \<Rightarrow> flow
      | Some e \<Rightarrow>
          if expr_kind (expr_info e) = EXPR_ABSENT_ARGUMENT then flow
          else if intent = INTENT_IN then mark_value builder (Some e) flow
          else if intent = INTENT_OUT then mark_definition builder (Some e) False flow
          else if definable (expr_info e) \<or> designator_symbol (builder_symbols builder) (Some e) \<noteq> None
            then mark_definition builder (Some e) True flow
          else mark_value builder (Some e) flow)"
| "mark_definition builder expression preserve_value flow =
     (let value = argument_value expression;
          symbol = designator_symbol (builder_symbols builder) value;
          flow = (if preserve_value \<or> \<not> whole_name value symbol then mark_value builder value flow else flow)
      in mark_define builder symbol flow)"
  by pat_completeness auto

termination
  apply (relation "measure (\<lambda>x. case x of
     Inl (Inl (_, e, _)) \<Rightarrow> 3 * tree_size e
   | Inl (Inr (_, es, _)) \<Rightarrow> 3 * size_list tree_size es + 1
   | Inr (Inl (_, _, _, es, _)) \<Rightarrow> 3 * size_list tree_size es + 1
   | Inr (Inr (Inl (_, e, _, _))) \<Rightarrow> 3 * tree_size e + 2
   | Inr (Inr (Inr (_, e, _, _))) \<Rightarrow> 3 * tree_size e + 1)")
  using argument_value_size
  by (auto simp: expr_size less_Suc_eq_le dest!: argument_value_bound)

declare mark_value.simps [simp del] mark_actual.simps [simp del] mark_definition.simps [simp del]

section \<open>Input and output\<close>

definition output_control :: "io_control_kind \<Rightarrow> bool" where
  "output_control kind \<longleftrightarrow> kind \<in> {IO_CONTROL_IOSTAT, IO_CONTROL_IOMSG, IO_CONTROL_SIZE, IO_CONTROL_NEWUNIT,
     IO_CONTROL_IOLENGTH, IO_CONTROL_EXIST, IO_CONTROL_OPENED, IO_CONTROL_NUMBER, IO_CONTROL_NAMED, IO_CONTROL_NAME,
     IO_CONTROL_SEQUENTIAL, IO_CONTROL_DIRECT, IO_CONTROL_FORMATTED, IO_CONTROL_UNFORMATTED, IO_CONTROL_NEXTREC,
     IO_CONTROL_POSITION, IO_CONTROL_READ, IO_CONTROL_WRITE, IO_CONTROL_READWRITE}"

definition allocation_output :: "expr option \<Rightarrow> bool" where
  "allocation_output argument \<longleftrightarrow>
     (case argument of
        None \<Rightarrow> False
      | Some e \<Rightarrow> expr_kind (expr_info e) = EXPR_KEYWORD_ARGUMENT \<and>
          (expr_text (expr_info e) = Some ''stat'' \<or> expr_text (expr_info e) = Some ''errmsg''))"

fun mark_io_item :: "flow_builder \<Rightarrow> bool \<Rightarrow> io_item \<Rightarrow> variable_flow \<Rightarrow> variable_flow"
  and mark_io_items :: "flow_builder \<Rightarrow> bool \<Rightarrow> io_item list \<Rightarrow> variable_flow \<Rightarrow> variable_flow" where
  "mark_io_item builder input (Io_Item item items) flow =
     mark_io_items builder input items
       (if implied_do item then
          mark_definition builder (item_iterator item) True
            (mark_value builder (item_step item) (mark_value builder (item_limit item)
              (mark_value builder (item_initial item) flow)))
        else if input then mark_definition builder (item_expression item) True flow
        else mark_value builder (item_expression item) flow)"
| "mark_io_items builder input [] flow = flow"
| "mark_io_items builder input (item # rest) flow =
     mark_io_items builder input rest (mark_io_item builder input item flow)"

definition mark_control :: "flow_builder \<Rightarrow> io_control \<Rightarrow> variable_flow \<Rightarrow> variable_flow" where
  "mark_control builder control flow =
     (if output_control (control_kind control) then mark_definition builder (control_value control) True flow
      else mark_value builder (control_value control) flow)"

section \<open>Statements\<close>

definition statement_call_intent :: "statement_fields \<Rightarrow> symbol option \<Rightarrow> nat \<Rightarrow> intent" where
  "statement_call_intent s procedure argument =
     (case statement_procedure s of
        Some definition \<Rightarrow> definition_intent definition argument
      | None \<Rightarrow> signature_intent procedure argument)"

definition bound_passed :: "symbol option \<Rightarrow> symbol option" where
  "bound_passed procedure =
     (case procedure of
        Some s \<Rightarrow> if type_bound s \<and> \<not> type_bound_nopass s then Some s else None
      | None \<Rightarrow> None)"

definition mark_statement_call :: "flow_builder \<Rightarrow> statement_fields \<Rightarrow> variable_flow \<Rightarrow> variable_flow" where
  "mark_statement_call builder s flow =
     (let procedure = (case statement_expression s of
            Some e \<Rightarrow> expr_symbol (expr_info e)
          | None \<Rightarrow> Option.bind (statement_name s) (find_symbol (builder_symbols builder)));
          flow = (case statement_expression s of
              None \<Rightarrow> flow
            | Some e \<Rightarrow>
                let flow = mark_value builder (Some e) flow
                in case (bound_passed procedure, children e) of
                     (Some bound, passed # _) \<Rightarrow>
                       mark_actual builder passed (signature_intent procedure (type_bound_pass_index bound)) flow
                   | _ \<Rightarrow> flow)
      in fold (\<lambda>(argument, actual) flow.
           let parameter = (case bound_passed procedure of
                 Some bound \<Rightarrow> if argument \<ge> type_bound_pass_index bound then argument + 1 else argument
               | None \<Rightarrow> argument)
           in mark_actual builder actual (statement_call_intent s procedure parameter) flow)
         (enumerate 0 (statement_arguments s)) flow)"

text \<open>The branch of \<open>mark_statement\<close> that depends on the kind, before the parts common to all statements.\<close>

definition mark_kind :: "flow_builder \<Rightarrow> statement_fields \<Rightarrow> variable_flow \<Rightarrow> variable_flow" where
  "mark_kind builder s flow =
     (let kind = statement_kind s; symbols = builder_symbols builder
      in if kind = STMT_BLOCK_SCOPE then
           fold (\<lambda>symbol flow. if scope_begin_line symbol = statement_line s then mark_define builder (Some symbol) flow else flow)
             symbols flow
         else if kind = STMT_END_BLOCK_SCOPE then
           fold (\<lambda>symbol flow. if scope_end_line symbol = statement_line s
                 then mark_define builder (Some symbol) (mark_use builder (Some symbol) flow) else flow)
             (rev symbols) flow
         else if kind = STMT_ASSIGNMENT \<or> kind = STMT_POINTER_ASSIGNMENT then
           (case statement_procedure s of
              Some procedure \<Rightarrow>
                mark_actual builder (statement_right s) (definition_intent procedure 1)
                  (mark_actual builder (statement_left s) (definition_intent procedure 0) flow)
            | None \<Rightarrow> mark_value builder (statement_right s) (mark_definition builder (statement_left s) False flow))
         else if kind = STMT_DO then
           mark_value builder (statement_step s) (mark_value builder (statement_limit s)
             (mark_value builder (statement_right s) (mark_definition builder (statement_left s) False flow)))
         else if kind = STMT_CALL then mark_statement_call builder s flow
         else if kind = STMT_ASSIGN_LABEL then mark_definition builder (statement_expression s) False flow
         else if kind = STMT_ALLOCATE \<or> kind = STMT_DEALLOCATE then
           fold (\<lambda>argument flow.
               if allocation_output argument then mark_definition builder argument False flow
               else if (case argument of Some e \<Rightarrow> expr_kind (expr_info e) = EXPR_KEYWORD_ARGUMENT | None \<Rightarrow> False)
                 then mark_value builder argument flow
               else mark_definition builder argument True flow)
             (statement_arguments s) flow
         else if kind = STMT_MOVE_ALLOC then
           fold (\<lambda>(index, argument) flow. mark_definition builder argument (index < 2) flow)
             (enumerate 0 (statement_arguments s)) flow
         else if kind = STMT_NULLIFY then
           fold (\<lambda>argument flow. mark_definition builder argument False flow) (statement_arguments s) flow
         else
           fold (mark_value builder) (statement_arguments s)
             (mark_value builder (statement_step s) (mark_value builder (statement_limit s)
               (mark_value builder (statement_right s) (mark_value builder (statement_left s)
                 (mark_value builder (statement_expression s) flow))))))"

fun mark_statement :: "flow_builder \<Rightarrow> statement \<Rightarrow> variable_flow \<Rightarrow> variable_flow" where
  "mark_statement builder (Statement s inner) flow =
     (let flow = mark_kind builder s flow;
          flow = mark_value builder (allocation_character_length s) flow;
          flow = fold (mark_control builder) (io_controls s) flow;
          flow = mark_io_items builder (statement_kind s = STMT_READ) (io_items s) flow;
          flow = fold (\<lambda>range flow. mark_value builder (case_upper range) (mark_value builder (case_lower range) flow))
                   (case_ranges s) flow
      in case inner of
           None \<Rightarrow> flow
         | Some statement \<Rightarrow> mark_statement builder statement flow)"

section \<open>What marking may change\<close>

text \<open>
  \<open>written builder old new\<close>: in one of the two arrays, bits of the words of the builder's node have been
  set, and only bits that number a symbol of the unit.
\<close>

definition node_word :: "variable_flow \<Rightarrow> nat \<Rightarrow> nat \<Rightarrow> nat" where
  "node_word flow node word = node * flow_word_count flow + word"

definition written :: "flow_builder \<Rightarrow> variable_flow \<Rightarrow> 64 word list \<Rightarrow> 64 word list \<Rightarrow> bool" where
  "written builder flow old new \<longleftrightarrow> length new = length old \<and>
     (\<forall>position i. position < length old \<longrightarrow> bit (old ! position) i \<longrightarrow> bit (new ! position) i) \<and>
     (\<forall>position i. position < length old \<longrightarrow> bit (new ! position) i \<longrightarrow> bit (old ! position) i \<or>
        (\<exists>index < length (builder_symbols builder).
           position = node_word flow (builder_node builder) (index div 64) \<and> i = index mod 64))"

definition marks :: "flow_builder \<Rightarrow> variable_flow \<Rightarrow> variable_flow \<Rightarrow> bool" where
  "marks builder old new \<longleftrightarrow>
     flow_live_in new = flow_live_in old \<and> flow_live_out new = flow_live_out old \<and>
     flow_node_count new = flow_node_count old \<and> flow_word_count new = flow_word_count old \<and>
     flow_analyzed new = flow_analyzed old \<and>
     written builder old (flow_uses old) (flow_uses new) \<and>
     written builder old (flow_definitions old) (flow_definitions new)"

lemma written_refl [simp]: "written builder flow ws ws"
  by (simp add: written_def)

lemma written_trans:
  "written builder flow a b \<Longrightarrow> written builder flow b c \<Longrightarrow> written builder flow a c"
  unfolding written_def by metis

lemma written_flow: "flow_word_count f = flow_word_count g \<Longrightarrow> written builder f = written builder g"
  by (simp add: written_def node_word_def fun_eq_iff)

lemma marks_refl [simp, intro]: "marks builder flow flow"
  by (simp add: marks_def)

lemma marks_trans:
  assumes "marks builder a b" "marks builder b c"
  shows "marks builder a c"
proof -
  have w: "written builder b = written builder a"
    by (rule written_flow) (use assms(1) in \<open>simp add: marks_def\<close>)
  show ?thesis
    using assms written_trans unfolding marks_def w by auto
qed

lemma find_index_less: "symbol_index symbols s = Some i \<Longrightarrow> i < length symbols"
  by (auto simp: symbol_index_def find_Some_iff split: option.splits)

lemma mark_symbol_written: "written builder flow storage (mark_symbol builder flow symbol storage)"
proof -
  have "written builder flow storage (storage[word := storage ! word OR push_bit (index mod 64) 1])"
    if "index < length (builder_symbols builder)" "word = node_word flow (builder_node builder) (index div 64)" for index word
    using that by (auto simp: written_def nth_update_if bit_or_iff bit_power split: if_splits)
  then show ?thesis
    by (auto simp: mark_symbol_def Let_def node_word_def dest: find_index_less split: option.splits)
qed

lemma mark_use_marks [simp, intro]: "marks builder flow (mark_use builder s flow)"
  by (simp add: marks_def mark_use_def mark_symbol_written)

lemma mark_define_marks [simp, intro]: "marks builder flow (mark_define builder s flow)"
  by (simp add: marks_def mark_define_def mark_symbol_written)

lemma mark_expressions_marks:
  shows "marks builder flow (mark_value builder e flow)"
    and "marks builder flow (mark_values builder es flow)"
    and "marks builder flow (mark_arguments builder call index es flow)"
    and "marks builder flow (mark_actual builder e intent flow)"
    and "marks builder flow (mark_definition builder e preserve flow)"
proof (induction builder e flow and builder es flow and builder call index es flow and builder e intent flow
    and builder e preserve flow
    rule: mark_value_mark_values_mark_arguments_mark_actual_mark_definition.induct)
  case (1 builder expression flow)
  show ?case
  proof (cases expression)
    case None
    then show ?thesis by (simp add: mark_value.simps)
  next
    case (Some e)
    let ?call = "case expr_symbol (expr_info e) of
                   Some procedure \<Rightarrow> if procedure_pointer procedure then mark_use builder (Some procedure) flow else flow
                 | None \<Rightarrow> flow"
    have "marks builder flow ?call" by (auto split: option.splits)
    then have "marks builder flow (mark_arguments builder e 0 (children e) ?call)"
      if "expr_kind (expr_info e) = EXPR_CALL"
      using 1(1) [OF Some _ that] that by (auto intro: marks_trans)
    moreover have "marks builder flow (mark_values builder (children e) (mark_use builder (expr_symbol (expr_info e)) flow))"
      if "expr_kind (expr_info e) \<noteq> EXPR_ABSENT_ARGUMENT" "expr_kind (expr_info e) \<noteq> EXPR_CALL"
      using 1(2) [OF Some that] by (rule marks_trans [OF mark_use_marks])
    ultimately show ?thesis using Some by (simp add: mark_value.simps)
  qed
next
  case (3 builder child rest flow)
  show ?case using 3(1) 3(2) by (simp add: marks_trans)
next
  case (5 builder call index child rest flow)
  have "marks builder flow (case call_child_parameter call index of None \<Rightarrow> mark_value builder child flow
        | Some parameter \<Rightarrow> mark_actual builder child (call_intent call parameter) flow)"
    using 5(1,2) by (simp split: option.splits)
  then show ?case using 5(3) by (simp add: marks_trans)
next
  case (6 builder actual intent flow)
  then show ?case by (subst mark_actual.simps) (simp split: option.splits)
next
  case (7 builder expression preserve flow)
  let ?v = "argument_value expression"
  have "marks builder flow (if preserve \<or> \<not> whole_name ?v (designator_symbol (builder_symbols builder) ?v)
      then mark_value builder ?v flow else flow)"
    using 7(1) [OF refl refl] by simp
  then show ?case by (simp add: mark_definition.simps Let_def marks_trans [OF _ mark_define_marks])
qed auto

text \<open>Marking after something that marks.\<close>

lemma expression_marks [intro!]:
  assumes "marks builder flow f"
  shows "marks builder flow (mark_value builder e f)" "marks builder flow (mark_actual builder e intent f)"
    "marks builder flow (mark_definition builder e preserve f)" "marks builder flow (mark_use builder s f)"
    "marks builder flow (mark_define builder s f)"
  using marks_trans [OF assms] mark_expressions_marks(1,4,5) mark_use_marks mark_define_marks by blast+

lemma fold_marks [intro!]:
  assumes "marks builder flow f" "\<And>x g. marks builder flow g \<Longrightarrow> marks builder flow (step x g)"
  shows "marks builder flow (fold step xs f)"
  using assms(1) by (induction xs arbitrary: f) (auto intro: assms(2))

lemma mark_io_marks:
  shows "marks builder flow f \<Longrightarrow> marks builder flow (mark_io_item builder input item f)"
    and "marks builder flow f \<Longrightarrow> marks builder flow (mark_io_items builder input items f)"
proof (induction builder input item f and builder input items f rule: mark_io_item_mark_io_items.induct)
  case (1 builder input item items f)
  show ?case unfolding mark_io_item.simps by (rule "1.IH") (use 1 in auto)
next
  case (3 builder input item rest f)
  show ?case unfolding mark_io_items.simps by (intro "3.IH" 3)
qed simp

lemma mark_statement_call_marks: "marks builder flow f \<Longrightarrow> marks builder flow (mark_statement_call builder s f)"
  by (auto simp: mark_statement_call_def Let_def split: option.splits list.splits)

lemma mark_kind_marks: "marks builder flow f \<Longrightarrow> marks builder flow (mark_kind builder s f)"
  by (auto simp: mark_kind_def Let_def intro!: mark_statement_call_marks split: option.splits)

lemma mark_control_marks: "marks builder flow f \<Longrightarrow> marks builder flow (mark_control builder control f)"
  by (auto simp: mark_control_def)

lemma mark_statement_marks: "marks builder flow f \<Longrightarrow> marks builder flow (mark_statement builder s f)"
proof (induction s arbitrary: f)
  case (Statement s inner)
  have "marks builder flow
      (fold (\<lambda>range flow. mark_value builder (case_upper range) (mark_value builder (case_lower range) flow)) (case_ranges s)
        (mark_io_items builder (statement_kind s = STMT_READ) (io_items s)
          (fold (mark_control builder) (io_controls s)
            (mark_value builder (allocation_character_length s) (mark_kind builder s f)))))"
    by (auto intro!: mark_io_marks mark_control_marks mark_kind_marks Statement.prems)
  then show ?case
    using Statement.IH by (auto simp: Let_def split: option.splits)
qed

end
