(* ===== verification/Bit_Solver.thy ===== *)
theory Bit_Solver
  imports Bit_Flow
begin

text \<open>
  The worklist iteration always ends, and its result is the least solution of the data-flow
  inequalities: every node carries at least its start state and the outputs that reach it, and no
  solution carries less.
\<close>

section \<open>The inequalities\<close>

definition output_of :: "transfer option \<Rightarrow> nat \<Rightarrow> nat \<Rightarrow> bit_state \<Rightarrow> bit_state" where
  "output_of transfer n v s = the (transferred transfer n v s)"

text \<open>The callback never refuses and keeps the number of words.\<close>

definition total_transfer :: "transfer option \<Rightarrow> nat \<Rightarrow> nat \<Rightarrow> bool" where
  "total_transfer transfer n c \<longleftrightarrow>
     (\<forall>v < c. \<forall>s. sized n s \<longrightarrow> (\<exists>out. transferred transfer n v s = Some out \<and> sized n out))"

definition solution ::
  "nat \<Rightarrow> nat \<Rightarrow> (nat \<Rightarrow> flow_edge list) \<Rightarrow> (nat \<Rightarrow> flow_edge \<Rightarrow> bit_state \<Rightarrow> bool) \<Rightarrow> transfer option \<Rightarrow>
   bit_state list \<Rightarrow> bit_state list \<Rightarrow> bool" where
  "solution c n links admit transfer start S \<longleftrightarrow> length S = c \<and> (\<forall>v < c. sized n (S ! v) \<and> below (start ! v) (S ! v)) \<and>
     (\<forall>v < c. initialized (S ! v) \<longrightarrow> (\<forall>e \<in> set (links v). admit v e (output_of transfer n v (S ! v)) \<longrightarrow>
        carries (S ! edge_target e) (output_of transfer n v (S ! v))))"

text \<open>More input gives more output, and what passes the filter still passes it.\<close>

definition monotone_flow ::
  "nat \<Rightarrow> nat \<Rightarrow> (nat \<Rightarrow> flow_edge list) \<Rightarrow> (nat \<Rightarrow> flow_edge \<Rightarrow> bit_state \<Rightarrow> bool) \<Rightarrow> transfer option \<Rightarrow> bool" where
  "monotone_flow c n links admit transfer \<longleftrightarrow> (\<forall>v < c. \<forall>s t. sized n s \<longrightarrow> sized n t \<longrightarrow> carries t s \<longrightarrow>
     fewer (flags (output_of transfer n v s)) (flags (output_of transfer n v t)) \<and>
     list_all2 fewer (bits (output_of transfer n v s)) (bits (output_of transfer n v t)) \<and>
     (\<forall>e \<in> set (links v). admit v e (output_of transfer n v s) \<longrightarrow> admit v e (output_of transfer n v t)))"

definition least_solution ::
  "nat \<Rightarrow> nat \<Rightarrow> (nat \<Rightarrow> flow_edge list) \<Rightarrow> (nat \<Rightarrow> flow_edge \<Rightarrow> bit_state \<Rightarrow> bool) \<Rightarrow> transfer option \<Rightarrow>
   bit_state list \<Rightarrow> bit_state list \<Rightarrow> bool" where
  "least_solution c n links admit transfer start R \<longleftrightarrow> solution c n links admit transfer start R \<and>
     (\<forall>S. monotone_flow c n links admit transfer \<longrightarrow> solution c n links admit transfer start S \<longrightarrow>
        (\<forall>v < c. below (R ! v) (S ! v)))"

section \<open>The edges of one node\<close>

definition total_room :: "nat \<Rightarrow> bit_state list \<Rightarrow> nat" where
  "total_room n states = sum_list (map (room n) states)"

lemma total_room_update:
  assumes "t < length states" "room n s < room n (states ! t)"
  shows "total_room n (states[t := s]) < total_room n states"
proof -
  have "sum_list (map (room n) (states[t := s])) = sum_list (map (room n) states) + room n s - room n (states ! t)"
    unfolding map_update using assms(1) by (subst sum_list_update) simp_all
  moreover have "room n (states ! t) \<le> sum_list (map (room n) states)"
    using elem_le_sum_list [of t "map (room n) states"] assms(1) by simp
  ultimately show ?thesis using assms(2) by (simp add: total_room_def)
qed

definition healthy :: "nat \<Rightarrow> nat \<Rightarrow> bit_state list \<Rightarrow> work_queue \<Rightarrow> bool" where
  "healthy c n states q \<longleftrightarrow> ring_ok c q \<and> length states = c \<and> (\<forall>v < c. sized n (states ! v)) \<and>
     (\<forall>v \<in> set (ring_waiting c q). v < c \<and> initialized (states ! v))"

text \<open>What the iteration over some edges does to the states and the queue.\<close>

definition spreads ::
  "nat \<Rightarrow> nat \<Rightarrow> bit_state list \<Rightarrow> work_queue \<Rightarrow> bit_state list \<Rightarrow> work_queue \<Rightarrow> bool" where
  "spreads c n states q states' q' \<longleftrightarrow> healthy c n states' q' \<and> (\<forall>v < c. below (states ! v) (states' ! v)) \<and>
     set (ring_waiting c q) \<subseteq> set (ring_waiting c q') \<and>
     (\<forall>v < c. states' ! v \<noteq> states ! v \<longrightarrow> v \<in> set (ring_waiting c q')) \<and>
     (states' = states \<and> q' = q \<or> total_room n states' < total_room n states)"

lemma spreads_trans:
  assumes "spreads c n s1 q1 s2 q2" "spreads c n s2 q2 s3 q3"
  shows "spreads c n s1 q1 s3 q3"
proof -
  have "\<forall>v < c. below (s1 ! v) (s3 ! v)" using assms unfolding spreads_def by (blast intro: below_trans)
  moreover have "v \<in> set (ring_waiting c q3)" if "v < c" "s3 ! v \<noteq> s1 ! v" for v
    using assms that unfolding spreads_def by (cases "s2 ! v = s1 ! v") auto
  ultimately show ?thesis using assms unfolding spreads_def by auto
qed

lemma propagate_one:
  assumes "healthy c n states q" "sized n out" "edge_target e < c"
  shows "\<exists>states' q'. propagate c n admit out e (states, q) = Some (states', q') \<and> spreads c n states q states' q' \<and>
    (admit e out \<longrightarrow> carries (states' ! edge_target e) out) \<and>
    (\<forall>S. (admit e out \<longrightarrow> carries (S ! edge_target e) out) \<longrightarrow> (\<forall>v < c. below (states ! v) (S ! v)) \<longrightarrow>
       (\<forall>v < c. below (states' ! v) (S ! v)))"
proof (cases "admit e out")
  case False
  then have "propagate c n admit out e (states, q) = Some (states, q)" using assms(3) by (simp add: propagate_def)
  moreover have "spreads c n states q states q" using assms(1) by (simp add: spreads_def)
  ultimately show ?thesis using False by blast
next
  case True
  let ?t = "edge_target e"
  define r where "r = fst (merge_state (states ! ?t) out n)"
  have h: "ring_ok c q" "length states = c" "sized n (states ! ?t)" using assms(1,3) by (simp_all add: healthy_def)
  note m = merge_state_laws [OF h(3) assms(2), folded r_def]
  have pair: "merge_state (states ! ?t) out n = (r, \<not> carries (states ! ?t) out)"
    using m(5) by (simp add: r_def prod_eq_iff)
  have least: "\<forall>v < c. below (states[?t := r] ! v) (S ! v)"
    if "carries (S ! ?t) out" "\<forall>v < c. below (states ! v) (S ! v)" for S
    using that m(4) [of "S ! ?t"] assms(3) h(2) by (simp add: nth_list_update)
  show ?thesis
  proof (cases "carries (states ! ?t) out")
    case c: True
    then have "states[?t := r] = states" using m(6) by simp
    then have "propagate c n admit out e (states, q) = Some (states, q)"
      using True assms(3) by (simp add: propagate_def pair c)
    moreover have "spreads c n states q states q" using assms(1) by (simp add: spreads_def)
    ultimately show ?thesis using c by blast
  next
    case c: False
    obtain q' where q': "enqueue c ?t q = Some q'" "ring_ok c q'"
      "set (ring_waiting c q') = insert ?t (set (ring_waiting c q))"
      by (rule ring.add_obtains [OF h(1) assms(3)])
    have "propagate c n admit out e (states, q) = Some (states[?t := r], q')"
      using True assms(3) q'(1) by (simp add: propagate_def pair c)
    moreover have "initialized r" using m(2) by (simp add: carries_def)
    moreover have "room n r < room n (states ! ?t)"
    proof (rule room_less [OF h(3) m(1) m(3)])
      show "\<not> below r (states ! ?t)" using c carries_below [OF m(2)] by blast
    qed
    then have "total_room n (states[?t := r]) < total_room n states"
      using assms(3) h(2) by (intro total_room_update) simp_all
    ultimately have "spreads c n states q (states[?t := r]) q'"
      using assms(1,3) q' m h(2) by (auto simp: spreads_def healthy_def nth_list_update)
    moreover have "carries (states[?t := r] ! ?t) out" using assms(3) h(2) m(2) by simp
    ultimately show ?thesis
      using \<open>propagate c n admit out e (states, q) = _\<close> least True by blast
  qed
qed

lemma propagate_all:
  assumes "healthy c n states q" "sized n out" "\<forall>e \<in> set es. edge_target e < c"
  shows "\<exists>states' q'. for_each (propagate c n admit out) es (states, q) = Some (states', q') \<and>
    spreads c n states q states' q' \<and> (\<forall>e \<in> set es. admit e out \<longrightarrow> carries (states' ! edge_target e) out) \<and>
    (\<forall>S. (\<forall>e \<in> set es. admit e out \<longrightarrow> carries (S ! edge_target e) out) \<longrightarrow> (\<forall>v < c. below (states ! v) (S ! v)) \<longrightarrow>
       (\<forall>v < c. below (states' ! v) (S ! v)))"
  using assms(1,3)
proof (induction es arbitrary: states q)
  case Nil
  then show ?case by (auto simp: spreads_def)
next
  case (Cons e es)
  have e: "edge_target e < c" using Cons.prems(2) by simp
  obtain s1 q1 where one: "propagate c n admit out e (states, q) = Some (s1, q1)" "spreads c n states q s1 q1"
    "admit e out \<longrightarrow> carries (s1 ! edge_target e) out"
    and least1: "\<And>S. (admit e out \<longrightarrow> carries (S ! edge_target e) out) \<Longrightarrow> (\<forall>v < c. below (states ! v) (S ! v)) \<Longrightarrow>
       (\<forall>v < c. below (s1 ! v) (S ! v))"
    using propagate_one [OF Cons.prems(1) assms(2) e, of admit] by blast
  have h1: "healthy c n s1 q1" using one(2) by (simp add: spreads_def)
  obtain s2 q2 where rest: "for_each (propagate c n admit out) es (s1, q1) = Some (s2, q2)" "spreads c n s1 q1 s2 q2"
    "\<forall>e \<in> set es. admit e out \<longrightarrow> carries (s2 ! edge_target e) out"
    and least2: "\<And>S. (\<forall>e \<in> set es. admit e out \<longrightarrow> carries (S ! edge_target e) out) \<Longrightarrow> (\<forall>v < c. below (s1 ! v) (S ! v)) \<Longrightarrow>
       (\<forall>v < c. below (s2 ! v) (S ! v))"
    using Cons.IH [OF h1] Cons.prems(2) by auto
  have "admit e out \<longrightarrow> carries (s2 ! edge_target e) out"
    using one(3) rest(2) e carries_below unfolding spreads_def by blast
  with one(1) rest spreads_trans [OF one(2) rest(2)] least1 least2 show ?case
    by (intro exI [of _ s2] exI [of _ q2]) simp
qed

section \<open>The loop\<close>

definition stable ::
  "nat \<Rightarrow> nat \<Rightarrow> (nat \<Rightarrow> flow_edge list) \<Rightarrow> (nat \<Rightarrow> flow_edge \<Rightarrow> bit_state \<Rightarrow> bool) \<Rightarrow> transfer option \<Rightarrow> bit_state list \<Rightarrow>
   nat \<Rightarrow> bool" where
  "stable c n links admit transfer states v \<longleftrightarrow> (initialized (states ! v) \<longrightarrow>
     (\<forall>e \<in> set (links v). admit v e (output_of transfer n v (states ! v)) \<longrightarrow>
        carries (states ! edge_target e) (output_of transfer n v (states ! v))))"

definition iterating ::
  "nat \<Rightarrow> nat \<Rightarrow> (nat \<Rightarrow> flow_edge list) \<Rightarrow> (nat \<Rightarrow> flow_edge \<Rightarrow> bit_state \<Rightarrow> bool) \<Rightarrow> transfer option \<Rightarrow>
   bit_state list \<Rightarrow> bit_state list \<Rightarrow> work_queue \<Rightarrow> bool" where
  "iterating c n links admit transfer start states q \<longleftrightarrow> healthy c n states q \<and>
     (\<forall>v < c. below (start ! v) (states ! v)) \<and>
     (\<forall>v < c. v \<notin> set (ring_waiting c q) \<longrightarrow> stable c n links admit transfer states v)"

lemma outputs_reach:
  assumes "solution c n links admit transfer start S" "monotone_flow c n links admit transfer"
    and "v < c" "sized n s" "initialized s" "below s (S ! v)" "e \<in> set (links v)" "admit v e (output_of transfer n v s)"
  shows "carries (S ! edge_target e) (output_of transfer n v s)"
proof -
  have c: "carries (S ! v) s" using assms(5,6) by (simp add: below_def)
  have sol: "sized n (S ! v)" "initialized (S ! v)" using assms(1,3) c by (simp_all add: solution_def carries_def)
  have m: "fewer (flags (output_of transfer n v s)) (flags (output_of transfer n v (S ! v)))"
    "list_all2 fewer (bits (output_of transfer n v s)) (bits (output_of transfer n v (S ! v)))"
    "admit v e (output_of transfer n v (S ! v))"
    using assms(2-4,7,8) sol(1) c unfolding monotone_flow_def by blast+
  have "carries (S ! edge_target e) (output_of transfer n v (S ! v))"
    using assms(1,3,7) sol(2) m(3) by (simp add: solution_def)
  then show ?thesis using m(1,2) unfolding carries_def by (blast intro: fewer_trans fewer_all_trans)
qed

lemma solve_loop_correct:
  assumes "\<forall>v < c. \<forall>e \<in> set (links v). edge_target e < c" "total_transfer transfer n c"
    and "iterating c n links admit transfer start states q"
  shows "\<exists>R. solve_loop c n links admit transfer states q = Some R \<and> solution c n links admit transfer start R \<and>
    (\<forall>S. monotone_flow c n links admit transfer \<longrightarrow> solution c n links admit transfer start S \<longrightarrow>
       (\<forall>v < c. below (states ! v) (S ! v)) \<longrightarrow> (\<forall>v < c. below (R ! v) (S ! v)))"
  using assms(3)
proof (induction "(states, q)" arbitrary: states q
    rule: wf_induct_rule [OF wf_measures [of "[\<lambda>(states, q). total_room n states, \<lambda>(states, q). queue_count q]"]])
  case less: (1 states q)
  have it: "healthy c n states q" "\<forall>v < c. below (start ! v) (states ! v)"
    "\<And>v. v < c \<Longrightarrow> v \<notin> set (ring_waiting c q) \<Longrightarrow> stable c n links admit transfer states v"
    using less.prems by (simp_all add: iterating_def)
  show ?case
  proof (cases "ring_waiting c q")
    case Nil
    then have "queue_count q = 0" by (simp add: ring_count [of q c])
    then have "solve_loop c n links admit transfer states q = Some states" by (subst solve_loop.simps) simp
    moreover have "solution c n links admit transfer start states"
      using it Nil by (simp add: solution_def healthy_def stable_def)
    ultimately show ?thesis by blast
  next
    case (Cons v rest)
    have ok: "ring_ok c q" using it(1) by (simp add: healthy_def)
    obtain q1 where q1: "dequeue c q = (v, q1)" "ring_ok c q1" "ring_waiting c q1 = rest"
      using ring.take_law [OF ok Cons] by blast
    have v: "v < c" "initialized (states ! v)" "sized n (states ! v)"
      using it(1) Cons by (simp_all add: healthy_def)
    define out where "out = output_of transfer n v (states ! v)"
    have out: "transferred transfer n v (states ! v) = Some out" "sized n out"
      using assms(2) v unfolding total_transfer_def out_def output_of_def by fastforce+
    have h1: "healthy c n states q1" using it(1) q1 Cons by (simp add: healthy_def)
    have targets: "\<forall>e \<in> set (links v). edge_target e < c" using assms(1) v(1) by blast
    obtain s2 q2 where step: "for_each (propagate c n (admit v) out) (links v) (states, q1) = Some (s2, q2)"
      and spread: "spreads c n states q1 s2 q2"
      and carried: "\<forall>e \<in> set (links v). admit v e out \<longrightarrow> carries (s2 ! edge_target e) out"
      and least: "\<And>S. (\<forall>e \<in> set (links v). admit v e out \<longrightarrow> carries (S ! edge_target e) out) \<Longrightarrow>
        (\<forall>v < c. below (states ! v) (S ! v)) \<Longrightarrow> (\<forall>v < c. below (s2 ! v) (S ! v))"
      using propagate_all [OF h1 out(2) targets, of "admit v"] by blast
    have grow: "below (states ! u) (s2 ! u)" if "u < c" for u using spread that by (simp add: spreads_def)
    have "stable c n links admit transfer s2 u" if u: "u < c" "u \<notin> set (ring_waiting c q2)" for u
    proof -
      have same: "s2 ! u = states ! u" using spread u by (auto simp: spreads_def)
      show ?thesis
      proof (cases "u = v")
        case True
        with carried same show ?thesis by (simp add: stable_def out_def)
      next
        case False
        have "u \<notin> set (ring_waiting c q)" using False u(2) spread Cons q1(3) by (auto simp: spreads_def)
        then have "stable c n links admit transfer states u" using it(3) u(1) by blast
        then show ?thesis
          using grow assms(1) u(1) carries_below unfolding stable_def same by blast
      qed
    qed
    moreover have "\<forall>v < c. below (start ! v) (s2 ! v)" using it(2) grow below_trans by blast
    ultimately have next_it: "iterating c n links admit transfer start s2 q2"
      using spread by (simp add: iterating_def spreads_def)
    have "queue_count q1 < queue_count q" by (simp add: ring_count [of _ c] Cons q1(3))
    then have "((s2, q2), (states, q)) \<in> measures [\<lambda>(states, q). total_room n states, \<lambda>(states, q). queue_count q]"
      using spread by (auto simp: spreads_def)
    from less.hyps [OF this next_it] obtain R where R: "solve_loop c n links admit transfer s2 q2 = Some R"
      "solution c n links admit transfer start R"
      "\<forall>S. monotone_flow c n links admit transfer \<longrightarrow> solution c n links admit transfer start S \<longrightarrow>
         (\<forall>v < c. below (s2 ! v) (S ! v)) \<longrightarrow> (\<forall>v < c. below (R ! v) (S ! v))"
      by blast
    have "queue_count q \<noteq> 0" using Cons by (simp add: ring_count [of q c])
    then have "solve_loop c n links admit transfer states q = Some R"
      using q1(1) out(1) step R(1) by (subst solve_loop.simps) simp
    moreover have "\<forall>v < c. below (R ! v) (S ! v)"
      if S: "monotone_flow c n links admit transfer" "solution c n links admit transfer start S" "\<forall>v < c. below (states ! v) (S ! v)"
      for S
    proof -
      have "\<forall>e \<in> set (links v). admit v e out \<longrightarrow> carries (S ! edge_target e) out"
        using outputs_reach [OF S(2,1) v(1,3,2)] S(3) v(1) unfolding out_def by blast
      then have "\<forall>v < c. below (s2 ! v) (S ! v)" using least S(3) by blast
      then show ?thesis using R(3) S by blast
    qed
    ultimately show ?thesis using R(2) by blast
  qed
qed

section \<open>The two solvers\<close>

definition blank_state :: "nat \<Rightarrow> bit_state" where
  "blank_state n = \<lparr>bits = replicate n 0, flags = 0, initialized = False\<rparr>"

definition full_words :: "nat \<Rightarrow> 64 word list option \<Rightarrow> bool" where
  "full_words n words \<longleftrightarrow> (case words of None \<Rightarrow> True | Some ws \<Rightarrow> length ws = n)"

lemma copy_bits_length [simp]: "full_words n words \<Longrightarrow> length (copy_bits words n) = n"
  by (simp add: full_words_def copy_bits_def split: option.splits)

lemma allocate_result_states:
  "allocate_result mem c n = Some states \<Longrightarrow> states = replicate c (blank_state n)"
  by (auto simp: allocate_result_def blank_state_def split: if_splits)

definition forward_start :: "nat \<Rightarrow> nat \<Rightarrow> nat \<Rightarrow> 64 word list option \<Rightarrow> 64 word \<Rightarrow> bit_state list" where
  "forward_start c n entry words flag =
     (replicate c (blank_state n))[entry := \<lparr>bits = copy_bits words n, flags = flag, initialized = True\<rparr>]"

definition backward_start :: "flow_graph \<Rightarrow> nat \<Rightarrow> 64 word list option \<Rightarrow> 64 word \<Rightarrow> bit_state list" where
  "backward_start graph n words flag =
     map (\<lambda>v. if successors (node_at graph v) = [] then \<lparr>bits = copy_bits words n, flags = flag, initialized = True\<rparr>
              else (blank_state n)\<lparr>initialized := True\<rparr>) [0..<node_count graph]"

abbreviation admits :: "edge_filter option \<Rightarrow> nat \<Rightarrow> flow_edge \<Rightarrow> bit_state \<Rightarrow> bool" where
  "admits edge_filter node edge out \<equiv> (case edge_filter of None \<Rightarrow> True | Some f \<Rightarrow> f node edge out)"

lemma forward_solver:
  assumes "entry < node_count graph" "allocate_result mem (node_count graph) n \<noteq> None" "full_words n words"
    and "\<forall>v < node_count graph. \<forall>e \<in> set (successors (node_at graph v)). edge_target e < node_count graph"
    and "total_transfer transfer n (node_count graph)"
  shows "\<exists>R. bit_flow_solve mem graph entry n words flag transfer edge_filter = Some R \<and>
    least_solution (node_count graph) n (\<lambda>v. successors (node_at graph v))
      (admits edge_filter) transfer (forward_start (node_count graph) n entry words flag) R"
proof -
  let ?c = "node_count graph"
  let ?start = "forward_start ?c n entry words flag"
  obtain states where states: "allocate_result mem ?c n = Some states" using assms(2) by blast
  have start: "states[entry := (states ! entry)\<lparr>initialized := True, flags := flag, bits := copy_bits words n\<rparr>] = ?start"
    using allocate_result_states [OF states] assms(1) by (simp add: forward_start_def blank_state_def)
  obtain q where q: "enqueue ?c entry (new_queue ?c) = Some q" "ring_ok ?c q" "set (ring_waiting ?c q) = {entry}"
    using ring.add_obtains [OF ring_new(1) assms(1)] by (metis ring_new(2) list.set(1))
  have "sized n (?start ! v)" if "v < ?c" for v
    using that assms(1,3) by (simp add: forward_start_def nth_list_update blank_state_def sized_def)
  then have "iterating ?c n (\<lambda>v. successors (node_at graph v)) (admits edge_filter) transfer ?start ?start q"
    using q assms(1) by (auto simp: iterating_def healthy_def stable_def forward_start_def nth_list_update blank_state_def)
  from solve_loop_correct [OF assms(4,5) this] show ?thesis
    unfolding bit_flow_solve_def using assms(1) states q(1)
    by (simp add: start Let_def solution_def least_solution_def)
qed

text \<open>
  C33: Once its buffers are allocated, the forward solver ends and returns the least solution: each node
  carries the outputs that its admitted predecessors send it and the entry its start value, and when
  the callbacks are monotone no solution carries less.
\<close>

theorem forward_flow_least:
  assumes "entry < node_count graph" "allocate_result mem (node_count graph) n \<noteq> None" "full_words n words"
    and "\<forall>v < node_count graph. \<forall>e \<in> set (successors (node_at graph v)). edge_target e < node_count graph"
    and "total_transfer transfer n (node_count graph)"
  shows "\<exists>R. bit_flow_solve mem graph entry n words flag transfer edge_filter = Some R \<and>
    solution (node_count graph) n (\<lambda>v. successors (node_at graph v)) (admits edge_filter) transfer
      (forward_start (node_count graph) n entry words flag) R \<and>
    (\<forall>S. monotone_flow (node_count graph) n (\<lambda>v. successors (node_at graph v)) (admits edge_filter) transfer \<longrightarrow>
       solution (node_count graph) n (\<lambda>v. successors (node_at graph v)) (admits edge_filter) transfer
         (forward_start (node_count graph) n entry words flag) S \<longrightarrow>
       (\<forall>v < node_count graph. below (R ! v) (S ! v)))"
  using forward_solver [OF assms, of flag edge_filter] by (simp add: least_solution_def)

lemma backward_start_at:
  assumes "v < node_count graph"
  shows "start_backward graph n words flag v (blank_state n) = backward_start graph n words flag ! v"
  using assms by (simp add: start_backward_def backward_start_def blank_state_def Let_def)

lemma queue_all_nodes:
  assumes "m \<le> node_count graph"
  shows "\<exists>states q. for_each (\<lambda>node (states, q).
        map_option (Pair (states[node := start_backward graph n words flag node (states ! node)]))
          (enqueue (node_count graph) node q))
      [0..<m] (replicate (node_count graph) (blank_state n), new_queue (node_count graph)) = Some (states, q) \<and>
    states = take m (backward_start graph n words flag) @ replicate (node_count graph - m) (blank_state n) \<and>
    ring_ok (node_count graph) q \<and> set (ring_waiting (node_count graph) q) = {..<m}"
  using assms
proof (induction m)
  case 0
  then show ?case using ring_new [of "node_count graph"] by simp
next
  case (Suc m)
  let ?c = "node_count graph" and ?start = "backward_start graph n words flag"
  define states where "states = take m ?start @ replicate (?c - m) (blank_state n)"
  obtain q where IH: "for_each (\<lambda>node (states, q).
        map_option (Pair (states[node := start_backward graph n words flag node (states ! node)])) (enqueue ?c node q))
      [0..<m] (replicate ?c (blank_state n), new_queue ?c) = Some (states, q)"
    "ring_ok ?c q" "set (ring_waiting ?c q) = {..<m}"
    using Suc unfolding states_def by auto
  have m: "m < ?c" "length ?start = ?c" using Suc.prems by (simp_all add: backward_start_def)
  obtain q' where q': "enqueue ?c m q = Some q'" "ring_ok ?c q'" "set (ring_waiting ?c q') = insert m {..<m}"
    by (rule ring.add_obtains [OF IH(2) m(1), unfolded IH(3)])
  have split: "replicate (?c - m) (blank_state n) = blank_state n # replicate (?c - Suc m) (blank_state n)"
    using m(1) by (metis Suc_diff_Suc replicate_Suc)
  have l: "length (take m ?start) = m" using m by simp
  have at: "states ! m = blank_state n"
    unfolding states_def split by (subst (2) l [symmetric]) (rule nth_append_length)
  have "states[m := x] = take m ?start @ x # replicate (?c - Suc m) (blank_state n)" for x
    unfolding states_def split by (subst (2) l [symmetric]) (rule list_update_length)
  then have "states[m := start_backward graph n words flag m (states ! m)] =
      take (Suc m) ?start @ replicate (?c - Suc m) (blank_state n)"
    using m by (simp add: at backward_start_at take_Suc_conv_app_nth)
  with IH(1) q' show ?case by (auto simp: for_each_append lessThan_Suc)
qed

abbreviation admits_backward :: "edge_filter option \<Rightarrow> nat \<Rightarrow> flow_edge \<Rightarrow> bit_state \<Rightarrow> bool" where
  "admits_backward edge_filter node edge out \<equiv> admits edge_filter (edge_target edge) (edge_to node (edge_kind edge)) out"

lemma backward_solver:
  assumes "node_count graph \<noteq> 0" "allocate_result mem (node_count graph) n \<noteq> None" "full_words n words"
    and "\<forall>v < node_count graph. \<forall>e \<in> set (predecessors (node_at graph v)). edge_target e < node_count graph"
    and "total_transfer transfer n (node_count graph)"
  shows "\<exists>R. bit_flow_solve_backward mem graph n words flag transfer edge_filter = Some R \<and>
    least_solution (node_count graph) n (\<lambda>v. predecessors (node_at graph v))
      (admits_backward edge_filter) transfer (backward_start graph n words flag) R"
proof -
  let ?c = "node_count graph"
  let ?start = "backward_start graph n words flag"
  obtain states where states: "allocate_result mem ?c n = Some states" using assms(2) by blast
  have l: "length ?start = ?c" by (simp add: backward_start_def)
  obtain q where q: "for_each (\<lambda>node (states, q).
        map_option (Pair (states[node := start_backward graph n words flag node (states ! node)])) (enqueue ?c node q))
      [0..<?c] (states, new_queue ?c) = Some (?start, q)" "ring_ok ?c q" "set (ring_waiting ?c q) = {..<?c}"
    using queue_all_nodes [of ?c graph n words flag] allocate_result_states [OF states] l by auto
  have "sized n (?start ! v) \<and> initialized (?start ! v)" if "v < ?c" for v
    using that assms(3) by (simp add: backward_start_def blank_state_def sized_def)
  then have "iterating ?c n (\<lambda>v. predecessors (node_at graph v)) (admits_backward edge_filter) transfer ?start ?start q"
    using q l by (auto simp: iterating_def healthy_def)
  from solve_loop_correct [OF assms(4,5) this] show ?thesis
    unfolding bit_flow_solve_backward_def using assms(1) states q(1)
    by (simp add: solution_def least_solution_def)
qed

text \<open>
  C34: Once its buffers are allocated, the backward solver ends and returns the least solution: each node
  carries what its successors need, and a node without successors at least the exit value.
\<close>

theorem backward_flow_least:
  assumes "node_count graph \<noteq> 0" "allocate_result mem (node_count graph) n \<noteq> None" "full_words n words"
    and "\<forall>v < node_count graph. \<forall>e \<in> set (predecessors (node_at graph v)). edge_target e < node_count graph"
    and "total_transfer transfer n (node_count graph)"
  shows "\<exists>R. bit_flow_solve_backward mem graph n words flag transfer edge_filter = Some R \<and>
    solution (node_count graph) n (\<lambda>v. predecessors (node_at graph v)) (admits_backward edge_filter) transfer (backward_start graph n words flag) R \<and>
    (\<forall>S. monotone_flow (node_count graph) n (\<lambda>v. predecessors (node_at graph v)) (admits_backward edge_filter) transfer \<longrightarrow>
       solution (node_count graph) n (\<lambda>v. predecessors (node_at graph v)) (admits_backward edge_filter) transfer (backward_start graph n words flag) S \<longrightarrow>
       (\<forall>v < node_count graph. below (R ! v) (S ! v)))"
  using backward_solver [OF assms, of flag edge_filter] by (simp add: least_solution_def)

section \<open>A concrete flow\<close>

text \<open>Two nodes in a cycle; the transfer sets bit 0 at node 0 and clears bit 1 everywhere.\<close>

definition cycle_graph :: flow_graph where
  "cycle_graph =
     (let node = \<lambda>other. \<lparr>successors = [edge_to other CFG_EDGE_BRANCH], successor_capacity = 2,
        predecessors = [edge_to other CFG_EDGE_BRANCH], predecessor_capacity = 2, statement_index = 0, block_index = 0,
        node_kind = CFG_NODE_STATEMENT, node_reachable = True\<rparr>
      in \<lparr>graph_nodes = [node 1, node 0], statement_count = 2, procedure_exit = 0, image_termination = 0, graph_blocks = []\<rparr>)"

definition sample_transfer :: transfer where
  "sample_transfer v state out = Some (out\<lparr>bits := map (\<lambda>w. (if v = 0 then w OR 1 else w) AND NOT 2) (bits out)\<rparr>)"

lemma sample_transfer_total: "total_transfer (Some sample_transfer) n c"
  by (auto simp: total_transfer_def transferred_def sample_transfer_def sized_def copy_bits_def)

lemma cycle_facts: "node_count cycle_graph = 2" "allocate_result (\<lambda>_. True) (node_count cycle_graph) 1 \<noteq> None"
  "\<forall>v < node_count cycle_graph. \<forall>e \<in> set (successors (node_at cycle_graph v)). edge_target e < node_count cycle_graph"
  "\<forall>v < node_count cycle_graph. \<forall>e \<in> set (predecessors (node_at cycle_graph v)). edge_target e < node_count cycle_graph"
  by (auto simp: cycle_graph_def Let_def allocate_result_def less_Suc_eq)

lemma forward_flow_least_witness:
  "\<exists>R. bit_flow_solve (\<lambda>_. True) cycle_graph 0 1 (Some [2]) 0 (Some sample_transfer) None = Some R \<and> carries (R ! 0) \<lparr>bits = [2], flags = 0, initialized = True\<rparr>"
proof -
  have e: "0 < node_count cycle_graph" "full_words 1 (Some [2 :: 64 word])" by (simp_all add: cycle_facts(1) full_words_def)
  from forward_flow_least [OF e(1) cycle_facts(2) e(2) cycle_facts(3) sample_transfer_total, of 0 None]
  obtain R where "bit_flow_solve (\<lambda>_. True) cycle_graph 0 1 (Some [2]) 0 (Some sample_transfer) None = Some R"
    "below (forward_start 2 1 0 (Some [2]) 0 ! 0) (R ! 0)"
    by (auto simp: solution_def cycle_facts(1))
  then show ?thesis by (auto simp: below_def forward_start_def copy_bits_def)
qed

lemma backward_flow_least_witness:
  "\<exists>R. bit_flow_solve_backward (\<lambda>_. True) cycle_graph 1 None 0 (Some sample_transfer) None = Some R \<and> initialized (R ! 1)"
proof -
  have e: "node_count cycle_graph \<noteq> 0" "full_words 1 None" by (simp_all add: cycle_facts(1) full_words_def)
  from backward_flow_least [OF e(1) cycle_facts(2) e(2) cycle_facts(4) sample_transfer_total, of 0 None]
  obtain R where R: "bit_flow_solve_backward (\<lambda>_. True) cycle_graph 1 None 0 (Some sample_transfer) None = Some R"
    "below (backward_start cycle_graph 1 None 0 ! 1) (R ! 1)"
    by (auto simp: solution_def cycle_facts(1))
  moreover have "initialized (backward_start cycle_graph 1 None 0 ! 1)"
    by (simp add: backward_start_def cycle_facts(1) blank_state_def)
  ultimately show ?thesis by (auto simp: below_def carries_def)
qed

end
