(* ===== verification/Variable_Flow.thy ===== *)
theory Variable_Flow
  imports Variable_Marks Bit_Solver Flow_Structure
begin

text \<open>
  Liveness of the variables of a program unit (\<open>f2c_variable_flow_analyze\<close> and the queries of
  \<open>semantic/data_flow/variables.c\<close>): the marks of all nodes, solved backward over the control-flow
  graph, against the definition of liveness by paths.
\<close>

section \<open>The analysis\<close>

record program_unit =
  unit_symbols :: "symbol list"
  unit_statements :: "statement list"
  unit_variable_flow :: variable_flow

definition liveness_transfer :: "variable_flow \<Rightarrow> transfer" where
  "liveness_transfer flow node output input =
     Some (input\<lparr>bits := map (\<lambda>word. flow_uses flow ! node_word flow node word OR
         (bits input ! word AND NOT (flow_definitions flow ! node_word flow node word))) [0..<flow_word_count flow]\<rparr>)"

definition cleared_flow :: variable_flow where
  "cleared_flow = \<lparr>flow_uses = [], flow_definitions = [], flow_live_in = [], flow_live_out = [],
     flow_node_count = 0, flow_word_count = 0, flow_analyzed = False\<rparr>"

text \<open>\<open>allocate_flow\<close>; the caller has cleared the flow and reports a failure.\<close>

definition allocate_flow :: "(nat \<Rightarrow> bool) \<Rightarrow> nat \<Rightarrow> nat \<Rightarrow> variable_flow option" where
  "allocate_flow mem symbol_count nodes =
     (let words = (symbol_count + 63) div 64;
          flow = cleared_flow\<lparr>flow_node_count := nodes, flow_word_count := words\<rparr>;
          storage = replicate (nodes * words) 0
      in if symbol_count > SIZE_MAX - 63 then None
         else if words = 0 then Some flow
         else if nodes > SIZE_MAX div words then None
         else if nodes * words > SIZE_MAX div 8 then None
         else if \<not> mem (nodes * words * 8) then None
         else Some (flow\<lparr>flow_uses := storage, flow_definitions := storage, flow_live_in := storage,
                         flow_live_out := storage\<rparr>))"

definition mark_flow_node :: "symbol list \<Rightarrow> statement list \<Rightarrow> flow_graph \<Rightarrow> nat \<Rightarrow> variable_flow \<Rightarrow> variable_flow" where
  "mark_flow_node symbols statements graph node flow =
     (let flow_node = node_at graph node;
          builder = \<lparr>builder_symbols = symbols, builder_node = node\<rparr>
      in if node_kind flow_node = CFG_NODE_STATEMENT \<and> statement_index flow_node < length statements then
           mark_statement builder (statements ! statement_index flow_node) flow
         else if node_kind flow_node = CFG_NODE_LOOP_LATCH \<and> statement_index flow_node < length statements then
           mark_definition builder (statement_left (info (statements ! statement_index flow_node))) True flow
         else flow)"

text \<open>
  The live sets from the result of the solver: the states of all nodes leave them, and one more
  transfer of each node enters it.
\<close>

definition store_live :: "bit_state list \<Rightarrow> variable_flow \<Rightarrow> variable_flow" where
  "store_live states flow =
     flow\<lparr>flow_live_out := concat (map bits states),
          flow_live_in := concat (map (\<lambda>node.
              case liveness_transfer flow node (states ! node) \<lparr>bits = bits (states ! node), flags = 0, initialized = True\<rparr> of
                Some input \<Rightarrow> bits input
              | None \<Rightarrow> []) [0..<flow_node_count flow]),
          flow_analyzed := True\<rparr>"

definition variable_flow_analyze ::
  "(nat \<Rightarrow> bool) \<Rightarrow> string list option \<Rightarrow> program_unit \<Rightarrow> flow_graph \<Rightarrow> program_unit \<times> bool \<times> string list option" where
  "variable_flow_analyze mem context unit graph =
     (let report = \<lambda>message. map_option (\<lambda>messages. messages @ [message]) context
      in if node_count graph = 0 then (unit, False, context)
         else case allocate_flow mem (length (unit_symbols unit)) (node_count graph) of
           None \<Rightarrow> (unit\<lparr>unit_variable_flow := cleared_flow\<rparr>, False, report ''out of memory analyzing ordinary-variable data flow'')
         | Some flow \<Rightarrow>
             let flow = fold (mark_flow_node (unit_symbols unit) (unit_statements unit) graph) [0..<node_count graph] flow
             in case bit_flow_solve_backward mem graph (flow_word_count flow) None 0 (Some (liveness_transfer flow)) None of
                  None \<Rightarrow> (unit\<lparr>unit_variable_flow := cleared_flow\<rparr>, False, report ''ordinary-variable liveness did not converge'')
                | Some states \<Rightarrow> (unit\<lparr>unit_variable_flow := store_live states flow\<rparr>, True, context))"

definition flow_contains :: "program_unit \<Rightarrow> 64 word list \<Rightarrow> nat \<Rightarrow> symbol \<Rightarrow> bool" where
  "flow_contains unit storage node symbol =
     (let flow = unit_variable_flow unit
      in case symbol_index (unit_symbols unit) (Some symbol) of
           None \<Rightarrow> False
         | Some index \<Rightarrow>
             if \<not> flow_analyzed flow \<or> node \<ge> flow_node_count flow \<or> storage = [] then False
             else storage ! node_word flow node (index div 64) AND push_bit (index mod 64) 1 \<noteq> 0)"

definition is_used :: "program_unit \<Rightarrow> nat \<Rightarrow> symbol \<Rightarrow> bool" where
  "is_used unit node symbol = flow_contains unit (flow_uses (unit_variable_flow unit)) node symbol"

definition is_defined :: "program_unit \<Rightarrow> nat \<Rightarrow> symbol \<Rightarrow> bool" where
  "is_defined unit node symbol = flow_contains unit (flow_definitions (unit_variable_flow unit)) node symbol"

definition is_live_in :: "program_unit \<Rightarrow> nat \<Rightarrow> symbol \<Rightarrow> bool" where
  "is_live_in unit node symbol = flow_contains unit (flow_live_in (unit_variable_flow unit)) node symbol"

definition is_live_out :: "program_unit \<Rightarrow> nat \<Rightarrow> symbol \<Rightarrow> bool" where
  "is_live_out unit node symbol = flow_contains unit (flow_live_out (unit_variable_flow unit)) node symbol"

section \<open>Bits of a flow\<close>

text \<open>Bit \<open>i\<close> of the words of a node, where symbol \<open>i\<close> is recorded.\<close>

definition node_bit :: "variable_flow \<Rightarrow> 64 word list \<Rightarrow> nat \<Rightarrow> nat \<Rightarrow> bool" where
  "node_bit flow storage node i \<longleftrightarrow> bit (storage ! node_word flow node (i div 64)) (i mod 64)"

lemma flow_contains_bit:
  assumes "flow_analyzed (unit_variable_flow unit)" "node < flow_node_count (unit_variable_flow unit)" "storage \<noteq> []"
    and "symbol_index (unit_symbols unit) (Some symbol) = Some i"
  shows "flow_contains unit storage node symbol \<longleftrightarrow> node_bit (unit_variable_flow unit) storage node i"
  using assms mask_bit [of "i mod 64"] by (simp add: flow_contains_def node_bit_def)

lemma concat_nth:
  assumes "\<forall>xs \<in> set xss. length xs = n" "v < length xss" "w < n"
  shows "concat xss ! (v * n + w) = xss ! v ! w"
  using assms
proof (induction xss arbitrary: v)
  case (Cons xs xss)
  then show ?case by (cases v) (simp_all add: nth_append add.assoc)
qed simp

lemma length_concat_words: "\<forall>xs \<in> set xss. length xs = n \<Longrightarrow> length (concat xss) = length xss * n"
  by (induction xss) simp_all

section \<open>Words from bits\<close>

lemma word_exists: "\<exists>w :: 64 word. \<forall>i < 64. bit w i \<longleftrightarrow> P i"
proof -
  have "\<exists>w :: 64 word. (\<forall>i < 64. bit w i \<longleftrightarrow> i < m \<and> P i)" if "m \<le> 64" for m
    using that
  proof (induction m)
    case 0
    show ?case by (rule exI [of _ 0]) simp
  next
    case (Suc m)
    then obtain w :: "64 word" where w: "\<forall>i < 64. bit w i \<longleftrightarrow> i < m \<and> P i" by auto
    show ?case
      by (rule exI [of _ "if P m then w OR 2 ^ m else w"])
        (use w Suc.prems in \<open>auto simp: bit_or_iff bit_power less_Suc_eq\<close>)
  qed
  from this [of 64] show ?thesis by auto
qed

lemma words_exist: "\<exists>ws :: 64 word list. length ws = n \<and> (\<forall>word < n. \<forall>i < 64. bit (ws ! word) i \<longleftrightarrow> P word i)"
proof -
  obtain f :: "nat \<Rightarrow> 64 word" where "\<forall>word. \<forall>i < 64. bit (f word) i \<longleftrightarrow> P word i"
    using word_exists choice [of "\<lambda>word (w :: 64 word). \<forall>i < 64. bit w i \<longleftrightarrow> P word i"] by blast
  then show ?thesis by (intro exI [of _ "map f [0..<n]"]) simp
qed

lemma fewer_below_64: "fewer a b \<longleftrightarrow> (\<forall>i < 64. bit a i \<longrightarrow> bit b i)"
  using bit_imp_le_length [of a] by (auto simp: fewer_bits)

section \<open>Liveness by paths\<close>

text \<open>\<open>live_after use define\<close>: from the end of a node, some path reaches a node that uses the variable,
  through nodes that do not define it.\<close>

definition quiet :: "flow_graph \<Rightarrow> (nat \<Rightarrow> bool) \<Rightarrow> (nat \<times> nat) set" where
  "quiet graph define = {(u, v). \<not> define u \<and> (u, v) \<in> arcs graph}"

definition live_after :: "flow_graph \<Rightarrow> (nat \<Rightarrow> bool) \<Rightarrow> (nat \<Rightarrow> bool) \<Rightarrow> nat \<Rightarrow> bool" where
  "live_after graph use define v \<longleftrightarrow> (\<exists>u w. (v, u) \<in> arcs graph \<and> (u, w) \<in> (quiet graph define)\<^sup>* \<and> use w)"

lemma live_after_step:
  assumes "(u, v) \<in> arcs graph" "use v \<or> (live_after graph use define v \<and> \<not> define v)"
  shows "live_after graph use define u"
  using assms(2)
proof
  assume "use v"
  then show ?thesis using assms(1) by (auto simp: live_after_def)
next
  assume "live_after graph use define v \<and> \<not> define v"
  then obtain a w where a: "(v, a) \<in> arcs graph" "(a, w) \<in> (quiet graph define)\<^sup>*" "use w" "\<not> define v"
    by (auto simp: live_after_def)
  then have "(v, a) \<in> quiet graph define" by (simp add: quiet_def)
  then have "(v, w) \<in> (quiet graph define)\<^sup>*" using a(2) by (rule converse_rtrancl_into_rtrancl)
  then show ?thesis using assms(1) a(3) by (auto simp: live_after_def)
qed

lemma live_after_least:
  assumes "\<And>u v. (u, v) \<in> arcs graph \<Longrightarrow> use v \<or> (L v \<and> \<not> define v) \<Longrightarrow> L u" "live_after graph use define v"
  shows "L v"
proof -
  obtain u w where u: "(v, u) \<in> arcs graph" "(u, w) \<in> (quiet graph define)\<^sup>*" "use w"
    using assms(2) by (auto simp: live_after_def)
  from u(2) have "use u \<or> (L u \<and> \<not> define u)"
  proof (induction rule: converse_rtrancl_induct)
    case base
    with u(3) show ?case by simp
  next
    case (step a b)
    then have "L a" "\<not> define a" using assms(1) by (auto simp: quiet_def)
    then show ?case by simp
  qed
  then show ?thesis using assms(1) u(1) by blast
qed

section \<open>The solver computes it\<close>

abbreviation state_bit :: "bit_state \<Rightarrow> nat \<Rightarrow> bool" where
  "state_bit s i \<equiv> bit (bits s ! (i div 64)) (i mod 64)"

lemma state_bits_fewer:
  assumes "length a = n" "length b = n"
  shows "list_all2 fewer a b \<longleftrightarrow> (\<forall>i < 64 * n. bit (a ! (i div 64)) (i mod 64) \<longrightarrow> bit (b ! (i div 64)) (i mod 64))"
proof
  assume "list_all2 fewer a b"
  then show "\<forall>i < 64 * n. bit (a ! (i div 64)) (i mod 64) \<longrightarrow> bit (b ! (i div 64)) (i mod 64)"
    using assms by (auto simp: list_all2_conv_all_nth fewer_bits)
next
  assume all: "\<forall>i < 64 * n. bit (a ! (i div 64)) (i mod 64) \<longrightarrow> bit (b ! (i div 64)) (i mod 64)"
  have "bit (b ! word) i" if "word < n" "i < 64" "bit (a ! word) i" for word i
  proof -
    have "64 * word + i < 64 * n" using that(1,2) by simp
    moreover have "(64 * word + i) div 64 = word" "(64 * word + i) mod 64 = i" using that(2) by simp_all
    ultimately show ?thesis using all that(3) by metis
  qed
  then show "list_all2 fewer a b" using assms by (simp add: list_all2_conv_all_nth fewer_below_64)
qed

lemma liveness_output:
  assumes "sized n s" "n = flow_word_count flow"
  shows "sized n (output_of (Some (liveness_transfer flow)) n v s)" "flags (output_of (Some (liveness_transfer flow)) n v s) = flags s"
    "i < 64 * n \<Longrightarrow> state_bit (output_of (Some (liveness_transfer flow)) n v s) i \<longleftrightarrow>
       node_bit flow (flow_uses flow) v i \<or> (state_bit s i \<and> \<not> node_bit flow (flow_definitions flow) v i)"
    "transferred (Some (liveness_transfer flow)) n v s = Some (output_of (Some (liveness_transfer flow)) n v s)"
proof -
  have o: "output_of (Some (liveness_transfer flow)) n v s = \<lparr>bits = map (\<lambda>word. flow_uses flow ! node_word flow v word OR
       (bits s ! word AND NOT (flow_definitions flow ! node_word flow v word))) [0..<n], flags = flags s, initialized = True\<rparr>"
    using assms by (simp add: output_of_def transferred_def liveness_transfer_def copy_bits_def sized_def)
  then show "sized n (output_of (Some (liveness_transfer flow)) n v s)" "flags (output_of (Some (liveness_transfer flow)) n v s) = flags s"
    by (simp_all add: sized_def)
  show "transferred (Some (liveness_transfer flow)) n v s = Some (output_of (Some (liveness_transfer flow)) n v s)"
    by (simp add: output_of_def transferred_def liveness_transfer_def)
  show "state_bit (output_of (Some (liveness_transfer flow)) n v s) i \<longleftrightarrow>
       node_bit flow (flow_uses flow) v i \<or> (state_bit s i \<and> \<not> node_bit flow (flow_definitions flow) v i)" if "i < 64 * n"
  proof -
    have "i div 64 < n" "i mod 64 < 64" using that by auto
    then show ?thesis by (simp add: o node_bit_def bit_or_iff bit_and_iff bit_not_iff)
  qed
qed

definition connected :: "flow_graph \<Rightarrow> bool" where
  "connected graph \<longleftrightarrow> node_count graph \<noteq> 0 \<and> successors_ok graph \<and>
     (\<forall>v < node_count graph. \<forall>u k. edge_to u k \<in> set (predecessors (node_at graph v)) \<longleftrightarrow> has_edge graph u v k)"

lemma connected_arcs:
  assumes "connected graph"
  shows "(u, v) \<in> arcs graph \<longleftrightarrow> v < node_count graph \<and> (\<exists>e \<in> set (predecessors (node_at graph v)). edge_target e = u)"
    "(u, v) \<in> arcs graph \<Longrightarrow> u < node_count graph"
proof -
  show less: "u < node_count graph" if "(u, v) \<in> arcs graph"
    using that by (auto simp: arcs_def has_edge_def)
  have "v < node_count graph" if "(u, v) \<in> arcs graph"
    using that assms by (fastforce simp: arcs_def has_edge_def connected_def successors_ok_nth)
  moreover have "(\<exists>k. has_edge graph u v k) \<longleftrightarrow> (\<exists>e \<in> set (predecessors (node_at graph v)). edge_target e = u)"
    if "v < node_count graph"
    using that assms unfolding connected_def by (metis edge_to_eta flow_edge.select_convs(1))
  ultimately show "(u, v) \<in> arcs graph \<longleftrightarrow> v < node_count graph \<and> (\<exists>e \<in> set (predecessors (node_at graph v)). edge_target e = u)"
    unfolding arcs_def by blast
qed

lemma liveness_solved:
  assumes "connected graph" "bit_flow_solve_backward mem graph n None 0 (Some (liveness_transfer flow)) None = Some R"
    and "n = flow_word_count flow"
  shows "length R = node_count graph" "v < node_count graph \<Longrightarrow> sized n (R ! v)"
    "v < node_count graph \<Longrightarrow> i < 64 * n \<Longrightarrow> state_bit (R ! v) i \<longleftrightarrow>
       live_after graph (\<lambda>v. node_bit flow (flow_uses flow) v i) (\<lambda>v. node_bit flow (flow_definitions flow) v i) v"
proof -
  let ?c = "node_count graph" and ?T = "Some (liveness_transfer flow)"
  let ?links = "\<lambda>v. predecessors (node_at graph v)"
  let ?use = "\<lambda>i v. node_bit flow (flow_uses flow) v i" and ?def = "\<lambda>i v. node_bit flow (flow_definitions flow) v i"
  note arc = connected_arcs [OF assms(1)] and out = liveness_output [OF _ assms(3)]
  have c: "?c \<noteq> 0" using assms(1) by (simp add: connected_def)
  have targets: "edge_target e < ?c" if "v < ?c" "e \<in> set (?links v)" for v e
    using arc(1) [of "edge_target e" v] arc(2) [of "edge_target e" v] that by blast
  have total: "total_transfer ?T n ?c" using out(1,4) unfolding total_transfer_def by blast
  have "allocate_result mem ?c n \<noteq> None"
    using assms(2) by (auto simp: bit_flow_solve_backward_def bind_conv split: if_splits)
  then obtain R' where R': "bit_flow_solve_backward mem graph n None 0 ?T None = Some R'"
    and sol: "solution ?c n ?links (admits_backward None) ?T (backward_start graph n None 0) R'"
    and least: "\<And>S. monotone_flow ?c n ?links (admits_backward None) ?T \<Longrightarrow>
       solution ?c n ?links (admits_backward None) ?T (backward_start graph n None 0) S \<Longrightarrow> (\<forall>v < ?c. below (R' ! v) (S ! v))"
    using backward_solver [OF c _ _ _ total, of mem None 0 None] targets by (auto simp: full_words_def least_solution_def)
  have R: "R' = R" using R' assms(2) by simp
  show len: "length R = ?c" and size: "\<And>v. v < ?c \<Longrightarrow> sized n (R ! v)" using sol by (simp_all add: solution_def R)
  have start: "initialized (backward_start graph n None 0 ! v)" "bits (backward_start graph n None 0 ! v) = replicate n 0"
    "flags (backward_start graph n None 0 ! v) = 0" if "v < ?c" for v
    using that by (simp_all add: backward_start_def blank_state_def copy_bits_def)
  have init: "initialized (R ! v)" if "v < ?c" for v
    using sol that start(1) [OF that] by (auto simp: solution_def R below_def carries_def)
  have mono: "monotone_flow ?c n ?links (admits_backward None) ?T"
    using out by (auto simp: monotone_flow_def carries_def state_bits_fewer sized_def)
  have step: "state_bit (R ! u) i" if a: "(u, v) \<in> arcs graph" and i: "i < 64 * n"
    and l: "?use i v \<or> (state_bit (R ! v) i \<and> \<not> ?def i v)" for u v i
  proof -
    have v: "v < ?c" "\<exists>e \<in> set (?links v). edge_target e = u" using arc(1) a by blast+
    then have "carries (R ! u) (output_of ?T n v (R ! v))" using sol init by (auto simp: solution_def R)
    moreover have "state_bit (output_of ?T n v (R ! v)) i" using out(3) [OF size [OF v(1)] i] l by blast
    ultimately show ?thesis
      using i out(1) [OF size [OF v(1)]] size [OF arc(2) [OF a]] by (auto simp: carries_def state_bits_fewer sized_def)
  qed
  obtain S where S: "length S = ?c" "\<And>v. v < ?c \<Longrightarrow> sized n (S ! v) \<and> initialized (S ! v) \<and> flags (S ! v) = 0 \<and>
      (\<forall>i < 64 * n. state_bit (S ! v) i \<longleftrightarrow> live_after graph (?use i) (?def i) v)"
  proof -
    have "\<forall>v. \<exists>ws :: 64 word list. length ws = n \<and> (\<forall>word < n. \<forall>i < 64. bit (ws ! word) i \<longleftrightarrow>
        live_after graph (?use (64 * word + i)) (?def (64 * word + i)) v)"
      by (intro allI words_exist)
    then have "\<exists>f :: nat \<Rightarrow> 64 word list. \<forall>v. length (f v) = n \<and> (\<forall>word < n. \<forall>i < 64. bit (f v ! word) i \<longleftrightarrow>
        live_after graph (?use (64 * word + i)) (?def (64 * word + i)) v)"
      by (rule choice)
    then obtain f :: "nat \<Rightarrow> 64 word list" where f: "\<And>v. length (f v) = n"
      "\<And>v word i. word < n \<Longrightarrow> i < 64 \<Longrightarrow> bit (f v ! word) i \<longleftrightarrow>
        live_after graph (?use (64 * word + i)) (?def (64 * word + i)) v"
      by blast
    have "bit (f v ! (i div 64)) (i mod 64) \<longleftrightarrow> live_after graph (?use i) (?def i) v" if "i < 64 * n" for v i
      using f(2) [of "i div 64" "i mod 64" v] that by (simp add: less_mult_imp_div_less mult.commute)
    then show thesis
      using f(1) by (intro that [of "map (\<lambda>v. \<lparr>bits = f v, flags = 0, initialized = True\<rparr>) [0..<?c]"]) (simp_all add: sized_def)
  qed
  have "solution ?c n ?links (admits_backward None) ?T (backward_start graph n None 0) S"
    unfolding solution_def
  proof (intro conjI allI impI ballI)
    show "length S = ?c" by (rule S(1))
    show "sized n (S ! v)" if "v < ?c" for v using S(2) that by blast
    show "below (backward_start graph n None 0 ! v) (S ! v)" if "v < ?c" for v
      using S(2) [OF that] start [OF that] by (simp add: below_def carries_def sized_def list_all2_conv_all_nth)
    show "carries (S ! edge_target e) (output_of ?T n v (S ! v))" if "v < ?c" "e \<in> set (?links v)" for v e
    proof -
      have a: "(edge_target e, v) \<in> arcs graph" using arc(1) that by blast
      note s = S(2) [OF that(1)] and t = S(2) [OF arc(2) [OF a]]
      have "state_bit (S ! edge_target e) i" if "i < 64 * n" "state_bit (output_of ?T n v (S ! v)) i" for i
        using live_after_step [OF a, of "?use i" "?def i"] out(3) [of "S ! v" i v] s t that by blast
      then show ?thesis
        using s t out(1,2) [of "S ! v" v] by (simp add: carries_def state_bits_fewer sized_def)
    qed
  qed
  from least [OF mono this] have below: "below (R ! v) (S ! v)" if "v < ?c" for v using that by (simp add: R)
  show "state_bit (R ! v) i \<longleftrightarrow> live_after graph (?use i) (?def i) v" if v: "v < ?c" and i: "i < 64 * n" for v i
  proof
    assume "state_bit (R ! v) i"
    then have "state_bit (S ! v) i"
      using below [OF v] init [OF v] S(2) [OF v] size [OF v] i by (auto simp: below_def carries_def state_bits_fewer sized_def)
    then show "live_after graph (?use i) (?def i) v" using S(2) [OF v] i by blast
  next
    assume "live_after graph (?use i) (?def i) v"
    then show "state_bit (R ! v) i" by (rule live_after_least [rotated]) (use step i in blast)
  qed
qed

section \<open>The queries answer liveness\<close>

definition flow_sized :: "nat \<Rightarrow> nat \<Rightarrow> variable_flow \<Rightarrow> bool" where
  "flow_sized c n flow \<longleftrightarrow> flow_node_count flow = c \<and> flow_word_count flow = n \<and>
     length (flow_uses flow) = c * n \<and> length (flow_definitions flow) = c * n"

lemma allocate_flow_sized:
  assumes "allocate_flow mem symbol_count c = Some flow"
  shows "flow_sized c ((symbol_count + 63) div 64) flow"
  using assms by (auto simp: allocate_flow_def Let_def cleared_flow_def flow_sized_def split: if_splits)

lemma marks_sized: "marks builder f g \<Longrightarrow> flow_sized c n f \<Longrightarrow> flow_sized c n g"
  by (simp add: marks_def flow_sized_def written_def)

lemma mark_flow_node_marks: "\<exists>builder. marks builder flow (mark_flow_node symbols statements graph node flow)"
  by (auto simp: mark_flow_node_def Let_def intro!: mark_statement_marks expression_marks)

lemma mark_flow_nodes_sized:
  "flow_sized c n flow \<Longrightarrow> flow_sized c n (fold (mark_flow_node symbols statements graph) nodes flow)"
proof (induction nodes arbitrary: flow)
  case (Cons node nodes)
  then show ?case using mark_flow_node_marks [of flow symbols statements graph node] marks_sized by auto
qed simp

lemma store_live_bits:
  assumes "flow_sized c n flow" "length states = c" "\<forall>v < c. sized n (states ! v)" "v < c" "i < 64 * n"
  defines "F \<equiv> store_live states flow"
  shows "node_bit F (flow_live_out F) v i \<longleftrightarrow> state_bit (states ! v) i"
    "node_bit F (flow_live_in F) v i \<longleftrightarrow> node_bit flow (flow_uses flow) v i \<or>
       (state_bit (states ! v) i \<and> \<not> node_bit flow (flow_definitions flow) v i)"
    "flow_live_out F \<noteq> []" "flow_live_in F \<noteq> []"
proof -
  have w: "i div 64 < n" "i mod 64 < 64" using assms(5) by auto
  have f: "flow_word_count flow = n" "flow_node_count flow = c" using assms(1) by (simp_all add: flow_sized_def)
  define input where "input = (\<lambda>node. map (\<lambda>word. flow_uses flow ! node_word flow node word OR
      (bits (states ! node) ! word AND NOT (flow_definitions flow ! node_word flow node word))) [0..<n])"
  have out: "flow_live_out F = concat (map bits states)" and inn: "flow_live_in F = concat (map input [0..<c])"
    by (simp_all add: F_def store_live_def liveness_transfer_def input_def f)
  have l: "\<forall>xs \<in> set (map bits states). length xs = n" "\<forall>xs \<in> set (map input [0..<c]). length xs = n"
    using assms(2,3) by (auto simp: sized_def in_set_conv_nth input_def)
  have nw: "node_word F v k = v * n + k" for k by (simp add: node_word_def F_def store_live_def f)
  have "flow_live_out F ! node_word F v (i div 64) = bits (states ! v) ! (i div 64)"
    unfolding out nw using concat_nth [OF l(1) _ w(1), of v] assms(2,4) by simp
  then show "node_bit F (flow_live_out F) v i \<longleftrightarrow> state_bit (states ! v) i" by (simp add: node_bit_def)
  have "flow_live_in F ! node_word F v (i div 64) = input v ! (i div 64)"
    unfolding inn nw using concat_nth [OF l(2) _ w(1), of v] assms(4) by simp
  then show "node_bit F (flow_live_in F) v i \<longleftrightarrow> node_bit flow (flow_uses flow) v i \<or>
       (state_bit (states ! v) i \<and> \<not> node_bit flow (flow_definitions flow) v i)"
    using w by (simp add: node_bit_def input_def bit_or_iff bit_and_iff bit_not_iff)
  have "0 < c * n" using w(1) assms(4) by (cases n) auto
  then show "flow_live_out F \<noteq> []" "flow_live_in F \<noteq> []"
    unfolding out inn using length_concat_words [OF l(1)] length_concat_words [OF l(2)] assms(2)
    by (metis length_0_conv length_map less_numeral_extra(3), metis diff_zero length_0_conv length_map length_upt less_numeral_extra(3))
qed

text \<open>
  C35: Over the control-flow graph of its unit, the analysis computes liveness exactly: a variable is
  live after a node if and only if some path from there reaches a node that uses it before any node on
  the path defines it, and it is live before a node if the node uses it or it is live after the node
  and not defined by it.
\<close>

theorem variable_liveness_exact:
  assumes "control_flow_build mem' context\<^sub>0 (Some (unit_statements unit)) = (graph, True, context\<^sub>1)"
    and "variable_flow_analyze mem context unit graph = (unit', True, context')"
    and "v < node_count graph" "symbol_index (unit_symbols unit) (Some s) \<noteq> None"
  shows "(is_live_out unit' v s \<longleftrightarrow>
      (\<exists>u w. (\<exists>k. has_edge graph v u k) \<and>
         (u, w) \<in> {(a, b). \<not> is_defined unit' a s \<and> (\<exists>k. has_edge graph a b k)}\<^sup>* \<and> is_used unit' w s)) \<and>
    (is_live_in unit' v s \<longleftrightarrow> is_used unit' v s \<or> (is_live_out unit' v s \<and> \<not> is_defined unit' v s))"
proof -
  let ?c = "node_count graph" and ?n = "(length (unit_symbols unit) + 63) div 64"
  have ok: "connected graph"
    using graph_well_formed [OF assms(1)] predecessors_converse [OF assms(1)]
    by (auto simp: connected_def successors_ok_nth has_edge_def)
  obtain flow0 where a: "allocate_flow mem (length (unit_symbols unit)) ?c = Some flow0"
    using assms(2) ok by (auto simp: variable_flow_analyze_def Let_def connected_def split: option.splits)
  define flow where "flow = fold (mark_flow_node (unit_symbols unit) (unit_statements unit) graph) [0..<?c] flow0"
  have size: "flow_sized ?c ?n flow"
    unfolding flow_def by (rule mark_flow_nodes_sized [OF allocate_flow_sized [OF a]])
  then have n: "?n = flow_word_count flow" by (simp add: flow_sized_def)
  obtain R where r: "bit_flow_solve_backward mem graph ?n None 0 (Some (liveness_transfer flow)) None = Some R"
    and unit': "unit' = unit\<lparr>unit_variable_flow := store_live R flow\<rparr>"
    using assms(2) ok a n by (auto simp: variable_flow_analyze_def Let_def connected_def flow_def split: option.splits)
  note live = liveness_solved [OF ok r n]
  obtain i where i: "symbol_index (unit_symbols unit) (Some s) = Some i" using assms(4) by blast
  have less: "i < 64 * ?n" by (rule index_in_words [OF find_index_less [OF i]])
  define F where "F = store_live R flow"
  have F: "flow_analyzed F" "flow_node_count F = ?c" "flow_word_count F = flow_word_count flow"
    "flow_uses F = flow_uses flow" "flow_definitions F = flow_definitions flow"
    using size by (simp_all add: F_def store_live_def flow_sized_def)
  have bit: "node_bit F = node_bit flow" by (simp add: node_bit_def node_word_def F(3) fun_eq_iff)
  have "0 < ?n" using less by (cases ?n) auto
  then have ne: "flow_uses flow \<noteq> []" "flow_definitions flow \<noteq> []"
    using size assms(3) by (auto simp: flow_sized_def)
  have used: "is_used unit' w s \<longleftrightarrow> node_bit flow (flow_uses flow) w i"
    and defd: "is_defined unit' w s \<longleftrightarrow> node_bit flow (flow_definitions flow) w i" if "w < ?c" for w
    using that ne F i flow_contains_bit [of unit' w _ s i] bit
    by (simp_all add: is_used_def is_defined_def unit' F_def [symmetric])
  note S = store_live_bits [OF size live(1), folded F_def, OF _ _ less]
  have sized: "\<forall>v < ?c. sized ?n (R ! v)" using live(2) by blast
  have lout: "is_live_out unit' v s \<longleftrightarrow> state_bit (R ! v) i" and lin: "is_live_in unit' v s \<longleftrightarrow> node_bit flow (flow_uses flow) v i \<or>
      (state_bit (R ! v) i \<and> \<not> node_bit flow (flow_definitions flow) v i)"
    using S [OF sized assms(3)] F i flow_contains_bit [of unit' v _ s i] assms(3)
    by (simp_all add: is_live_out_def is_live_in_def unit' F_def [symmetric])
  have below: "a < ?c" if "(a, b) \<in> arcs graph" for a b using connected_arcs(2) [OF ok that] .
  have quiet: "{(a, b). \<not> is_defined unit' a s \<and> (\<exists>k. has_edge graph a b k)} =
      quiet graph (\<lambda>v. node_bit flow (flow_definitions flow) v i)"
    using defd below by (auto simp: quiet_def arcs_def)
  have reach: "w < ?c" if "(v, u) \<in> arcs graph" "(u, w) \<in> (quiet graph d)\<^sup>*" for u w d
    using that(2,1) connected_arcs(1) [OF ok] by (induction rule: rtrancl_induct) (auto simp: quiet_def)
  have "state_bit (R ! v) i \<longleftrightarrow> (\<exists>u w. (v, u) \<in> arcs graph \<and>
      (u, w) \<in> (quiet graph (\<lambda>v. node_bit flow (flow_definitions flow) v i))\<^sup>* \<and> is_used unit' w s)"
    unfolding live(3) [OF assms(3) less] live_after_def using used reach by blast
  then show ?thesis
    unfolding quiet lout lin using used [OF assms(3)] defd [OF assms(3)] by (simp add: arcs_def)
qed

section \<open>Concrete units\<close>

definition variable :: "nat \<Rightarrow> string \<Rightarrow> symbol" where
  "variable address name = \<lparr>symbol_address = address, symbol_name = name, is_external = False, procedure_pointer = False,
     statement_function = False, symbol_intent = INTENT_UNSPECIFIED, passed_by_value = False, type_bound = False,
     type_bound_nopass = False, type_bound_pass_index = 0, external_parameter_value = [], external_parameter_intents = [],
     external_parameter_count = 0, scope_begin_line = 0, scope_end_line = 0\<rparr>"

abbreviation name_of :: "symbol \<Rightarrow> expr option" where
  "name_of s \<equiv> Some (name_expr (Some s) (symbol_name s))"

abbreviation symbol_i :: symbol where "symbol_i \<equiv> variable 1 ''i''"
abbreviation symbol_n :: symbol where "symbol_n \<equiv> variable 2 ''n''"

definition assign :: "nat \<Rightarrow> symbol \<Rightarrow> symbol \<Rightarrow> statement" where
  "assign address target source = Statement ((plain_fields STMT_ASSIGNMENT address)
     \<lparr>statement_left := name_of target, statement_right := name_of source\<rparr>) None"

definition do_statement :: "nat \<Rightarrow> statement" where
  "do_statement address = Statement ((plain_fields STMT_DO address)\<lparr>statement_left := name_of symbol_i,
     statement_right := name_of symbol_n, statement_limit := name_of symbol_n\<rparr>) None"

text \<open>\<open>DO i = n, n; END DO\<close>, plain and with a label on the \<open>DO\<close>; the latch is node 4.\<close>

definition unit_of :: "statement \<Rightarrow> program_unit" where
  "unit_of opener = \<lparr>unit_symbols = [symbol_i, symbol_n],
     unit_statements = [opener, Statement ((plain_fields STMT_END_DO 3)\<lparr>construct_owner := Some 2\<rparr>) None],
     unit_variable_flow = cleared_flow\<rparr>"

definition plain_do :: program_unit where
  "plain_do = unit_of (do_statement 2)"

definition labelled_do :: program_unit where
  "labelled_do = unit_of (Statement ((plain_fields STMT_LABEL 1)\<lparr>statement_name := Some ''10''\<rparr>) (Some (do_statement 2)))"

definition graph_of :: "program_unit \<Rightarrow> flow_graph" where
  "graph_of unit = fst (control_flow_build (\<lambda>_. True) None (Some (unit_statements unit)))"

definition analysis_of :: "program_unit \<Rightarrow> program_unit \<times> bool \<times> string list option" where
  "analysis_of unit = variable_flow_analyze (\<lambda>_. True) None unit (graph_of unit)"

text \<open>What is asked of an analysis: success, \<open>i\<close> at the latch, and \<open>i\<close> after the body of the loop.\<close>

definition observe :: "program_unit \<times> bool \<times> string list option \<Rightarrow> bool \<times> bool \<times> bool" where
  "observe = (\<lambda>(unit, ok, context). (ok \<and> context = None, is_used unit 4 symbol_i, is_live_out unit 1 symbol_i))"

lemma observe_plain: "observe (analysis_of plain_do) = (True, True, True)"
  by code_simp

lemma observe_labelled: "observe (analysis_of labelled_do) = (True, False, False)"
  by code_simp

lemma plain_do_analysis:
  "control_flow_build (\<lambda>_. True) None (Some (unit_statements plain_do)) = (graph_of plain_do, True, None)"
  "4 < node_count (graph_of plain_do)" "symbol_index (unit_symbols plain_do) (Some symbol_i) = Some 0"
  unfolding graph_of_def by code_simp+

lemma plain_do_result: "analysis_of plain_do = (fst (analysis_of plain_do), True, None)"
  using observe_plain by (auto simp: observe_def split: prod.splits)

lemma variable_liveness_exact_witness:
  "\<exists>u w. (\<exists>k. has_edge (graph_of plain_do) 1 u k) \<and>
     (u, w) \<in> {(a, b). \<not> is_defined (fst (analysis_of plain_do)) a symbol_i \<and> (\<exists>k. has_edge (graph_of plain_do) a b k)}\<^sup>* \<and>
     is_used (fst (analysis_of plain_do)) w symbol_i"
proof -
  have "is_live_out (fst (analysis_of plain_do)) 1 symbol_i"
    using observe_plain by (auto simp: observe_def split: prod.splits)
  moreover have "1 < node_count (graph_of plain_do)" using plain_do_analysis(2) by simp
  moreover have "symbol_index (unit_symbols plain_do) (Some symbol_i) \<noteq> None" using plain_do_analysis(3) by simp
  ultimately show ?thesis
    using variable_liveness_exact [OF plain_do_analysis(1) plain_do_result [unfolded analysis_of_def]]
    unfolding analysis_of_def by blast
qed

text \<open>
  The latch of a loop reads the variable of its \<open>DO\<close> from the statement at the opener's index. Where
  that statement is a label with the \<open>DO\<close> nested in it, nothing is marked: after the body of a labelled
  loop its variable counts as dead, although the latch increments it; without the label it is live.
\<close>

theorem labelled_loop_variable_dead:
  "statement_body (unit_statements labelled_do ! 0) = statement_body (unit_statements plain_do ! 0) \<and>
   is_used (fst (analysis_of plain_do)) 4 symbol_i \<and> is_live_out (fst (analysis_of plain_do)) 1 symbol_i \<and>
   \<not> is_used (fst (analysis_of labelled_do)) 4 symbol_i \<and> \<not> is_live_out (fst (analysis_of labelled_do)) 1 symbol_i"
proof -
  have "statement_body (unit_statements labelled_do ! 0) = statement_body (unit_statements plain_do ! 0)"
    by (simp add: labelled_do_def plain_do_def unit_of_def statement_body_def do_statement_def plain_fields_def)
  then show ?thesis using observe_plain observe_labelled by (auto simp: observe_def split: prod.splits)
qed

section \<open>What an assignment uses and defines\<close>

definition recorded :: "symbol list \<Rightarrow> symbol option \<Rightarrow> nat \<Rightarrow> bool" where
  "recorded symbols symbol i \<longleftrightarrow> symbol_index symbols symbol = Some i \<and>
     (\<forall>s. symbol = Some s \<longrightarrow> (is_external s \<longrightarrow> procedure_pointer s) \<and> \<not> statement_function s)"

lemma mark_symbol_bit:
  assumes "flow_sized c n flow" "n = (length (builder_symbols builder) + 63) div 64" "builder_node builder < c"
    and "length storage = c * n" "v < c" "i < 64 * n"
  shows "node_bit flow (mark_symbol builder flow symbol storage) v i \<longleftrightarrow>
    node_bit flow storage v i \<or> (v = builder_node builder \<and> recorded (builder_symbols builder) symbol i)"
proof (cases "\<exists>index. recorded (builder_symbols builder) symbol index")
  case False
  then have m: "mark_symbol builder flow symbol storage = storage"
    by (auto simp: mark_symbol_def recorded_def split: option.splits)
  show ?thesis unfolding m using False by blast
next
  case True
  then obtain j s where j: "symbol = Some s" "symbol_index (builder_symbols builder) symbol = Some j"
    "recorded (builder_symbols builder) symbol j"
    by (cases symbol) (auto simp: recorded_def symbol_index_def)
  let ?u = "builder_node builder"
  have less: "j < 64 * n" unfolding assms(2) by (rule index_in_words [OF find_index_less [OF j(2)]])
  have w: "j div 64 < n" "i div 64 < n" using less assms(6) by auto
  have f: "flow_word_count flow = n" "flow_node_count flow = c" using assms(1) by (simp_all add: flow_sized_def)
  have "storage \<noteq> []" using assms(3,4) w(1) by auto
  then have m: "mark_symbol builder flow symbol storage =
      storage[?u * n + j div 64 := storage ! (?u * n + j div 64) OR 2 ^ (j mod 64)]"
    using j assms(3) by (auto simp: mark_symbol_def Let_def f recorded_def)
  have "recorded (builder_symbols builder) symbol i \<longleftrightarrow> i = j" using j by (auto simp: recorded_def)
  then show ?thesis
    using set_node_bit [OF assms(4,3,5) less assms(6)] unfolding node_bit_def node_word_def f m by simp
qed

text \<open>Expressions without references to functions: the symbols in them, in any position.\<close>

fun call_free :: "expr \<Rightarrow> bool" and call_free_all :: "expr option list \<Rightarrow> bool" where
  "call_free (Expr head es) \<longleftrightarrow> expr_kind head \<noteq> EXPR_CALL \<and> expr_kind head \<noteq> EXPR_ABSENT_ARGUMENT \<and> call_free_all es"
| "call_free_all [] \<longleftrightarrow> True"
| "call_free_all (e # es) \<longleftrightarrow> (case e of None \<Rightarrow> True | Some a \<Rightarrow> call_free a) \<and> call_free_all es"

fun symbols_in :: "expr \<Rightarrow> symbol option list" and symbols_among :: "expr option list \<Rightarrow> symbol option list" where
  "symbols_in (Expr head es) = expr_symbol head # symbols_among es"
| "symbols_among [] = []"
| "symbols_among (e # es) = (case e of None \<Rightarrow> [] | Some a \<Rightarrow> symbols_in a) @ symbols_among es"

text \<open>\<open>gains\<close>: the uses of the builder's node grow by the recorded symbols of a list, and nothing else changes.\<close>

definition gains :: "nat \<Rightarrow> nat \<Rightarrow> flow_builder \<Rightarrow> symbol option list \<Rightarrow> variable_flow \<Rightarrow> variable_flow \<Rightarrow> bool" where
  "gains c n builder used old new \<longleftrightarrow> flow_sized c n new \<and> flow_definitions new = flow_definitions old \<and>
     (\<forall>v < c. \<forall>i < 64 * n. node_bit new (flow_uses new) v i \<longleftrightarrow> node_bit old (flow_uses old) v i \<or>
        (v = builder_node builder \<and> (\<exists>s \<in> set used. recorded (builder_symbols builder) s i)))"

lemma gains_trans:
  "gains c n builder a f g \<Longrightarrow> gains c n builder b g h \<Longrightarrow> gains c n builder (a @ b) f h"
  by (auto simp: gains_def)

lemma gains_use:
  assumes "flow_sized c n flow" "n = (length (builder_symbols builder) + 63) div 64" "builder_node builder < c"
  shows "gains c n builder [s] flow (mark_use builder s flow)"
proof -
  have "flow_sized c n (mark_use builder s flow)" by (rule marks_sized [OF mark_use_marks assms(1)])
  moreover have "node_bit (mark_use builder s flow) = node_bit flow"
    by (simp add: node_bit_def node_word_def mark_use_def fun_eq_iff)
  moreover have "length (flow_uses flow) = c * n" using assms(1) by (simp add: flow_sized_def)
  ultimately show ?thesis
    using mark_symbol_bit [OF assms] by (simp add: gains_def mark_use_def)
qed

lemma call_free_marks:
  assumes "n = (length (builder_symbols builder) + 63) div 64" "builder_node builder < c"
  shows "call_free e \<Longrightarrow> flow_sized c n flow \<Longrightarrow> gains c n builder (symbols_in e) flow (mark_value builder (Some e) flow)"
    and "call_free_all es \<Longrightarrow> flow_sized c n flow \<Longrightarrow> gains c n builder (symbols_among es) flow (mark_values builder es flow)"
proof (induction e and es arbitrary: flow and flow rule: call_free_call_free_all.induct)
  case (1 head es)
  have use: "gains c n builder [expr_symbol head] flow (mark_use builder (expr_symbol head) flow)"
    by (rule gains_use [OF 1(3) assms])
  have "gains c n builder (symbols_among es) (mark_use builder (expr_symbol head) flow)
      (mark_values builder es (mark_use builder (expr_symbol head) flow))"
    using 1(1,2) use by (simp add: gains_def)
  from gains_trans [OF use this] show ?case using 1(2) by (simp add: mark_value.simps)
next
  case (2 flow)
  then show ?case by (simp add: gains_def)
next
  case (3 e es)
  show ?case
  proof (cases e)
    case None
    then show ?thesis using 3 by (simp add: mark_value.simps)
  next
    case (Some a)
    have one: "gains c n builder (symbols_in a) flow (mark_value builder (Some a) flow)" using 3 Some by simp
    then have "flow_sized c n (mark_value builder (Some a) flow)" by (simp add: gains_def)
    then have "gains c n builder (symbols_among es) (mark_value builder (Some a) flow)
        (mark_values builder es (mark_value builder (Some a) flow))" using 3 by simp
    from gains_trans [OF one this] show ?thesis using Some by simp
  qed
qed

lemma mark_name_definition:
  assumes "expr_kind (expr_info target) = EXPR_NAME" "expr_symbol (expr_info target) = Some x"
    and "symbol_index (builder_symbols builder) (Some x) \<noteq> None"
  shows "mark_definition builder (Some target) False flow = mark_define builder (Some x) flow"
proof -
  obtain head es where t: "target = Expr head es" by (cases target)
  have a: "argument_value (Some target) = Some target"
    using assms(1) by (auto simp: argument_value_def t split: list.splits)
  have "designator_symbol (builder_symbols builder) (Some target) = Some x"
    using assms(2,3) by (simp add: designator_symbol.simps a)
  then show ?thesis using assms(1,2) by (simp add: mark_definition.simps a whole_name_def)
qed

text \<open>
  C36: An assignment of an expression without function references to a variable marks, at its own node,
  exactly that variable as defined and exactly the variables of the expression as used, and leaves
  every other node as it is.
\<close>

theorem assignment_marks_exact:
  assumes "flow_sized c n flow" "n = (length (builder_symbols builder) + 63) div 64" "builder_node builder < c"
    and "statement_kind s = STMT_ASSIGNMENT" "statement_procedure s = None" "allocation_character_length s = None"
      "io_controls s = []" "io_items s = []" "case_ranges s = []"
    and "statement_left s = Some target" "expr_kind (expr_info target) = EXPR_NAME"
      "expr_symbol (expr_info target) = Some x" "symbol_index (builder_symbols builder) (Some x) \<noteq> None"
    and "statement_right s = Some e" "call_free e" "v < c" "i < 64 * n"
  defines "new \<equiv> mark_statement builder (Statement s None) flow"
  shows "(node_bit new (flow_definitions new) v i \<longleftrightarrow> node_bit flow (flow_definitions flow) v i \<or>
      (v = builder_node builder \<and> recorded (builder_symbols builder) (Some x) i)) \<and>
    (node_bit new (flow_uses new) v i \<longleftrightarrow> node_bit flow (flow_uses flow) v i \<or>
      (v = builder_node builder \<and> (\<exists>y \<in> set (symbols_in e). recorded (builder_symbols builder) y i)))"
proof -
  define mid where "mid = mark_define builder (Some x) flow"
  have new: "new = mark_value builder (Some e) mid"
    unfolding new_def mid_def using assms(4-15)
    by (simp add: mark_kind_def mark_name_definition mark_value.simps [of _ None])
  have sized: "flow_sized c n mid" unfolding mid_def by (rule marks_sized [OF mark_define_marks assms(1)])
  have g: "gains c n builder (symbols_in e) mid new"
    unfolding new by (rule call_free_marks(1) [OF assms(2,3,15) sized])
  have same: "node_bit mid = node_bit flow" "node_bit new = node_bit flow"
    using g assms(1) by (simp_all add: node_bit_def node_word_def mid_def mark_define_def fun_eq_iff gains_def flow_sized_def)
  have "length (flow_definitions flow) = c * n" using assms(1) by (simp add: flow_sized_def)
  from mark_symbol_bit [OF assms(1-3) this assms(16,17), of "Some x"] g show ?thesis
    using assms(16,17) unfolding gains_def same by (simp add: mid_def mark_define_def)
qed

lemma assignment_marks_exact_witness:
  "let flow = the (allocate_flow (\<lambda>_. True) 2 3);
       new = mark_statement \<lparr>builder_symbols = [symbol_i, symbol_n], builder_node = 1\<rparr> (assign 1 symbol_i symbol_n) flow
   in node_bit new (flow_definitions new) 1 0 \<and> node_bit new (flow_uses new) 1 1"
proof -
  let ?builder = "\<lparr>builder_symbols = [symbol_i, symbol_n], builder_node = 1\<rparr>"
  obtain flow where flow: "allocate_flow (\<lambda>_. True) 2 3 = Some flow"
    by (simp add: allocate_flow_def Let_def)
  have sized: "flow_sized 3 1 flow" using allocate_flow_sized [OF flow] by simp
  obtain st where st: "st = info (assign 1 symbol_i symbol_n)" by blast
  have s: "assign 1 symbol_i symbol_n = Statement st None" by (simp add: assign_def st)
  have facts: "statement_kind st = STMT_ASSIGNMENT" "statement_procedure st = None" "allocation_character_length st = None"
    "io_controls st = []" "io_items st = []" "case_ranges st = []"
    "statement_left st = Some (name_expr (Some symbol_i) ''i'')" "expr_kind (expr_info (name_expr (Some symbol_i) ''i'')) = EXPR_NAME"
    "expr_symbol (expr_info (name_expr (Some symbol_i) ''i'')) = Some symbol_i"
    "symbol_index (builder_symbols ?builder) (Some symbol_i) \<noteq> None"
    "statement_right st = Some (name_expr (Some symbol_n) ''n'')" "call_free (name_expr (Some symbol_n) ''n'')"
    by (simp_all add: st assign_def plain_fields_def name_expr_def variable_def symbol_index_def)
  have r: "recorded [symbol_i, symbol_n] (Some symbol_i) 0" "recorded [symbol_i, symbol_n] (Some symbol_n) 1"
    "Some symbol_n \<in> set (symbols_in (name_expr (Some symbol_n) ''n''))"
    by (simp_all add: recorded_def symbol_index_def variable_def name_expr_def)
  have n: "(1 :: nat) = (length (builder_symbols ?builder) + 63) div 64" "builder_node ?builder < (3 :: nat)" by simp_all
  note w = assignment_marks_exact [OF sized n facts, of 1]
  show ?thesis
    using w [of 0] w [of 1] r unfolding flow s by auto
qed

text \<open>The bits that are set in an array of words.\<close>

definition ones :: "64 word list \<Rightarrow> (nat \<times> nat) set" where
  "ones ws = {(position, i). position < length ws \<and> bit (ws ! position) i}"

text \<open>
  C37: Marking a statement never clears a bit and never writes outside the words of its node: every new
  bit, used or defined, numbers a symbol of the unit and lies in the words of the node; the live sets
  and the sizes of the arrays stay.
\<close>

theorem statement_marks_local:
  "let new = mark_statement builder s flow;
       own = (\<lambda>index. (builder_node builder * flow_word_count flow + index div 64, index mod 64)) `
         {..<length (builder_symbols builder)}
   in flow_live_in new = flow_live_in flow \<and> flow_live_out new = flow_live_out flow \<and>
     length (flow_uses new) = length (flow_uses flow) \<and> length (flow_definitions new) = length (flow_definitions flow) \<and>
     ones (flow_uses flow) \<subseteq> ones (flow_uses new) \<and> ones (flow_uses new) \<subseteq> ones (flow_uses flow) \<union> own \<and>
     ones (flow_definitions flow) \<subseteq> ones (flow_definitions new) \<and>
     ones (flow_definitions new) \<subseteq> ones (flow_definitions flow) \<union> own"
proof -
  have w: "length new = length old \<and> ones old \<subseteq> ones new \<and> ones new \<subseteq> ones old \<union>
      (\<lambda>index. (builder_node builder * flow_word_count flow + index div 64, index mod 64)) ` {..<length (builder_symbols builder)}"
    if "written builder flow old new" for old new
    using that unfolding written_def node_word_def ones_def by (fastforce simp: image_iff)
  show ?thesis
    using mark_statement_marks [OF marks_refl, of builder flow s] w unfolding Let_def marks_def by blast
qed

end
