(* ===== verification/Temporary_Flow.thy ===== *)
theory Temporary_Flow
  imports Variable_Marks Flow_Structure
begin

text \<open>
  The flow of owned temporaries (\<open>semantic/data_flow/temporaries.c\<close>): each temporary belongs to one
  statement, which creates and releases it; the analysis builds these sets, iterates liveness over
  the control-flow graph and checks that no temporary is live across a node.

  \<^item> Arrays are lists of \<open>node_count * word_count\<close> words, NULL the empty list. \<open>unit_owners\<close> is the
    \<open>owner_statement\<close> member of the catalog \<open>owned_temporaries\<close>.
  \<^item> A diagnostic is its format string with the number it prints, if any.
\<close>

section \<open>The analysis\<close>

record temporary_flow =
  created :: "64 word list"
  released :: "64 word list"
  live_in :: "64 word list"
  live_out :: "64 word list"
  temporary_node_count :: nat
  temporary_word_count :: nat
  temporaries_analyzed :: bool

record temporary_unit =
  owner_statements :: "statement list"
  unit_owners :: "nat list"
  expression_lifetimes_analyzed :: bool
  unit_temporary_flow :: temporary_flow

type_synonym diagnostics = "(string \<times> nat option) list"

definition cleared_temporaries :: temporary_flow where
  "cleared_temporaries = \<lparr>created = [], released = [], live_in = [], live_out = [], temporary_node_count = 0,
     temporary_word_count = 0, temporaries_analyzed = False\<rparr>"

definition bit_is_set :: "64 word list \<Rightarrow> nat \<Rightarrow> nat \<Rightarrow> bool" where
  "bit_is_set storage offset index \<longleftrightarrow> storage \<noteq> [] \<and> storage ! (offset + index div 64) AND push_bit (index mod 64) 1 \<noteq> 0"

definition bit_set :: "64 word list \<Rightarrow> nat \<Rightarrow> nat \<Rightarrow> 64 word list" where
  "bit_set storage offset index =
     storage[offset + index div 64 := storage ! (offset + index div 64) OR push_bit (index mod 64) 1]"

definition allocate_temporaries :: "(nat \<Rightarrow> bool) \<Rightarrow> nat \<Rightarrow> nat \<Rightarrow> temporary_flow option" where
  "allocate_temporaries mem nodes owned =
     (let words = (owned + 63) mod (SIZE_MAX + 1) div 64;
          flow = cleared_temporaries\<lparr>temporary_node_count := nodes, temporary_word_count := words\<rparr>;
          storage = replicate (nodes * words) 0
      in if words = 0 then Some flow
         else if nodes > SIZE_MAX div words then None
         else if nodes * words > SIZE_MAX div 8 then None
         else if \<not> mem (nodes * words * 8) then None
         else Some (flow\<lparr>created := storage, released := storage, live_in := storage, live_out := storage\<rparr>))"

text \<open>One node of \<open>populate_transfer_sets\<close>: a failure carries the diagnostic.\<close>

fun populate_items ::
  "nat list \<Rightarrow> nat \<Rightarrow> nat \<Rightarrow> nat list \<Rightarrow> temporary_flow \<Rightarrow> string + temporary_flow" where
  "populate_items owners statement node [] flow = Inr flow"
| "populate_items owners statement node (temporary # rest) flow =
     (if temporary \<ge> length owners \<or> owners ! temporary \<noteq> statement
      then Inl ''typed temporary ownership catalog is inconsistent''
      else
        let offset = node * temporary_word_count flow
        in populate_items owners statement node rest
             (flow\<lparr>created := bit_set (created flow) offset temporary,
                   released := bit_set (released flow) offset temporary\<rparr>))"

fun populate_transfer_sets ::
  "statement list \<Rightarrow> nat list \<Rightarrow> flow_graph \<Rightarrow> nat list \<Rightarrow> temporary_flow \<Rightarrow> string + temporary_flow" where
  "populate_transfer_sets statements owners graph [] flow = Inr flow"
| "populate_transfer_sets statements owners graph (node # rest) flow =
     (let index = statement_index (node_at graph node)
      in if index \<ge> length statements then populate_transfer_sets statements owners graph rest flow
         else
           let plan = info (statements ! index)
           in if \<not> ownership_analyzed plan then Inl ''temporary data-flow analysis requires a typed ownership plan''
              else case populate_items owners index node (owned_temporaries plan) flow of
                     Inl message \<Rightarrow> Inl message
                   | Inr flow \<Rightarrow> populate_transfer_sets statements owners graph rest flow)"

definition sweep_word :: "flow_graph \<Rightarrow> nat \<Rightarrow> nat \<Rightarrow> temporary_flow \<times> bool \<Rightarrow> temporary_flow \<times> bool" where
  "sweep_word graph node word = (\<lambda>(flow, changed).
     let count = temporary_word_count flow;
         position = node * count + word;
         input = fold (\<lambda>edge input. input OR live_out flow ! (edge_target edge * count + word))
                   (predecessors (node_at graph node)) 0;
         (flow, changed) = (if live_in flow ! position \<noteq> input
                            then (flow\<lparr>live_in := (live_in flow)[position := input]\<rparr>, True) else (flow, changed));
         output = (input OR created flow ! position) AND NOT (released flow ! position)
     in if live_out flow ! position \<noteq> output
        then (flow\<lparr>live_out := (live_out flow)[position := output]\<rparr>, True) else (flow, changed))"

definition sweep :: "flow_graph \<Rightarrow> temporary_flow \<Rightarrow> temporary_flow \<times> bool" where
  "sweep graph flow =
     fold (\<lambda>node. fold (sweep_word graph node) [0..<temporary_word_count flow]) [0..<node_count graph] (flow, False)"

partial_function (option) solve_temporaries :: "flow_graph \<Rightarrow> temporary_flow \<Rightarrow> temporary_flow option" where
  "solve_temporaries graph flow =
     (let (flow', changed) = sweep graph flow in if changed then solve_temporaries graph flow' else Some flow')"

declare solve_temporaries.simps [code]

definition temporary_fault :: "temporary_flow \<Rightarrow> nat \<Rightarrow> nat \<Rightarrow> string option" where
  "temporary_fault flow node temporary =
     (let offset = node * temporary_word_count flow; set = \<lambda>storage. bit_is_set storage offset temporary
      in if set (created flow) \<and> set (live_in flow) then Some ''owned temporary %zu can be recreated while still live''
         else if set (released flow) \<and> \<not> set (created flow) \<and> \<not> set (live_in flow)
           then Some ''owned temporary %zu can be released before creation''
         else if set (live_out flow) then Some ''statement-owned temporary %zu escapes its CFG node''
         else None)"

definition validate_flow :: "flow_graph \<Rightarrow> nat \<Rightarrow> temporary_flow \<Rightarrow> (string \<times> nat) option" where
  "validate_flow graph owned flow =
     map_option (\<lambda>(node, temporary). (the (temporary_fault flow node temporary), temporary))
       (find (\<lambda>(node, temporary). temporary_fault flow node temporary \<noteq> None)
         (List.product [0..<node_count graph] [0..<owned]))"

definition temporary_flow_analyze ::
  "(nat \<Rightarrow> bool) \<Rightarrow> diagnostics \<Rightarrow> temporary_unit \<Rightarrow> flow_graph \<Rightarrow> (temporary_unit \<times> bool \<times> diagnostics) option" where
  "temporary_flow_analyze mem context unit graph =
     (if statement_count graph \<noteq> length (owner_statements unit) \<or> \<not> expression_lifetimes_analyzed unit
      then Some (unit, False, context)
      else
        let failed = \<lambda>message number.
              Some (unit\<lparr>unit_temporary_flow := cleared_temporaries\<rparr>, False, context @ [(message, number)])
        in case allocate_temporaries mem (node_count graph) (length (unit_owners unit)) of
             None \<Rightarrow> failed ''out of memory while analyzing owned temporary flow'' None
           | Some flow \<Rightarrow>
               (case populate_transfer_sets (owner_statements unit) (unit_owners unit) graph [0..<node_count graph] flow of
                  Inl message \<Rightarrow> failed message None
                | Inr flow \<Rightarrow>
                    (case solve_temporaries graph flow of
                       None \<Rightarrow> None
                     | Some flow \<Rightarrow>
                         (case validate_flow graph (length (unit_owners unit)) flow of
                            Some (message, temporary) \<Rightarrow> failed message (Some temporary)
                          | None \<Rightarrow> Some (unit\<lparr>unit_temporary_flow := flow\<lparr>temporaries_analyzed := True\<rparr>\<rparr>, True, context)))))"

definition temporary_query :: "temporary_unit \<Rightarrow> 64 word list \<Rightarrow> nat \<Rightarrow> nat \<Rightarrow> bool" where
  "temporary_query unit storage node temporary =
     (let flow = unit_temporary_flow unit
      in if \<not> temporaries_analyzed flow \<or> node \<ge> temporary_node_count flow \<or> temporary \<ge> length (unit_owners unit) \<or>
            temporary_word_count flow = 0 then False
         else bit_is_set storage (node * temporary_word_count flow) temporary)"

definition is_created :: "temporary_unit \<Rightarrow> nat \<Rightarrow> nat \<Rightarrow> bool" where
  "is_created unit = temporary_query unit (created (unit_temporary_flow unit))"

definition is_released :: "temporary_unit \<Rightarrow> nat \<Rightarrow> nat \<Rightarrow> bool" where
  "is_released unit = temporary_query unit (released (unit_temporary_flow unit))"

definition temporary_live_in :: "temporary_unit \<Rightarrow> nat \<Rightarrow> nat \<Rightarrow> bool" where
  "temporary_live_in unit = temporary_query unit (live_in (unit_temporary_flow unit))"

definition temporary_live_out :: "temporary_unit \<Rightarrow> nat \<Rightarrow> nat \<Rightarrow> bool" where
  "temporary_live_out unit = temporary_query unit (live_out (unit_temporary_flow unit))"

section \<open>Creation and release coincide\<close>

definition balanced :: "nat \<Rightarrow> nat \<Rightarrow> temporary_flow \<Rightarrow> bool" where
  "balanced nodes words flow \<longleftrightarrow> released flow = created flow \<and> length (created flow) = nodes * words \<and>
     live_in flow = replicate (nodes * words) 0 \<and> live_out flow = replicate (nodes * words) 0 \<and>
     temporary_node_count flow = nodes \<and> temporary_word_count flow = words"

definition created_at :: "temporary_flow \<Rightarrow> nat \<Rightarrow> nat \<Rightarrow> bool" where
  "created_at flow node temporary \<longleftrightarrow>
     bit (created flow ! (node * temporary_word_count flow + temporary div 64)) (temporary mod 64)"

definition owns :: "nat list \<Rightarrow> nat \<Rightarrow> nat list \<Rightarrow> bool" where
  "owns owners statement items \<longleftrightarrow> (\<forall>temporary \<in> set items. temporary < length owners \<and> owners ! temporary = statement)"

lemma balanced_fields:
  assumes "balanced nodes words flow"
  shows "released flow = created flow" "length (created flow) = nodes * words" "temporary_node_count flow = nodes"
    "temporary_word_count flow = words" "live_in flow = replicate (nodes * words) 0"
    "live_out flow = replicate (nodes * words) 0"
  using assms by (simp_all add: balanced_def)

lemma populate_items_laws:
  assumes "balanced nodes words flow" "node < nodes" "length owners \<le> 64 * words"
  shows "if owns owners statement items
    then \<exists>flow'. populate_items owners statement node items flow = Inr flow' \<and> balanced nodes words flow' \<and>
      (\<forall>v < nodes. \<forall>t < 64 * words. created_at flow' v t \<longleftrightarrow> created_at flow v t \<or> (v = node \<and> t \<in> set items))
    else \<exists>message. populate_items owners statement node items flow = Inl message"
  using assms(1)
proof (induction items arbitrary: flow)
  case Nil
  then show ?case by (auto simp: owns_def)
next
  case (Cons temporary items)
  show ?case
  proof (cases "temporary < length owners \<and> owners ! temporary = statement")
    case True
    let ?o = "node * words"
    let ?f = "flow\<lparr>created := bit_set (created flow) ?o temporary, released := bit_set (released flow) ?o temporary\<rparr>"
    have b: "balanced nodes words ?f" using Cons.prems by (simp add: balanced_def bit_set_def)
    have new: "created_at ?f v t \<longleftrightarrow> created_at flow v t \<or> (v = node \<and> t = temporary)" if "v < nodes" "t < 64 * words" for v t
      using set_node_bit [OF balanced_fields(2) [OF Cons.prems] assms(2) that(1) _ that(2), of temporary] True assms(3)
        balanced_fields(4) [OF Cons.prems]
      by (simp add: created_at_def bit_set_def push_bit_eq_mult)
    have o: "owns owners statement (temporary # items) = owns owners statement items" using True by (simp add: owns_def)
    have step: "populate_items owners statement node (temporary # items) flow = populate_items owners statement node items ?f"
      using True balanced_fields(4) [OF Cons.prems] by (auto simp: Let_def)
    show ?thesis
    proof (cases "owns owners statement items")
      case t: True
      then obtain g where "populate_items owners statement node items ?f = Inr g" "balanced nodes words g"
        "\<forall>v < nodes. \<forall>t < 64 * words. created_at g v t \<longleftrightarrow> created_at ?f v t \<or> (v = node \<and> t \<in> set items)"
        using Cons.IH [OF b] by auto
      then show ?thesis using t new unfolding o step by auto
    next
      case False
      then show ?thesis using Cons.IH [OF b] unfolding o step by auto
    qed
  next
    case False
    then show ?thesis by (auto simp: owns_def)
  qed
qed

text \<open>What the plan of a statement must satisfy.\<close>

definition plan_consistent :: "statement list \<Rightarrow> nat list \<Rightarrow> nat \<Rightarrow> bool" where
  "plan_consistent statements owners index \<longleftrightarrow> index < length statements \<longrightarrow>
     ownership_analyzed (info (statements ! index)) \<and> owns owners index (owned_temporaries (info (statements ! index)))"

definition owned_at :: "statement list \<Rightarrow> nat \<Rightarrow> nat \<Rightarrow> bool" where
  "owned_at statements index temporary \<longleftrightarrow>
     index < length statements \<and> temporary \<in> set (owned_temporaries (info (statements ! index)))"

lemma populate_transfer_sets_laws:
  assumes "balanced nodes words flow" "length owners \<le> 64 * words" "\<forall>node \<in> set todo. node < nodes"
  shows "if \<forall>node \<in> set todo. plan_consistent statements owners (statement_index (node_at graph node))
    then \<exists>flow'. populate_transfer_sets statements owners graph todo flow = Inr flow' \<and> balanced nodes words flow' \<and>
      (\<forall>v < nodes. \<forall>t < 64 * words. created_at flow' v t \<longleftrightarrow> created_at flow v t \<or>
         (v \<in> set todo \<and> owned_at statements (statement_index (node_at graph v)) t))
    else \<exists>message. populate_transfer_sets statements owners graph todo flow = Inl message"
  using assms(1,3)
proof (induction todo arbitrary: flow)
  case (Cons node todo)
  let ?i = "statement_index (node_at graph node)"
  let ?plan = "info (statements ! ?i)"
  have node: "node < nodes" and rest: "\<forall>node \<in> set todo. node < nodes" using Cons.prems(2) by simp_all
  consider "?i \<ge> length statements" | "?i < length statements" "\<not> plan_consistent statements owners ?i"
    | "?i < length statements" "ownership_analyzed ?plan" "owns owners ?i (owned_temporaries ?plan)"
    unfolding plan_consistent_def using not_le by blast
  then show ?case
  proof cases
    case 1
    then show ?thesis
      using Cons.IH [OF Cons.prems(1) rest] by (auto simp: plan_consistent_def owned_at_def split: if_splits)
  next
    case 2
    then show ?thesis
      using populate_items_laws [OF Cons.prems(1) node assms(2), of ?i "owned_temporaries ?plan"]
      by (auto simp: plan_consistent_def Let_def split: if_splits)
  next
    case 3
    then obtain g where g: "populate_items owners ?i node (owned_temporaries ?plan) flow = Inr g" "balanced nodes words g"
      "\<forall>v < nodes. \<forall>t < 64 * words. created_at g v t \<longleftrightarrow> created_at flow v t \<or> (v = node \<and> t \<in> set (owned_temporaries ?plan))"
      using populate_items_laws [OF Cons.prems(1) node assms(2), of ?i "owned_temporaries ?plan"] by auto
    have step: "populate_transfer_sets statements owners graph (node # todo) flow =
        populate_transfer_sets statements owners graph todo g"
      using 3 g(1) by (simp add: Let_def)
    have c: "plan_consistent statements owners ?i" using 3 by (simp add: plan_consistent_def)
    show ?thesis
    proof (cases "\<forall>node \<in> set todo. plan_consistent statements owners (statement_index (node_at graph node))")
      case True
      then obtain h where h: "populate_transfer_sets statements owners graph todo g = Inr h" "balanced nodes words h"
        "\<forall>v < nodes. \<forall>t < 64 * words. created_at h v t \<longleftrightarrow> created_at g v t \<or>
           (v \<in> set todo \<and> owned_at statements (statement_index (node_at graph v)) t)"
        using Cons.IH [OF g(2) rest] by auto
      have "created_at h v t \<longleftrightarrow> created_at flow v t \<or>
          (v \<in> set (node # todo) \<and> owned_at statements (statement_index (node_at graph v)) t)"
        if "v < nodes" "t < 64 * words" for v t
        using g(3) h(3) that 3(1) by (auto simp: owned_at_def)
      then show ?thesis using True c h(1,2) unfolding step by simp
    next
      case False
      then have f: "\<not> (\<forall>node \<in> set (node # todo). plan_consistent statements owners (statement_index (node_at graph node)))"
        by simp
      show ?thesis
        using Cons.IH [OF g(2) rest] unfolding step if_not_P [OF f] if_not_P [OF False] .
    qed
  qed
qed simp

section \<open>One sweep is enough\<close>

lemma fold_unchanged: "\<forall>x \<in> set xs. f x s = s \<Longrightarrow> fold f xs s = s"
  by (induction xs) simp_all

lemma fold_or_zero: "\<forall>x \<in> set xs. f x = 0 \<Longrightarrow> fold (\<lambda>x w. w OR f x) xs (w :: 64 word) = w"
  by (induction xs arbitrary: w) simp_all

lemma sweep_balanced:
  assumes "balanced (node_count graph) words flow"
    and "\<And>v e. v < node_count graph \<Longrightarrow> e \<in> set (predecessors (node_at graph v)) \<Longrightarrow> edge_target e < node_count graph"
  shows "sweep graph flow = (flow, False)"
proof -
  note b = balanced_fields [OF assms(1)]
  have word: "sweep_word graph node word (flow, False) = (flow, False)"
    if "node < node_count graph" "word < words" for node word
  proof -
    have "fold (\<lambda>edge input. input OR live_out flow ! (edge_target edge * words + word))
        (predecessors (node_at graph node)) 0 = (0 :: 64 word)"
      using assms(2) [OF that(1)] node_position_less [OF _ that(2)] by (intro fold_or_zero) (simp add: b(6))
    moreover have "node * words + word < node_count graph * words" by (rule node_position_less [OF that])
    ultimately show ?thesis by (simp add: sweep_word_def Let_def b)
  qed
  show ?thesis unfolding sweep_def by (intro fold_unchanged ballI) (simp add: word b(4))
qed

lemma solve_balanced:
  assumes "balanced (node_count graph) words flow"
    and "\<And>v e. v < node_count graph \<Longrightarrow> e \<in> set (predecessors (node_at graph v)) \<Longrightarrow> edge_target e < node_count graph"
  shows "solve_temporaries graph flow = Some flow"
  by (subst solve_temporaries.simps) (simp add: sweep_balanced [OF assms])

lemma query_balanced:
  assumes "balanced nodes words flow" "v < nodes" "t < 64 * words"
  shows "bit_is_set (created flow) (v * words) t \<longleftrightarrow> created_at flow v t"
    "bit_is_set (released flow) (v * words) t \<longleftrightarrow> created_at flow v t"
    "\<not> bit_is_set (live_in flow) (v * words) t" "\<not> bit_is_set (live_out flow) (v * words) t"
proof -
  note b = balanced_fields [OF assms(1)]
  have at: "v * words + t div 64 < nodes * words" using assms(2,3) by (intro node_position_less) auto
  then have "created flow \<noteq> []" using b(2) by auto
  then show "bit_is_set (created flow) (v * words) t \<longleftrightarrow> created_at flow v t"
    by (simp add: bit_is_set_def created_at_def b(4) mask_bit del: push_bit_of_1)
  then show "bit_is_set (released flow) (v * words) t \<longleftrightarrow> created_at flow v t" by (simp add: b(1))
  show "\<not> bit_is_set (live_in flow) (v * words) t" "\<not> bit_is_set (live_out flow) (v * words) t"
    using at by (simp_all add: bit_is_set_def b)
qed

lemma validate_balanced:
  assumes "balanced (node_count graph) words flow" "owned \<le> 64 * words"
  shows "validate_flow graph owned flow = None"
proof -
  have "temporary_fault flow v t = None" if "v < node_count graph" "t < owned" for v t
    using query_balanced [OF assms(1) that(1), of t] that(2) assms(2) balanced_fields(4) [OF assms(1)]
    by (simp add: temporary_fault_def Let_def)
  then show ?thesis by (auto simp: validate_flow_def find_None_iff)
qed

lemma allocate_balanced:
  assumes "allocate_temporaries mem nodes owned = Some flow" "owned \<le> SIZE_MAX - 63"
  shows "balanced nodes ((owned + 63) div 64) flow" "v < nodes \<Longrightarrow> t < 64 * ((owned + 63) div 64) \<Longrightarrow> \<not> created_at flow v t"
proof -
  have w: "(owned + 63) mod (SIZE_MAX + 1) div 64 = (owned + 63) div 64" using assms(2) by simp
  have f: "flow = cleared_temporaries\<lparr>temporary_node_count := nodes, temporary_word_count := (owned + 63) div 64,
      created := replicate (nodes * ((owned + 63) div 64)) 0, released := replicate (nodes * ((owned + 63) div 64)) 0,
      live_in := replicate (nodes * ((owned + 63) div 64)) 0, live_out := replicate (nodes * ((owned + 63) div 64)) 0\<rparr>"
    using assms(1) unfolding allocate_temporaries_def w Let_def
    by (auto simp: cleared_temporaries_def split: if_splits)
  show "balanced nodes ((owned + 63) div 64) flow" by (simp add: f balanced_def)
  show "\<not> created_at flow v t" if "v < nodes" "t < 64 * ((owned + 63) div 64)"
  proof -
    have "v * ((owned + 63) div 64) + t div 64 < nodes * ((owned + 63) div 64)"
      using that by (intro node_position_less) auto
    then show ?thesis by (simp add: f created_at_def)
  qed
qed

section \<open>The verdict\<close>

lemma statement_nodes:
  assumes "build_graph mem unit = Some graph"
  shows "\<And>v. v < length unit \<Longrightarrow> v < node_count graph \<and> statement_index (node_at graph v) = v"
    and "\<And>v e. v < node_count graph \<Longrightarrow> e \<in> set (predecessors (node_at graph v)) \<Longrightarrow> edge_target e < node_count graph"
    and "statement_count graph = length unit"
proof -
  obtain g0 loops g1 where s: "create_nodes mem unit = Some (g0, loops)" and n: "statement_count graph = length unit"
    "node_count graph = length unit + 2 + length loops"
    and ok: "successors_ok graph" and same: "\<And>v. v < node_count graph \<Longrightarrow> node_kind (node_at graph v) = node_kind (node_at g0 v) \<and>
      statement_index (node_at graph v) = statement_index (node_at g0 v)"
    and p: "\<And>u v k. v < node_count graph \<Longrightarrow> edge_to u k \<in> set (predecessors (node_at graph v)) \<longleftrightarrow> has_edge graph u v k"
    by (rule finished [OF assms]) (rule that, assumption+)
  show "statement_count graph = length unit" by (rule n(1))
  show "v < node_count graph \<and> statement_index (node_at graph v) = v" if "v < length unit" for v
    using create_nodes_laws(4,6) [OF s] same [of v] n(2) that by (simp add: new_node_def)
  show "edge_target e < node_count graph" if "v < node_count graph" "e \<in> set (predecessors (node_at graph v))" for v e
  proof -
    have "has_edge graph (edge_target e) v (edge_kind e)" using p [OF that(1), of "edge_target e" "edge_kind e"] that(2) by simp
    then show ?thesis by (simp add: has_edge_def)
  qed
qed

lemma consistent_plans:
  assumes "build_graph mem unit = Some graph"
  shows "(\<forall>node \<in> set [0..<node_count graph]. plan_consistent unit owners (statement_index (node_at graph node))) \<longleftrightarrow>
    (\<forall>index < length unit. plan_consistent unit owners index)"
proof
  assume all: "\<forall>node \<in> set [0..<node_count graph]. plan_consistent unit owners (statement_index (node_at graph node))"
  show "\<forall>index < length unit. plan_consistent unit owners index"
  proof (intro allI impI)
    fix v assume "v < length unit"
    then have v: "v < node_count graph" "statement_index (node_at graph v) = v" using statement_nodes(1) [OF assms] by simp_all
    then have "plan_consistent unit owners (statement_index (node_at graph v))" using all v(1) by (metis atLeastLessThan_iff le0 set_upt)
    with v(2) show "plan_consistent unit owners v" by simp
  qed
qed (auto simp: plan_consistent_def)

text \<open>
  C38: On the control-flow graph of its unit the analysis of owned temporaries always ends. It succeeds
  exactly when every statement has a plan whose temporaries the catalog gives to that statement. Then a
  node creates and releases exactly the temporaries that its statement owns and none is live into or out
  of a node; otherwise the flow is cleared and one diagnostic is added.
\<close>

theorem temporary_flow_verdict:
  assumes "control_flow_build graph_mem messages (Some (owner_statements unit)) = (graph, True, messages')"
    and "expression_lifetimes_analyzed unit" "length (unit_owners unit) \<le> SIZE_MAX - 63"
    and "allocate_temporaries mem (node_count graph) (length (unit_owners unit)) \<noteq> None"
  shows "\<exists>unit' ok context'. temporary_flow_analyze mem context unit graph = Some (unit', ok, context') \<and>
    (ok \<longleftrightarrow> (\<forall>index < length (owner_statements unit). plan_consistent (owner_statements unit) (unit_owners unit) index)) \<and>
    (ok \<longrightarrow> context' = context \<and> (\<forall>node < node_count graph. \<forall>temporary < length (unit_owners unit).
       (is_created unit' node temporary \<longleftrightarrow> owned_at (owner_statements unit) (statement_index (node_at graph node)) temporary) \<and>
       (is_released unit' node temporary \<longleftrightarrow> is_created unit' node temporary) \<and>
       \<not> temporary_live_in unit' node temporary \<and> \<not> temporary_live_out unit' node temporary)) \<and>
    (\<not> ok \<longrightarrow> unit_temporary_flow unit' = cleared_temporaries \<and> (\<exists>message number. context' = context @ [(message, number)]))"
proof -
  let ?u = "owner_statements unit" and ?o = "unit_owners unit"
  let ?w = "(length ?o + 63) div 64" and ?n = "node_count graph"
  have b: "build_graph graph_mem ?u = Some graph" using assms(1) by (simp add: control_flow_build_Some)
  note g = statement_nodes(2,3) [OF b]
  obtain flow where f: "allocate_temporaries mem ?n (length ?o) = Some flow" using assms(4) by blast
  note fb = allocate_balanced [OF f assms(3)]
  have w: "length ?o \<le> 64 * ?w" using mult_div_mod_eq [of 64 "length ?o + 63"] mod_less_divisor [of 64 "length ?o + 63"] by linarith
  note P = populate_transfer_sets_laws [OF fb(1) w, of "[0..<?n]" ?u graph, unfolded consistent_plans [OF b]]
  show ?thesis
  proof (cases "\<forall>index < length ?u. plan_consistent ?u ?o index")
    case True
    then obtain h where h: "populate_transfer_sets ?u ?o graph [0..<?n] flow = Inr h" "balanced ?n ?w h"
      "\<forall>v < ?n. \<forall>t < 64 * ?w. created_at h v t \<longleftrightarrow> owned_at ?u (statement_index (node_at graph v)) t"
      using P fb(2) by auto
    let ?unit = "unit\<lparr>unit_temporary_flow := h\<lparr>temporaries_analyzed := True\<rparr>\<rparr>"
    have r: "temporary_flow_analyze mem context unit graph = Some (?unit, True, context)"
      using assms(2) g(2) h(1) solve_balanced [OF h(2) g(1)] validate_balanced [OF h(2) w]
      by (simp add: temporary_flow_analyze_def f)
    have "is_created ?unit v t \<longleftrightarrow> owned_at ?u (statement_index (node_at graph v)) t" "is_released ?unit v t \<longleftrightarrow> is_created ?unit v t"
      "\<not> temporary_live_in ?unit v t" "\<not> temporary_live_out ?unit v t" if v: "v < ?n" "t < length ?o" for v t
    proof -
      have t: "t < 64 * ?w" "?w \<noteq> 0" using v(2) w by (linarith, auto)
      have c: "temporary_node_count h = ?n" "temporary_word_count h = ?w" using balanced_fields(3,4) [OF h(2)] .
      note q = query_balanced [OF h(2) v(1) t(1)]
      show "is_created ?unit v t \<longleftrightarrow> owned_at ?u (statement_index (node_at graph v)) t" "is_released ?unit v t \<longleftrightarrow> is_created ?unit v t"
        "\<not> temporary_live_in ?unit v t" "\<not> temporary_live_out ?unit v t"
        using v t(2) q h(3) t(1)
        by (simp_all add: is_created_def is_released_def temporary_live_in_def temporary_live_out_def temporary_query_def Let_def c
            del: div_eq_0_iff)
    qed
    then show ?thesis using r True by auto
  next
    case False
    then obtain message where "populate_transfer_sets ?u ?o graph [0..<?n] flow = Inl message"
      using P unfolding if_not_P [OF False] by fastforce
    then have "temporary_flow_analyze mem context unit graph =
        Some (unit\<lparr>unit_temporary_flow := cleared_temporaries\<rparr>, False, context @ [(message, None)])"
      using assms(2) g(2) by (simp add: temporary_flow_analyze_def f)
    then show ?thesis using False by auto
  qed
qed

text \<open>A unit with one assignment that owns the temporary 0.\<close>

definition owning_statement :: statement where
  "owning_statement = Statement ((plain_fields STMT_ASSIGNMENT 1)\<lparr>ownership_analyzed := True, owned_temporaries := [0]\<rparr>) None"

definition owning_unit :: temporary_unit where
  "owning_unit = \<lparr>owner_statements = [owning_statement], unit_owners = [0], expression_lifetimes_analyzed = True,
     unit_temporary_flow = cleared_temporaries\<rparr>"

definition owning_graph :: flow_graph where
  "owning_graph = fst (control_flow_build (\<lambda>n. True) None (Some [owning_statement]))"

lemma owning_graph_built: "control_flow_build (\<lambda>n. True) None (Some [owning_statement]) = (owning_graph, True, None)"
  unfolding owning_graph_def by code_simp

lemma temporary_flow_verdict_witness:
  "\<exists>unit'. temporary_flow_analyze (\<lambda>n. True) [] owning_unit owning_graph = Some (unit', True, []) \<and>
     is_created unit' 0 0 \<and> is_released unit' 0 0 \<and> \<not> temporary_live_out unit' 0 0"
proof -
  have b: "control_flow_build (\<lambda>n. True) None (Some (owner_statements owning_unit)) = (owning_graph, True, None)"
    using owning_graph_built by (simp add: owning_unit_def)
  have g: "node_count owning_graph = 3" "statement_index (node_at owning_graph 0) = 0"
    unfolding owning_graph_def by code_simp+
  have u: "owner_statements owning_unit = [owning_statement]" "unit_owners owning_unit = [0]"
    "expression_lifetimes_analyzed owning_unit" by (simp_all add: owning_unit_def)
  have a: "allocate_temporaries (\<lambda>n. True) (node_count owning_graph) (length (unit_owners owning_unit)) \<noteq> None"
    by (simp add: allocate_temporaries_def g u Let_def)
  have p: "\<forall>index < 1. plan_consistent [owning_statement] [0] index" "owned_at [owning_statement] 0 0"
    by (simp_all add: plan_consistent_def owned_at_def owns_def owning_statement_def)
  from temporary_flow_verdict [OF b u(3) _ a, of "[]"]
  show ?thesis using p by (auto simp: u g)
qed

end
