(* ===== verification/Label_Values.thy ===== *)
theory Label_Values
  imports Variable_Marks Control_Flow Bit_Solver
begin

text \<open>
  The values of an integer variable that holds statement labels, first part of
  \<open>semantic/validation/assigned_label.c\<close>: the catalog of the labels that an \<open>ASSIGN\<close> can store, the
  effect of a statement on the variable, and the forward bit-vector flow of the possible labels.

  \<^item> The catalog is the list of its entries with the capacity of the array.
  \<^item> Bit \<open>d\<close> of a state: the variable may hold the label of entry \<open>d\<close>; bit 0 of the flags
    (\<open>ASSIGNED_LABEL_INVALID\<close>): it may hold no label.
  \<^item> \<open>statement_body\<close>, \<open>same_symbol\<close>, \<open>output_control\<close> and \<open>argument_value\<close> are copies of the functions
    of \<open>control_flow.c\<close> and \<open>variables.c\<close>, and their models are shared.
\<close>

section \<open>The catalog\<close>

record label_definition =
  definition_label :: string
  branch_target :: bool
  format_target :: bool

record label_catalog =
  catalog_items :: "label_definition list"
  catalog_capacity :: nat

fun assigned_goto_for_variable :: "statement \<Rightarrow> expr \<Rightarrow> statement option" where
  "assigned_goto_for_variable (Statement s inner) variable =
     (if statement_kind s = STMT_ASSIGNED_GOTO \<and> same_symbol (statement_expression s) (Some variable)
      then Some (Statement s inner)
      else case inner of None \<Rightarrow> None | Some statement \<Rightarrow> assigned_goto_for_variable statement variable)"

definition label_statement :: "statement list \<Rightarrow> string \<Rightarrow> statement option" where
  "label_statement unit label =
     find (\<lambda>s. (kind_of s = STMT_LABEL \<or> kind_of s = STMT_FORMAT) \<and>
         (case statement_name (info s) of None \<Rightarrow> False | Some name \<Rightarrow> labels_equal name label)) unit"

definition branchable_statement :: "statement option \<Rightarrow> bool" where
  "branchable_statement statement =
     (case statement of
        None \<Rightarrow> False
      | Some s \<Rightarrow>
          if kind_of s \<noteq> STMT_LABEL then False
          else kind_of (statement_body s) \<notin> {STMT_INVALID, STMT_EMPTY, STMT_DECLARATION, STMT_FORMAT, STMT_DATA,
            STMT_CASE, STMT_ELSE, STMT_ELSE_IF, STMT_ELSEWHERE, STMT_TYPE_GUARD, STMT_END_IF, STMT_END_DO,
            STMT_END_SELECT, STMT_END_BLOCK_SCOPE, STMT_END_WHERE})"

definition catalog_find :: "label_catalog \<Rightarrow> string \<Rightarrow> nat option" where
  "catalog_find catalog label =
     find (\<lambda>index. labels_equal (definition_label (catalog_items catalog ! index)) label)
       [0..<length (catalog_items catalog)]"

text \<open>\<open>sizeof(AssignedLabelDefinition)\<close> is 16 bytes.\<close>

definition catalog_append :: "(nat \<Rightarrow> bool) \<Rightarrow> statement list \<Rightarrow> string \<Rightarrow> label_catalog \<Rightarrow> label_catalog option" where
  "catalog_append mem unit label catalog =
     (if catalog_find catalog label \<noteq> None then Some catalog
      else
        let count = length (catalog_items catalog); capacity = catalog_capacity catalog;
            grown = (if capacity = 0 then 4 else capacity * 2 mod (SIZE_MAX + 1));
            target = label_statement unit label;
            item = \<lparr>definition_label = label, branch_target = branchable_statement target,
                    format_target = (case target of None \<Rightarrow> False
                      | Some s \<Rightarrow> kind_of s = STMT_FORMAT \<and> format_validated (info s))\<rparr>
        in if count = capacity then
             (if grown < capacity \<or> grown > SIZE_MAX div 16 then None
              else if \<not> mem (grown * 16) then None
              else Some \<lparr>catalog_items = catalog_items catalog @ [item], catalog_capacity = grown\<rparr>)
           else Some (catalog\<lparr>catalog_items := catalog_items catalog @ [item]\<rparr>))"

fun collect_definitions ::
  "(nat \<Rightarrow> bool) \<Rightarrow> statement list \<Rightarrow> expr \<Rightarrow> statement \<Rightarrow> label_catalog \<Rightarrow> label_catalog option" where
  "collect_definitions mem unit variable (Statement s inner) catalog =
     do {
       catalog \<leftarrow> (if statement_kind s = STMT_ASSIGN_LABEL \<and> length (statement_labels s) = 1 \<and>
                      same_symbol (statement_expression s) (Some variable)
                   then catalog_append mem unit (statement_labels s ! 0) catalog else Some catalog);
       case inner of
         None \<Rightarrow> Some catalog
       | Some statement \<Rightarrow> collect_definitions mem unit variable statement catalog
     }"

definition build_catalog :: "(nat \<Rightarrow> bool) \<Rightarrow> statement list \<Rightarrow> expr \<Rightarrow> label_catalog option" where
  "build_catalog mem unit variable =
     for_each (collect_definitions mem unit variable) unit \<lparr>catalog_items = [], catalog_capacity = 0\<rparr>"

section \<open>The effect of a statement\<close>

fun expression_defines_symbol :: "expr option \<Rightarrow> expr \<Rightarrow> bool" where
  "expression_defines_symbol None variable = False"
| "expression_defines_symbol (Some (Expr head [])) variable = same_symbol (Some (Expr head [])) (Some variable)"
| "expression_defines_symbol (Some (Expr head (child # rest))) variable =
     (same_symbol (Some (Expr head (child # rest))) (Some variable) \<or> expression_defines_symbol child variable)"

fun io_item_defines_symbol :: "io_item \<Rightarrow> expr \<Rightarrow> bool" where
  "io_item_defines_symbol (Io_Item item items) variable \<longleftrightarrow>
     (\<not> implied_do item \<and> expression_defines_symbol (item_expression item) variable) \<or>
     (\<exists>child \<in> set items. io_item_defines_symbol child variable)"

definition statement_invalidates_variable :: "statement_fields \<Rightarrow> expr \<Rightarrow> bool" where
  "statement_invalidates_variable s variable \<longleftrightarrow>
     (statement_kind s = STMT_ASSIGNMENT \<and> expression_defines_symbol (statement_left s) variable) \<or>
     (statement_kind s = STMT_POINTER_ASSIGNMENT \<and> expression_defines_symbol (statement_left s) variable) \<or>
     (statement_kind s = STMT_DO \<and> expression_defines_symbol (statement_left s) variable) \<or>
     (statement_kind s = STMT_READ \<and> (\<exists>item \<in> set (io_items s). io_item_defines_symbol item variable)) \<or>
     (statement_kind s = STMT_CALL \<and>
        (\<exists>argument \<in> set (statement_arguments s). expression_defines_symbol (argument_value argument) variable)) \<or>
     (statement_kind s \<in> {STMT_ALLOCATE, STMT_DEALLOCATE, STMT_MOVE_ALLOC, STMT_NULLIFY} \<and>
        (\<exists>argument \<in> set (statement_arguments s).
           \<not> ((statement_kind s = STMT_ALLOCATE \<or> statement_kind s = STMT_DEALLOCATE) \<and>
              (case argument of None \<Rightarrow> False | Some e \<Rightarrow> expr_kind (expr_info e) = EXPR_KEYWORD_ARGUMENT) \<and>
              \<not> allocation_output argument) \<and>
           expression_defines_symbol (argument_value argument) variable)) \<or>
     (\<exists>control \<in> set (io_controls s). output_control (control_kind control) \<and>
        expression_defines_symbol (control_value control) variable)"

datatype effect_kind = EFFECT_NONE | EFFECT_DEFINE | EFFECT_INVALIDATE

record label_effect =
  effect_kind :: effect_kind
  effect_definition :: "nat option"
  effect_conditional :: bool

definition no_effect :: label_effect where
  "no_effect = \<lparr>effect_kind = EFFECT_NONE, effect_definition = None, effect_conditional = False\<rparr>"

fun statement_effect :: "statement \<Rightarrow> expr \<Rightarrow> label_catalog \<Rightarrow> label_effect" where
  "statement_effect (Statement s inner) variable catalog =
     (if statement_kind s = STMT_LABEL \<and> inner \<noteq> None then
        (case inner of None \<Rightarrow> no_effect | Some statement \<Rightarrow> statement_effect statement variable catalog)
      else if statement_kind s = STMT_ASSIGN_LABEL \<and> length (statement_labels s) = 1 \<and>
           same_symbol (statement_expression s) (Some variable) then
        no_effect\<lparr>effect_kind := EFFECT_DEFINE, effect_definition := catalog_find catalog (statement_labels s ! 0)\<rparr>
      else if statement_invalidates_variable s variable then no_effect\<lparr>effect_kind := EFFECT_INVALIDATE\<rparr>
      else case inner of
             None \<Rightarrow> no_effect
           | Some statement \<Rightarrow>
               let effect = statement_effect statement variable catalog
               in if effect_kind effect \<noteq> EFFECT_NONE \<and>
                     ((statement_kind s = STMT_IF \<and> \<not> is_block s) \<or> (statement_kind s = STMT_WHERE \<and> \<not> is_block s))
                  then effect\<lparr>effect_conditional := True\<rparr> else effect)"

section \<open>The flow of the labels\<close>

definition apply_effect :: "label_effect \<Rightarrow> nat \<Rightarrow> bit_state \<Rightarrow> bit_state" where
  "apply_effect effect words output =
     (if effect_kind effect = EFFECT_NONE then output
      else
        let output = (if effect_conditional effect then output
                      else output\<lparr>bits := replicate words 0,
                                  flags := (if effect_kind effect = EFFECT_INVALIDATE then 1 else 0)\<rparr>)
        in case effect_definition effect of
             Some d \<Rightarrow>
               if effect_kind effect = EFFECT_DEFINE
               then output\<lparr>bits := (bits output)[d div 64 := bits output ! (d div 64) OR push_bit (d mod 64) 1]\<rparr>
               else output\<lparr>flags := flags output OR 1\<rparr>
           | None \<Rightarrow> if effect_kind effect = EFFECT_INVALIDATE then output\<lparr>flags := flags output OR 1\<rparr> else output)"

definition output_has_definition :: "64 word list \<Rightarrow> nat \<Rightarrow> bool" where
  "output_has_definition output d \<longleftrightarrow> output \<noteq> [] \<and> output ! (d div 64) AND push_bit (d mod 64) 1 \<noteq> 0"

definition successor_is_feasible ::
  "statement list \<Rightarrow> flow_edge \<Rightarrow> statement option \<Rightarrow> label_catalog \<Rightarrow> 64 word list \<Rightarrow> bool" where
  "successor_is_feasible unit edge assigned_goto catalog output =
     (if assigned_goto = None \<or> edge_kind edge \<noteq> CFG_EDGE_BRANCH then True
      else if edge_target edge \<ge> length unit then False
      else case statement_name (info (unit ! edge_target edge)) of
             None \<Rightarrow> True
           | Some name \<Rightarrow>
               if kind_of (unit ! edge_target edge) \<noteq> STMT_LABEL then True
               else case catalog_find catalog name of None \<Rightarrow> False | Some d \<Rightarrow> output_has_definition output d)"

text \<open>The statement of a node, NULL for the other nodes.\<close>

definition node_statement :: "statement list \<Rightarrow> flow_graph \<Rightarrow> nat \<Rightarrow> statement option" where
  "node_statement unit graph node =
     (let flow_node = node_at graph node
      in if node_kind flow_node = CFG_NODE_STATEMENT \<and> statement_index flow_node < length unit
         then Some (unit ! statement_index flow_node) else None)"

definition label_words :: "label_catalog \<Rightarrow> nat" where
  "label_words catalog = (length (catalog_items catalog) + 63) mod (SIZE_MAX + 1) div 64"

definition assigned_label_transfer :: "statement list \<Rightarrow> flow_graph \<Rightarrow> expr \<Rightarrow> label_catalog \<Rightarrow> transfer" where
  "assigned_label_transfer unit graph variable catalog node input output =
     (let effect = (case node_statement unit graph node of
                      Some statement \<Rightarrow> statement_effect statement variable catalog
                    | None \<Rightarrow> no_effect)
      in Some (apply_effect effect (label_words catalog) output))"

definition assigned_label_edge_filter :: "statement list \<Rightarrow> flow_graph \<Rightarrow> expr \<Rightarrow> label_catalog \<Rightarrow> edge_filter" where
  "assigned_label_edge_filter unit graph variable catalog source edge output =
     successor_is_feasible unit edge
       (case node_statement unit graph source of
          Some statement \<Rightarrow> assigned_goto_for_variable statement variable
        | None \<Rightarrow> None)
       catalog (bits output)"

definition solve_states ::
  "(nat \<Rightarrow> bool) \<Rightarrow> statement list \<Rightarrow> flow_graph \<Rightarrow> expr \<Rightarrow> label_catalog \<Rightarrow> bit_state list option" where
  "solve_states mem unit graph variable catalog =
     bit_flow_solve mem graph (entry_node graph) (label_words catalog) None 1
       (Some (assigned_label_transfer unit graph variable catalog))
       (Some (assigned_label_edge_filter unit graph variable catalog))"

definition state_has_label :: "bit_state \<Rightarrow> nat \<Rightarrow> bool" where
  "state_has_label state d \<longleftrightarrow> initialized state \<and> bits state ! (d div 64) AND push_bit (d mod 64) 1 \<noteq> 0"

end
