(* ===== verification/Assigned_Labels.thy ===== *)
theory Assigned_Labels
  imports Label_Values
begin

text \<open>
  The uses of assigned statement labels, second part of \<open>semantic/validation/assigned_label.c\<close>: which
  labels an assigned \<open>GOTO\<close> or \<open>FORMAT\<close> can name, the check of other references to the variable, and
  the refinement of the control-flow graph until both agree.

  \<^item> The unit is the list of its statements; the functions that change statements return them.
  \<^item> A result is the new state with a flag, false where the code returns 0. Diagnostics are the list of
    their texts. \<open>mem n\<close> says whether an allocation of \<open>n\<close> bytes succeeds.
\<close>

section \<open>Loops that stop at a failure and keep the state\<close>

fun until_failure :: "('a \<Rightarrow> 's \<Rightarrow> 's \<times> bool) \<Rightarrow> 'a list \<Rightarrow> 's \<Rightarrow> 's \<times> bool" where
  "until_failure f [] s = (s, True)"
| "until_failure f (x # xs) s = (let (s, ok) = f x s in if ok then until_failure f xs s else (s, False))"

lemma until_failure_append:
  "until_failure f (xs @ ys) s = (let (s, ok) = until_failure f xs s in if ok then until_failure f ys s else (s, False))"
  by (induction xs arbitrary: s) (auto simp: Let_def split: prod.splits)

lemma until_failure_invariant:
  assumes "until_failure f xs s = (s', ok)" "P s" "\<And>x a b ok. x \<in> set xs \<Longrightarrow> P a \<Longrightarrow> f x a = (b, ok) \<Longrightarrow> P b"
  shows "P s'"
  using assms
proof (induction xs arbitrary: s)
  case (Cons x xs)
  obtain a k where a: "f x s = (a, k)" by (cases "f x s")
  have "P a" using Cons.prems(3) [OF _ Cons.prems(2) a] by simp
  then have "P s'" if "until_failure f xs a = (s', ok)" using that Cons.prems(3) by (intro Cons.IH) auto
  with \<open>P a\<close> Cons.prems(1) a show ?case by (auto split: if_splits)
qed simp

section \<open>The labels of an assigned GOTO\<close>

definition quoted :: "string \<Rightarrow> string" where
  "quoted name = [CHR 0x27] @ name @ [CHR 0x27]"

definition known :: "string option \<Rightarrow> string" where
  "known name = (case name of Some n \<Rightarrow> n | None \<Rightarrow> ''<unknown>'')"

text \<open>\<open>sizeof(F2cResolvedBranch)\<close> is 72 bytes.\<close>

definition append_resolved_branch :: "(nat \<Rightarrow> bool) \<Rightarrow> string \<Rightarrow> statement_fields \<Rightarrow> statement_fields \<times> bool" where
  "append_resolved_branch mem label s =
     (let branches = resolved_branches s; copy = label_canonical label
      in if \<exists>branch \<in> set branches. labels_equal branch label then (s, True)
         else if length branches = SIZE_MAX div 72 \<or> \<not> mem ((length branches + 1) * 72) \<or> \<not> mem (length copy + 1)
         then (s, False)
         else (s\<lparr>resolved_branches := branches @ [copy]\<rparr>, True))"

definition append_resolved_format :: "(nat \<Rightarrow> bool) \<Rightarrow> string \<Rightarrow> io_control \<Rightarrow> io_control \<times> bool" where
  "append_resolved_format mem label control =
     (let labels = resolved_formats control; copy = label_canonical label
      in if \<exists>other \<in> set labels. labels_equal other label then (control, True)
         else if length labels = SIZE_MAX div 8 \<or> \<not> mem (length copy + 1) \<or> \<not> mem ((length labels + 1) * 8)
         then (control, False)
         else (control\<lparr>resolved_formats := labels @ [copy]\<rparr>, True))"

definition allowed_label :: "statement_fields \<Rightarrow> string \<Rightarrow> bool" where
  "allowed_label s label \<longleftrightarrow>
     length (statement_labels s) = 0 \<or> (\<exists>other \<in> set (statement_labels s). labels_equal other label)"

text \<open>One entry of the catalog in \<open>resolve_goto\<close>.\<close>

definition resolve_goto_label ::
  "(nat \<Rightarrow> bool) \<Rightarrow> bit_state \<Rightarrow> bool \<Rightarrow> bool \<Rightarrow> label_catalog \<Rightarrow> nat \<Rightarrow>
   statement_fields \<times> string list \<times> bool \<Rightarrow> statement_fields \<times> string list \<times> bool" where
  "resolve_goto_label mem state reachable diagnose catalog d = (\<lambda>(s, context, success).
     let item = catalog_items catalog ! d; label = definition_label item;
         report = \<lambda>message. if diagnose then context @ [message] else context
     in if \<not> (reachable \<and> state_has_label state d) then (s, context, success)
        else if \<not> branch_target item then
          (s, report (''assigned GOTO variable '' @ quoted (known (statement_name s)) @
                      '' may hold nonexecutable FORMAT label '' @ label), success)
        else if \<not> allowed_label s label then
          (s, report (''assigned GOTO variable '' @ quoted (known (statement_name s)) @
                      '' may hold label '' @ label @ '' outside its allowed label list''), success)
        else (case append_resolved_branch mem label s of (s, ok) \<Rightarrow> (s, context, success \<and> ok)))"

definition goto_undefined :: "string option \<Rightarrow> string" where
  "goto_undefined name = ''assigned GOTO variable '' @ quoted (known name) @
     '' is not defined with a statement label on every reachable path''"

definition resolve_goto ::
  "(nat \<Rightarrow> bool) \<Rightarrow> string list \<Rightarrow> statement_fields \<Rightarrow> label_catalog \<Rightarrow> bit_state \<Rightarrow> bool \<Rightarrow> bool \<Rightarrow>
   statement_fields \<times> string list \<times> bool" where
  "resolve_goto mem context s catalog state reachable diagnose =
     (let s = s\<lparr>resolved_branches := [], assigned_labels_resolved := True\<rparr>;
          context = (if diagnose \<and> reachable \<and> flags state AND 1 \<noteq> 0
                     then context @ [goto_undefined (statement_name s)] else context)
      in fold (resolve_goto_label mem state reachable diagnose catalog) [0..<length (catalog_items catalog)]
           (s, context, True))"

section \<open>The labels of an assigned FORMAT\<close>

definition format_user :: "statement_fields \<Rightarrow> string" where
  "format_user s = (if statement_kind s = STMT_PRINT then ''PRINT'' else ''I/O'')"

definition value_text :: "io_control \<Rightarrow> string" where
  "value_text control = known (Option.bind (control_value control) (expr_text \<circ> expr_info))"

definition resolve_format_label ::
  "(nat \<Rightarrow> bool) \<Rightarrow> statement_fields \<Rightarrow> bit_state \<Rightarrow> bool \<Rightarrow> bool \<Rightarrow> label_catalog \<Rightarrow> nat \<Rightarrow>
   io_control \<times> string list \<times> bool \<Rightarrow> io_control \<times> string list \<times> bool" where
  "resolve_format_label mem s state reachable diagnose catalog d = (\<lambda>(control, context, success).
     let item = catalog_items catalog ! d; label = definition_label item
     in if \<not> (reachable \<and> state_has_label state d) then (control, context, success)
        else if \<not> format_target item then
          (control,
           if diagnose
           then context @ [format_user s @ '' assigned FORMAT variable '' @ quoted (value_text control) @
                           '' may hold executable label '' @ label]
           else context, success)
        else (case append_resolved_format mem label control of (control, ok) \<Rightarrow> (control, context, success \<and> ok)))"

definition resolve_format ::
  "(nat \<Rightarrow> bool) \<Rightarrow> string list \<Rightarrow> statement_fields \<Rightarrow> io_control \<Rightarrow> label_catalog \<Rightarrow> bit_state \<Rightarrow> bool \<Rightarrow> bool \<Rightarrow>
   io_control \<times> string list \<times> bool" where
  "resolve_format mem context s control catalog state reachable diagnose =
     (let control = control\<lparr>resolved_formats := [], formats_resolved := True\<rparr>;
          context = (if diagnose \<and> reachable \<and> flags state AND 1 \<noteq> 0
                     then context @ [format_user s @ '' assigned FORMAT variable '' @ quoted (value_text control) @
                       '' is not defined with a statement label on every reachable path'']
                     else context)
      in fold (resolve_format_label mem s state reachable diagnose catalog) [0..<length (catalog_items catalog)]
           (control, context, True))"

section \<open>Other references to the variable\<close>

fun expression_references_symbol :: "expr option \<Rightarrow> expr \<Rightarrow> bool" where
  "expression_references_symbol None variable = False"
| "expression_references_symbol (Some (Expr head items)) variable =
     (same_symbol (Some (Expr head items)) (Some variable) \<or>
      (\<exists>child \<in> set items. expression_references_symbol child variable))"

definition designator_indices_reference_symbol :: "expr option \<Rightarrow> expr \<Rightarrow> bool" where
  "designator_indices_reference_symbol designator variable =
     (case designator of
        None \<Rightarrow> False
      | Some e \<Rightarrow> if same_symbol designator (Some variable) then False
                  else \<exists>child \<in> set (children e). expression_references_symbol child variable)"

fun io_item_references_symbol :: "io_item \<Rightarrow> expr \<Rightarrow> bool \<Rightarrow> bool" where
  "io_item_references_symbol (Io_Item item items) variable input =
     (if implied_do item then
        expression_references_symbol (item_initial item) variable \<or>
        expression_references_symbol (item_limit item) variable \<or>
        expression_references_symbol (item_step item) variable \<or>
        (\<exists>child \<in> set items. io_item_references_symbol child variable input)
      else if input then designator_indices_reference_symbol (item_expression item) variable
      else expression_references_symbol (item_expression item) variable)"

definition argument_references ::
  "statement_kind \<Rightarrow> expr \<Rightarrow> expr option \<Rightarrow> bool" where
  "argument_references kind variable argument =
     (if kind = STMT_ALLOCATE \<or> kind = STMT_DEALLOCATE then
        (if (case argument of None \<Rightarrow> False | Some e \<Rightarrow> expr_kind (expr_info e) = EXPR_KEYWORD_ARGUMENT) \<and>
            \<not> allocation_output argument
         then expression_references_symbol (argument_value argument) variable
         else designator_indices_reference_symbol (argument_value argument) variable)
      else if kind = STMT_MOVE_ALLOC \<or> kind = STMT_NULLIFY then
        designator_indices_reference_symbol (argument_value argument) variable
      else expression_references_symbol argument variable)"

definition control_references :: "expr \<Rightarrow> io_control \<Rightarrow> bool" where
  "control_references variable control \<longleftrightarrow>
     \<not> output_control (control_kind control) \<and>
     \<not> (control_kind control = IO_CONTROL_FMT \<and> \<not> asterisk control \<and> same_symbol (control_value control) (Some variable)) \<and>
     expression_references_symbol (control_value control) variable"

definition operands_reference :: "statement_fields \<Rightarrow> expr \<Rightarrow> bool" where
  "operands_reference s variable \<longleftrightarrow>
     (if statement_kind s = STMT_ASSIGNMENT \<or> statement_kind s = STMT_POINTER_ASSIGNMENT then
        expression_references_symbol (statement_right s) variable \<or>
        designator_indices_reference_symbol (statement_left s) variable
      else if statement_kind s = STMT_DO then
        expression_references_symbol (statement_right s) variable \<or>
        expression_references_symbol (statement_limit s) variable \<or>
        expression_references_symbol (statement_step s) variable \<or>
        designator_indices_reference_symbol (statement_left s) variable
      else expression_references_symbol (statement_expression s) variable) \<or>
     (statement_kind s \<noteq> STMT_ASSIGNMENT \<and> statement_kind s \<noteq> STMT_POINTER_ASSIGNMENT \<and> statement_kind s \<noteq> STMT_DO \<and>
        (expression_references_symbol (statement_right s) variable \<or>
         expression_references_symbol (statement_limit s) variable \<or>
         expression_references_symbol (statement_step s) variable))"

fun statement_references_label_value :: "statement \<Rightarrow> expr \<Rightarrow> bool" where
  "statement_references_label_value (Statement s inner) variable =
     (if statement_kind s = STMT_LABEL \<and> inner \<noteq> None then
        (case inner of None \<Rightarrow> False | Some statement \<Rightarrow> statement_references_label_value statement variable)
      else if statement_kind s = STMT_ASSIGN_LABEL then False
      else if statement_kind s = STMT_ASSIGNED_GOTO \<and> same_symbol (statement_expression s) (Some variable) then False
      else
        operands_reference s variable \<or>
        (\<exists>argument \<in> set (statement_arguments s). argument_references (statement_kind s) variable argument) \<or>
        (\<exists>control \<in> set (io_controls s). control_references variable control) \<or>
        (\<exists>item \<in> set (io_items s). io_item_references_symbol item variable (statement_kind s = STMT_READ)) \<or>
        (\<exists>range \<in> set (case_ranges s). expression_references_symbol (case_lower range) variable \<or>
           expression_references_symbol (case_upper range) variable) \<or>
        (case inner of None \<Rightarrow> False | Some statement \<Rightarrow> statement_references_label_value statement variable))"

definition state_has_any_label :: "bit_state \<Rightarrow> nat \<Rightarrow> bool" where
  "state_has_any_label state words \<longleftrightarrow> initialized state \<and> (\<exists>word \<in> set [0..<words]. bits state ! word \<noteq> 0)"

section \<open>The variables\<close>

record label_variables =
  variable_items :: "expr list"
  variable_capacity :: nat

definition append_variable :: "(nat \<Rightarrow> bool) \<Rightarrow> expr option \<Rightarrow> label_variables \<Rightarrow> label_variables option" where
  "append_variable mem variable variables =
     (case variable of
        None \<Rightarrow> Some variables
      | Some e \<Rightarrow>
          let items = variable_items variables; capacity = variable_capacity variables;
              grown = (if capacity = 0 then 4 else capacity * 2 mod (SIZE_MAX + 1))
          in if \<exists>item \<in> set items. same_symbol (Some item) variable then Some variables
             else if length items = capacity then
               (if grown < capacity \<or> grown > SIZE_MAX div 8 then None
                else if \<not> mem (grown * 8) then None
                else Some \<lparr>variable_items = items @ [e], variable_capacity = grown\<rparr>)
             else Some (variables\<lparr>variable_items := items @ [e]\<rparr>))"

definition format_variable :: "io_control \<Rightarrow> bool" where
  "format_variable control \<longleftrightarrow> control_kind control = IO_CONTROL_FMT \<and> \<not> asterisk control \<and>
     (case control_value control of
        None \<Rightarrow> False
      | Some e \<Rightarrow> expr_type (expr_info e) = TYPE_INTEGER \<and> expr_kind (expr_info e) = EXPR_NAME)"

fun collect_variables :: "(nat \<Rightarrow> bool) \<Rightarrow> statement \<Rightarrow> label_variables \<Rightarrow> label_variables option" where
  "collect_variables mem (Statement s inner) variables =
     do {
       variables \<leftarrow> (if statement_kind s = STMT_ASSIGN_LABEL \<or> statement_kind s = STMT_ASSIGNED_GOTO
                     then append_variable mem (statement_expression s) variables else Some variables);
       variables \<leftarrow> for_each (\<lambda>control variables. if format_variable control
           then append_variable mem (control_value control) variables else Some variables) (io_controls s) variables;
       case inner of
         None \<Rightarrow> Some variables
       | Some statement \<Rightarrow> collect_variables mem statement variables
     }"

section \<open>The analysis of the variables\<close>

text \<open>One control of a statement, the state is the array of the controls and the diagnostics.\<close>

definition resolve_control ::
  "(nat \<Rightarrow> bool) \<Rightarrow> statement_fields \<Rightarrow> expr \<Rightarrow> label_catalog \<Rightarrow> bit_state \<Rightarrow> bool \<Rightarrow> bool \<Rightarrow> nat \<Rightarrow>
   io_control list \<times> string list \<Rightarrow> (io_control list \<times> string list) \<times> bool" where
  "resolve_control mem s variable catalog state reachable diagnose index = (\<lambda>(controls, context).
     let control = controls ! index
     in if control_kind control = IO_CONTROL_FMT \<and> \<not> asterisk control \<and> same_symbol (control_value control) (Some variable)
        then (case resolve_format mem context s control catalog state reachable diagnose of
                (control, context, ok) \<Rightarrow> ((controls[index := control], context), ok))
        else ((controls, context), True))"

fun resolve_statement_uses ::
  "(nat \<Rightarrow> bool) \<Rightarrow> expr \<Rightarrow> label_catalog \<Rightarrow> bit_state \<Rightarrow> bool \<Rightarrow> bool \<Rightarrow> statement \<Rightarrow> string list \<Rightarrow>
   (statement \<times> string list) \<times> bool" where
  "resolve_statement_uses mem variable catalog state reachable diagnose (Statement s inner) context =
     (let (s, context, ok) =
            (if statement_kind s = STMT_ASSIGNED_GOTO \<and> same_symbol (statement_expression s) (Some variable)
             then resolve_goto mem context s catalog state reachable diagnose else (s, context, True))
      in if \<not> ok then ((Statement s inner, context), False)
         else
           let ((controls, context), ok) =
                 until_failure (resolve_control mem s variable catalog state reachable diagnose)
                   [0..<length (io_controls s)] (io_controls s, context);
               s = s\<lparr>io_controls := controls\<rparr>
           in if \<not> ok then ((Statement s inner, context), False)
              else case inner of
                     None \<Rightarrow> ((Statement s inner, context), True)
                   | Some statement \<Rightarrow>
                       let ((statement, context), ok) =
                             resolve_statement_uses mem variable catalog state reachable diagnose statement context
                       in ((Statement s (Some statement), context), ok))"

definition reference_message :: "expr \<Rightarrow> string" where
  "reference_message variable = ''integer variable '' @ quoted (known (expr_text (expr_info variable))) @
     '' defined with a statement label may only be referenced by assigned GOTO or as an assigned FORMAT''"

definition analyze_statement ::
  "(nat \<Rightarrow> bool) \<Rightarrow> flow_graph \<Rightarrow> expr \<Rightarrow> label_catalog \<Rightarrow> bit_state list \<Rightarrow> bool \<Rightarrow> nat \<Rightarrow>
   statement list \<times> string list \<Rightarrow> (statement list \<times> string list) \<times> bool" where
  "analyze_statement mem graph variable catalog states diagnose index = (\<lambda>(unit, context).
     let reachable = (node_reachable (node_at graph index) \<and> initialized (states ! index));
         ((statement, context), ok) =
           resolve_statement_uses mem variable catalog (states ! index) reachable diagnose (unit ! index) context;
         unit = unit[index := statement]
     in if \<not> ok then ((unit, context), False)
        else if diagnose \<and> reachable \<and> state_has_any_label (states ! index) (label_words catalog) \<and>
                statement_references_label_value statement variable
        then ((unit, context @ [reference_message variable]), True)
        else ((unit, context), True))"

definition analyze_variable ::
  "(nat \<Rightarrow> bool) \<Rightarrow> flow_graph \<Rightarrow> bool \<Rightarrow> expr \<Rightarrow> statement list \<times> string list \<Rightarrow>
   (statement list \<times> string list) \<times> bool" where
  "analyze_variable mem graph diagnose variable = (\<lambda>(unit, context).
     case build_catalog mem unit variable of
       None \<Rightarrow> ((unit, context), False)
     | Some catalog \<Rightarrow>
         (case solve_states mem unit graph variable catalog of
            None \<Rightarrow> ((unit, context), False)
          | Some states \<Rightarrow>
              until_failure (analyze_statement mem graph variable catalog states diagnose) [0..<length unit] (unit, context)))"

definition analyze_variables ::
  "(nat \<Rightarrow> bool) \<Rightarrow> flow_graph \<Rightarrow> expr list \<Rightarrow> bool \<Rightarrow> statement list \<times> string list \<Rightarrow>
   (statement list \<times> string list) \<times> bool" where
  "analyze_variables mem graph variables diagnose = until_failure (analyze_variable mem graph diagnose) variables"

section \<open>The refinement of the graph\<close>

definition node_shape :: "flow_node \<Rightarrow> node_kind \<times> nat \<times> bool \<times> flow_edge list" where
  "node_shape node = (node_kind node, statement_index node, node_reachable node, successors node)"

definition control_flow_graphs_equal :: "flow_graph \<Rightarrow> flow_graph \<Rightarrow> bool" where
  "control_flow_graphs_equal left right \<longleftrightarrow>
     node_count left = node_count right \<and> statement_count left = statement_count right \<and>
     procedure_exit left = procedure_exit right \<and> image_termination left = image_termination right \<and>
     (\<forall>node \<in> set [0..<node_count left]. node_shape (node_at left node) = node_shape (node_at right node))"

definition refinement_limit :: "flow_graph \<Rightarrow> nat" where
  "refinement_limit graph =
     fold (\<lambda>node limit. if limit = SIZE_MAX \<or> length (successors node) > SIZE_MAX - limit then SIZE_MAX
                        else limit + length (successors node))
       (graph_nodes graph) 2"

definition memory_message :: string where
  "memory_message = ''out of memory while analyzing assigned statement-label values''"

text \<open>
  The loop of \<open>f2c_validation_assigned_labels\<close>: the flag says that the graph did not change in the last
  round, so that the final analysis follows.
\<close>

function refine_labels ::
  "(nat \<Rightarrow> bool) \<Rightarrow> expr list \<Rightarrow> nat \<Rightarrow> nat \<Rightarrow> statement list \<Rightarrow> flow_graph \<Rightarrow> string list \<Rightarrow>
   statement list \<times> flow_graph \<times> string list \<times> bool" where
  "refine_labels mem variables limit iteration unit graph context =
     (let ((unit, context), ok) = analyze_variables mem graph variables False (unit, context)
      in if \<not> ok then (unit, graph, context @ [memory_message], False)
         else case control_flow_build mem (Some context) (Some unit) of
                (refined, built, messages) \<Rightarrow>
                  let context = the messages
                  in if \<not> built then (unit, graph, context, False)
                     else if control_flow_graphs_equal graph refined then (unit, graph, context, True)
                     else if iteration + 1 > limit
                     then (unit, refined, context @
                             [''assigned statement-label control-flow refinement did not converge''], False)
                     else refine_labels mem variables limit (iteration + 1) unit refined context)"
  by pat_completeness auto
termination
  by (relation "measure (\<lambda>(mem, variables, limit, iteration, rest). limit - iteration)") auto

declare refine_labels.simps [simp del]

definition validation_assigned_labels ::
  "(nat \<Rightarrow> bool) \<Rightarrow> statement list \<Rightarrow> flow_graph \<Rightarrow> string list \<Rightarrow> statement list \<times> flow_graph \<times> string list" where
  "validation_assigned_labels mem unit graph context =
     (case for_each (collect_variables mem) unit \<lparr>variable_items = [], variable_capacity = 0\<rparr> of
        None \<Rightarrow> (unit, graph, context @ [memory_message])
      | Some variables \<Rightarrow>
          (case refine_labels mem (variable_items variables) (refinement_limit graph) 0 unit graph context of
             (unit, graph, context, converged) \<Rightarrow>
               if \<not> converged then (unit, graph, context)
               else case analyze_variables mem graph (variable_items variables) True (unit, context) of
                      ((unit, context), ok) \<Rightarrow>
                        (unit, graph, if ok then context else context @ [memory_message])))"

end
