(* ===== verification/Label_Runs.thy ===== *)
theory Label_Runs
  imports Assigned_Labels Flow_Correct "HOL-Library.Sublist"
begin

text \<open>
  The flow of assigned labels against the runs of a program unit: a run follows the edges of the
  control-flow graph and carries the value of the variable, and an assigned \<open>GOTO\<close> branches to the
  statement that the value names.
\<close>

section \<open>Runs\<close>







section \<open>The catalog\<close>

lemma labels_equal_sym: "labels_equal a b \<longleftrightarrow> labels_equal b a"
  by (auto simp: labels_equal_def)


lemma labels_equal_refl [simp]: "labels_equal a a"
  by (simp add: labels_equal_def)


lemma catalog_find_Some:
  "catalog_find catalog label = Some d \<Longrightarrow>
     d < length (catalog_items catalog) \<and> labels_equal (definition_label (catalog_items catalog ! d)) label"
  by (auto simp: catalog_find_def dest!: find_SomeD)


definition catalog_ok :: "label_catalog \<Rightarrow> bool" where
  "catalog_ok catalog \<longleftrightarrow> length (catalog_items catalog) \<le> catalog_capacity catalog \<and> catalog_capacity catalog \<le> SIZE_MAX div 16"

definition extends :: "label_catalog \<Rightarrow> label_catalog \<Rightarrow> bool" where
  "extends a b \<longleftrightarrow> (catalog_ok a \<longrightarrow> catalog_ok b) \<and> set (catalog_items a) \<subseteq> set (catalog_items b)"

lemma extends_refl [simp]: "extends a a"
  by (simp add: extends_def)






section \<open>The effect of a statement is the effect of its execution\<close>








lemma effect_definition_less:
  "effect_definition (statement_effect st variable catalog) = Some d \<Longrightarrow> d < length (catalog_items catalog)"
proof (induction st variable catalog rule: statement_effect.induct)
  case (1 s inner variable catalog)
  then show ?case
    using catalog_find_Some by (auto simp: no_effect_def Let_def split: if_splits option.splits)
qed

section \<open>What a state says of the value\<close>






section \<open>Runs stay within the solution\<close>








section \<open>What the resolution records\<close>









section \<open>A round over a unit\<close>






section \<open>Assigned GOTOs only meet labels they have resolved\<close>












end
