(* ===== verification/Label_Refinement.thy ===== *)
theory Label_Refinement
  imports Label_Runs
begin

text \<open>
  The loop of \<open>f2c_validation_assigned_labels\<close>: the silent rounds, the fixpoint of the control-flow graph
  and the number of rounds.
\<close>

section \<open>What a round reports\<close>

definition reports :: "bool \<Rightarrow> string list \<Rightarrow> string list \<Rightarrow> bool" where
  "reports diagnose c c' \<longleftrightarrow> prefix c c' \<and> (\<not> diagnose \<longrightarrow> c' = c)"

lemma reports_refl [simp]: "reports diagnose c c"
  by (simp add: reports_def)


lemma reports_message [simp]: "reports diagnose c (if diagnose \<and> P then c @ [message] else c)" "diagnose \<Longrightarrow> reports diagnose c (c @ [message])"
  by (simp_all add: reports_def)









section \<open>The fixpoint\<close>



section \<open>Clean validations\<close>






end
