(* ===== verification/Spec2Isabelle.thy ===== *)
theory Spec2Isabelle
  imports Numeric_Core Constant_Bits Cond_Text Preprocess_Map Source_Pushed Flow_Structure Variable_Flow Temporary_Flow Label_Refinement Token_Operator
begin

text \<open>
  A verification development for the F2C translator, which turns Fortran source into C17. It models
  the front of the pipeline (preprocessing, source maps, tokens), the constant kernels, and the flow
  analyses over the intermediate representation, all under \<open>src/src\<close> of the repository.

  \<^bold>\<open>The program.\<close> \<open>f2c_preprocess_source\<close> reads a source line by line, carries out the directives,
  expands macros and includes, and yields a text with a map from its characters to where they come
  from. \<open>f2c_normalize_source\<close> strips, joins and splits the physical lines of that text into statement
  lines, which are scanned into tokens; parsers turn them into statements. On the statements of a
  program unit \<open>f2c_control_flow_build\<close> builds a graph; liveness of variables, the lifetime of owned
  temporaries and the values of assigned labels are solved over it. Numeric kernels are shared by the
  constant evaluator and the generated code.

  \<^bold>\<open>Conventions\<close> (\<open>F2C_Prelude\<close>). \<open>int64_t\<close> is an integer with \<open>in_i64\<close>, \<open>uint64_t\<close> a 64-bit word,
  \<open>size_t\<close> a natural number with the wrap-around of \<open>size_add\<close>, \<open>size_mul\<close> and \<open>size_sub\<close> where the code
  can overflow. A pointer into a text is the suffix that begins there. Arrays are lists up to their
  counts; capacities are kept. Allocation asks an oracle \<open>memory n\<close>, so that every out-of-memory
  branch is in the model. A failing function yields \<^const>\<open>None\<close>, \<^const>\<open>Inl\<close> with the state it leaves,
  or a pair with \<^const>\<open>False\<close>; diagnostics are lists of reports.

  \<^bold>\<open>Theories and sources.\<close>
  \<^item> \<open>frontend/preprocessor/\<close>: \<open>Preprocessor_State\<close> (the state), \<open>Macro_Table\<close> and \<open>Macro_Define\<close>
    (\<open>definition.c\<close>), \<open>Macro_Replacement\<close> (the buffers of \<open>core/support.c\<close> and the replacement lists of
    \<open>expansion.c\<close>), \<open>Source_Expansion\<close> (source lines, the rest of \<open>expansion.c\<close>), \<open>Directives\<close> and
    \<open>Preprocess_Buffer\<close> (\<open>preprocessor.c\<close>, \<open>include.c\<close>, the source names of \<open>core/config.c\<close>).
  \<^item> \<open>frontend/preprocessor/condition/\<close>: \<open>Cond_Operation\<close>, \<open>Cond_Literal\<close>, \<open>Cond_Machine\<close> (\<open>operation.c\<close>,
    \<open>literal.c\<close>, \<open>parse.c\<close>) and \<open>Cond_Expansion\<close> (\<open>expansion.c\<close>).
  \<^item> \<open>frontend/\<close>: \<open>Source_Lines\<close> (\<open>source.c\<close>), \<open>Token_Lexer\<close> (\<open>lexer.c\<close>), \<open>Source_Map\<close>
    (\<open>source_map.c\<close>), \<open>Line_Tokens\<close> and \<open>Token_Ranges\<close> (\<open>token_cursor.c\<close> and the tokenization of lines), \<open>Token_Operator\<close> (\<open>operator.c\<close>).
  \<^item> \<open>core/numeric/\<close> and \<open>semantic/constant/\<close>: \<open>Numeric_Core\<close> (loops, powers, shifts, implied DO, the
    emitted loop header) and \<open>Constant_Bits\<close> (\<open>bit.c\<close>).
  \<^item> \<open>semantic/control_flow.c\<close>: \<open>Flow_Model\<close> (the representation the analyses read), \<open>Flow_Graph\<close>,
    \<open>Flow_Edges\<close>, \<open>Flow_Reach\<close>, \<open>Flow_Blocks\<close>, \<open>Control_Flow\<close>.
  \<^item> \<open>semantic/data_flow/\<close>: \<open>Work_Queue\<close> and \<open>Bit_Flow\<close> (\<open>bitset.c\<close>), \<open>Variable_Marks\<close> and
    \<open>Variable_Flow\<close> (\<open>variables.c\<close>), \<open>Temporary_Flow\<close> (\<open>temporaries.c\<close>).
  \<^item> \<open>semantic/validation/assigned_label.c\<close>: \<open>Label_Values\<close>, \<open>Assigned_Labels\<close>, \<open>Label_Refinement\<close>.

  \<^bold>\<open>What is shown.\<close>
  \<^item> Preprocessing. \<open>Macro_Table\<close> and \<open>Macro_Define\<close>: the table refines a finite map and \<open>#define\<close> reads
    back what is written. \<open>Cond_Semantics\<close>, \<open>Cond_Correct\<close>, \<open>Cond_Text\<close>: the evaluator computes the C
    meaning of a condition from its text, with a bounded stack. \<open>Cond_Groups\<close>: the stack of conditional
    groups selects what the nested structure of the text gives. \<open>Preprocess_Map\<close>: the source map covers
    the output exactly, through macros and includes.
  \<^item> Lines. \<open>Source_Trace\<close> and \<open>Source_Pushed\<close>: every statement line is drawn from the preprocessed text
    from left to right, and its map gives each character the origin it has there.
  \<^item> Tokens. \<open>Lexer_Grammar\<close> and \<open>Line_Tokens\<close>: the tokens of a line account for every character and are
    spelled as the grammar says; \<open>Lexer_Complete\<close>: what the grammar writes is read back.
    \<open>Token_Ranges\<close>: balanced ranges and top-level splits; \<open>Source_Map\<close>: slices keep origins.
  \<^item> Kernels. The trip count, the visited values and the storage width of DO loops, integer powers,
    array shifts and bit intrinsics equal their Fortran definitions over the integers.
  \<^item> Flow. \<open>Flow_Correct\<close> and \<open>Flow_Structure\<close>: shape, reachability, successors, loops and blocks of
    the graph. \<open>Bit_Solver\<close>: the worklist ends with the least solution. Liveness equals liveness by
    paths, temporaries are accepted exactly when none crosses a node, and \<open>Label_Runs\<close> shows that a run
    through an assigned \<open>GOTO\<close> follows the refined graph.

  \<^bold>\<open>Interfaces.\<close> \<open>macro_map\<close> (a finite map with installation and removal), \<open>edge_store\<close> (edges of a
  graph), \<open>node_queue\<close> (a queue of distinct nodes), \<open>includer\<close> (an included file leaves the groups of
  its includer alone) and its extension \<open>mapping_includer\<close> (it keeps the map exact) are locales, each
  interpreted on the code's own operations.

  \<^bold>\<open>Termination and bounds.\<close> No fuel is chosen. Scanners and the loops over texts shrink the text;
  the condition machine shrinks the input or the stack; macro expansion is bounded by the depth limit
  of the context, then by the text. The recursion over included files counts down from the limit of
  the include depth, which \<open>include_level_enough\<close> shows to be enough. The worklists end by the number
  of bits that are still clear, the refinement of labels by the limit that the code computes.

  \<^bold>\<open>Not modelled.\<close>
  \<^item> The include resolver is a parameter, a function of its request. Its release callback and \<open>free\<close>
    have no effect on results and are left out.
  \<^item> The branch of \<open>expand_text\<close> for an invocation in progress is dead, since every call passes NULL.
  \<^item> The parsers (\<open>ast/\<close>), declarations and modules (\<open>frontend/\<close>), type and storage checks (\<open>semantic/\<close>)
    work on a large mutable symbol table and are not reached; the analyses read their result. That the
    maps of the preprocessor never wrap a column is a hypothesis of \<open>pushed_lines_traced\<close>.
  \<^item> The floating-point kernels, and C code generation (\<open>codegen/\<close>) but for the loop header.
  \<^item> Command line, runtime text tables, the vendored netlib program and the tests.
\<close>

end
